(* ===== verification/Prelude.thy ===== *)
theory Prelude
  imports Main "HOL-Library.Word"
begin

unbundle bit_operations_syntax

text \<open>
  Shared vocabulary of the development: the machine integer types of
  \<^verbatim>\<open>autogentoo/hacksaw/global.h\<close>, C failures as values, the collections of
  hints the component theories extend, and generic facts on lists, sums and words
  that several components use.
\<close>

section \<open>Machine integers\<close>

type_synonym u8 = "8 word"
type_synonym u16 = "16 word"
type_synonym u32 = "32 word"
type_synonym u64 = "64 word"

section \<open>Failures of C code as values\<close>

text \<open>
  Where the C code has undefined behaviour or aborts, the model returns the left
  side of a sum; every other outcome is on the right.
\<close>

datatype c_error =
    Null_Deref
  | Out_Of_Bounds
  | Signed_Overflow
  | Overlapping_Copy
  | Use_After_Free
  | Division_By_Zero
  | Assertion_Failure
  | Uninitialised
  | Wild_Pointer
  | Diverges

type_synonym 'a result = "c_error + 'a"

definition bindR :: "'a result \<Rightarrow> ('a \<Rightarrow> 'b result) \<Rightarrow> 'b result" where
  "bindR m f = (case m of Inl e \<Rightarrow> Inl e | Inr x \<Rightarrow> f x)"

text \<open>
  Collections: equations that evaluate an operation on one of its branches, and
  facts that an operation keeps an invariant.
\<close>

named_theorems branch_simps "equations of an operation on one of its branches"
named_theorems keeps "an operation keeps an invariant"

lemma bindR_simps [simp]:
  "bindR (Inl e) f = Inl e"
  "bindR (Inr x) f = f x"
  by (simp_all add: bindR_def)

lemma bindR_eq_Inr [simp]:
  "bindR m f = Inr y \<longleftrightarrow> (\<exists>x. m = Inr x \<and> f x = Inr y)"
  by (cases m) simp_all

lemma bindR_cong [fundef_cong]:
  "m = m' \<Longrightarrow> (\<And>x. m' = Inr x \<Longrightarrow> f x = f' x) \<Longrightarrow> bindR m f = bindR m' f'"
  by (cases m') simp_all

lemma bindR_assoc: "bindR (bindR m f) g = bindR m (\<lambda>x. bindR (f x) g)"
  by (cases m) simp_all

lemma bindR_ret [simp]: "bindR m Inr = m"
  by (cases m) simp_all

text \<open>A loop over a list that stops at the first failure.\<close>

lemma fold_bindR_Inl [simp]: "fold (\<lambda>x r. bindR r (f x)) xs (Inl e) = Inl e"
  by (induction xs) simp_all

lemma fold_collect [simp]: "fold (\<lambda>x r. bindR r (\<lambda>ys. Inr (ys @ [x]))) xs (Inr ys) = Inr (ys @ xs)"
  by (induction xs arbitrary: ys) simp_all

section \<open>Memory layout of integers\<close>

text \<open>The first \<open>n\<close> bytes of an integer in memory, little-endian as on the target.\<close>

definition le_bytes :: "nat \<Rightarrow> u64 \<Rightarrow> u8 list" where
  "le_bytes n w = map (\<lambda>i. ucast (drop_bit (8 * i) w)) [0..<n]"

section \<open>Generic facts\<close>

lemma unat_bound: "unat w < 2 ^ LENGTH('a)" for w :: "'a::len word"
  by (rule unsigned_less)

lemma unat_ucast_u64 [simp]: "unat (ucast w :: u64) = unat w" for w :: u32
proof -
  have "unat w < 2 ^ 64" using unat_bound [of w] by simp
  then show ?thesis by (simp add: unsigned_ucast_eq take_bit_nat_eq_self)
qed

lemma find_filter_eq:
  assumes "\<And>x. P x \<Longrightarrow> Q x"
  shows "find P (filter Q xs) = find P xs"
  using assms by (induction xs) auto

lemma find_filter_cong: "filter P xs = filter P ys \<Longrightarrow> find P xs = find P ys"
  by (metis (no_types) find_filter_eq [of P P])

lemma find_append:
  "find P (xs @ ys) = (case find P xs of None \<Rightarrow> find P ys | Some x \<Rightarrow> Some x)"
  by (induction xs) auto

lemma find_SomeD: "find P xs = Some x \<Longrightarrow> P x \<and> x \<in> set xs"
  by (auto simp: find_Some_iff)

lemma filter_concat_single:
  assumes "i < length xss"
    and "\<And>j x. j < length xss \<Longrightarrow> x \<in> set (xss ! j) \<Longrightarrow> P x \<Longrightarrow> j = i"
  shows "filter P (concat xss) = filter P (xss ! i)"
  using assms
proof (induction xss arbitrary: i)
  case Nil
  then show ?case by simp
next
  case (Cons xs xss)
  show ?case
  proof (cases i)
    case 0
    have "filter P (concat xss) = []"
      using Cons.prems(2) 0
      by (auto simp: filter_empty_conv in_set_conv_nth) (metis Suc_less_eq nat.distinct(1) nth_Cons_Suc nth_mem)
    with 0 show ?thesis by simp
  next
    case (Suc k)
    have nil: "filter P xs = []"
      using Cons.prems(2)[of 0] Suc by (auto simp: filter_empty_conv)
    have "filter P (concat xss) = filter P (xss ! k)"
    proof (rule Cons.IH)
      show "k < length xss" using Cons.prems(1) Suc by simp
    next
      fix j x
      assume "j < length xss" "x \<in> set (xss ! j)" "P x"
      then show "j = k" using Cons.prems(2)[of "Suc j" x] Suc by simp
    qed
    with nil Suc show ?thesis by simp
  qed
qed

end
