(* ===== verification/Murmur.thy ===== *)
theory Murmur
  imports Prelude
begin

text \<open>
  The 32-bit Murmur3 hash of \<^verbatim>\<open>map_get_hash\<close> in \<^verbatim>\<open>autogentoo/hacksaw/map.c\<close>, on
  which both hash tables (\<^verbatim>\<open>map.c\<close>, \<^verbatim>\<open>lut.c\<close>) and \<^verbatim>\<open>PyAtom_hash\<close> rest.
  The block loop, the fall-through switch over the tail and the finalizer are separate
  definitions; the lemmas show that each stage is a bijection of the 32-bit words, so
  that two inputs of the same length that differ in a single block never collide.
\<close>

section \<open>The hash\<close>

definition c1 :: u32 where "c1 = 0xcc9e2d51"
definition c2 :: u32 where "c2 = 0x1b873593"

definition rotl32 :: "nat \<Rightarrow> u32 \<Rightarrow> u32" where
  "rotl32 r k = push_bit r k OR drop_bit (32 - r) k"

definition mix_k :: "u32 \<Rightarrow> u32" where
  "mix_k k = rotl32 15 (k * c1) * c2"

definition mix_block :: "u32 \<Rightarrow> u32 \<Rightarrow> u32" where
  "mix_block h k = rotl32 13 (h XOR mix_k k) * 5 + 0xe6546b64"

text \<open>A block is four bytes read through a \<^verbatim>\<open>U32\<close> pointer on a little-endian machine.\<close>

definition le_block :: "u8 \<Rightarrow> u8 \<Rightarrow> u8 \<Rightarrow> u8 \<Rightarrow> u32" where
  "le_block a b c d =
     ucast a OR push_bit 8 (ucast b) OR push_bit 16 (ucast c) OR push_bit 24 (ucast d)"

text \<open>The loop over the blocks; it stops at the tail of fewer than four bytes.\<close>

fun mix_blocks :: "u32 \<Rightarrow> u8 list \<Rightarrow> u32" where
  "mix_blocks h (a # b # c # d # bs) = mix_blocks (mix_block h (le_block a b c d)) bs"
| "mix_blocks h bs = h"

fun tail_of :: "u8 list \<Rightarrow> u8 list" where
  "tail_of (a # b # c # d # bs) = tail_of bs"
| "tail_of bs = bs"

text \<open>The switch: case 3 falls through to case 2, case 2 to case 1.\<close>

fun mix_tail :: "u32 \<Rightarrow> u8 list \<Rightarrow> u32" where
  "mix_tail h [a] = h XOR mix_k (ucast a)"
| "mix_tail h [a, b] = h XOR mix_k (push_bit 8 (ucast b) XOR ucast a)"
| "mix_tail h [a, b, c] = h XOR mix_k (push_bit 16 (ucast c) XOR push_bit 8 (ucast b) XOR ucast a)"
| "mix_tail h bs = h"

definition fmix :: "u32 \<Rightarrow> u32" where
  "fmix h0 =
     (let h1 = h0 XOR drop_bit 16 h0;
          h2 = h1 * 0x85ebca6b;
          h3 = h2 XOR drop_bit 13 h2;
          h4 = h3 * 0xc2b2ae35
      in h4 XOR drop_bit 16 h4)"

text \<open>
  \<^verbatim>\<open>map_get_hash(data, nbytes)\<close>: \<open>None\<close> is a null pointer, \<open>Some bs\<close> the bytes the
  pointer refers to, of which the first \<open>nbytes\<close> are read.
\<close>

definition map_get_hash :: "u8 list option \<Rightarrow> u32 \<Rightarrow> u32" where
  "map_get_hash data nbytes =
     (case data of
        None \<Rightarrow> 0
      | Some buf \<Rightarrow>
          if nbytes = 0 then 0
          else (let bs = take (unat nbytes) buf;
                    h = mix_tail (mix_blocks 0 bs) (tail_of bs)
                in fmix (h XOR nbytes)))"

text \<open>The bytes of a C string, and the call \<^verbatim>\<open>map_get_hash(s, strlen(s))\<close>.\<close>

definition c_bytes :: "string \<Rightarrow> u8 list" where
  "c_bytes s = map (\<lambda>c. word_of_nat (of_char c)) s"

definition str_hash :: "string \<Rightarrow> u32" where
  "str_hash s = map_get_hash (Some (c_bytes s)) (word_of_nat (length s))"

section \<open>Every stage is injective\<close>

lemma rotl32_inverse:
  assumes "0 < r" "r < 32"
  shows "rotl32 (32 - r) (rotl32 r k) = k"
proof (rule bit_word_eqI)
  fix n assume "n < LENGTH(32)"
  then show "bit (rotl32 (32 - r) (rotl32 r k)) n = bit k n"
    using assms by (auto simp: rotl32_def bit_simps)
qed

lemma inj_rotl32: "0 < r \<Longrightarrow> r < 32 \<Longrightarrow> inj (rotl32 r)"
  by (rule inj_on_inverseI [where g = "rotl32 (32 - r)"]) (simp add: rotl32_inverse)

lemma mult_inverse_inj:
  fixes c d :: "'a::len word"
  assumes "c * d = 1"
  shows "inj (\<lambda>x. x * c)"
  by (rule inj_on_inverseI [where g = "\<lambda>x. x * d"]) (simp add: assms mult.assoc)

lemma inj_mult_c1: "inj (\<lambda>x. x * c1)"
  by (rule mult_inverse_inj [where d = "0xdee13bb1"]) (simp add: c1_def)

lemma inj_mult_c2: "inj (\<lambda>x. x * c2)"
  by (rule mult_inverse_inj [where d = "0x56ed309b"]) (simp add: c2_def)

lemma inj_mix_k: "inj mix_k"
proof -
  have "mix_k = (\<lambda>x. x * c2) \<circ> (rotl32 15 \<circ> (\<lambda>x. x * c1))"
    by (simp add: fun_eq_iff mix_k_def)
  moreover have "inj ((\<lambda>x. x * c2) \<circ> (rotl32 15 \<circ> (\<lambda>x. x * c1)))"
    by (intro inj_compose inj_mult_c1 inj_mult_c2 inj_rotl32) simp_all
  ultimately show ?thesis by metis
qed

lemma xor_left_cancel: "(h XOR a = h XOR b) = (a = b)" for h a b :: "'a::len word"
  by (metis xor.assoc xor.left_neutral xor_self_eq)

lemma xor_right_cancel: "(a XOR h = b XOR h) = (a = b)" for h a b :: "'a::len word"
  by (metis xor_left_cancel xor.commute)

lemma mult_5_cancel: "(x * 5 = y * 5) = (x = y)" for x y :: u32
  using mult_inverse_inj [of "5 :: u32" "0xcccccccd"] by (auto dest: injD)

lemma mix_block_key_cancel: "(mix_block h k = mix_block h k') = (k = k')"
  using inj_rotl32 [of 13] inj_mix_k
  by (auto simp: mix_block_def mult_5_cancel xor_left_cancel inj_eq)

lemma mix_block_state_cancel: "(mix_block h k = mix_block h' k) = (h = h')"
  using inj_rotl32 [of 13]
  by (auto simp: mix_block_def mult_5_cancel xor_right_cancel inj_eq)

lemma xorshift_16_inverse: "(h XOR drop_bit 16 h) XOR drop_bit 16 (h XOR drop_bit 16 h) = h"
  for h :: u32
  by (rule bit_word_eqI) (auto simp: bit_simps)

lemma xorshift_13_inverse:
  fixes h :: u32
  defines "y \<equiv> h XOR drop_bit 13 h"
  shows "y XOR drop_bit 13 y XOR drop_bit 26 y = h"
  unfolding y_def by (rule bit_word_eqI) (auto simp: bit_simps)

lemma inj_xorshift_16: "inj (\<lambda>h :: u32. h XOR drop_bit 16 h)"
  by (rule inj_on_inverseI [where g = "\<lambda>h. h XOR drop_bit 16 h"]) (rule xorshift_16_inverse)

lemma inj_xorshift_13: "inj (\<lambda>h :: u32. h XOR drop_bit 13 h)"
  by (rule inj_on_inverseI [where g = "\<lambda>y. y XOR drop_bit 13 y XOR drop_bit 26 y"])
    (rule xorshift_13_inverse)

lemma inj_fmix: "inj fmix"
proof -
  have "inj (\<lambda>x :: u32. x * 0x85ebca6b)" "inj (\<lambda>x :: u32. x * 0xc2b2ae35)"
    by (rule mult_inverse_inj [where d = "0xa5cb9243"], simp)
      (rule mult_inverse_inj [where d = "0x7ed1b41d"], simp)
  then have "inj ((\<lambda>h :: u32. h XOR drop_bit 16 h) \<circ> ((\<lambda>x. x * 0xc2b2ae35) \<circ>
      ((\<lambda>h. h XOR drop_bit 13 h) \<circ> ((\<lambda>x. x * 0x85ebca6b) \<circ> (\<lambda>h. h XOR drop_bit 16 h)))))"
    by (intro inj_compose inj_xorshift_16 inj_xorshift_13)
  moreover have "fmix = (\<lambda>h. h XOR drop_bit 16 h) \<circ> ((\<lambda>x. x * 0xc2b2ae35) \<circ>
      ((\<lambda>h. h XOR drop_bit 13 h) \<circ> ((\<lambda>x. x * 0x85ebca6b) \<circ> (\<lambda>h. h XOR drop_bit 16 h))))"
    by (simp add: fun_eq_iff fmix_def Let_def)
  ultimately show ?thesis by metis
qed

lemma le_block_inj:
  assumes "le_block a b c d = le_block a' b' c' d'"
  shows "a = a' \<and> b = b' \<and> c = c' \<and> d = d'"
proof -
  have byte: "bit (le_block a b c d) (8 * j + i) = bit ([a, b, c, d] ! j) i"
    if "i < 8" "j < 4" for i j and a b c d :: u8
  proof -
    have "j = 0 \<or> j = 1 \<or> j = 2 \<or> j = 3" using that by linarith
    then show ?thesis using that
      by (auto simp: le_block_def bit_simps dest: bit_imp_le_length)
  qed
  have "[a, b, c, d] ! j = [a', b', c', d'] ! j" if "j < 4" for j
  proof (rule bit_word_eqI)
    fix i assume "i < LENGTH(8)"
    then show "bit ([a, b, c, d] ! j) i = bit ([a', b', c', d'] ! j) i"
      using byte [of i j a b c d] byte [of i j a' b' c' d'] that assms by simp
  qed
  from this [of 0] this [of 1] this [of 2] this [of 3] show ?thesis by simp
qed

section \<open>No collisions within one block\<close>

lemma le_block_cancel:
  "(le_block a b c d = le_block a' b' c' d') = (a = a' \<and> b = b' \<and> c = c' \<and> d = d')"
  using le_block_inj by metis

lemma mod_4_step [simp]: "Suc (Suc (Suc (Suc n))) mod 4 = n mod 4"
  by presburger

lemma mix_blocks_append:
  "length p mod 4 = 0 \<Longrightarrow> mix_blocks h (p @ s) = mix_blocks (mix_blocks h p) s"
  by (induction h p rule: mix_blocks.induct) simp_all

lemma tail_of_append: "length p mod 4 = 0 \<Longrightarrow> tail_of (p @ s) = tail_of s"
  by (induction p rule: tail_of.induct) simp_all

lemma length_tail_of: "length (tail_of bs) = length bs mod 4"
  by (induction bs rule: tail_of.induct) simp_all

lemma short_tail: "length bs < 4 \<Longrightarrow> tail_of bs = bs \<and> mix_blocks h bs = h"
  by (cases bs rule: tail_of.cases) auto

lemma mix_blocks_state_cancel: "(mix_blocks h bs = mix_blocks h' bs) = (h = h')"
  by (induction h bs arbitrary: h' rule: mix_blocks.induct) (auto simp: mix_block_state_cancel)

lemma mix_tail_state_cancel: "(mix_tail h t = mix_tail h' t) = (h = h')"
  by (cases "(h, t)" rule: mix_tail.cases) (auto simp: xor_right_cancel)

lemma tail_word_cancel:
  fixes a b c a' b' c' :: u8
  shows "((push_bit 16 (ucast c) XOR push_bit 8 (ucast b) XOR ucast a :: u32) =
     push_bit 16 (ucast c') XOR push_bit 8 (ucast b') XOR ucast a') = (a = a' \<and> b = b' \<and> c = c')"
    (is "(?l = ?r) = _")
proof -
  have "?l = le_block a b c 0" "?r = le_block a' b' c' 0"
    by (rule bit_word_eqI; auto simp: le_block_def bit_simps dest: bit_imp_le_length)+
  then show ?thesis by (simp only: le_block_cancel) simp
qed

lemma mix_tail_key_cancel:
  assumes "length t = length t'" "length t < 4"
  shows "(mix_tail h t = mix_tail h t') = (t = t')"
proof -
  have 0: "length xs = 0 \<or> length xs = 1 \<or> length xs = 2 \<or> length xs = 3"
    if "length xs < 4" for xs :: "u8 list" using that by linarith
  have two: "(push_bit 8 (ucast b) XOR ucast a :: u32) = push_bit 8 (ucast b') XOR ucast a'
      \<longleftrightarrow> a = a' \<and> b = b'" for a b a' b' :: u8
    using tail_word_cancel [of 0 b a 0 b' a'] by simp
  have one: "(ucast a :: u32) = ucast a' \<longleftrightarrow> a = a'" for a a' :: u8
    using two [of 0 a 0 a'] by simp
  from 0 [OF assms(2)] assms(1) inj_mix_k show ?thesis
    by (auto simp: length_Suc_conv numeral_2_eq_2 numeral_3_eq_3 xor_left_cancel inj_eq
        tail_word_cancel two one)
qed

definition digest :: "u8 list \<Rightarrow> u32" where
  "digest bs = mix_tail (mix_blocks 0 bs) (tail_of bs)"

lemma map_get_hash_digest:
  assumes "length bs = n" "0 < n" "n < 2 ^ 32"
  shows "map_get_hash (Some bs) (word_of_nat n) = fmix (digest bs XOR word_of_nat n)"
proof -
  have n: "unat (word_of_nat n :: u32) = n"
    using assms(3) by (simp add: unat_of_nat)
  then have "(word_of_nat n :: u32) \<noteq> 0" using assms(2) by (metis less_numeral_extra(3) unat_0)
  then show ?thesis using assms(1) n by (simp add: map_get_hash_def digest_def)
qed

lemma digest_block_cancel:
  assumes "length p mod 4 = 0" "length x = 4" "length y = 4"
  shows "(digest (p @ x @ s) = digest (p @ y @ s)) = (x = y)"
proof -
  obtain a b c d where x: "x = [a, b, c, d]"
    using assms(2) by (auto simp: length_Suc_conv numeral_eq_Suc)
  obtain a' b' c' d' where y: "y = [a', b', c', d']"
    using assms(3) by (auto simp: length_Suc_conv numeral_eq_Suc)
  show ?thesis
    using assms(1) by (simp add: digest_def x y mix_blocks_append tail_of_append
        mix_tail_state_cancel mix_blocks_state_cancel mix_block_key_cancel le_block_cancel)
qed

lemma digest_tail_cancel:
  assumes "length p mod 4 = 0" "length x = length y" "length x < 4"
  shows "(digest (p @ x) = digest (p @ y)) = (x = y)"
  using assms
  by (simp add: digest_def mix_blocks_append tail_of_append short_tail mix_tail_key_cancel)

text \<open>
  The general form: \<open>x\<close> and \<open>y\<close> are the contents of one block (or of the tail) at the
  same place of two buffers that agree everywhere else.
\<close>

lemma map_get_hash_one_block:
  assumes "length p mod 4 = 0" "length x = length y" "length x = 4 \<or> length x < 4 \<and> s = []"
    and "length (p @ x @ s) < 2 ^ 32" "x \<noteq> y"
  shows "map_get_hash (Some (p @ x @ s)) (word_of_nat (length (p @ x @ s))) \<noteq>
    map_get_hash (Some (p @ y @ s)) (word_of_nat (length (p @ y @ s)))"
proof -
  let ?n = "length (p @ x @ s)"
  have pos: "0 < ?n" using assms(2,5) by auto
  have len: "length (p @ y @ s) = ?n" using assms(2) by simp
  have "digest (p @ x @ s) \<noteq> digest (p @ y @ s)"
    using assms digest_block_cancel [of p x y s] digest_tail_cancel [of p x y] by auto
  then show ?thesis
    unfolding len map_get_hash_digest [OF refl pos assms(4)] map_get_hash_digest [OF len pos assms(4)]
    using inj_fmix by (simp add: inj_eq xor_right_cancel)
qed

lemma c_bytes_append [simp]: "c_bytes (s @ t) = c_bytes s @ c_bytes t"
  by (simp add: c_bytes_def)

lemma length_c_bytes [simp]: "length (c_bytes s) = length s"
  by (simp add: c_bytes_def)

lemma unat_of_char: "unat (word_of_nat (of_char c) :: u8) = of_char c"
  by (simp add: unat_of_nat)

lemma of_char_word_inj: "(word_of_nat (of_char c) :: u8) = word_of_nat (of_char d) \<longleftrightarrow> c = d"
  by (metis unat_of_char of_char_eq_iff)

lemma c_bytes_inject: "(c_bytes s = c_bytes t) = (s = t)"
  using of_char_word_inj by (auto simp: c_bytes_def inj_map_eq_map inj_def)

section \<open>Properties\<close>

lemma str_hash_c_bytes: "str_hash s = map_get_hash (Some (c_bytes s)) (word_of_nat (length (c_bytes s)))"
  by (simp add: str_hash_def)

text \<open>
  Two C strings shorter than 4 GiB that have the same length and differ only inside one
  aligned four-byte block (or inside the final partial block) have different hashes, so
  the hash tables keep such keys apart without comparing them.
\<close>

theorem str_hash_one_block_no_collision:
  assumes "length p mod 4 = 0" "length x = length y" "length x = 4 \<or> length x < 4 \<and> s = []"
    and "length (p @ x @ s) < 2 ^ 32" "x \<noteq> y"
  shows "str_hash (p @ x @ s) \<noteq> str_hash (p @ y @ s)"
  using map_get_hash_one_block [of "c_bytes p" "c_bytes x" "c_bytes y" "c_bytes s"] assms
  by (simp add: str_hash_c_bytes c_bytes_inject) (auto simp: c_bytes_def)

theorem str_hash_one_block_no_collision_witness:
  "str_hash (''dev-'' @ ''vcs/'' @ ''git'') \<noteq> str_hash (''dev-'' @ ''lang'' @ ''git'')"
  by (rule str_hash_one_block_no_collision) simp_all

end
