(* ===== verification/Doubles.thy ===== *)
theory Doubles
  imports Prelude
begin

text \<open>
  Non-negative finite \<^verbatim>\<open>double\<close> values as the tables use them: the load factors
  \<^verbatim>\<open>LUT_THRESHOLD\<close> (\<^verbatim>\<open>lut.c\<close>) and \<^verbatim>\<open>threshold\<close> (\<^verbatim>\<open>map.c\<close>) are multiplied by a table
  size and truncated to an integer. A value is a mantissa and a binary scale; products
  are rounded to 53 significant bits, ties to even, as IEEE 754 does in the range the
  tables use (no overflow, no subnormals).
\<close>

datatype f64 = F64 (mantissa: nat) (scale: nat)  \<comment> \<open>the number \<open>mantissa / 2 ^ scale\<close>\<close>

fun bit_len :: "nat \<Rightarrow> nat" where
  "bit_len n = (if n = 0 then 0 else Suc (bit_len (n div 2)))"

declare bit_len.simps [simp del]

definition round_shift :: "nat \<Rightarrow> nat \<Rightarrow> nat" where
  "round_shift m s =
     (let q = m div 2 ^ s; r = m mod 2 ^ s
      in if 2 * r > 2 ^ s \<or> (2 * r = 2 ^ s \<and> odd q) then q + 1 else q)"

definition round53 :: "nat \<Rightarrow> nat" where
  "round53 m = (let s = bit_len m - 53 in if s = 0 then m else round_shift m s * 2 ^ s)"

definition f64_of_nat :: "nat \<Rightarrow> f64" where
  "f64_of_nat n = F64 (round53 n) 0"

definition f64_mult :: "f64 \<Rightarrow> f64 \<Rightarrow> f64" where
  "f64_mult a b = F64 (round53 (mantissa a * mantissa b)) (scale a + scale b)"

definition f64_trunc :: "f64 \<Rightarrow> nat" where
  "f64_trunc a = mantissa a div 2 ^ scale a"

text \<open>\<^verbatim>\<open>(U64) (threshold * size)\<close>\<close>

definition scaled :: "f64 \<Rightarrow> u64 \<Rightarrow> u64" where
  "scaled t n = word_of_nat (f64_trunc (f64_mult t (f64_of_nat (unat n))))"

section \<open>Rounding commutes with doubling\<close>

lemma bit_len_0 [simp]: "bit_len 0 = 0"
  by (subst bit_len.simps) simp

lemma bit_len_double [simp]: "0 < m \<Longrightarrow> bit_len (2 * m) = Suc (bit_len m)"
  using bit_len.simps [of "2 * m"] by simp

lemma round_shift_double: "round_shift (2 * m) (Suc s) = round_shift m s"
proof -
  have "2 * m mod (2 * 2 ^ s) = 2 * (m mod 2 ^ s)" by (rule mult_mod_right [symmetric])
  then show ?thesis by (simp add: round_shift_def Let_def)
qed

lemma round53_double: "round53 (2 * m) = 2 * round53 m"
proof (cases "m = 0")
  case True
  then show ?thesis by (simp add: round53_def)
next
  case False
  then have len: "bit_len (2 * m) = Suc (bit_len m)" by simp
  consider "bit_len m < 53" | "bit_len m = 53" | "53 < bit_len m" by linarith
  then show ?thesis
  proof cases
    case 1
    then show ?thesis by (simp add: round53_def len)
  next
    case 2
    then show ?thesis by (simp add: round53_def len round_shift_def)
  next
    case 3
    then have "Suc (bit_len m) - 53 = Suc (bit_len m - 53)" by simp
    with 3 show ?thesis by (simp add: round53_def len round_shift_double Let_def)
  qed
qed

lemma round53_4: "round53 (4 * m) = 4 * round53 m"
  using round53_double [of "2 * m"] round53_double [of m] by simp

lemma f64_trunc_4:
  "4 * f64_trunc (f64_mult t (f64_of_nat n)) \<le> f64_trunc (f64_mult t (f64_of_nat (4 * n)))"
proof -
  let ?x = "round53 (mantissa t * round53 n)"
  have "round53 (mantissa t * (4 * round53 n)) = 4 * ?x"
    using round53_4 [of "mantissa t * round53 n"] by (simp add: ac_simps)
  moreover have "4 * (?x div 2 ^ scale t) \<le> (4 * ?x) div 2 ^ scale t"
    by (simp add: less_eq_div_iff_mult_less_eq)
  ultimately show ?thesis
    by (simp add: f64_trunc_def f64_mult_def f64_of_nat_def round53_4)
qed

section \<open>An upper bound\<close>

lemma bit_len_le: "k < bit_len m \<Longrightarrow> 2 ^ k \<le> m"
proof (induction m arbitrary: k rule: bit_len.induct)
  case (1 m)
  show ?case
  proof (cases k)
    case 0
    with "1.prems" show ?thesis by (cases "m = 0") simp_all
  next
    case (Suc j)
    have "m \<noteq> 0" using "1.prems" by (auto intro: ccontr)
    with "1.prems" Suc have "j < bit_len (m div 2)" using bit_len.simps [of m] by simp
    with "1.IH" \<open>m \<noteq> 0\<close> have "2 ^ j \<le> m div 2" by simp
    with Suc show ?thesis by simp
  qed
qed

lemma round_shift_le: "round_shift m s \<le> m div 2 ^ s + 1"
  by (simp add: round_shift_def Let_def)

lemma round53_le: "round53 m \<le> 2 * m"
proof (cases "bit_len m \<le> 53")
  case True
  then show ?thesis by (simp add: round53_def)
next
  case False
  define s where "s = bit_len m - 53"
  from False have "2 ^ s \<le> m" by (intro bit_len_le) (simp add: s_def)
  have "round_shift m s * 2 ^ s \<le> (m div 2 ^ s + 1) * 2 ^ s"
    by (intro mult_le_mono1 round_shift_le)
  also have "\<dots> \<le> m + 2 ^ s" by (simp add: add_mult_distrib)
  finally show ?thesis using False \<open>2 ^ s \<le> m\<close> by (simp add: round53_def s_def Let_def)
qed

text \<open>A factor of at most one, with its mantissa, scales an integer to less than five times itself.\<close>

lemma f64_trunc_le:
  assumes "mantissa t \<le> 2 ^ scale t"
  shows "f64_trunc (f64_mult t (f64_of_nat n)) \<le> 4 * n"
proof -
  have "round53 (mantissa t * round53 n) \<le> 2 * (mantissa t * round53 n)" by (rule round53_le)
  also have "\<dots> \<le> 2 * (2 ^ scale t * (2 * n))"
    by (intro mult_le_mono order_refl assms round53_le)
  finally have "round53 (mantissa t * round53 n) \<le> 4 * n * 2 ^ scale t" by (simp add: ac_simps)
  then show ?thesis
    by (simp add: f64_trunc_def f64_mult_def f64_of_nat_def) (metis div_le_mono nonzero_mult_div_cancel_right
        power_not_zero zero_neq_numeral)
qed

lemma unat_scaled:
  assumes "mantissa t \<le> 2 ^ scale t" "unat n < 2 ^ 62"
  shows "unat (scaled t n) = f64_trunc (f64_mult t (f64_of_nat (unat n)))"
proof -
  have "f64_trunc (f64_mult t (f64_of_nat (unat n))) < 2 ^ 64"
    using f64_trunc_le [OF assms(1), of "unat n"] assms(2) by simp
  then show ?thesis by (simp add: scaled_def unat_of_nat)
qed

lemma scaled_quadruple:
  assumes "mantissa t \<le> 2 ^ scale t" "unat n < 2 ^ 60"
  shows "4 * unat (scaled t n) \<le> unat (scaled t (n * 4))"
proof -
  have "unat (n * 4) = 4 * unat n" using assms(2) by (simp add: unat_word_ariths)
  then show ?thesis
    using assms f64_trunc_4 [of t "unat n"] by (simp add: unat_scaled)
qed

end
