(* ===== verification/Id_Table.thy ===== *)
theory Id_Table
  imports Prelude
begin

text \<open>
  The interface between the package database and the lookup table: a table that hands
  out an id per key and keeps it. The locale fixes the operations the database calls
  and assumes what the table promises; the lemmas of the client are proved from these
  promises alone. \<open>Lut\<close> interprets it on the model of \<^verbatim>\<open>lut.c\<close>.
\<close>

locale id_table =
  fixes invar :: "'t \<Rightarrow> bool"
    and room :: "'t \<Rightarrow> string \<Rightarrow> bool"
    and entries :: "'t \<Rightarrow> 'i \<rightharpoonup> string \<times> 'd"
    and find_id :: "'t \<Rightarrow> string \<Rightarrow> 'i \<times> bool"
    and store :: "string \<Rightarrow> 'd \<Rightarrow> 't \<Rightarrow> ('i \<times> 't) result"
  assumes store_result: "invar t \<Longrightarrow> room t k \<Longrightarrow>
      \<exists>t'. store k d t = Inr (fst (find_id t k), t') \<and> invar t' \<and>
        entries t' = (entries t)(fst (find_id t k) \<mapsto> (k, d))"
    and find_id_iff: "invar t \<Longrightarrow> find_id t k = (i, True) \<longleftrightarrow> (\<exists>d. entries t i = Some (k, d))"
    and find_id_fresh: "invar t \<Longrightarrow> room t k \<Longrightarrow> find_id t k = (i, False) \<Longrightarrow> entries t i = None"
begin

lemma key_id_unique:
  assumes "invar t" "entries t i = Some (k, d)" "entries t j = Some (k, d')"
  shows "i = j"
proof -
  from assms find_id_iff have "find_id t k = (i, True)" "find_id t k = (j, True)" by blast+
  then show ?thesis by simp
qed

lemma store_then_find:
  assumes "invar t" "room t k" "store k d t = Inr (i, t')"
  shows "find_id t' k = (i, True)"
proof -
  from store_result [OF assms(1,2), of d] assms(3)
  have "invar t'" "entries t' i = Some (k, d)" by auto
  then show ?thesis using find_id_iff by blast
qed

text \<open>An id once handed out keeps its key; its data change only when that key is stored again.\<close>

lemma store_keeps_ids:
  assumes "invar t" "room t k" "store k d t = Inr (i, t')" "entries t j = Some (k', d')"
  shows "entries t' j = Some (k', if k' = k then d else d')"
proof -
  from store_result [OF assms(1,2), of d] assms(3)
  have i: "i = fst (find_id t k)" and upd: "entries t' = (entries t)(i \<mapsto> (k, d))" by auto
  show ?thesis
  proof (cases "k' = k")
    case True
    with assms(1,4) find_id_iff have "find_id t k = (j, True)" by blast
    with i upd True show ?thesis by simp
  next
    case False
    have "i \<noteq> j"
    proof
      assume "i = j"
      show False
      proof (cases "snd (find_id t k)")
        case True
        then have "find_id t k = (j, True)" using i \<open>i = j\<close> by (metis prod.collapse)
        with assms(1,4) find_id_iff False show False by fastforce
      next
        case no: False
        then have "find_id t k = (j, False)" using i \<open>i = j\<close> by (metis prod.collapse)
        with assms(1,2,4) find_id_fresh show False by fastforce
      qed
    qed
    with upd assms(4) False show ?thesis by simp
  qed
qed

lemma store_keeps_find:
  assumes "invar t" "room t k" "store k d t = Inr (i, t')" "find_id t k' = (j, True)"
  shows "find_id t' k' = (j, True)"
proof -
  from assms(1,4) find_id_iff obtain d' where "entries t j = Some (k', d')" by blast
  then have "entries t' j = Some (k', if k' = k then d else d')"
    using assms(1-3) store_keeps_ids by blast
  moreover have "invar t'" using store_result [OF assms(1,2), of d] assms(3) by auto
  ultimately show ?thesis using find_id_iff by blast
qed

end

end
