(* ===== verification/Lut.thy ===== *)
theory Lut
  imports Murmur Doubles Id_Table "HOL-Library.Multiset"
begin

text \<open>
  The lookup table of \<^verbatim>\<open>autogentoo/hacksaw/lut.h\<close> and \<^verbatim>\<open>lut.c\<close>: a chained hash table
  from strings to 64-bit data that hands out a stable 64-bit id per key (the hash in
  the low word, the number of earlier keys with the same hash above it) and looks data
  up by id. The operations pass the table and the reference counts they change; an
  abort by \<^verbatim>\<open>assert\<close> is the left side of a sum. The lemmas describe every operation by
  its effect on the chain of nodes that share a hash, which growing the table keeps.
\<close>

section \<open>Data\<close>

type_synonym lut_id = u64
type_synonym lut_flags = u32

definition LUT_HASH_MASK :: u64 where "LUT_HASH_MASK = 0x00000000ffffffff"
definition LUT_OVERLAP_MASK :: u64 where "LUT_OVERLAP_MASK = 0x0000ffff00000000"
definition LUT_FLAG_NOT_FOUND :: lut_flags where "LUT_FLAG_NOT_FOUND = 1"
definition LUT_FLAG_EXISTS :: lut_flags where "LUT_FLAG_EXISTS = 2"
definition LUT_FLAG_REFERENCE :: lut_flags where "LUT_FLAG_REFERENCE = 4"
definition LUT_FLAG_PYTHON :: lut_flags where "LUT_FLAG_PYTHON = 8"

lemmas lut_flag_defs =
  LUT_FLAG_NOT_FOUND_def LUT_FLAG_EXISTS_def LUT_FLAG_REFERENCE_def LUT_FLAG_PYTHON_def

text \<open>A bucket is the list of its nodes: the \<^verbatim>\<open>next\<close> pointers are the list order.\<close>

record lut_node =
  nid :: lut_id
  nkey :: string
  ndata :: u64
  nflags :: lut_flags

record lut =
  lut_table :: "lut_node list list"
  lut_n :: u32
  lut_size :: u64
  lut_realloc_at :: u64

text \<open>The reference counts of the Python objects and of the \<^verbatim>\<open>RefObject\<close>s, by address.\<close>

record refs =
  py_refs :: "u64 \<Rightarrow> int"
  obj_refs :: "u64 \<Rightarrow> int"

definition flag_set :: "lut_flags \<Rightarrow> lut_flags \<Rightarrow> bool" where
  "flag_set fl m \<longleftrightarrow> fl AND m \<noteq> 0"

text \<open>\<^verbatim>\<open>Py_XINCREF\<close>, \<^verbatim>\<open>OBJECT_INCREF\<close> and their inverses as the flags select them; null is skipped.\<close>

definition data_add_ref :: "int \<Rightarrow> lut_flags \<Rightarrow> u64 \<Rightarrow> refs \<Rightarrow> refs" where
  "data_add_ref c fl d r =
     (if d = 0 then r
      else if flag_set fl LUT_FLAG_PYTHON then r\<lparr>py_refs := (py_refs r)(d := py_refs r d + c)\<rparr>
      else if flag_set fl LUT_FLAG_REFERENCE then r\<lparr>obj_refs := (obj_refs r)(d := obj_refs r d + c)\<rparr>
      else r)"

definition data_incref :: "lut_flags \<Rightarrow> u64 \<Rightarrow> refs \<Rightarrow> refs" where
  "data_incref = data_add_ref 1"

definition data_decref :: "lut_flags \<Rightarrow> u64 \<Rightarrow> refs \<Rightarrow> refs" where
  "data_decref = data_add_ref (- 1)"

section \<open>Operations\<close>

text \<open>\<^verbatim>\<open>0.7\<close> as the nearest double.\<close>

definition LUT_THRESHOLD :: f64 where "LUT_THRESHOLD = F64 6305039478318694 53"

definition lut_id_get_hash :: "lut_id \<Rightarrow> u64" where
  "lut_id_get_hash i = drop_bit 0 i AND LUT_HASH_MASK"

text \<open>The position \<^verbatim>\<open>hash % self->size\<close>; the caller's hash is narrowed to \<^verbatim>\<open>U32\<close>.\<close>

definition lut_bucket :: "u64 \<Rightarrow> u32 \<Rightarrow> nat" where
  "lut_bucket sz h = unat (ucast h mod sz)"

definition lut_new :: "u64 \<Rightarrow> lut" where
  "lut_new new_size = \<lparr>lut_table = replicate (unat new_size) [], lut_n = 0,
     lut_size = new_size, lut_realloc_at = scaled LUT_THRESHOLD new_size\<rparr>"

definition lut_append :: "nat \<Rightarrow> lut_node \<Rightarrow> lut_node list list \<Rightarrow> lut_node list list" where
  "lut_append i x t = t[i := t ! i @ [x]]"

text \<open>The inner loop of \<^verbatim>\<open>lut_realloc\<close>: one old bucket is moved node by node.\<close>

fun lut_move_bucket :: "lut_node list \<Rightarrow> lut \<Rightarrow> lut" where
  "lut_move_bucket [] l = l"
| "lut_move_bucket (x # xs) l =
     lut_move_bucket xs
       (l\<lparr>lut_table := lut_append (lut_bucket (lut_size l) (ucast (lut_id_get_hash (nid x)))) x (lut_table l),
          lut_n := lut_n l + 1\<rparr>)"

text \<open>The outer loop with its early exit \<^verbatim>\<open>self->n < old_count\<close>.\<close>

fun lut_move_buckets :: "u32 \<Rightarrow> lut_node list list \<Rightarrow> lut \<Rightarrow> lut" where
  "lut_move_buckets old_count [] l = l"
| "lut_move_buckets old_count (b # bs) l =
     (if lut_n l < old_count then lut_move_buckets old_count bs (lut_move_bucket b l) else l)"

definition lut_realloc :: "u64 \<Rightarrow> lut \<Rightarrow> lut result" where
  "lut_realloc new_size l =
     (let l0 = l\<lparr>lut_table := replicate (unat new_size) [], lut_size := new_size,
                 lut_realloc_at := scaled LUT_THRESHOLD new_size, lut_n := 0\<rparr>;
          l1 = lut_move_buckets (lut_n l) (lut_table l) l0
      in if new_size = 0 \<and> lut_n l \<noteq> 0 then Inl Division_By_Zero
         else if lut_n l1 = lut_n l then Inr l1 else Inl Assertion_Failure)"

fun set_first :: "('a \<Rightarrow> bool) \<Rightarrow> ('a \<Rightarrow> 'a) \<Rightarrow> 'a list \<Rightarrow> 'a list" where
  "set_first P f [] = []"
| "set_first P f (x # xs) = (if P x then f x # xs else x # set_first P f xs)"

text \<open>The table is enlarged when one more key would reach \<^verbatim>\<open>realloc_at\<close>.\<close>

definition lut_grow :: "lut \<Rightarrow> lut result" where
  "lut_grow l =
     (if lut_realloc_at l \<le> ucast (lut_n l + 1) then lut_realloc (lut_size l * 4) l else Inr l)"

text \<open>
  \<^verbatim>\<open>lut_insert_id\<close>. A fresh node takes a reference to the data; on an existing key the
  old node is overwritten, its reference is exchanged when the data differ, and the
  fresh node is freed, which drops the reference it took.
\<close>

definition lut_insert_id ::
    "string \<Rightarrow> u64 \<Rightarrow> lut_id \<Rightarrow> lut_flags \<Rightarrow> lut \<times> refs \<Rightarrow> (lut \<times> refs) result" where
  "lut_insert_id key data i flag s =
     (case s of (l0, r0) \<Rightarrow>
       bindR (lut_grow l0)
         (\<lambda>l. let node = \<lparr>nid = i, nkey = key, ndata = data, nflags = flag\<rparr>;
                  r = data_incref flag data r0;
                  b = lut_bucket (lut_size l) (ucast (lut_id_get_hash i))
              in if lut_size l = 0 then Inl Division_By_Zero
                 else if flag_set flag LUT_FLAG_NOT_FOUND then
                   Inr (l\<lparr>lut_table := lut_append b node (lut_table l), lut_n := lut_n l + 1\<rparr>, r)
                 else if flag_set flag LUT_FLAG_EXISTS then
                   (if lut_table l ! b = [] then Inl Assertion_Failure
                    else case find (\<lambda>x. nid x = i) (lut_table l ! b) of
                      None \<Rightarrow> Inl Assertion_Failure
                    | Some cur \<Rightarrow>
                        let r1 = (if data \<noteq> ndata cur
                                  then data_decref (nflags cur) (ndata cur) (data_incref flag data r)
                                  else r);
                            r2 = data_decref flag data r1
                        in Inr (l\<lparr>lut_table := (lut_table l)[b := set_first (\<lambda>x. nid x = i)
                                  (\<lambda>x. x\<lparr>ndata := data, nflags := flag\<rparr>) (lut_table l ! b)]\<rparr>, r2))
                 else Inr (l, r)))"

definition lut_get_key :: "lut \<Rightarrow> lut_id \<Rightarrow> string option" where
  "lut_get_key l i =
     map_option nkey (find (\<lambda>x. nid x = i) (lut_table l ! lut_bucket (lut_size l) (ucast (lut_id_get_hash i))))"

definition lut_get :: "lut \<Rightarrow> lut_id \<Rightarrow> u64" where
  "lut_get l i =
     (case find (\<lambda>x. nid x = i) (lut_table l ! lut_bucket (lut_size l) (ucast (lut_id_get_hash i))) of
        None \<Rightarrow> 0 | Some x \<Rightarrow> ndata x)"

text \<open>The search loop of \<^verbatim>\<open>lut_get_id\<close>: the id of the key, or the number of hash overlaps.\<close>

fun lut_probe :: "string \<Rightarrow> u32 \<Rightarrow> u16 \<Rightarrow> lut_node list \<Rightarrow> lut_id + u16" where
  "lut_probe key hash overlap [] = Inr overlap"
| "lut_probe key hash overlap (x # xs) =
     (if lut_id_get_hash (nid x) = ucast hash
      then (if key = nkey x then Inl (nid x) else lut_probe key hash (overlap + 1) xs)
      else lut_probe key hash overlap xs)"

definition lut_make_id :: "u32 \<Rightarrow> u16 \<Rightarrow> lut_id" where
  "lut_make_id hash overlap =
     (push_bit 0 (ucast hash) AND LUT_HASH_MASK) OR (push_bit 32 (ucast overlap) AND LUT_OVERLAP_MASK)"

definition lut_get_id :: "lut \<Rightarrow> string \<Rightarrow> lut_id \<times> lut_flags" where
  "lut_get_id l key =
     (let hash = str_hash key
      in case lut_probe key hash 0 (lut_table l ! lut_bucket (lut_size l) hash) of
           Inl i \<Rightarrow> (i, LUT_FLAG_EXISTS)
         | Inr overlap \<Rightarrow> (lut_make_id hash overlap, LUT_FLAG_NOT_FOUND))"

definition lut_insert ::
    "string \<Rightarrow> u64 \<Rightarrow> lut_flags \<Rightarrow> lut \<times> refs \<Rightarrow> (lut_id \<times> lut \<times> refs) result" where
  "lut_insert key data flags s =
     (case lut_get_id (fst s) key of (i, flag) \<Rightarrow>
        bindR (lut_insert_id key data i (flag OR flags) s) (\<lambda>s'. Inr (i, s')))"

text \<open>\<^verbatim>\<open>lut_node_free\<close> frees the rest of the chain first, then drops its own reference.\<close>

fun lut_node_free :: "lut_node list \<Rightarrow> refs \<Rightarrow> refs" where
  "lut_node_free [] r = r"
| "lut_node_free (x # xs) r = data_decref (nflags x) (ndata x) (lut_node_free xs r)"

text \<open>
  \<^verbatim>\<open>lut_free\<close> counts its buckets with a \<^verbatim>\<open>U32\<close>: with \<open>2 ^ 32\<close> buckets or more the counter
  wraps, and the loop frees the first buckets again or, when they are empty, never ends.
\<close>

definition lut_free :: "lut \<Rightarrow> refs \<Rightarrow> refs result" where
  "lut_free l r =
     (if 2 ^ 32 \<le> unat (lut_size l)
      then Inl (if list_all (\<lambda>b. b = []) (take (2 ^ 32) (lut_table l)) then Diverges else Use_After_Free)
      else Inr (fold lut_node_free (lut_table l) r))"

section \<open>Ids\<close>

definition node_hash :: "lut_node \<Rightarrow> u32" where
  "node_hash x = ucast (lut_id_get_hash (nid x))"

lemma bit_word_mask: "bit (mask k :: 'a::len word) n \<longleftrightarrow> n < min k LENGTH('a)"
  by (auto simp: bit_mask_iff)

lemma bit_hash_mask: "bit LUT_HASH_MASK n = (n < 32)"
proof -
  have eq: "LUT_HASH_MASK = mask 32" by (simp add: LUT_HASH_MASK_def mask_eq_exp_minus_1)
  show ?thesis unfolding eq bit_word_mask by simp
qed

lemma bit_overlap_mask: "bit LUT_OVERLAP_MASK n = (32 \<le> n \<and> n < 48)"
proof -
  have eq: "LUT_OVERLAP_MASK = push_bit 32 (mask 16)"
    by (simp add: LUT_OVERLAP_MASK_def mask_eq_exp_minus_1 push_bit_eq_mult)
  show ?thesis unfolding eq bit_push_bit_iff bit_word_mask by auto
qed

lemma ucast_ucast_u32: "ucast (ucast h :: u64) = h" for h :: u32
  by (rule bit_word_eqI) (auto simp: bit_simps)

lemma id_hash_ucast: "lut_id_get_hash i = ucast h \<longleftrightarrow> ucast (lut_id_get_hash i) = h"
  for h :: u32
proof -
  have "lut_id_get_hash i = ucast (ucast (lut_id_get_hash i) :: u32)"
    by (rule bit_word_eqI) (auto simp: lut_id_get_hash_def bit_simps bit_hash_mask)
  then show ?thesis by (metis ucast_ucast_u32)
qed

lemma make_id_hash [simp]: "lut_id_get_hash (lut_make_id h ov) = ucast h"
  by (rule bit_word_eqI)
    (auto simp: lut_id_get_hash_def lut_make_id_def bit_simps bit_hash_mask bit_overlap_mask
      dest: bit_imp_le_length)

lemma make_id_overlap: "ucast (drop_bit 32 (lut_make_id h ov)) = ov"
  by (rule bit_word_eqI)
    (auto simp: lut_make_id_def bit_simps bit_hash_mask bit_overlap_mask dest: bit_imp_le_length)

lemma make_id_inject [simp]: "(lut_make_id h ov = lut_make_id h' ov') = (h = h' \<and> ov = ov')"
  by (metis make_id_hash make_id_overlap id_hash_ucast)

section \<open>Chains and well-formed tables\<close>

text \<open>The chain of a hash: the nodes that carry it, in insertion order.\<close>

definition chain :: "lut \<Rightarrow> u32 \<Rightarrow> lut_node list" where
  "chain l h = filter (\<lambda>x. node_hash x = h) (lut_table l ! lut_bucket (lut_size l) h)"

definition chain_ok :: "u32 \<Rightarrow> lut_node list \<Rightarrow> bool" where
  "chain_ok h xs \<longleftrightarrow>
     map nid xs = map (\<lambda>k. lut_make_id h (word_of_nat k)) [0..<length xs] \<and>
     distinct (map nkey xs) \<and> (\<forall>x \<in> set xs. str_hash (nkey x) = h) \<and> length xs \<le> 2 ^ 16"

definition placed :: "u64 \<Rightarrow> lut_node list list \<Rightarrow> bool" where
  "placed sz t \<longleftrightarrow> length t = unat sz \<and> 0 < sz \<and>
     (\<forall>i < length t. \<forall>x \<in> set (t ! i). lut_bucket sz (node_hash x) = i)"

definition lut_wf :: "lut \<Rightarrow> bool" where
  "lut_wf l \<longleftrightarrow> placed (lut_size l) (lut_table l) \<and>
     unat (lut_n l) = length (concat (lut_table l)) \<and> (\<forall>h. chain_ok h (chain l h))"

lemma lut_bucket_bound: "0 < sz \<Longrightarrow> lut_bucket sz h < unat sz"
  by (simp add: lut_bucket_def unat_mod word_gt_0 unat_gt_0)

lemma placed_bucket: "placed sz t \<Longrightarrow> lut_bucket sz h < length t"
  by (simp add: placed_def lut_bucket_bound)

lemma placed_append:
  assumes "placed sz t" "b = lut_bucket sz (node_hash x)"
  shows "placed sz (lut_append b x t)"
  using assms lut_bucket_bound [of sz "node_hash x"]
  by (auto simp: placed_def lut_append_def nth_list_update split: if_splits)

lemma filter_lut_append:
  assumes "placed sz t"
  shows "filter (\<lambda>y. node_hash y = h) (lut_append (lut_bucket sz (node_hash x)) x t ! lut_bucket sz h) =
    filter (\<lambda>y. node_hash y = h) (t ! lut_bucket sz h) @ (if node_hash x = h then [x] else [])"
  using placed_bucket [OF assms] by (auto simp: lut_append_def nth_list_update)

lemma mset_concat_update:
  "i < length t \<Longrightarrow> mset (concat (t[i := xs])) + mset (t ! i) = mset (concat t) + mset xs"
  by (induction t arbitrary: i) (auto split: nat.split simp: ac_simps)

lemma mset_concat_append:
  "i < length t \<Longrightarrow> mset (concat (lut_append i x t)) = add_mset x (mset (concat t))"
  using mset_concat_update [of i t "t ! i @ [x]"] by (simp add: lut_append_def)

lemma chain_placed:
  assumes "placed sz t"
  shows "filter (\<lambda>x. node_hash x = h) (t ! lut_bucket sz h) = filter (\<lambda>x. node_hash x = h) (concat t)"
  using assms placed_bucket [OF assms]
  by (intro filter_concat_single [symmetric]) (auto simp: placed_def)

section \<open>Growing the table\<close>

lemma move_bucket_props:
  assumes "placed (lut_size l) (lut_table l)"
  shows "lut_size (lut_move_bucket xs l) = lut_size l \<and>
    lut_realloc_at (lut_move_bucket xs l) = lut_realloc_at l \<and>
    placed (lut_size l) (lut_table (lut_move_bucket xs l)) \<and>
    lut_n (lut_move_bucket xs l) = lut_n l + word_of_nat (length xs) \<and>
    mset (concat (lut_table (lut_move_bucket xs l))) = mset (concat (lut_table l)) + mset xs \<and>
    chain (lut_move_bucket xs l) h = chain l h @ filter (\<lambda>x. node_hash x = h) xs"
  using assms
proof (induction xs arbitrary: l)
  case Nil
  then show ?case by simp
next
  case (Cons x xs)
  define l1 where "l1 = l\<lparr>lut_table := lut_append (lut_bucket (lut_size l) (node_hash x)) x (lut_table l),
    lut_n := lut_n l + 1\<rparr>"
  have step: "lut_move_bucket (x # xs) l = lut_move_bucket xs l1"
    by (simp add: l1_def node_hash_def)
  have placed1: "placed (lut_size l1) (lut_table l1)"
    using Cons.prems by (simp add: l1_def placed_append)
  have "chain l1 h = chain l h @ (if node_hash x = h then [x] else [])"
    using Cons.prems by (simp add: chain_def l1_def filter_lut_append)
  moreover have "mset (concat (lut_table l1)) = add_mset x (mset (concat (lut_table l)))"
    using Cons.prems by (simp add: l1_def mset_concat_append placed_bucket)
  moreover have "lut_size l1 = lut_size l" "lut_realloc_at l1 = lut_realloc_at l" "lut_n l1 = lut_n l + 1"
    by (simp_all add: l1_def)
  ultimately show ?case
    unfolding step using Cons.IH [OF placed1] by (simp add: ac_simps)
qed

lemma move_buckets_props:
  assumes "placed (lut_size l) (lut_table l)" "unat (lut_n l) = length (concat (lut_table l))"
    and "unat old = length (concat (lut_table l)) + length (concat bs)"
  shows "lut_size (lut_move_buckets old bs l) = lut_size l \<and>
    lut_realloc_at (lut_move_buckets old bs l) = lut_realloc_at l \<and>
    placed (lut_size l) (lut_table (lut_move_buckets old bs l)) \<and>
    lut_n (lut_move_buckets old bs l) = old \<and>
    mset (concat (lut_table (lut_move_buckets old bs l))) = mset (concat (lut_table l)) + mset (concat bs) \<and>
    chain (lut_move_buckets old bs l) h = chain l h @ filter (\<lambda>x. node_hash x = h) (concat bs)"
  using assms
proof (induction bs arbitrary: l)
  case Nil
  then show ?case by (simp add: word_unat_eq_iff)
next
  case (Cons b bs)
  show ?case
  proof (cases "lut_n l < old")
    case True
    let ?l = "lut_move_bucket b l"
    note props = move_bucket_props [OF Cons.prems(1), of b]
    have len: "length (concat (lut_table ?l)) = length (concat (lut_table l)) + length b"
      using props [THEN conjunct2, THEN conjunct2, THEN conjunct2, THEN conjunct2, THEN conjunct1]
      by (metis mset_append size_mset length_append)
    have "unat (lut_n ?l) = unat (lut_n l) + length b"
    proof -
      have "unat (lut_n l) + length b < 2 ^ 32"
        using Cons.prems(2,3) unat_bound [of old] by simp
      then show ?thesis using props by (simp add: unat_word_ariths unat_of_nat)
    qed
    with Cons.prems(2,3) props len True show ?thesis
      using Cons.IH [of ?l] by simp
  next
    case False
    with Cons.prems(2,3) have "lut_n l = old" "concat (b # bs) = []"
      by (auto simp: word_less_nat_alt word_unat_eq_iff)
    moreover from this(2) have "mset (concat (b # bs)) = {#}" by (simp only: mset.simps(1))
    moreover from this have "filter (\<lambda>x. node_hash x = h) (concat (b # bs)) = []"
      by (simp only: mset_zero_iff filter.simps(1))
    ultimately show ?thesis using False Cons.prems by simp
  qed
qed

lemma placed_replicate: "0 < sz \<Longrightarrow> placed sz (replicate (unat sz) [])"
  by (simp add: placed_def)

lemma concat_replicate_Nil [simp]: "concat (replicate k []) = []"
  by (induction k) simp_all

lemma realloc_result:
  assumes "lut_wf l" "0 < sz"
  obtains l' where "lut_realloc sz l = Inr l'" "lut_wf l'" "lut_size l' = sz" "lut_n l' = lut_n l"
    "lut_realloc_at l' = scaled LUT_THRESHOLD sz" "\<And>h. chain l' h = chain l h"
    "mset (concat (lut_table l')) = mset (concat (lut_table l))"
proof -
  have nz: "sz \<noteq> 0" using assms(2) by auto
  define l0 where "l0 = l\<lparr>lut_table := replicate (unat sz) [], lut_size := sz,
    lut_realloc_at := scaled LUT_THRESHOLD sz, lut_n := 0\<rparr>"
  define l' where "l' = lut_move_buckets (lut_n l) (lut_table l) l0"
  have "placed (lut_size l0) (lut_table l0)" "unat (lut_n l0) = length (concat (lut_table l0))"
    "unat (lut_n l) = length (concat (lut_table l0)) + length (concat (lut_table l))"
    using assms by (simp_all add: l0_def placed_replicate lut_wf_def)
  note props = move_buckets_props [OF this, folded l'_def]
  have "chain l0 h = []" for h
    using assms(2) by (simp add: chain_def l0_def lut_bucket_bound)
  moreover have "chain l h = filter (\<lambda>x. node_hash x = h) (concat (lut_table l))" for h
    using assms(1) by (simp add: chain_def lut_wf_def chain_placed)
  ultimately have chains: "chain l' h = chain l h" for h
    using props [of h] by simp
  have nodes: "mset (concat (lut_table l')) = mset (concat (lut_table l))"
    using props by (simp add: l0_def)
  have "lut_realloc sz l = Inr l'"
    using props nz by (simp add: lut_realloc_def Let_def l'_def l0_def)
  moreover have "lut_wf l'"
    using assms(1) props chains mset_eq_length [OF nodes] by (simp add: lut_wf_def l0_def)
  moreover have "lut_size l' = sz" "lut_n l' = lut_n l" "lut_realloc_at l' = scaled LUT_THRESHOLD sz"
    using props by (simp_all add: l0_def)
  ultimately show thesis using chains nodes that by blast
qed

section \<open>Lookups read the chains\<close>

text \<open>The contents of a table: what each id stands for.\<close>

definition lut_entries :: "lut \<Rightarrow> (lut_id \<rightharpoonup> string \<times> u64 \<times> lut_flags)" where
  "lut_entries l i =
     map_option (\<lambda>x. (nkey x, ndata x, nflags x))
       (find (\<lambda>x. nid x = i) (chain l (ucast (lut_id_get_hash i))))"

lemma find_bucket:
  "find (\<lambda>x. nid x = i) (lut_table l ! lut_bucket (lut_size l) (ucast (lut_id_get_hash i))) =
   find (\<lambda>x. nid x = i) (chain l (ucast (lut_id_get_hash i)))"
  unfolding chain_def by (rule find_filter_eq [symmetric]) (simp add: node_hash_def)

lemma lut_get_entries: "lut_get l i = (case lut_entries l i of None \<Rightarrow> 0 | Some (k, d, f) \<Rightarrow> d)"
  by (simp add: lut_get_def lut_entries_def find_bucket split: option.split)

lemma lut_get_key_entries: "lut_get_key l i = map_option fst (lut_entries l i)"
  by (simp add: lut_get_key_def lut_entries_def find_bucket option.map_comp comp_def)

lemma probe_filter:
  "lut_probe key h ov (filter (\<lambda>x. node_hash x = h) xs) = lut_probe key h ov xs"
  by (induction xs arbitrary: ov) (auto simp: node_hash_def id_hash_ucast)

lemma probe_chain:
  "\<forall>x \<in> set xs. node_hash x = h \<Longrightarrow> lut_probe key h ov xs =
     (case find (\<lambda>x. nkey x = key) xs of None \<Rightarrow> Inr (ov + word_of_nat (length xs)) | Some x \<Rightarrow> Inl (nid x))"
  by (induction xs arbitrary: ov)
    (auto simp: node_hash_def id_hash_ucast ac_simps split: option.split)

lemma chain_hash: "x \<in> set (chain l h) \<Longrightarrow> node_hash x = h"
  by (simp add: chain_def)

lemma lut_get_id_chain:
  "lut_get_id l key =
     (case find (\<lambda>x. nkey x = key) (chain l (str_hash key)) of
        None \<Rightarrow> (lut_make_id (str_hash key) (word_of_nat (length (chain l (str_hash key)))), LUT_FLAG_NOT_FOUND)
      | Some x \<Rightarrow> (nid x, LUT_FLAG_EXISTS))"
proof -
  have "lut_probe key (str_hash key) 0 (lut_table l ! lut_bucket (lut_size l) (str_hash key)) =
      lut_probe key (str_hash key) 0 (chain l (str_hash key))"
    by (simp add: chain_def probe_filter)
  then show ?thesis
    using probe_chain [of "chain l (str_hash key)" "str_hash key" key 0]
    by (auto simp: lut_get_id_def Let_def chain_hash split: option.splits)
qed

lemma lut_get_id_hash [simp]: "ucast (lut_id_get_hash (fst (lut_get_id l key))) = str_hash key"
proof (cases "find (\<lambda>x. nkey x = key) (chain l (str_hash key))")
  case None
  then show ?thesis by (simp add: lut_get_id_chain ucast_ucast_u32)
next
  case (Some x)
  then have "node_hash x = str_hash key" by (meson chain_hash find_SomeD)
  with Some show ?thesis by (simp add: lut_get_id_chain node_hash_def)
qed

section \<open>Insertion\<close>

lemma u16_inj:
  assumes "(word_of_nat j :: u16) = word_of_nat k" "j < 2 ^ 16" "k < 2 ^ 16"
  shows "j = k"
proof -
  have "unat (word_of_nat j :: u16) = unat (word_of_nat k :: u16)" using assms(1) by simp
  then show ?thesis using assms(2,3) by (simp add: unat_of_nat)
qed

lemma chain_ok_nid:
  assumes "chain_ok h xs" "k < length xs"
  shows "nid (xs ! k) = lut_make_id h (word_of_nat k)"
  using assms by (metis (no_types, lifting) chain_ok_def length_map length_upt diff_zero nth_map nth_upt add_0)

lemma chain_ok_distinct:
  assumes "chain_ok h xs"
  shows "distinct (map nid xs)"
proof -
  have "inj_on (\<lambda>k. lut_make_id h (word_of_nat k :: u16)) {0..<length xs}"
  proof (rule inj_onI)
    fix j k
    assume jk: "j \<in> {0..<length xs}" "k \<in> {0..<length xs}"
      and "lut_make_id h (word_of_nat j :: u16) = lut_make_id h (word_of_nat k)"
    with jk assms show "j = k" using u16_inj [of j k] by (simp add: chain_ok_def)
  qed
  with assms show ?thesis by (simp add: chain_ok_def distinct_map)
qed

lemma chain_ok_snoc:
  assumes "chain_ok h xs" "length xs < 2 ^ 16" "str_hash key = h" "key \<notin> nkey ` set xs"
    and "nid x = lut_make_id h (word_of_nat (length xs))" "nkey x = key"
  shows "chain_ok h (xs @ [x])"
  using assms by (auto simp: chain_ok_def)

lemma filter_set_first:
  assumes "\<And>x. P x \<Longrightarrow> Q x" "\<And>x. Q (f x) = Q x"
  shows "filter Q (set_first P f xs) = set_first P f (filter Q xs)"
  using assms by (induction xs) auto

lemma filter_set_first_other:
  assumes "\<And>x. P x \<Longrightarrow> \<not> Q x" "\<And>x. Q (f x) = Q x"
  shows "filter Q (set_first P f xs) = filter Q xs"
  using assms by (induction xs) auto

lemma map_set_first:
  assumes "\<And>x. g (f x) = g x"
  shows "map g (set_first P f xs) = map g xs"
  using assms by (induction xs) auto

lemma length_set_first [simp]: "length (set_first P f xs) = length xs"
  by (induction xs) auto

lemma set_first_ball:
  assumes "\<And>x. P (f x) = P x"
  shows "(\<forall>x \<in> set (set_first Q f xs). P x) = (\<forall>x \<in> set xs. P x)"
  using assms by (induction xs) auto

lemma find_distinct_map:
  "distinct (map g xs) \<Longrightarrow> x \<in> set xs \<Longrightarrow> find (\<lambda>y. g y = g x) xs = Some x"
  by (induction xs) (auto simp: image_iff)

lemma mset_set_first:
  "find P xs = Some x \<Longrightarrow> add_mset x (mset (set_first P f xs)) = add_mset (f x) (mset xs)"
  by (induction xs) (auto split: if_splits)

lemma find_set_first:
  assumes "\<And>x. nid (f x) = nid x"
  shows "find (\<lambda>x. nid x = j) (set_first (\<lambda>x. nid x = i) f xs) =
    (if j = i then map_option f (find (\<lambda>x. nid x = i) xs) else find (\<lambda>x. nid x = j) xs)"
  using assms by (induction xs) auto

text \<open>Effect of appending a fresh node, and of overwriting a node, on every chain.\<close>

lemma append_node_props:
  assumes "lut_wf l" "node_hash x = str_hash (nkey x)" "chain_ok (node_hash x) (chain l (node_hash x) @ [x])"
    and "unat (lut_n l) + 1 < 2 ^ 32"
  defines "l' \<equiv> l\<lparr>lut_table := lut_append (lut_bucket (lut_size l) (node_hash x)) x (lut_table l),
    lut_n := lut_n l + 1\<rparr>"
  shows "lut_wf l' \<and> mset (concat (lut_table l')) = add_mset x (mset (concat (lut_table l))) \<and>
    chain l' h = (if h = node_hash x then chain l h @ [x] else chain l h)"
proof -
  have placed: "placed (lut_size l) (lut_table l)"
    using assms(1) by (simp add: lut_wf_def)
  have chains: "chain l' h = (if h = node_hash x then chain l h @ [x] else chain l h)" for h
    using filter_lut_append [OF placed] by (simp add: chain_def l'_def)
  have "unat (lut_n l + 1) = Suc (unat (lut_n l))"
    using assms(4) by (simp add: unat_word_ariths)
  moreover have nodes: "mset (concat (lut_table l')) = add_mset x (mset (concat (lut_table l)))"
    using placed by (simp add: l'_def mset_concat_append placed_bucket)
  moreover have "length (concat (lut_table l')) = Suc (length (concat (lut_table l)))"
    using nodes by (metis size_mset size_add_mset)
  ultimately have "unat (lut_n l') = length (concat (lut_table l'))"
    using assms(1) by (simp add: l'_def lut_wf_def)
  moreover have "placed (lut_size l') (lut_table l')"
    using placed by (simp add: l'_def placed_append)
  ultimately have "lut_wf l'"
    using assms(1,3) chains by (simp add: lut_wf_def)
  with chains nodes show ?thesis by blast
qed

lemma overwrite_node_props:
  fixes i :: lut_id and data :: u64 and flag :: lut_flags
  assumes "lut_wf l"
  defines "b \<equiv> lut_bucket (lut_size l) (ucast (lut_id_get_hash i))"
    and "f \<equiv> \<lambda>x. x\<lparr>ndata := data, nflags := flag\<rparr>"
  defines "l' \<equiv> l\<lparr>lut_table := (lut_table l)[b := set_first (\<lambda>x. nid x = i) f (lut_table l ! b)]\<rparr>"
  shows "lut_wf l' \<and>
    mset (concat (lut_table l')) + mset (lut_table l ! b) =
      mset (concat (lut_table l)) + mset (set_first (\<lambda>x. nid x = i) f (lut_table l ! b)) \<and>
    chain l' h = (if h = ucast (lut_id_get_hash i) then set_first (\<lambda>x. nid x = i) f (chain l h) else chain l h)"
proof -
  have placed: "placed (lut_size l) (lut_table l)"
    using assms(1) by (simp add: lut_wf_def)
  then have b: "b < length (lut_table l)"
    by (simp add: b_def placed_bucket)
  have f: "nid (f x) = nid x" "nkey (f x) = nkey x" "node_hash (f x) = node_hash x" for x
    by (simp_all add: f_def node_hash_def)
  have "filter (\<lambda>x. node_hash x = h) (set_first (\<lambda>x. nid x = i) f (lut_table l ! b)) =
      (if h = ucast (lut_id_get_hash i) then set_first (\<lambda>x. nid x = i) f
         (filter (\<lambda>x. node_hash x = h) (lut_table l ! b))
       else filter (\<lambda>x. node_hash x = h) (lut_table l ! b))" for h
    by (auto simp: f node_hash_def intro!: filter_set_first filter_set_first_other)
  then have chains: "chain l' h = (if h = ucast (lut_id_get_hash i)
      then set_first (\<lambda>x. nid x = i) f (chain l h) else chain l h)" for h
    using b by (auto simp: chain_def l'_def nth_list_update b_def)
  have "placed (lut_size l') (lut_table l')"
    using placed f b by (auto simp: placed_def l'_def nth_list_update set_first_ball)
  moreover have nodes: "mset (concat (lut_table l')) + mset (lut_table l ! b) =
      mset (concat (lut_table l)) + mset (set_first (\<lambda>x. nid x = i) f (lut_table l ! b))"
    using mset_concat_update [OF b] by (simp add: l'_def)
  moreover have "length (concat (lut_table l')) = length (concat (lut_table l))"
    using arg_cong [OF nodes, of size] by (simp only: size_union size_mset length_set_first)
  moreover have "chain_ok h (chain l' h)" for h
    using assms(1) f by (auto simp: chains lut_wf_def chain_ok_def map_set_first set_first_ball)
  moreover have "lut_n l' = lut_n l" by (simp add: l'_def)
  ultimately have "lut_wf l'"
    using assms(1) by (simp add: lut_wf_def)
  with chains nodes show ?thesis by blast
qed

text \<open>
  Room for one more insertion: growing does not overflow the size to zero, and for a key
  that is not in the table yet neither the counter nor the overlap number wraps.
\<close>

definition lut_room :: "lut \<Rightarrow> string \<Rightarrow> bool" where
  "lut_room l key \<longleftrightarrow> lut_size l * 4 \<noteq> 0 \<and>
     (find (\<lambda>x. nkey x = key) (chain l (str_hash key)) = None \<longrightarrow>
        unat (lut_n l) + 1 < 2 ^ 32 \<and> length (chain l (str_hash key)) < 2 ^ 16)"

definition user_flags :: "lut_flags \<Rightarrow> bool" where
  "user_flags u \<longleftrightarrow> \<not> flag_set u LUT_FLAG_NOT_FOUND"

lemma flag_set_simps [simp]:
  "flag_set (LUT_FLAG_NOT_FOUND OR u) LUT_FLAG_NOT_FOUND"
  "flag_set (LUT_FLAG_EXISTS OR u) LUT_FLAG_EXISTS"
  "user_flags u \<Longrightarrow> \<not> flag_set (LUT_FLAG_EXISTS OR u) LUT_FLAG_NOT_FOUND"
proof -
  have "bit (LUT_FLAG_NOT_FOUND OR u) 0 \<and> bit LUT_FLAG_NOT_FOUND 0"
    "bit (LUT_FLAG_EXISTS OR u) 1 \<and> bit LUT_FLAG_EXISTS 1"
    by (simp_all add: lut_flag_defs bit_simps)
  then show "flag_set (LUT_FLAG_NOT_FOUND OR u) LUT_FLAG_NOT_FOUND"
    "flag_set (LUT_FLAG_EXISTS OR u) LUT_FLAG_EXISTS"
    unfolding flag_set_def by (metis bit_0_eq bit_and_iff bot_apply bot_bool_def)+
  show "user_flags u \<Longrightarrow> \<not> flag_set (LUT_FLAG_EXISTS OR u) LUT_FLAG_NOT_FOUND"
    by (simp add: user_flags_def flag_set_def bit.conj_disj_distrib2)
      (simp add: lut_flag_defs)
qed

lemma swap_mset:
  assumes "M' + B = M + B'" "add_mset x B' = add_mset y B"
  shows "add_mset x M' = add_mset y M"
proof -
  have "add_mset x M' + B = add_mset y M + B"
    using assms by (metis add_mset_add_single union_mset_add_mset_left union_mset_add_mset_right)
  then show ?thesis by simp
qed

lemma grow_result:
  assumes "lut_wf l" "lut_size l * 4 \<noteq> 0"
  obtains l1 where "lut_grow l = Inr l1" "lut_wf l1" "lut_n l1 = lut_n l" "lut_size l1 \<noteq> 0"
    "\<And>h. chain l1 h = chain l h" "mset (concat (lut_table l1)) = mset (concat (lut_table l))"
proof (cases "lut_realloc_at l \<le> ucast (lut_n l + 1)")
  case True
  from assms(2) have "0 < lut_size l * 4" by (simp add: word_gt_0)
  from realloc_result [OF assms(1) this] obtain l' where "lut_realloc (lut_size l * 4) l = Inr l'"
    "lut_wf l'" "lut_size l' = lut_size l * 4" "lut_n l' = lut_n l" "\<And>h. chain l' h = chain l h"
    "mset (concat (lut_table l')) = mset (concat (lut_table l))"
    by metis
  with True assms(2) that show thesis by (simp add: lut_grow_def)
next
  case False
  moreover have "lut_size l \<noteq> 0" using assms(2) by auto
  ultimately show thesis using assms(1) that by (simp add: lut_grow_def)
qed

lemma insert_id_new:
  fixes data :: u64 and u :: lut_flags
  assumes "lut_wf l" "lut_room l key" "lut_get_id l key = (i, LUT_FLAG_NOT_FOUND)"
  defines "x \<equiv> \<lparr>nid = i, nkey = key, ndata = data, nflags = LUT_FLAG_NOT_FOUND OR u\<rparr>"
  obtains l1 l' where "lut_grow l = Inr l1"
    "lut_insert_id key data i (LUT_FLAG_NOT_FOUND OR u) (l, r) =
       Inr (l', data_incref (LUT_FLAG_NOT_FOUND OR u) data r)"
    "lut_wf l'" "lut_n l' = lut_n l + 1" "lut_size l' = lut_size l1"
    "lut_realloc_at l' = lut_realloc_at l1"
    "\<And>h. chain l' h = (if h = str_hash key then chain l h @ [x] else chain l h)"
    "mset (concat (lut_table l')) = add_mset x (mset (concat (lut_table l)))"
proof -
  let ?h = "str_hash key"
  have none: "find (\<lambda>x. nkey x = key) (chain l ?h) = None"
    and i: "i = lut_make_id ?h (word_of_nat (length (chain l ?h)))"
    using assms(3) by (auto simp: lut_get_id_chain lut_flag_defs split: option.splits)
  then have room: "unat (lut_n l) + 1 < 2 ^ 32" "length (chain l ?h) < 2 ^ 16" "lut_size l * 4 \<noteq> 0"
    using assms(2) by (auto simp: lut_room_def)
  obtain l1 where l1: "lut_grow l = Inr l1" "lut_wf l1" "lut_n l1 = lut_n l" "lut_size l1 \<noteq> 0"
    "\<And>h. chain l1 h = chain l h" "mset (concat (lut_table l1)) = mset (concat (lut_table l))"
    using grow_result [OF assms(1) room(3)] by metis
  have hash: "node_hash x = ?h" by (simp add: x_def node_hash_def i ucast_ucast_u32)
  have "chain_ok ?h (chain l ?h @ [x])"
    using assms(1) room none i
    by (intro chain_ok_snoc [where key = key]) (auto simp: lut_wf_def x_def find_None_iff)
  then have "chain_ok (node_hash x) (chain l1 (node_hash x) @ [x])"
    "unat (lut_n l1) + 1 < 2 ^ 32" "node_hash x = str_hash (nkey x)"
    using room l1 hash by (simp_all add: x_def)
  note props = append_node_props [OF l1(2) this(3) this(1) this(2), unfolded hash]
  show thesis
    by (rule that [of l1 "l1\<lparr>lut_table := lut_append (lut_bucket (lut_size l1) ?h) x (lut_table l1),
      lut_n := lut_n l1 + 1\<rparr>"])
      (use props l1 in \<open>auto simp: lut_insert_id_def Let_def x_def i ucast_ucast_u32\<close>)
qed

lemma insert_id_exists:
  fixes data :: u64 and u :: lut_flags
  assumes "lut_wf l" "lut_room l key" "lut_get_id l key = (i, LUT_FLAG_EXISTS)" "user_flags u"
  defines "fl \<equiv> LUT_FLAG_EXISTS OR u"
  obtains l1 l' cur where "lut_grow l = Inr l1"
    "find (\<lambda>x. nkey x = key) (chain l (str_hash key)) = Some cur" "nid cur = i"
    "lut_insert_id key data i fl (l, r) = Inr (l', data_decref fl data
       (if data \<noteq> ndata cur
        then data_decref (nflags cur) (ndata cur) (data_incref fl data (data_incref fl data r))
        else data_incref fl data r))"
    "lut_wf l'" "lut_n l' = lut_n l" "lut_size l' = lut_size l1" "lut_realloc_at l' = lut_realloc_at l1"
    "\<And>h. chain l' h = (if h = str_hash key
       then set_first (\<lambda>x. nid x = i) (\<lambda>x. x\<lparr>ndata := data, nflags := fl\<rparr>) (chain l h) else chain l h)"
    "add_mset cur (mset (concat (lut_table l'))) =
       add_mset (cur\<lparr>ndata := data, nflags := fl\<rparr>) (mset (concat (lut_table l)))"
proof -
  let ?h = "str_hash key" and ?f = "\<lambda>x. x\<lparr>ndata := data, nflags := fl\<rparr>"
  obtain cur where cur: "find (\<lambda>x. nkey x = key) (chain l ?h) = Some cur" "nid cur = i"
    using assms(3) by (auto simp: lut_get_id_chain lut_flag_defs split: option.splits)
  have hash: "ucast (lut_id_get_hash i) = ?h"
    using lut_get_id_hash [of l key] assms(3) by simp
  obtain l1 where l1: "lut_grow l = Inr l1" "lut_wf l1" "lut_n l1 = lut_n l" "lut_size l1 \<noteq> 0"
    "\<And>h. chain l1 h = chain l h" "mset (concat (lut_table l1)) = mset (concat (lut_table l))"
    using assms(2) grow_result [OF assms(1)] by (metis lut_room_def)
  define b where "b = lut_table l1 ! lut_bucket (lut_size l1) ?h"
  define l' where "l' = l1\<lparr>lut_table := (lut_table l1)[lut_bucket (lut_size l1) ?h :=
    set_first (\<lambda>x. nid x = i) ?f b]\<rparr>"
  have "cur \<in> set (chain l ?h)" using cur by (auto dest: find_SomeD)
  moreover have "distinct (map nid (chain l ?h))"
    using assms(1) by (auto simp: lut_wf_def intro: chain_ok_distinct)
  ultimately have "find (\<lambda>x. nid x = i) (chain l1 ?h) = Some cur"
    using find_distinct_map [of nid "chain l ?h" cur] cur(2) by (simp add: l1)
  then have bucket: "find (\<lambda>x. nid x = i) b = Some cur"
    using find_bucket [of i l1] hash by (simp add: b_def)
  have props: "lut_wf l' \<and> mset (concat (lut_table l')) + mset b =
        mset (concat (lut_table l)) + mset (set_first (\<lambda>x. nid x = i) ?f b) \<and>
      chain l' h = (if h = ?h then set_first (\<lambda>x. nid x = i) ?f (chain l h) else chain l h)" for h
    using overwrite_node_props [OF l1(2), where i = i and data = data and flag = fl and h = h] hash l1
    by (simp add: l'_def b_def)
  have nodes: "add_mset cur (mset (concat (lut_table l'))) = add_mset (?f cur) (mset (concat (lut_table l)))"
    by (rule swap_mset [OF _ mset_set_first [OF bucket, of ?f]]) (use props in blast)
  moreover have "b \<noteq> []" using bucket by auto
  then have "lut_insert_id key data i fl (l, r) = Inr (l', data_decref fl data
     (if data \<noteq> ndata cur
      then data_decref (nflags cur) (ndata cur) (data_incref fl data (data_incref fl data r))
      else data_incref fl data r))"
    using l1(1,4) hash bucket assms(4)
    by (simp add: lut_insert_id_def Let_def fl_def b_def l'_def)
  moreover have "lut_n l' = lut_n l" "lut_size l' = lut_size l1" "lut_realloc_at l' = lut_realloc_at l1"
    by (simp_all add: l'_def l1)
  ultimately show thesis using props that l1(1) cur by blast
qed

lemma lut_wf_new: "0 < sz \<Longrightarrow> lut_wf (lut_new sz)"
  by (auto simp: lut_wf_def lut_new_def placed_replicate chain_def lut_bucket_bound chain_ok_def)

lemma chain_new: "0 < sz \<Longrightarrow> chain (lut_new sz) h = []"
  by (simp add: chain_def lut_new_def lut_bucket_bound)

lemma lut_get_id_new:
  "0 < sz \<Longrightarrow> lut_get_id (lut_new sz) k = (lut_make_id (str_hash k) 0, LUT_FLAG_NOT_FOUND)"
  by (simp add: lut_get_id_chain chain_new)

lemma lut_entries_new: "0 < sz \<Longrightarrow> lut_entries (lut_new sz) = Map.empty"
  by (simp add: fun_eq_iff lut_entries_def chain_def lut_new_def lut_bucket_bound)

lemma lut_entries_iff:
  assumes "lut_wf l"
  shows "lut_get_id l k = (i, LUT_FLAG_EXISTS) \<longleftrightarrow> (\<exists>d f. lut_entries l i = Some (k, d, f))"
proof
  assume id: "lut_get_id l k = (i, LUT_FLAG_EXISTS)"
  then obtain x where x: "find (\<lambda>x. nkey x = k) (chain l (str_hash k)) = Some x" "nid x = i"
    by (auto simp: lut_get_id_chain lut_flag_defs split: option.splits)
  have "distinct (map nid (chain l (str_hash k)))"
    using assms by (auto simp: lut_wf_def intro: chain_ok_distinct)
  with x have "find (\<lambda>y. nid y = nid x) (chain l (str_hash k)) = Some x"
    by (intro find_distinct_map) (auto dest: find_SomeD)
  moreover have "ucast (lut_id_get_hash i) = str_hash k"
    using lut_get_id_hash [of l k] id by simp
  ultimately show "\<exists>d f. lut_entries l i = Some (k, d, f)"
    using x find_SomeD [OF x(1)] by (auto simp: lut_entries_def)
next
  assume "\<exists>d f. lut_entries l i = Some (k, d, f)"
  then obtain x where x: "find (\<lambda>x. nid x = i) (chain l (ucast (lut_id_get_hash i))) = Some x" "nkey x = k"
    by (auto simp: lut_entries_def)
  let ?h = "ucast (lut_id_get_hash i) :: u32"
  have "chain_ok ?h (chain l ?h)" using assms by (simp add: lut_wf_def)
  with x have "str_hash k = ?h" "distinct (map nkey (chain l ?h))"
    by (auto simp: chain_ok_def dest: find_SomeD)
  with x have "find (\<lambda>y. nkey y = nkey x) (chain l (str_hash k)) = Some x"
    by (intro find_distinct_map) (auto dest: find_SomeD)
  with x find_SomeD [OF x(1)] show "lut_get_id l k = (i, LUT_FLAG_EXISTS)"
    by (simp add: lut_get_id_chain)
qed

lemma lut_fresh_id:
  assumes "lut_wf l" "lut_room l k" "lut_get_id l k = (i, LUT_FLAG_NOT_FOUND)"
  shows "lut_entries l i = None"
proof -
  let ?xs = "chain l (str_hash k)"
  have i: "i = lut_make_id (str_hash k) (word_of_nat (length ?xs))" and len: "length ?xs < 2 ^ 16"
    using assms(2,3) by (auto simp: lut_get_id_chain lut_flag_defs lut_room_def split: option.splits)
  have ok: "chain_ok (str_hash k) ?xs" using assms(1) by (simp add: lut_wf_def)
  have "nid x \<noteq> i" if "x \<in> set ?xs" for x
  proof -
    from that obtain j where j: "j < length ?xs" "x = ?xs ! j" by (auto simp: in_set_conv_nth)
    then have "(word_of_nat j :: u16) \<noteq> word_of_nat (length ?xs)"
      using len u16_inj [of j "length ?xs"] by auto
    with j ok i show ?thesis by (simp add: chain_ok_nid)
  qed
  then show ?thesis
    by (auto simp: lut_entries_def i ucast_ucast_u32 find_None_iff)
qed

lemma lut_entries_cong:
  "(\<And>h. chain l' h = chain l h) \<Longrightarrow> lut_entries l' = lut_entries l"
  by (simp add: fun_eq_iff lut_entries_def)

text \<open>\<open>lut_insert_id\<close> with the id and flag of \<open>lut_get_id\<close>, as \<open>lut_insert\<close> and the callers use it.\<close>

lemma insert_id_result:
  assumes "lut_wf l" "lut_room l k" "user_flags u" "lut_get_id l k = (i, fl)"
  shows "\<exists>l' r'. lut_insert_id k d i (fl OR u) (l, r) = Inr (l', r') \<and> lut_wf l' \<and>
    lut_entries l' = (lut_entries l)(i \<mapsto> (k, d, fl OR u))"
proof -
  have hash: "ucast (lut_id_get_hash i) = str_hash k"
    using lut_get_id_hash [of l k] assms(4) by simp
  consider "fl = LUT_FLAG_NOT_FOUND" | "fl = LUT_FLAG_EXISTS"
    using assms(4) by (auto simp: lut_get_id_chain split: option.splits)
  then show ?thesis
  proof cases
    case 1
    have fresh: "lut_entries l i = None"
      using lut_fresh_id assms(1,2,4) 1 by blast
    show ?thesis
    proof (rule insert_id_new [OF assms(1,2) assms(4) [unfolded 1], of d u r])
      fix l1 l'
      assume ins: "lut_insert_id k d i (LUT_FLAG_NOT_FOUND OR u) (l, r) =
          Inr (l', data_incref (LUT_FLAG_NOT_FOUND OR u) d r)" "lut_wf l'"
        and chains: "\<And>h. chain l' h = (if h = str_hash k then chain l h @
          [\<lparr>nid = i, nkey = k, ndata = d, nflags = LUT_FLAG_NOT_FOUND OR u\<rparr>] else chain l h)"
      have "lut_entries l' j = ((lut_entries l)(i \<mapsto> (k, d, fl OR u))) j" for j
        using fresh hash by (auto simp: lut_entries_def chains find_append 1 split: option.splits)
      with ins 1 show ?thesis by auto
    qed
  next
    case 2
    obtain d0 f0 where old: "lut_entries l i = Some (k, d0, f0)"
      using lut_entries_iff [OF assms(1)] assms(4) 2 by metis
    show ?thesis
    proof (rule insert_id_exists [OF assms(1,2) assms(4) [unfolded 2] assms(3), of d r])
      fix l1 l' cur
      assume ins: "lut_insert_id k d i (LUT_FLAG_EXISTS OR u) (l, r) = Inr (l', data_decref (LUT_FLAG_EXISTS OR u) d
         (if d \<noteq> ndata cur then data_decref (nflags cur) (ndata cur)
            (data_incref (LUT_FLAG_EXISTS OR u) d (data_incref (LUT_FLAG_EXISTS OR u) d r))
          else data_incref (LUT_FLAG_EXISTS OR u) d r))" "lut_wf l'"
        and chains: "\<And>h. chain l' h = (if h = str_hash k then set_first (\<lambda>x. nid x = i)
          (\<lambda>x. x\<lparr>ndata := d, nflags := LUT_FLAG_EXISTS OR u\<rparr>) (chain l h) else chain l h)"
      have "lut_entries l' j = ((lut_entries l)(i \<mapsto> (k, d, fl OR u))) j" for j
        using hash old by (auto simp: lut_entries_def chains find_set_first 2)
      with ins 2 show ?thesis by auto
    qed
  qed
qed

section \<open>The table implements the id-table interface\<close>

text \<open>
  The table as its clients use it: the state is the table with the reference counts, data
  are stored as Python objects, and flags are read as "the key exists".
\<close>

definition lut_find :: "lut \<times> refs \<Rightarrow> string \<Rightarrow> lut_id \<times> bool" where
  "lut_find s k = (case lut_get_id (fst s) k of (i, fl) \<Rightarrow> (i, flag_set fl LUT_FLAG_EXISTS))"

definition lut_contents :: "lut \<times> refs \<Rightarrow> lut_id \<rightharpoonup> string \<times> u64" where
  "lut_contents s i = map_option (\<lambda>(k, d, f). (k, d)) (lut_entries (fst s) i)"

lemma user_flags_python [simp]: "user_flags LUT_FLAG_PYTHON"
  by (simp add: user_flags_def flag_set_def lut_flag_defs)

lemma lut_find_cases:
  "lut_find s k = (i, True) \<longleftrightarrow> lut_get_id (fst s) k = (i, LUT_FLAG_EXISTS)"
  "lut_find s k = (i, False) \<longleftrightarrow> lut_get_id (fst s) k = (i, LUT_FLAG_NOT_FOUND)"
  by (auto simp: lut_find_def lut_get_id_chain flag_set_def lut_flag_defs split: option.splits)

lemma lut_id_table:
  assumes "user_flags u"
  shows "id_table (\<lambda>s. lut_wf (fst s)) (\<lambda>s. lut_room (fst s)) lut_contents lut_find (\<lambda>k d. lut_insert k d u)"
proof
  fix s :: "lut \<times> refs" and k d
  assume wf: "lut_wf (fst s)" and room: "lut_room (fst s) k"
  obtain l r i fl where s: "s = (l, r)" and id: "lut_get_id l k = (i, fl)"
    by (metis surj_pair)
  from insert_id_result [OF _ _ assms id, of d r] wf room
  obtain l' r' where "lut_insert_id k d i (fl OR u) (l, r) = Inr (l', r')" "lut_wf l'"
    "lut_entries l' = (lut_entries l)(i \<mapsto> (k, d, fl OR u))"
    by (auto simp: s)
  then show "\<exists>s'. lut_insert k d u s = Inr (fst (lut_find s k), s') \<and> lut_wf (fst s') \<and>
      lut_contents s' = (lut_contents s)(fst (lut_find s k) \<mapsto> (k, d))"
    by (auto simp: s lut_insert_def id lut_find_def lut_contents_def fun_eq_iff)
next
  fix s :: "lut \<times> refs" and k i
  assume "lut_wf (fst s)"
  from lut_entries_iff [OF this, of k i]
  show "(lut_find s k = (i, True)) = (\<exists>d. lut_contents s i = Some (k, d))"
    by (auto simp: lut_find_cases lut_contents_def)
next
  fix s :: "lut \<times> refs" and k i
  assume "lut_wf (fst s)" "lut_room (fst s) k" "lut_find s k = (i, False)"
  then show "lut_contents s i = None"
    using lut_fresh_id by (simp add: lut_find_cases lut_contents_def)
qed

interpretation lt: id_table "\<lambda>s. lut_wf (fst s)" "\<lambda>s. lut_room (fst s)" lut_contents lut_find
  "\<lambda>k d. lut_insert k d LUT_FLAG_PYTHON"
  by (rule lut_id_table) simp

section \<open>Reference counts\<close>

text \<open>The references that a list of nodes holds on the object at an address.\<close>

definition holds_py :: "u64 \<Rightarrow> lut_node \<Rightarrow> bool" where
  "holds_py p x \<longleftrightarrow> ndata x = p \<and> p \<noteq> 0 \<and> flag_set (nflags x) LUT_FLAG_PYTHON"

definition holds_obj :: "u64 \<Rightarrow> lut_node \<Rightarrow> bool" where
  "holds_obj p x \<longleftrightarrow> ndata x = p \<and> p \<noteq> 0 \<and>
     \<not> flag_set (nflags x) LUT_FLAG_PYTHON \<and> flag_set (nflags x) LUT_FLAG_REFERENCE"

definition lut_nodes :: "lut \<Rightarrow> lut_node multiset" where
  "lut_nodes l = mset (concat (lut_table l))"

text \<open>\<open>r\<close> is \<open>r0\<close> plus exactly one reference per node that holds one.\<close>

definition lut_owns :: "lut \<Rightarrow> refs \<Rightarrow> refs \<Rightarrow> bool" where
  "lut_owns l r0 r \<longleftrightarrow> (\<forall>p.
     py_refs r p = py_refs r0 p + int (size (filter_mset (holds_py p) (lut_nodes l))) \<and>
     obj_refs r p = obj_refs r0 p + int (size (filter_mset (holds_obj p) (lut_nodes l))))"

definition same_kind :: "lut_flags \<Rightarrow> lut_flags \<Rightarrow> bool" where
  "same_kind f g \<longleftrightarrow> flag_set f LUT_FLAG_PYTHON = flag_set g LUT_FLAG_PYTHON \<and>
     flag_set f LUT_FLAG_REFERENCE = flag_set g LUT_FLAG_REFERENCE"

lemma data_add_ref_refs [simp]:
  "py_refs (data_add_ref c fl d r) p =
     py_refs r p + (if p = d \<and> d \<noteq> 0 \<and> flag_set fl LUT_FLAG_PYTHON then c else 0)"
  "obj_refs (data_add_ref c fl d r) p = obj_refs r p + (if p = d \<and> d \<noteq> 0 \<and>
     \<not> flag_set fl LUT_FLAG_PYTHON \<and> flag_set fl LUT_FLAG_REFERENCE then c else 0)"
  by (auto simp: data_add_ref_def)

lemma flag_set_or: "flag_set (f OR g) m \<longleftrightarrow> flag_set f m \<or> flag_set g m"
proof -
  have "(f OR g) AND m = (f AND m) OR (g AND m)" by (rule bit.conj_disj_distrib2)
  then show ?thesis by (simp add: flag_set_def or_eq_0_iff)
qed

lemma found_flags_kind [simp]:
  "\<not> flag_set LUT_FLAG_NOT_FOUND LUT_FLAG_PYTHON" "\<not> flag_set LUT_FLAG_EXISTS LUT_FLAG_PYTHON"
  "\<not> flag_set LUT_FLAG_NOT_FOUND LUT_FLAG_REFERENCE" "\<not> flag_set LUT_FLAG_EXISTS LUT_FLAG_REFERENCE"
  by (simp_all add: flag_set_def lut_flag_defs)

lemma insert_new_owns:
  assumes "lut_owns l r0 r" "lut_nodes l' = add_mset x (lut_nodes l)"
  shows "lut_owns l' r0 (data_incref (nflags x) (ndata x) r)"
  using assms by (simp add: lut_owns_def data_incref_def holds_py_def holds_obj_def)

lemma insert_exists_owns:
  assumes "lut_owns l r0 r" "add_mset x (lut_nodes l') = add_mset x' (lut_nodes l)"
    and "ndata x' = d" "nflags x' = fl" "ndata x = d \<longrightarrow> same_kind (nflags x) fl"
  shows "lut_owns l' r0 (data_decref fl d
    (if d \<noteq> ndata x then data_decref (nflags x) (ndata x) (data_incref fl d (data_incref fl d r))
     else data_incref fl d r))"
proof -
  have swap: "int (size (filter_mset P (lut_nodes l'))) =
      int (size (filter_mset P (lut_nodes l))) + of_bool (P x') - of_bool (P x)" for P
    using arg_cong [OF assms(2), of "\<lambda>M. size (filter_mset P M)"] by auto
  show ?thesis
    using assms(1,3-5)
    by (auto simp: lut_owns_def swap data_incref_def data_decref_def holds_py_def holds_obj_def same_kind_def)
qed

lemma lut_node_free_refs:
  "py_refs (lut_node_free xs r) p = py_refs r p - int (size (filter_mset (holds_py p) (mset xs)))"
  "obj_refs (lut_node_free xs r) p = obj_refs r p - int (size (filter_mset (holds_obj p) (mset xs)))"
  by (induction xs) (auto simp: data_decref_def holds_py_def holds_obj_def)

lemma fold_free_refs:
  "py_refs (fold lut_node_free xss r) p = py_refs r p - int (size (filter_mset (holds_py p) (mset (concat xss))))"
  "obj_refs (fold lut_node_free xss r) p = obj_refs r p - int (size (filter_mset (holds_obj p) (mset (concat xss))))"
  by (induction xss arbitrary: r) (auto simp: lut_node_free_refs)

section \<open>Properties\<close>

lemma insert_full:
  assumes "lut_wf l" "lut_room l k" "user_flags u"
  shows "\<exists>i l' r'. lut_insert k d u (l, r) = Inr (i, l', r') \<and> lut_wf l' \<and>
    lut_entries l' = (lut_entries l)(i \<mapsto> (k, d, snd (lut_get_id l k) OR u)) \<and>
    i = fst (lut_get_id l k) \<and> lut_get l' i = d \<and> lut_get_key l' i = Some k \<and>
    lut_get_id l' k = (i, LUT_FLAG_EXISTS)"
proof -
  obtain i fl where id: "lut_get_id l k = (i, fl)" by (metis surj_pair)
  from insert_id_result [OF assms id, of d r] obtain l' r' where
    l': "lut_insert_id k d i (fl OR u) (l, r) = Inr (l', r')" "lut_wf l'"
    "lut_entries l' = (lut_entries l)(i \<mapsto> (k, d, fl OR u))" by blast
  then show ?thesis
    using lut_entries_iff [OF l'(2), of k i]
    by (auto simp: lut_insert_def id lut_get_entries lut_get_key_entries)
qed

text \<open>
  C20: inserting a key always succeeds while there is room, keeps the table well formed,
  and changes the contents at exactly one id: afterwards that id reads back the data and
  the key, the key reads back the id, and every other id is untouched, whether or not
  the insertion made the table grow.
\<close>

theorem lut_insert_result:
  assumes "lut_wf l" "lut_room l k" "user_flags u"
  shows "\<exists>i l' r'. lut_insert k d u (l, r) = Inr (i, l', r') \<and> lut_wf l' \<and>
    lut_entries l' = (lut_entries l)(i \<mapsto> (k, d, snd (lut_get_id l k) OR u)) \<and>
    i = fst (lut_get_id l k) \<and> lut_get l' i = d \<and> lut_get_key l' i = Some k \<and>
    lut_get_id l' k = (i, LUT_FLAG_EXISTS)"
  using assms by (rule insert_full)

lemma room_new: "0 < sz \<Longrightarrow> sz * 4 \<noteq> 0 \<Longrightarrow> lut_room (lut_new sz) k"
  by (simp add: lut_room_def lut_new_def chain_def lut_bucket_bound)

theorem lut_insert_result_witness:
  "\<exists>i l' r'. lut_insert ''key'' 0xfafbef0adccccccc 0 (lut_new 32, \<lparr>py_refs = \<lambda>_. 0, obj_refs = \<lambda>_. 0\<rparr>) =
     Inr (i, l', r') \<and> lut_get l' i = 0xfafbef0adccccccc"
  using lut_insert_result [OF lut_wf_new [of 32] room_new [of 32 "''key''"], of 0]
  by (fastforce simp: user_flags_def flag_set_def)

text \<open>
  An id is stable. After any further insertion, every key that was in the table still has the id it
  had, and that id still reads the same key and data, unless the key itself was inserted again,
  when it reads the new data.
\<close>

lemma insert_keeps_ids:
  assumes "lut_wf l" "lut_room l k" "user_flags u" "lut_insert k d u (l, r) = Inr (i, l', r')"
    and "lut_get_id l k' = (j, LUT_FLAG_EXISTS)"
  shows "lut_get_id l' k' = (j, LUT_FLAG_EXISTS)" "lut_get_key l' j = Some k'"
    "lut_get l' j = (if k' = k then d else lut_get l j)"
proof -
  note table = lut_id_table [OF assms(3)]
  from assms(5) have "lut_find (l, r) k' = (j, True)" by (simp add: lut_find_cases)
  moreover obtain d' where d': "lut_contents (l, r) j = Some (k', d')"
    using id_table.find_id_iff [OF table, of "(l, r)" k' j] calculation assms(1) by auto
  ultimately have "lut_find (l', r') k' = (j, True)"
    "lut_contents (l', r') j = Some (k', if k' = k then d else d')"
    using id_table.store_keeps_find [OF table, of "(l, r)" k d i "(l', r')" k' j]
      id_table.store_keeps_ids [OF table, of "(l, r)" k d i "(l', r')" j k' d'] assms(1,2,4) by auto
  with d' show "lut_get_id l' k' = (j, LUT_FLAG_EXISTS)" "lut_get_key l' j = Some k'"
    "lut_get l' j = (if k' = k then d else lut_get l j)"
    by (auto simp: lut_find_cases lut_contents_def lut_get_entries lut_get_key_entries)
qed

lemmas scaled_eval = scaled_def f64_trunc_def f64_mult_def f64_of_nat_def round53_def
  round_shift_def LUT_THRESHOLD_def bit_len.simps

lemma scaled_512: "scaled LUT_THRESHOLD 512 = 358"
  by (simp add: scaled_eval)

text \<open>
  C21: growing the table is invisible. For every positive new size \<^verbatim>\<open>lut_realloc\<close> passes its
  assertion and yields a well-formed table of that size with the same number of nodes,
  the same contents under every id and the same id for every key, present or not.
\<close>

theorem lut_realloc_preserves:
  assumes "lut_wf l" "0 < sz"
  shows "\<exists>l'. lut_realloc sz l = Inr l' \<and> lut_wf l' \<and> lut_size l' = sz \<and> lut_n l' = lut_n l \<and>
    lut_entries l' = lut_entries l \<and> (\<forall>k. lut_get_id l' k = lut_get_id l k)"
proof -
  from realloc_result [OF assms] obtain l' where "lut_realloc sz l = Inr l'" "lut_wf l'"
    "lut_size l' = sz" "lut_n l' = lut_n l" "\<And>h. chain l' h = chain l h" by blast
  moreover from this(5) have "lut_get_id l' k = lut_get_id l k" for k
    by (simp add: lut_get_id_chain split: option.split)
  ultimately show ?thesis by (auto cong: lut_entries_cong)
qed

theorem lut_realloc_preserves_witness:
  "\<exists>l'. lut_realloc 128 (lut_new 32) = Inr l' \<and> lut_size l' = 128 \<and> lut_n l' = 0"
  using lut_realloc_preserves [OF lut_wf_new [of 32], of 128] by (fastforce simp: lut_new_def)

text \<open>
  Insertion keeps the reference counts exact: if every count is the original count plus
  one per node that refers to the object, this is still so after an insertion. On an
  existing key this needs that storing the same datum again does not change the kind of
  reference that the node holds.
\<close>

theorem lut_insert_refs:
  assumes "lut_wf l" "lut_room l k" "user_flags u" "lut_owns l r0 r"
    and "\<And>f. lut_entries l (fst (lut_get_id l k)) = Some (k, d, f) \<Longrightarrow> same_kind f u"
  shows "\<exists>i l' r'. lut_insert k d u (l, r) = Inr (i, l', r') \<and> lut_owns l' r0 r'"
proof -
  obtain i fl where id: "lut_get_id l k = (i, fl)" by (metis surj_pair)
  then consider "fl = LUT_FLAG_NOT_FOUND" | "fl = LUT_FLAG_EXISTS"
    by (auto simp: lut_get_id_chain split: option.splits)
  then show ?thesis
  proof cases
    case 1
    show ?thesis
      by (rule insert_id_new [OF assms(1,2) id [unfolded 1], of d u r])
        (use insert_new_owns [OF assms(4)] in \<open>force simp: lut_insert_def id 1 lut_nodes_def\<close>)
  next
    case 2
    have kind: "same_kind f (LUT_FLAG_EXISTS OR u)" if "lut_entries l i = Some (k, d, f)" for f
      using assms(5) that id by (simp add: same_kind_def flag_set_or)
    show ?thesis
    proof (rule insert_id_exists [OF assms(1,2) id [unfolded 2] assms(3), of d r])
      fix l1 l' cur
      assume cur: "find (\<lambda>x. nkey x = k) (chain l (str_hash k)) = Some cur" "nid cur = i"
        and ins: "lut_insert_id k d i (LUT_FLAG_EXISTS OR u) (l, r) = Inr (l', data_decref (LUT_FLAG_EXISTS OR u) d
         (if d \<noteq> ndata cur then data_decref (nflags cur) (ndata cur)
            (data_incref (LUT_FLAG_EXISTS OR u) d (data_incref (LUT_FLAG_EXISTS OR u) d r))
          else data_incref (LUT_FLAG_EXISTS OR u) d r))"
        and nodes: "add_mset cur (mset (concat (lut_table l'))) =
          add_mset (cur\<lparr>ndata := d, nflags := LUT_FLAG_EXISTS OR u\<rparr>) (mset (concat (lut_table l)))"
      have "ucast (lut_id_get_hash i) = str_hash k" using lut_get_id_hash [of l k] id by simp
      moreover have "chain_ok (str_hash k) (chain l (str_hash k))"
        using assms(1) by (simp add: lut_wf_def)
      ultimately have "lut_entries l i = Some (k, ndata cur, nflags cur)"
        using find_SomeD [OF cur(1)] cur(2) find_distinct_map [OF chain_ok_distinct, of _ _ cur]
        by (force simp: lut_entries_def)
      then have "ndata cur = d \<longrightarrow> same_kind (nflags cur) (LUT_FLAG_EXISTS OR u)"
        using kind by auto
      from insert_exists_owns [OF assms(4) nodes [folded lut_nodes_def] _ _ this] ins
      show ?thesis by (auto simp: lut_insert_def id 2)
    qed
  qed
qed

lemma owns_new: "0 < sz \<Longrightarrow> lut_owns (lut_new sz) r r"
  by (simp add: lut_owns_def lut_nodes_def lut_new_def)

theorem lut_insert_refs_witness:
  "\<exists>i l' r'. lut_insert ''dev-vcs/git'' 0x1000 LUT_FLAG_PYTHON (lut_new 512, \<lparr>py_refs = \<lambda>_. 1, obj_refs = \<lambda>_. 0\<rparr>) =
     Inr (i, l', r') \<and> lut_owns l' \<lparr>py_refs = \<lambda>_. 1, obj_refs = \<lambda>_. 0\<rparr> r'"
  using lut_insert_refs [OF lut_wf_new [of 512] room_new [of 512 "''dev-vcs/git''"] user_flags_python
      owns_new [of 512 "\<lparr>py_refs = \<lambda>_. 1, obj_refs = \<lambda>_. 0\<rparr>"], of "0x1000"]
  by (simp add: lut_entries_new)

lemma lut_free_owned:
  assumes "lut_owns l r0 r" "unat (lut_size l) < 2 ^ 32"
  shows "lut_free l r = Inr r0"
proof -
  have "fold lut_node_free (lut_table l) r = r0"
    using assms(1)
    by (intro refs.equality) (simp_all add: fun_eq_iff fold_free_refs lut_owns_def lut_nodes_def)
  with assms(2) show ?thesis by (simp add: lut_free_def)
qed

text \<open>
  Freeing a table drops exactly the references it holds, so that every object is left
  with the count it would have had if the table had never existed.
\<close>

theorem lut_free_releases:
  assumes "lut_owns l r0 r" "unat (lut_size l) < 2 ^ 32"
  shows "lut_free l r = Inr r0"
  by (rule lut_free_owned [OF assms])

theorem lut_free_releases_witness:
  "lut_free \<lparr>lut_table = [[\<lparr>nid = 7, nkey = ''k'', ndata = 5, nflags = LUT_FLAG_PYTHON\<rparr>]], lut_n = 1,
      lut_size = 1, lut_realloc_at = 0\<rparr> \<lparr>py_refs = (\<lambda>_. 2)(5 := 3), obj_refs = \<lambda>_. 0\<rparr> =
    Inr \<lparr>py_refs = \<lambda>_. 2, obj_refs = \<lambda>_. 0\<rparr>"
  by (rule lut_free_releases)
    (auto simp: lut_owns_def lut_nodes_def holds_py_def holds_obj_def flag_set_def lut_flag_defs)

text \<open>
  A table is within its load limit when its counter is below \<^verbatim>\<open>realloc_at\<close> and that limit is
  the size scaled by the threshold.
\<close>

definition lut_loaded :: "lut \<Rightarrow> bool" where
  "lut_loaded l \<longleftrightarrow> lut_realloc_at l = scaled LUT_THRESHOLD (lut_size l) \<and>
     unat (lut_n l) < unat (lut_realloc_at l)"

lemma grow_loaded:
  assumes "lut_wf l" "lut_loaded l" "unat (lut_size l) < 2 ^ 60" "lut_grow l = Inr l1"
  shows "lut_realloc_at l1 = scaled LUT_THRESHOLD (lut_size l1) \<and> unat (lut_n l) < unat (lut_realloc_at l1) \<and>
    (unat (lut_n l) + 1 < 2 ^ 32 \<longrightarrow> unat (lut_n l) + 1 < unat (lut_realloc_at l1))"
proof (cases "lut_realloc_at l \<le> ucast (lut_n l + 1)")
  case True
  have "0 < lut_size l" using assms(1) by (simp add: lut_wf_def placed_def)
  then have "0 < unat (lut_size l * 4)"
    using assms(3) by (simp add: unat_word_ariths unat_gt_0)
  then have pos: "0 < lut_size l * 4" by (simp add: unat_gt_0 word_gt_0)
  from realloc_result [OF assms(1) pos] True assms(4)
  have l1: "lut_size l1 = lut_size l * 4" "lut_realloc_at l1 = scaled LUT_THRESHOLD (lut_size l * 4)"
    by (auto simp: lut_grow_def)
  have "4 * unat (lut_realloc_at l) \<le> unat (lut_realloc_at l1)"
    using assms(2,3) scaled_quadruple [of LUT_THRESHOLD "lut_size l"]
    by (simp add: l1 lut_loaded_def LUT_THRESHOLD_def)
  moreover have "unat (lut_n l) < unat (lut_realloc_at l)"
    using assms(2) unfolding lut_loaded_def by blast
  ultimately have "Suc (unat (lut_n l)) < unat (lut_realloc_at l1)" by linarith
  with l1 show ?thesis by simp
next
  case False
  have "unat (lut_n l) + 1 < unat (lut_realloc_at l)" if "unat (lut_n l) + 1 < 2 ^ 32"
  proof -
    have "unat (ucast (lut_n l + 1) :: u64) = unat (lut_n l) + 1"
      using that by (simp add: unat_word_ariths)
    with False show ?thesis by (simp add: word_le_nat_alt)
  qed
  moreover have "l1 = l" using False assms(4) by (simp add: lut_grow_def)
  ultimately show ?thesis using assms(2) unfolding lut_loaded_def by blast
qed

text \<open>
  the load limit is an invariant of insertion: after every insertion the number of
  nodes is again below seven tenths (as a double, truncated) of the number of buckets.
\<close>

theorem lut_insert_loaded:
  assumes "lut_wf l" "lut_room l k" "user_flags u" "lut_loaded l" "unat (lut_size l) < 2 ^ 60"
  shows "\<exists>i l' r'. lut_insert k d u (l, r) = Inr (i, l', r') \<and> lut_loaded l'"
proof -
  obtain i fl where id: "lut_get_id l k = (i, fl)" by (metis surj_pair)
  then consider "fl = LUT_FLAG_NOT_FOUND" | "fl = LUT_FLAG_EXISTS"
    by (auto simp: lut_get_id_chain split: option.splits)
  then show ?thesis
  proof cases
    case 1
    then have n: "unat (lut_n l) + 1 < 2 ^ 32"
      using assms(2) id by (auto simp: lut_room_def lut_get_id_chain lut_flag_defs split: option.splits)
    then have n1: "unat (lut_n l + 1) = unat (lut_n l) + 1" by (simp add: unat_word_ariths)
    show ?thesis
    proof (rule insert_id_new [OF assms(1,2) id [unfolded 1], of d u r])
      fix l1 l' assume "lut_grow l = Inr l1" and ins: "lut_insert_id k d i (LUT_FLAG_NOT_FOUND OR u) (l, r) =
          Inr (l', data_incref (LUT_FLAG_NOT_FOUND OR u) d r)"
        and l': "lut_n l' = lut_n l + 1" "lut_size l' = lut_size l1" "lut_realloc_at l' = lut_realloc_at l1"
      from grow_loaded [OF assms(1,4,5) this(1)] n have "lut_loaded l'"
        unfolding lut_loaded_def l' n1 by blast
      with ins show ?thesis by (simp add: lut_insert_def id 1)
    qed
  next
    case 2
    show ?thesis
    proof (rule insert_id_exists [OF assms(1,2) id [unfolded 2] assms(3), of d r])
      fix l1 l' cur r1 assume "lut_grow l = Inr l1"
        and ins: "lut_insert_id k d i (LUT_FLAG_EXISTS OR u) (l, r) = Inr (l', data_decref (LUT_FLAG_EXISTS OR u) d
         (if d \<noteq> ndata cur then data_decref (nflags cur) (ndata cur)
            (data_incref (LUT_FLAG_EXISTS OR u) d (data_incref (LUT_FLAG_EXISTS OR u) d r))
          else data_incref (LUT_FLAG_EXISTS OR u) d r))"
        and l': "lut_n l' = lut_n l" "lut_size l' = lut_size l1" "lut_realloc_at l' = lut_realloc_at l1"
      from grow_loaded [OF assms(1,4,5) this(1)] have "lut_loaded l'"
        unfolding lut_loaded_def l' by blast
      with ins show ?thesis by (simp add: lut_insert_def id 2)
    qed
  qed
qed

theorem lut_insert_loaded_witness:
  "\<exists>i l' r'. lut_insert ''dev-vcs/git'' 0x1000 LUT_FLAG_PYTHON (lut_new 512, \<lparr>py_refs = \<lambda>_. 1, obj_refs = \<lambda>_. 0\<rparr>) =
     Inr (i, l', r') \<and> lut_loaded l'"
proof -
  have "lut_loaded (lut_new 512)" by (simp add: lut_loaded_def lut_new_def scaled_512)
  then show ?thesis
    using lut_insert_loaded [OF lut_wf_new [of 512] room_new [of 512 "''dev-vcs/git''"] user_flags_python]
    by (simp add: lut_new_def)
qed

text \<open>
  The id that \<^verbatim>\<open>lut_get_id\<close> reports for an absent key is only a guess. If two absent
  keys have the same hash they are given the same id, and once one of them is inserted
  the id remembered for the other one denotes the wrong entry, although asking again
  would give another id.
\<close>

theorem lut_absent_id_captured:
  assumes "lut_wf l" "lut_room l k" "user_flags u" "k' \<noteq> k" "str_hash k' = str_hash k"
    and "snd (lut_get_id l k) = LUT_FLAG_NOT_FOUND" "snd (lut_get_id l k') = LUT_FLAG_NOT_FOUND"
  shows "\<exists>l' r'. lut_insert k d u (l, r) = Inr (fst (lut_get_id l k'), l', r') \<and>
    lut_get l' (fst (lut_get_id l k')) = d \<and> lut_get_key l' (fst (lut_get_id l k')) = Some k \<and>
    fst (lut_get_id l' k') \<noteq> fst (lut_get_id l k')"
proof -
  let ?xs = "chain l (str_hash k)"
  have none: "find (\<lambda>x. nkey x = k) ?xs = None" "find (\<lambda>x. nkey x = k') ?xs = None"
    using assms(5-7) by (auto simp: lut_get_id_chain lut_flag_defs split: option.splits)
  define i where "i = lut_make_id (str_hash k) (word_of_nat (length ?xs))"
  have id: "lut_get_id l k = (i, LUT_FLAG_NOT_FOUND)" "lut_get_id l k' = (i, LUT_FLAG_NOT_FOUND)"
    using none assms(5) by (simp_all add: lut_get_id_chain i_def)
  show ?thesis
  proof (rule insert_id_new [OF assms(1,2) id(1), of d u r])
    fix l1 l'
    assume ins: "lut_insert_id k d i (LUT_FLAG_NOT_FOUND OR u) (l, r) =
        Inr (l', data_incref (LUT_FLAG_NOT_FOUND OR u) d r)"
      and chains: "\<And>h. chain l' h = (if h = str_hash k then chain l h @
        [\<lparr>nid = i, nkey = k, ndata = d, nflags = LUT_FLAG_NOT_FOUND OR u\<rparr>] else chain l h)"
    have "lut_get_id l' k' = (lut_make_id (str_hash k) (word_of_nat (Suc (length ?xs))), LUT_FLAG_NOT_FOUND)"
      using none assms(4,5) by (simp add: lut_get_id_chain chains find_append)
    moreover have "(word_of_nat (Suc (length ?xs)) :: u16) \<noteq> word_of_nat (length ?xs)" by simp
    ultimately have "fst (lut_get_id l' k') \<noteq> i" by (simp add: i_def)
    moreover have "lut_get l' i = d" "lut_get_key l' i = Some k"
      using insert_full [OF assms(1-3), of d r] ins id by (auto simp: lut_insert_def)
    ultimately show ?thesis using ins id by (simp add: lut_insert_def)
  qed
qed

lemma colliding_keys: "str_hash ''a/aehjv'' = str_hash ''a/aalyl''"
  by code_simp

theorem lut_absent_id_captured_witness:
  "\<exists>l' r'. lut_insert ''a/aalyl'' 0x1000 LUT_FLAG_PYTHON (lut_new 512, \<lparr>py_refs = \<lambda>_. 1, obj_refs = \<lambda>_. 0\<rparr>) =
      Inr (fst (lut_get_id (lut_new 512) ''a/aehjv''), l', r') \<and>
    lut_get_key l' (fst (lut_get_id (lut_new 512) ''a/aehjv'')) = Some ''a/aalyl''"
proof -
  have "snd (lut_get_id (lut_new 512) k) = LUT_FLAG_NOT_FOUND" for k
    by (simp add: lut_get_id_new)
  then show ?thesis
    using lut_absent_id_captured [OF lut_wf_new [of 512] room_new [of 512] user_flags_python _ colliding_keys]
    by fastforce
qed

end
