(* ===== verification/Lut_Capacity.thy ===== *)
theory Lut_Capacity
  imports Lut
begin

text \<open>
  How long a lookup table has room. A table that started with 256 or 512 buckets and holds
  at most \<open>2 ^ 16\<close> nodes has room for every key: its size was quadrupled only when the
  nodes had reached the threshold, so neither the size nor the count nor the sixteen bits
  that number the nodes of one hash can overflow.
\<close>

definition sized :: "nat \<Rightarrow> u64 \<Rightarrow> u64 \<Rightarrow> bool" where
  "sized n sz at \<longleftrightarrow> sz \<noteq> 0 \<and> at = scaled LUT_THRESHOLD sz \<and>
     (\<exists>j. unat sz \<le> 512 * 4 ^ j \<and> 179 * 4 ^ j \<le> unat at \<and> (j = 0 \<or> 179 * 4 ^ (j - 1) \<le> Suc n))"

definition lut_cap :: "nat \<Rightarrow> lut \<Rightarrow> bool" where
  "lut_cap m l \<longleftrightarrow> lut_wf l \<and> unat (lut_n l) + m \<le> 2 ^ 16 \<and>
     sized (unat (lut_n l)) (lut_size l) (lut_realloc_at l)"

lemma sized_bound:
  assumes "sized n sz at" "n \<le> 2 ^ 16"
  shows "unat sz \<le> 2 ^ 19"
proof -
  from assms obtain j where j: "unat sz \<le> 512 * 4 ^ j" "j = 0 \<or> 179 * 4 ^ (j - 1) \<le> Suc n"
    unfolding sized_def by blast
  have "j \<le> 5"
  proof (rule ccontr)
    assume "\<not> j \<le> 5"
    then have "(4::nat) ^ 5 \<le> 4 ^ (j - 1)" by (intro power_increasing) simp_all
    moreover have "179 * 4 ^ (j - 1) \<le> Suc (2 ^ 16)" using j(2) assms(2) \<open>\<not> j \<le> 5\<close> by auto
    ultimately show False by simp
  qed
  then have "(4::nat) ^ j \<le> 4 ^ 5" by (intro power_increasing) simp_all
  with j(1) show ?thesis by simp
qed

lemma sized_mono:
  assumes "sized n sz at" "n \<le> n'"
  shows "sized n' sz at"
proof -
  from assms(1) obtain j where j: "sz \<noteq> 0 \<and> at = scaled LUT_THRESHOLD sz" "unat sz \<le> 512 * 4 ^ j"
      "179 * 4 ^ j \<le> unat at" "j = 0 \<or> 179 * 4 ^ (j - 1) \<le> Suc n"
    unfolding sized_def by blast
  moreover have "j = 0 \<or> 179 * 4 ^ (j - 1) \<le> Suc n'" using j(4) assms(2) by linarith
  ultimately show ?thesis unfolding sized_def by blast
qed

lemma sized_grow:
  assumes "sized n sz at" "n \<le> 2 ^ 16" "unat at \<le> Suc n"
  shows "sized n (sz * 4) (scaled LUT_THRESHOLD (sz * 4))"
proof -
  have b: "unat sz \<le> 2 ^ 19" using assms(1,2) by (rule sized_bound)
  then have m: "unat (sz * 4) = 4 * unat sz" by (simp add: unat_word_ariths)
  from assms(1) obtain j where j: "unat sz \<le> 512 * 4 ^ j" "179 * 4 ^ j \<le> unat at"
      "at = scaled LUT_THRESHOLD sz" "sz \<noteq> 0"
    unfolding sized_def by blast
  have "4 * unat (scaled LUT_THRESHOLD sz) \<le> unat (scaled LUT_THRESHOLD (sz * 4))"
    by (rule scaled_quadruple) (use b in \<open>simp_all add: LUT_THRESHOLD_def\<close>)
  then have "179 * 4 ^ Suc j \<le> unat (scaled LUT_THRESHOLD (sz * 4))" using j(2,3) by simp
  moreover have "unat (sz * 4) \<le> 512 * 4 ^ Suc j" using m j(1) by simp
  moreover have "179 * 4 ^ (Suc j - 1) \<le> Suc n" using j(2) assms(3) by simp
  moreover have "sz * 4 \<noteq> 0" using m j(4) by (metis mult_eq_0_iff unat_eq_zero zero_neq_numeral)
  ultimately show ?thesis unfolding sized_def by blast
qed

lemma length_chain: "lut_wf l \<Longrightarrow> length (chain l h) \<le> unat (lut_n l)"
proof -
  assume wf: "lut_wf l"
  then have b: "lut_bucket (lut_size l) h < length (lut_table l)"
    by (simp add: lut_wf_def placed_bucket)
  have "length (chain l h) \<le> length (lut_table l ! lut_bucket (lut_size l) h)"
    by (simp add: chain_def)
  also have "\<dots> \<le> length (concat (lut_table l))"
    using b by (simp add: length_concat member_le_sum_list)
  finally show ?thesis using wf by (simp add: lut_wf_def)
qed

lemma cap_room:
  assumes "lut_cap (Suc m) l"
  shows "lut_room l k"
proof -
  have n: "unat (lut_n l) < 2 ^ 16" and wf: "lut_wf l" and z: "lut_size l \<noteq> 0"
    and sz: "sized (unat (lut_n l)) (lut_size l) (lut_realloc_at l)"
    using assms by (auto simp: lut_cap_def sized_def)
  then have "unat (lut_size l) \<le> 2 ^ 19" using sized_bound by (meson less_imp_le)
  then have "unat (lut_size l * 4) = 4 * unat (lut_size l)" by (simp add: unat_word_ariths)
  then have "lut_size l * 4 \<noteq> 0" using z by (metis mult_eq_0_iff unat_eq_zero zero_neq_numeral)
  with n length_chain [OF wf] show ?thesis
    by (auto simp: lut_room_def intro: le_less_trans)
qed

lemma cap_mono: "lut_cap m l \<Longrightarrow> k \<le> m \<Longrightarrow> lut_cap k l"
  by (simp add: lut_cap_def)

lemma cap_new: "lut_cap 65536 (lut_new 512)" "lut_cap 65536 (lut_new 256)"
proof -
  have 256: "scaled LUT_THRESHOLD 256 = 179" by (simp add: scaled_eval)
  have "sized 0 512 358" "sized 0 256 179"
    unfolding sized_def scaled_512 256 by (auto intro!: exI [of _ 0])
  then show "lut_cap 65536 (lut_new 512)" "lut_cap 65536 (lut_new 256)"
    using lut_wf_new [of 512] lut_wf_new [of 256]
    by (simp_all add: lut_cap_def) (simp_all add: lut_new_def scaled_512 256)
qed

lemma grow_sized:
  assumes "lut_cap (Suc m) l" "lut_grow l = Inr l1"
  shows "sized (unat (lut_n l)) (lut_size l1) (lut_realloc_at l1)"
proof (cases "lut_realloc_at l \<le> ucast (lut_n l + 1)")
  case True
  have n: "unat (lut_n l) < 2 ^ 16" and sz: "sized (unat (lut_n l)) (lut_size l) (lut_realloc_at l)"
    and wf: "lut_wf l"
    using assms(1) by (auto simp: lut_cap_def)
  have "unat (lut_n l + 1) = Suc (unat (lut_n l))" using n by (simp add: unat_word_ariths)
  with True have at: "unat (lut_realloc_at l) \<le> Suc (unat (lut_n l))" by (simp add: word_le_nat_alt)
  have "0 < lut_size l * 4"
    using cap_room [OF assms(1)] by (simp add: lut_room_def word_gt_0)
  from realloc_result [OF wf this] obtain l' where "lut_realloc (lut_size l * 4) l = Inr l'"
    "lut_size l' = lut_size l * 4" "lut_realloc_at l' = scaled LUT_THRESHOLD (lut_size l * 4)" by metis
  with True assms(2) sized_grow [OF sz _ at] n show ?thesis by (simp add: lut_grow_def)
next
  case False
  with assms show ?thesis by (simp add: lut_grow_def lut_cap_def)
qed

text \<open>Inserting uses up one node of room at most.\<close>

lemma cap_insert:
  assumes "lut_cap (Suc m) l" "user_flags u" "lut_get_id l k = (i, fl)"
  shows "\<exists>l' r'. lut_insert_id k d i (fl OR u) (l, r) = Inr (l', r') \<and> lut_cap m l' \<and>
    lut_entries l' = (lut_entries l)(i \<mapsto> (k, d, fl OR u))"
proof -
  have wf: "lut_wf l" and room: "lut_room l k" and n: "unat (lut_n l) < 2 ^ 16"
    using assms(1) cap_room by (auto simp: lut_cap_def)
  from insert_id_result [OF wf room assms(2,3), of d r] obtain l2 r2
    where res: "lut_insert_id k d i (fl OR u) (l, r) = Inr (l2, r2)" "lut_wf l2"
      "lut_entries l2 = (lut_entries l)(i \<mapsto> (k, d, fl OR u))" by blast
  consider "fl = LUT_FLAG_NOT_FOUND" | "fl = LUT_FLAG_EXISTS"
    using assms(3) by (auto simp: lut_get_id_chain split: option.splits)
  then have "lut_cap m l2"
  proof cases
    case 1
    show ?thesis
    proof (rule insert_id_new [OF wf room assms(3) [unfolded 1], of d u r])
      fix l1 l' assume g: "lut_grow l = Inr l1" and ins: "lut_insert_id k d i (LUT_FLAG_NOT_FOUND OR u) (l, r) =
          Inr (l', data_incref (LUT_FLAG_NOT_FOUND OR u) d r)"
        and l': "lut_n l' = lut_n l + 1" "lut_size l' = lut_size l1" "lut_realloc_at l' = lut_realloc_at l1"
      have "l' = l2" using ins res(1) 1 by simp
      moreover have "unat (lut_n l + 1) = Suc (unat (lut_n l))" using n by (simp add: unat_word_ariths)
      ultimately show ?thesis
        using sized_mono [OF grow_sized [OF assms(1) g], of "Suc (unat (lut_n l))"] assms(1) res(2) l'
        by (simp add: lut_cap_def)
    qed
  next
    case 2
    show ?thesis
    proof (rule insert_id_exists [OF wf room assms(3) [unfolded 2] assms(2), of d r])
      fix l1 l' cur assume g: "lut_grow l = Inr l1"
        and ins: "lut_insert_id k d i (LUT_FLAG_EXISTS OR u) (l, r) = Inr (l', data_decref (LUT_FLAG_EXISTS OR u) d
         (if d \<noteq> ndata cur then data_decref (nflags cur) (ndata cur)
            (data_incref (LUT_FLAG_EXISTS OR u) d (data_incref (LUT_FLAG_EXISTS OR u) d r))
          else data_incref (LUT_FLAG_EXISTS OR u) d r))"
        and l': "lut_n l' = lut_n l" "lut_size l' = lut_size l1" "lut_realloc_at l' = lut_realloc_at l1"
      have "l' = l2" using ins res(1) 2 by simp
      then show ?thesis
        using grow_sized [OF assms(1) g] assms(1) res(2) l' by (simp add: lut_cap_def)
    qed
  qed
  with res show ?thesis by blast
qed

end
