(* ===== verification/Lut_Script.thy ===== *)
theory Lut_Script
  imports Lut_Capacity
begin

text \<open>
  Sequences of insertions into the lookup table (\<^verbatim>\<open>hacksaw/lut.c\<close>), as the package database
  and the table of use flags make them.
\<close>

fun lut_insert_all :: "(string \<times> u64 \<times> lut_flags) list \<Rightarrow> lut \<times> refs \<Rightarrow> (lut_id list \<times> lut \<times> refs) result" where
  "lut_insert_all [] s = Inr ([], s)"
| "lut_insert_all ((key, data, flags) # xs) s =
     bindR (lut_insert key data flags s) (\<lambda>(i, s). bindR (lut_insert_all xs s) (\<lambda>(is, s). Inr (i # is, s)))"

text \<open>The data of a key after the insertions, which is what was inserted last.\<close>

definition last_data :: "(string \<times> u64 \<times> lut_flags) list \<Rightarrow> string \<rightharpoonup> u64" where
  "last_data xs = map_of (rev (map (\<lambda>(k, d, u). (k, d)) xs))"

lemma last_data_simps [simp]:
  "last_data [] k = None"
  "last_data ((k', d, u) # xs) k = (case last_data xs k of None \<Rightarrow> if k = k' then Some d else None | Some d \<Rightarrow> Some d)"
  by (auto simp: last_data_def map_add_def split: option.splits)

text \<open>What holds of a key that is in the table before the insertions.\<close>

definition kept :: "(string \<times> u64 \<times> lut_flags) list \<Rightarrow> lut \<Rightarrow> lut \<Rightarrow> string \<Rightarrow> lut_id \<Rightarrow> bool" where
  "kept xs l l' k j \<longleftrightarrow> lut_get_id l' k = (j, LUT_FLAG_EXISTS) \<and> lut_get_key l' j = Some k \<and>
     lut_get l' j = (case last_data xs k of None \<Rightarrow> lut_get l j | Some d \<Rightarrow> d)"

lemma kept_refl: "lut_wf l \<Longrightarrow> lut_get_id l k = (j, LUT_FLAG_EXISTS) \<Longrightarrow> kept [] l l k j"
  using lut_entries_iff [of l k j] by (auto simp: kept_def lut_get_key_entries)

lemma cap_insert_full:
  assumes "lut_cap (Suc m) l" "user_flags u"
  shows "\<exists>i l' r'. lut_insert k d u (l, r) = Inr (i, l', r') \<and> lut_cap m l' \<and> kept [(k, d, u)] l l' k i \<and>
    (\<forall>k' j. lut_get_id l k' = (j, LUT_FLAG_EXISTS) \<longrightarrow> kept [(k, d, u)] l l' k' j)"
proof -
  have wf: "lut_wf l" and room: "lut_room l k" using assms(1) cap_room by (auto simp: lut_cap_def)
  from insert_full [OF wf room assms(2), of d r] obtain i l' r' where
    ins: "lut_insert k d u (l, r) = Inr (i, l', r')" "lut_get l' i = d" "lut_get_key l' i = Some k"
      "lut_get_id l' k = (i, LUT_FLAG_EXISTS)" by blast
  obtain i' fl where id: "lut_get_id l k = (i', fl)" by fastforce
  from cap_insert [OF assms id, of d r] ins(1) id have "lut_cap m l'" by (auto simp: lut_insert_def)
  moreover have "kept [(k, d, u)] l l' k' j" if "lut_get_id l k' = (j, LUT_FLAG_EXISTS)" for k' j
    using insert_keeps_ids [OF wf room assms(2) ins(1) that] by (simp add: kept_def)
  ultimately show ?thesis using ins by (auto simp: kept_def)
qed

lemma kept_Cons:
  assumes "kept [x] l l1 k j" "kept xs l1 l' k j"
  shows "kept (x # xs) l l' k j"
  using assms by (cases x) (auto simp: kept_def split: option.splits if_splits)

lemma kept_later:
  assumes "kept xs l1 l' k j" "last_data xs k \<noteq> None"
  shows "kept (x # xs) l l' k j"
  using assms by (cases x) (auto simp: kept_def split: option.splits)

lemma last_data_in: "n < length xs \<Longrightarrow> last_data xs (fst (xs ! n)) \<noteq> None"
proof (induction xs arbitrary: n)
  case (Cons x xs)
  then have later: "last_data xs (fst (xs ! m)) \<noteq> None" if "n = Suc m" for m using that by simp
  show ?case
  proof (cases n)
    case 0
    then show ?thesis by (cases x) (simp split: option.split)
  next
    case (Suc m)
    with later [OF Suc] show ?thesis by (cases x) (auto split: option.split)
  qed
qed simp

lemma insert_all_kept:
  assumes "lut_cap (length xs) l" "\<forall>(k, d, u) \<in> set xs. user_flags u"
  shows "\<exists>is l' r'. lut_insert_all xs (l, r) = Inr (is, l', r') \<and> length is = length xs \<and> lut_wf l' \<and>
    (\<forall>k j. lut_get_id l k = (j, LUT_FLAG_EXISTS) \<longrightarrow> kept xs l l' k j) \<and> (\<forall>n < length xs. kept xs l l' (fst (xs ! n)) (is ! n))"
  using assms
proof (induction xs arbitrary: l r)
  case Nil
  then show ?case using kept_refl by (simp add: lut_cap_def)
next
  case (Cons x xs)
  obtain k d u where x: "x = (k, d, u)" by (cases x)
  with Cons.prems have cap: "lut_cap (Suc (length xs)) l" and u: "user_flags u" "\<forall>(k, d, u) \<in> set xs. user_flags u" by auto
  from cap_insert_full [OF cap u(1), of k d r] obtain i l1 r1 where
    one: "lut_insert k d u (l, r) = Inr (i, l1, r1)" "lut_cap (length xs) l1" "kept [x] l l1 k i"
      "\<And>k' j. lut_get_id l k' = (j, LUT_FLAG_EXISTS) \<Longrightarrow> kept [x] l l1 k' j" unfolding x by blast
  from Cons.IH [OF one(2) u(2), of r1] obtain "is" l' r' where
    rest: "lut_insert_all xs (l1, r1) = Inr (is, l', r')" "length is = length xs" "lut_wf l'"
      "\<And>k' j. lut_get_id l1 k' = (j, LUT_FLAG_EXISTS) \<Longrightarrow> kept xs l1 l' k' j"
      "\<And>n. n < length xs \<Longrightarrow> kept xs l1 l' (fst (xs ! n)) (is ! n)" by blast
  have both: "kept (x # xs) l l' k' j" if "kept [x] l l1 k' j" for k' j
  proof -
    have "lut_get_id l1 k' = (j, LUT_FLAG_EXISTS)" using that by (simp add: kept_def)
    from kept_Cons [OF that rest(4) [OF this]] show ?thesis .
  qed
  have "kept (x # xs) l l' (fst ((x # xs) ! n)) ((i # is) ! n)" if "n < length (x # xs)" for n
  proof (cases n)
    case 0
    then show ?thesis using both [OF one(3)] by (simp add: x)
  next
    case (Suc m)
    with that kept_later [OF rest(5) last_data_in] show ?thesis by simp
  qed
  moreover have "lut_insert_all (x # xs) (l, r) = Inr (i # is, l', r')" by (simp add: x one(1) rest(1))
  ultimately show ?case using rest(2,3) both one(4) by (intro exI [of _ "i # is"]) auto
qed

text \<open>
  C9: ids are stable. Any sequence of insertions into a table of \<^verbatim>\<open>cportage\<close> with room for them succeeds.
  The id of a key that is in the table, as the table or an earlier insertion gave it, stays the id of this
  key and of no other, reads back this key, and reads what was inserted for the key last. The same holds for
  the ids the insertions return. (The id that \<^verbatim>\<open>lut_get_id\<close> gives for a key that is not in the table is only a
  guess: \<open>lut_absent_id_captured\<close>.)
\<close>

theorem lut_ids_stable:
  assumes "lut_cap (length xs) l" and "\<forall>(k, d, u) \<in> set xs. user_flags u"
  shows "\<exists>is l' r'. lut_insert_all xs (l, r) = Inr (is, l', r') \<and> length is = length xs \<and>
    (\<forall>k j. lut_get_id l k = (j, LUT_FLAG_EXISTS) \<longrightarrow>
       lut_get_id l' k = (j, LUT_FLAG_EXISTS) \<and> lut_get_key l' j = Some k \<and>
       lut_get l' j = (case last_data xs k of None \<Rightarrow> lut_get l j | Some d \<Rightarrow> d)) \<and>
    (\<forall>n < length xs. lut_get_id l' (fst (xs ! n)) = (is ! n, LUT_FLAG_EXISTS) \<and> lut_get_key l' (is ! n) = Some (fst (xs ! n)) \<and>
       Some (lut_get l' (is ! n)) = last_data xs (fst (xs ! n))) \<and>
    (\<forall>k k' j. lut_get_id l' k = (j, LUT_FLAG_EXISTS) \<and> lut_get_id l' k' = (j, LUT_FLAG_EXISTS) \<longrightarrow> k' = k)"
proof -
  have "\<exists>is l' r'. lut_insert_all xs (l, r) = Inr (is, l', r') \<and> length is = length xs \<and> lut_wf l' \<and>
    (\<forall>k j. lut_get_id l k = (j, LUT_FLAG_EXISTS) \<longrightarrow> kept xs l l' k j) \<and> (\<forall>n < length xs. kept xs l l' (fst (xs ! n)) (is ! n))"
    by (rule insert_all_kept [OF assms])
  then obtain "is" l' r' where ins: "lut_insert_all xs (l, r) = Inr (is, l', r')" "length is = length xs" "lut_wf l'"
    "\<And>k j. lut_get_id l k = (j, LUT_FLAG_EXISTS) \<Longrightarrow> kept xs l l' k j" "\<And>n. n < length xs \<Longrightarrow> kept xs l l' (fst (xs ! n)) (is ! n)" by blast
  have "Some (lut_get l' (is ! n)) = last_data xs (fst (xs ! n))" if "n < length xs" for n
    using ins(5) [OF that] last_data_in [OF that] by (auto simp: kept_def)
  moreover have "k' = k" if "lut_get_id l' k = (j, LUT_FLAG_EXISTS)" "lut_get_id l' k' = (j, LUT_FLAG_EXISTS)" for k k' j
    using that lut_entries_iff [OF ins(3)] by force
  ultimately show ?thesis using ins(1,2,4,5) unfolding kept_def by blast
qed

text \<open>Three insertions into a new table, the first and the last for the same key.\<close>

theorem lut_ids_stable_witness:
  "\<exists>i j l' r'. lut_insert_all [(''a/a'', 0x1000, LUT_FLAG_PYTHON), (''b/b'', 0x2000, LUT_FLAG_PYTHON), (''a/a'', 0x3000, LUT_FLAG_PYTHON)]
       (lut_new 512, \<lparr>py_refs = \<lambda>_. 1, obj_refs = \<lambda>_. 0\<rparr>) = Inr ([i, j, i], l', r') \<and>
     lut_get l' i = 0x3000 \<and> lut_get_key l' i = Some ''a/a'' \<and> lut_get l' j = 0x2000 \<and> i \<noteq> j"
proof -
  let ?xs = "[(''a/a'', 0x1000, LUT_FLAG_PYTHON), (''b/b'', 0x2000, LUT_FLAG_PYTHON), (''a/a'', 0x3000, LUT_FLAG_PYTHON)] :: (string \<times> u64 \<times> lut_flags) list"
  have cap: "lut_cap (length ?xs) (lut_new 512)" by (rule cap_mono [OF cap_new(1)]) simp
  have u: "\<forall>(k, d, u) \<in> set ?xs. user_flags u" by simp
  from lut_ids_stable [OF cap u, of "\<lparr>py_refs = \<lambda>_. 1, obj_refs = \<lambda>_. 0\<rparr>"] obtain "is" l' r' where
    ins: "lut_insert_all ?xs (lut_new 512, \<lparr>py_refs = \<lambda>_. 1, obj_refs = \<lambda>_. 0\<rparr>) = Inr (is, l', r')" "length is = 3"
    and at: "\<And>n. n < 3 \<Longrightarrow> lut_get_id l' (fst (?xs ! n)) = (is ! n, LUT_FLAG_EXISTS) \<and> lut_get_key l' (is ! n) = Some (fst (?xs ! n)) \<and>
       Some (lut_get l' (is ! n)) = last_data ?xs (fst (?xs ! n))" by auto
  from ins(2) obtain i j i' where "is": "is = [i, j, i']" by (auto simp: length_Suc_conv eval_nat_numeral)
  have "lut_get_id l' ''a/a'' = (i, LUT_FLAG_EXISTS)" "lut_get_key l' i = Some ''a/a''" "lut_get l' i = 0x3000"
    "lut_get_key l' j = Some ''b/b''" "lut_get l' j = 0x2000" "lut_get_id l' ''a/a'' = (i', LUT_FLAG_EXISTS)"
    using at [of 0] at [of 1] at [of 2] by (simp_all add: "is" eval_nat_numeral)
  moreover from this have "i' = i" "i \<noteq> j" by auto
  ultimately show ?thesis using ins(1) "is" by blast
qed

end
