(* ===== verification/CString.thy ===== *)
theory CString
  imports Prelude
begin

text \<open>
  The functions of the C library on strings that the program calls. A C string is the list
  of its characters before the terminating zero; a pointer into a string is an index.
  Writing a zero at index \<open>i\<close> leaves \<open>take i s\<close>, the text behind it is \<open>drop (Suc i) s\<close>.
  Plain \<^verbatim>\<open>char\<close> is signed, \<^verbatim>\<open>long\<close> has 64 bits and \<^verbatim>\<open>int\<close> 32, as on the x86-64 target.
\<close>

section \<open>Searching\<close>

fun str_index :: "(char \<Rightarrow> bool) \<Rightarrow> string \<Rightarrow> nat option" where
  "str_index P [] = None"
| "str_index P (c # s) = (if P c then Some 0 else map_option Suc (str_index P s))"

definition strchr :: "string \<Rightarrow> char \<Rightarrow> nat option" where
  "strchr s c = str_index (\<lambda>d. d = c) s"

definition strrchr :: "string \<Rightarrow> char \<Rightarrow> nat option" where
  "strrchr s c = map_option (\<lambda>i. length s - 1 - i) (str_index (\<lambda>d. d = c) (rev s))"

definition strpbrk :: "string \<Rightarrow> string \<Rightarrow> nat option" where
  "strpbrk s accept = str_index (\<lambda>d. d \<in> set accept) s"

text \<open>The character at an index; at the length it is the terminating zero.\<close>

definition char_at :: "string \<Rightarrow> nat \<Rightarrow> char" where
  "char_at s i = (if i < length s then s ! i else CHR 0x00)"

text \<open>The sign of \<^verbatim>\<open>strcmp\<close>: the first difference decides, as unsigned bytes.\<close>

fun strcmp :: "string \<Rightarrow> string \<Rightarrow> int" where
  "strcmp [] [] = 0"
| "strcmp [] (d # t) = - 1"
| "strcmp (c # s) [] = 1"
| "strcmp (c # s) (d # t) =
     (if c = d then strcmp s t else if (of_char c :: nat) < of_char d then - 1 else 1)"

section \<open>Characters and numbers\<close>

definition c_char :: "char \<Rightarrow> int" where
  "c_char c = (let n = of_char c :: int in if n < 128 then n else n - 256)"

definition isdigit :: "char \<Rightarrow> bool" where
  "isdigit c \<longleftrightarrow> 48 \<le> (of_char c :: nat) \<and> of_char c \<le> (57 :: nat)"

definition digit_val :: "char \<Rightarrow> nat" where
  "digit_val c = of_char c - 48"

definition isspace :: "char \<Rightarrow> bool" where
  "isspace c \<longleftrightarrow> of_char c = (32 :: nat) \<or> (9 \<le> (of_char c :: nat) \<and> of_char c \<le> (13 :: nat))"

definition dec_val :: "string \<Rightarrow> nat" where
  "dec_val s = fold (\<lambda>c n. 10 * n + digit_val c) s 0"

definition clamp_long :: "int \<Rightarrow> int" where
  "clamp_long x = max (- (2 ^ 63)) (min (2 ^ 63 - 1) x)"

text \<open>\<^verbatim>\<open>strtol(s, NULL, 10)\<close>: white space, a sign, the longest run of digits, saturating.\<close>

definition strtol10 :: "string \<Rightarrow> int" where
  "strtol10 s =
     (let t = dropWhile isspace s
      in case t of
           [] \<Rightarrow> 0
         | c # u \<Rightarrow>
             if c = CHR ''-'' then clamp_long (- int (dec_val (takeWhile isdigit u)))
             else if c = CHR ''+'' then clamp_long (int (dec_val (takeWhile isdigit u)))
             else clamp_long (int (dec_val (takeWhile isdigit t))))"

text \<open>Conversion of a \<^verbatim>\<open>long\<close> to \<^verbatim>\<open>int\<close>, and the subtraction of two \<^verbatim>\<open>int\<close>s.\<close>

definition to_i32 :: "int \<Rightarrow> int" where
  "to_i32 x = (x + 2 ^ 31) mod 2 ^ 32 - 2 ^ 31"

definition sub_i32 :: "int \<Rightarrow> int \<Rightarrow> int result" where
  "sub_i32 a b = (if - (2 ^ 31) \<le> a - b \<and> a - b < 2 ^ 31 then Inr (a - b) else Inl Signed_Overflow)"

section \<open>Tokens\<close>

text \<open>
  The tokens that repeated calls of \<^verbatim>\<open>strtok\<close> with the same delimiters return: maximal
  non-empty runs of other characters.
\<close>

function strtok_all :: "string \<Rightarrow> string \<Rightarrow> string list" where
  "strtok_all delim s =
     (let t = dropWhile (\<lambda>c. c \<in> set delim) s
      in if t = [] then []
         else takeWhile (\<lambda>c. c \<notin> set delim) t # strtok_all delim (dropWhile (\<lambda>c. c \<notin> set delim) t))"
  by pat_completeness auto
termination
proof (relation "measure (\<lambda>(d, s). length s)", simp)
  fix delim s :: string and t
  assume t: "t = dropWhile (\<lambda>c. c \<in> set delim) s" and "t \<noteq> []"
  then have "hd t \<notin> set delim" using hd_dropWhile by blast
  with \<open>t \<noteq> []\<close> have "length (dropWhile (\<lambda>c. c \<notin> set delim) t) < length t"
    by (cases t) (auto simp: le_imp_less_Suc length_dropWhile_le)
  moreover have "length t \<le> length s" by (simp add: t length_dropWhile_le)
  ultimately show "((delim, dropWhile (\<lambda>c. c \<notin> set delim) t), (delim, s)) \<in> measure (\<lambda>(d, s). length s)"
    by simp
qed

declare strtok_all.simps [simp del]

section \<open>Facts\<close>

lemma str_index_None: "str_index P s = None \<longleftrightarrow> (\<forall>c \<in> set s. \<not> P c)"
  by (induction s) auto

lemma str_index_append:
  "\<forall>c \<in> set s. \<not> P c \<Longrightarrow> P d \<Longrightarrow> str_index P (s @ d # t) = Some (length s)"
  by (induction s) auto

lemma str_index_SomeD:
  "str_index P s = Some i \<Longrightarrow> i < length s \<and> P (s ! i) \<and> (\<forall>j < i. \<not> P (s ! j))"
proof (induction s arbitrary: i)
  case (Cons c s)
  then show ?case
    by (cases i) (auto split: if_splits simp: nth_Cons' less_Suc_eq_0_disj)
qed simp

lemma str_index_less: "str_index P s = Some i \<Longrightarrow> i < length s"
  using str_index_SomeD by blast

lemma strcmp_eq_0 [simp]: "strcmp s t = 0 \<longleftrightarrow> s = t"
  by (induction s t rule: strcmp.induct) auto

lemma strchr_append: "c \<notin> set s \<Longrightarrow> strchr (s @ c # t) c = Some (length s)"
  unfolding strchr_def by (rule str_index_append) auto

lemma strchr_None: "strchr s c = None \<longleftrightarrow> c \<notin> set s"
  by (auto simp: strchr_def str_index_None)

lemma strrchr_append: "c \<notin> set t \<Longrightarrow> strrchr (s @ c # t) c = Some (length s)"
proof -
  assume "c \<notin> set t"
  then have "str_index (\<lambda>d. d = c) (rev t @ c # rev s) = Some (length (rev t))"
    by (intro str_index_append) auto
  then show ?thesis by (simp add: strrchr_def)
qed

lemma strrchr_None: "strrchr s c = None \<longleftrightarrow> c \<notin> set s"
  by (auto simp: strrchr_def str_index_None)

lemma strrchr_SomeD: "strrchr s c = Some i \<Longrightarrow> i < length s \<and> s ! i = c"
  unfolding strrchr_def
  by (auto dest!: str_index_SomeD simp: rev_nth)

lemma dec_val_Nil [simp]: "dec_val [] = 0"
  by (simp add: dec_val_def)

lemma dec_val_snoc [simp]: "dec_val (s @ [c]) = 10 * dec_val s + digit_val c"
  by (simp add: dec_val_def)

lemma digit_val_0 [simp]: "digit_val (CHR ''0'') = 0"
  by (simp add: digit_val_def)

lemma isdigit_in_digits: "isdigit c \<longleftrightarrow> c \<in> set ''0123456789''"
proof
  assume "isdigit c"
  then have "of_char c \<in> {48 .. 57 :: nat}" by (simp add: isdigit_def)
  then have "of_char c \<in> set [48 ..< 58 :: nat]" by (simp only: set_upt) auto
  then have "char_of (of_char c :: nat) \<in> char_of ` set [48 ..< 58 :: nat]" by (rule imageI)
  then have "c \<in> char_of ` set [48 ..< 58 :: nat]" by (simp only: char_of_char)
  moreover have "char_of ` set [48 ..< 58 :: nat] = set ''0123456789''"
    by (simp add: upt_rec char_of_def bit_iff_odd)
  ultimately show "c \<in> set ''0123456789''" by (simp only:)
qed (auto simp: isdigit_def)

lemma digit_val_less: "isdigit c \<Longrightarrow> digit_val c < 10"
  unfolding isdigit_def digit_val_def by (elim conjE) linarith

lemma dec_val_less: "\<forall>c \<in> set s. isdigit c \<Longrightarrow> dec_val s < 10 ^ length s"
proof (induction s rule: rev_induct)
  case (snoc c s)
  then have "digit_val c < 10" "dec_val s < 10 ^ length s" by (auto simp: digit_val_less)
  then show ?case by simp
qed simp

lemma dec_val_pad: "dec_val (s @ replicate k (CHR ''0'')) = dec_val s * 10 ^ k"
proof (induction k)
  case (Suc k)
  have "s @ replicate (Suc k) (CHR ''0'') = (s @ replicate k (CHR ''0'')) @ [CHR ''0'']"
    by (simp add: replicate_append_same)
  with Suc show ?case by (simp only: dec_val_snoc) (simp add: digit_val_def)
qed simp

lemma dec_val_append: "dec_val (s @ t) = dec_val s * 10 ^ length t + dec_val t"
proof (induction t rule: rev_induct)
  case (snoc c t)
  have "dec_val (s @ t @ [c]) = 10 * dec_val (s @ t) + digit_val c"
    using dec_val_snoc [of "s @ t" c] by simp
  with snoc show ?case by (simp add: algebra_simps)
qed simp

lemma dec_val_Cons: "dec_val (c # s) = digit_val c * 10 ^ length s + dec_val s"
  using dec_val_append [of "[c]" s] by (simp add: dec_val_def)

lemma digit_val_zero: "isdigit c \<Longrightarrow> digit_val c = 0 \<longleftrightarrow> c = CHR ''0''"
proof -
  assume "isdigit c"
  then have "digit_val c = 0 \<longleftrightarrow> of_char c = (of_char (CHR ''0'') :: nat)"
    unfolding isdigit_def digit_val_def by simp linarith
  then show ?thesis by (simp only: of_char_eq_iff)
qed

lemma digit_not_sign:
  "isdigit c \<Longrightarrow> \<not> isspace c \<and> c \<noteq> CHR ''-'' \<and> c \<noteq> CHR ''+''"
  by (auto simp: isdigit_def isspace_def)

lemma strtol10_digits:
  assumes "\<forall>c \<in> set s. isdigit c" "length s \<le> 18"
  shows "strtol10 s = int (dec_val s)"
proof (cases s)
  case Nil
  then show ?thesis by (simp add: strtol10_def)
next
  case (Cons c u)
  with assms(1) have c: "\<not> isspace c" "c \<noteq> CHR ''-''" "c \<noteq> CHR ''+''"
    using digit_not_sign by auto
  have "takeWhile isdigit s = s" using assms(1) by (simp add: takeWhile_eq_all_conv)
  moreover have "dec_val s < 10 ^ 18"
    using dec_val_less [OF assms(1)] assms(2) by (meson less_le_trans one_le_numeral power_increasing)
  ultimately show ?thesis
    using c Cons by (simp add: strtol10_def clamp_long_def)
qed

lemma to_i32_id: "- (2 ^ 31) \<le> x \<Longrightarrow> x < 2 ^ 31 \<Longrightarrow> to_i32 x = x"
  by (simp add: to_i32_def)

lemma to_i32_nat: "n < 2 ^ 31 \<Longrightarrow> to_i32 (int n) = int n"
proof -
  assume "n < 2 ^ 31"
  then have "int n < 2147483648" by simp
  then show ?thesis by (intro to_i32_id) simp_all
qed

section \<open>Tokens of a joined string\<close>

fun join :: "char \<Rightarrow> string list \<Rightarrow> string" where
  "join c [] = []"
| "join c [t] = t"
| "join c (t # u # ts) = t @ c # join c (u # ts)"

definition token :: "string \<Rightarrow> string \<Rightarrow> bool" where
  "token delim t \<longleftrightarrow> t \<noteq> [] \<and> set t \<inter> set delim = {}"

lemma strtok_all_token:
  assumes "token delim t" "rest = [] \<or> (\<exists>c u. rest = c # u \<and> c \<in> set delim)"
  shows "strtok_all delim (t @ rest) = t # strtok_all delim rest"
proof -
  have nd: "\<forall>c \<in> set t. c \<notin> set delim" and ne: "t \<noteq> []" using assms(1) by (auto simp: token_def)
  then have "dropWhile (\<lambda>c. c \<in> set delim) (t @ rest) = t @ rest" by (cases t) auto
  moreover have "takeWhile (\<lambda>c. c \<notin> set delim) (t @ rest) = t" "dropWhile (\<lambda>c. c \<notin> set delim) (t @ rest) = rest"
    using nd assms(2) by (auto simp: takeWhile_append dropWhile_append)
  ultimately show ?thesis using ne by (subst strtok_all.simps) simp
qed

lemma strtok_all_Nil [simp]: "strtok_all delim [] = []"
  by (subst strtok_all.simps) simp

lemma strtok_all_skip: "c \<in> set delim \<Longrightarrow> strtok_all delim (c # s) = strtok_all delim s"
  by (subst strtok_all.simps, subst (2) strtok_all.simps) simp

lemma strtok_all_join:
  assumes "c \<in> set delim" "\<forall>t \<in> set ts. token delim t"
  shows "strtok_all delim (join c ts) = ts"
  using assms
proof (induction c ts rule: join.induct)
  case (2 c t)
  then show ?case using strtok_all_token [of delim t "[]"] by simp
next
  case (3 c t u ts)
  then show ?case
    using strtok_all_token [of delim t "c # join c (u # ts)"] by (simp add: strtok_all_skip)
qed simp

end
