(* ===== verification/Version_Order.thy ===== *)
theory Version_Order
  imports Prelude
begin

text \<open>
  The interface between packages and versions: a partial comparison whose sign is, on good
  values, the order of a key. The lemmas a sorted list of versions needs are proved from
  this alone; \<open>Version\<close> interprets it on the model of \<^verbatim>\<open>atom_version_compare\<close>.
\<close>

text \<open>The sign of a result agrees with the order of two keys.\<close>

definition agrees :: "int \<Rightarrow> 'k::linorder \<Rightarrow> 'k \<Rightarrow> bool" where
  "agrees r x y \<longleftrightarrow> (r < 0 \<longleftrightarrow> x < y) \<and> (r = 0 \<longleftrightarrow> x = y)"

lemma agrees_simps:
  assumes "agrees r x y"
  shows "r < 0 \<longleftrightarrow> x < y" "r = 0 \<longleftrightarrow> x = y" "0 < r \<longleftrightarrow> y < x"
  using assms unfolding agrees_def by auto

text \<open>
  A list sorted from newest to oldest splits at the first element older than a given one,
  and stays sorted when that one is put there.
\<close>

lemma sorted_split:
  fixes key :: "'a \<Rightarrow> 'k::linorder"
  assumes "sorted_wrt (\<lambda>x y. key y \<le> key x) xs"
  shows "takeWhile (\<lambda>x. k \<le> key x) xs = filter (\<lambda>x. k \<le> key x) xs"
    and "dropWhile (\<lambda>x. k \<le> key x) xs = filter (\<lambda>x. key x < k) xs"
proof -
  have "takeWhile (\<lambda>x. k \<le> key x) xs = filter (\<lambda>x. k \<le> key x) xs \<and>
      dropWhile (\<lambda>x. k \<le> key x) xs = filter (\<lambda>x. key x < k) xs"
    using assms
  proof (induction xs)
    case (Cons a xs)
    show ?case
    proof (cases "k \<le> key a")
      case True
      with Cons show ?thesis by simp
    next
      case False
      with Cons.prems have "\<forall>x \<in> set xs. key x < k" by auto
      then have "filter (\<lambda>x. k \<le> key x) xs = []" "filter (\<lambda>x. key x < k) xs = xs"
        by (auto simp: filter_empty_conv filter_id_conv)
      with False show ?thesis by simp
    qed
  qed simp
  then show "takeWhile (\<lambda>x. k \<le> key x) xs = filter (\<lambda>x. k \<le> key x) xs"
    "dropWhile (\<lambda>x. k \<le> key x) xs = filter (\<lambda>x. key x < k) xs" by simp_all
qed

lemma sorted_insert:
  fixes key :: "'a \<Rightarrow> 'k::linorder"
  assumes "sorted_wrt (\<lambda>x y. key y \<le> key x) xs"
  shows "sorted_wrt (\<lambda>x y. key y \<le> key x)
    (filter (\<lambda>x. key v \<le> key x) xs @ v # filter (\<lambda>x. key x < key v) xs)"
  using assms
  by (auto simp: sorted_wrt_append sorted_wrt_filter intro: order_trans less_imp_le)

locale version_order =
  fixes compare :: "'v \<Rightarrow> 'v \<Rightarrow> int result"
    and good :: "'v \<Rightarrow> bool"
    and key :: "'v \<Rightarrow> 'k::linorder"
  assumes compare_sign:
    "good a \<Longrightarrow> good b \<Longrightarrow> \<exists>r. compare a b = Inr r \<and> agrees r (key a) (key b)"
begin

lemma compare_cases:
  assumes "good a" "good b"
  obtains r where "compare a b = Inr r" "r < 0 \<longleftrightarrow> key a < key b" "r = 0 \<longleftrightarrow> key a = key b"
    "0 < r \<longleftrightarrow> key b < key a"
  using compare_sign [OF assms] agrees_simps by blast

text \<open>Swapping the arguments turns the sign around.\<close>

lemma compare_flip:
  assumes "good a" "good b" "compare a b = Inr r"
  obtains s where "compare b a = Inr s" "s < 0 \<longleftrightarrow> 0 < r" "s = 0 \<longleftrightarrow> r = 0" "0 < s \<longleftrightarrow> r < 0"
proof -
  from compare_sign [OF assms(1,2)] assms(3) have r: "agrees r (key a) (key b)" by auto
  from compare_sign [OF assms(2,1)] obtain s where s: "compare b a = Inr s" "agrees s (key b) (key a)"
    by blast
  show ?thesis
    using that [OF s(1)] agrees_simps [OF r] agrees_simps [OF s(2)] by simp metis
qed

lemma compare_trans:
  assumes "good a" "good b" "good c" "compare a b = Inr r" "compare b c = Inr s" "r \<le> 0" "s \<le> 0"
  obtains t where "compare a c = Inr t" "t \<le> 0" "t = 0 \<longleftrightarrow> r = 0 \<and> s = 0"
proof -
  from compare_sign [OF assms(1,2)] assms(4) have r: "agrees r (key a) (key b)" by auto
  from compare_sign [OF assms(2,3)] assms(5) have s: "agrees s (key b) (key c)" by auto
  from compare_sign [OF assms(1,3)] obtain t where t: "compare a c = Inr t" "agrees t (key a) (key c)"
    by blast
  have le: "key a \<le> key b" "key b \<le> key c"
    using agrees_simps(3) [OF r] agrees_simps(3) [OF s] assms(6,7) by (simp_all flip: not_less)
  then have "key a \<le> key c" "key a = key c \<longleftrightarrow> key a = key b \<and> key b = key c" by auto
  then have "t \<le> 0" "t = 0 \<longleftrightarrow> r = 0 \<and> s = 0"
    using agrees_simps(2,3) [OF t(2)] agrees_simps(2) [OF r] agrees_simps(2) [OF s] by (simp_all flip: not_less)
  with t(1) that show ?thesis by blast
qed

end

end
