(* ===== verification/Version.thy ===== *)
theory Version
  imports CString Version_Order "HOL-Library.List_Lexorder" "HOL-Library.Product_Lexorder"
begin

text \<open>
  Versions of packages: \<^verbatim>\<open>atom_version_init\<close> and \<^verbatim>\<open>atom_version_compare\<close> of
  \<^verbatim>\<open>cportage/atom.c\<close>. The linked list of \<^verbatim>\<open>AtomVersion\<close> objects is the list of its
  nodes; the fields that only the first object uses (\<^verbatim>\<open>full_version\<close>, \<^verbatim>\<open>revision\<close>) are
  fields of the whole. On versions made of numbers the comparison is shown to be the
  lexicographic order of a key; outside of them it is not an order at all.
\<close>

section \<open>Data\<close>

datatype atom_version_pre_t =
    ATOM_PREFIX_ALPHA
  | ATOM_PREFIX_BETA
  | ATOM_PREFIX_PRE
  | ATOM_PREFIX_RC
  | ATOM_PREFIX_NONE
  | ATOM_PREFIX_P

fun pre_num :: "atom_version_pre_t \<Rightarrow> int" where
  "pre_num ATOM_PREFIX_ALPHA = 0"
| "pre_num ATOM_PREFIX_BETA = 1"
| "pre_num ATOM_PREFIX_PRE = 2"
| "pre_num ATOM_PREFIX_RC = 3"
| "pre_num ATOM_PREFIX_NONE = 4"
| "pre_num ATOM_PREFIX_P = 5"

lemma pre_num_inject [simp]: "pre_num p = pre_num q \<longleftrightarrow> p = q"
  by (cases p; cases q) simp_all

lemma pre_num_range: "0 \<le> pre_num p" "pre_num p \<le> 5"
  by (cases p; simp)+

instantiation atom_version_pre_t :: linorder
begin

definition less_eq_atom_version_pre_t :: "atom_version_pre_t \<Rightarrow> atom_version_pre_t \<Rightarrow> bool" where
  "p \<le> q \<longleftrightarrow> pre_num p \<le> pre_num q"

definition less_atom_version_pre_t :: "atom_version_pre_t \<Rightarrow> atom_version_pre_t \<Rightarrow> bool" where
  "p < q \<longleftrightarrow> pre_num p < pre_num q"

instance
  by standard (auto simp: less_eq_atom_version_pre_t_def less_atom_version_pre_t_def)

end

record version_node =
  v :: "string option"
  prefix :: atom_version_pre_t

record atom_version =
  full_version :: "string option"
  nodes :: "version_node list"
  revision :: int

text \<open>\<^verbatim>\<open>PyAtomVersion_new\<close>: one node, its string NULL and its prefix 0.\<close>

definition atom_version_new :: atom_version where
  "atom_version_new =
     \<lparr>full_version = None, nodes = [\<lparr>v = None, prefix = ATOM_PREFIX_ALPHA\<rparr>], revision = 0\<rparr>"

section \<open>Parsing\<close>

text \<open>The table \<^verbatim>\<open>atom_prefix_links\<close>: a prefix is recognised by its length alone.\<close>

definition atom_prefix_links :: "(nat \<times> atom_version_pre_t) list" where
  "atom_prefix_links =
     [(5, ATOM_PREFIX_ALPHA), (4, ATOM_PREFIX_BETA), (3, ATOM_PREFIX_PRE),
      (2, ATOM_PREFIX_RC), (0, ATOM_PREFIX_NONE), (1, ATOM_PREFIX_P)]"

definition find_prefix :: "nat \<Rightarrow> atom_version_pre_t option" where
  "find_prefix prefix_len = map_option snd (find (\<lambda>(l, _). prefix_len = l) atom_prefix_links)"

text \<open>Length of the prefix of a component: up to the first digit, 0 when there is none.\<close>

definition prefix_len :: "string \<Rightarrow> nat" where
  "prefix_len buf = (case strpbrk buf ''0123456789'' of None \<Rightarrow> 0 | Some i \<Rightarrow> i)"

text \<open>
  The parsing loop: the nodes appended so far when it ends, and whether it reached the
  end of the string (it leaves early at an invalid prefix).
\<close>

function version_loop :: "string \<Rightarrow> version_node list \<times> bool" where
  "version_loop buf =
     (let split = strpbrk buf ''._-'';
          part = (case split of None \<Rightarrow> buf | Some i \<Rightarrow> take i buf);
          len = prefix_len part
      in case find_prefix len of
           None \<Rightarrow> ([], False)
         | Some pre \<Rightarrow>
             let node = \<lparr>v = Some (drop len part), prefix = pre\<rparr>
             in (case split of
                   None \<Rightarrow> ([node], True)
                 | Some i \<Rightarrow> apfst ((#) node) (version_loop (drop (Suc i) buf))))"
  by pat_completeness auto
termination
proof (relation "measure length", simp)
  fix buf :: string and split :: "nat option" and i :: nat
  assume "split = strpbrk buf ''._-''" "split = Some i"
  then have "i < length buf" by (simp add: strpbrk_def str_index_less)
  then show "(drop (Suc i) buf, buf) \<in> measure length" by simp
qed

declare version_loop.simps [simp del]

definition split_revision :: "int \<Rightarrow> string \<Rightarrow> int \<times> string" where
  "split_revision rv s =
     (case strrchr s (CHR ''-'') of
        Some i \<Rightarrow>
          if char_at s (Suc i) = CHR ''r''
          then (to_i32 (strtol10 (drop (i + 2) s)), take i s)
          else (rv, s)
      | None \<Rightarrow> (rv, s))"

definition atom_version_init :: "atom_version \<Rightarrow> string \<Rightarrow> atom_version" where
  "atom_version_init self input =
     (let (rv, version_str) = split_revision (revision self) input;
          (ns, complete) = version_loop version_str
      in self\<lparr>revision := rv,
              nodes := (if ns = [] then nodes self else ns),
              full_version := (if complete then Some input else full_version self)\<rparr>)"

section \<open>Comparison\<close>

definition last_char :: "string \<Rightarrow> nat \<Rightarrow> char result" where
  "last_char s l = (if l = 0 then Inl Out_Of_Bounds else Inr (char_at s (l - 1)))"

definition is_suffix :: "char \<Rightarrow> bool" where
  "is_suffix c \<longleftrightarrow> c_char c > 57"

text \<open>The numbers compared, with the length of the two strings less a trailing star.\<close>

definition component_numbers ::
  "string \<Rightarrow> nat \<Rightarrow> string \<Rightarrow> nat \<Rightarrow> (int \<times> int) result" where
  "component_numbers scf scf_l scs scs_l =
     (if (char_at scf 0 \<noteq> CHR ''0'' \<or> scf_l = 1) \<and> (char_at scs 0 \<noteq> CHR ''0'' \<or> scs_l = 1)
      then Inr (to_i32 (strtol10 scf), to_i32 (strtol10 scs))
      else
        let longer = (if scf_l > scs_l then scf_l else scs_l);
            maxlength = to_i32 (int longer)
        in if \<not> maxlength < 128 then Inl Assertion_Failure
           else if maxlength < 0 then Inl Out_Of_Bounds
           else Inr (to_i32 (strtol10 (take scf_l scf @ replicate (longer - scf_l) (CHR ''0''))),
                     to_i32 (strtol10 (take scs_l scs @ replicate (longer - scs_l) (CHR ''0'')))))"

text \<open>One turn of the loop: \<open>Some\<close> is a \<^verbatim>\<open>return\<close>, \<open>None\<close> goes on to the next components.\<close>

definition compare_strings :: "string \<Rightarrow> string \<Rightarrow> bool \<Rightarrow> bool \<Rightarrow> int option result" where
  "compare_strings scf scs cf_next cs_next =
     bindR (last_char scf (length scf)) (\<lambda>fl.
     bindR (if fl = CHR ''*'' then Inr (True, length scf - 1, length scs)
            else bindR (last_char scs (length scs)) (\<lambda>sl.
              if sl = CHR ''*'' then Inr (True, length scf, length scs - 1)
              else Inr (False, length scf, length scs)))
     (\<lambda>(star_skip, scf_l, scs_l).
     bindR (if cs_next then map_sum id is_suffix (last_char scf scf_l) else Inr False) (\<lambda>f_suffixed.
     if f_suffixed then Inr (Some (- 1)) else
     bindR (if cf_next then map_sum id is_suffix (last_char scs scs_l) else Inr False) (\<lambda>s_suffixed.
     if s_suffixed then Inr (Some 1) else
     bindR (last_char scf scf_l) (\<lambda>fc.
     bindR (last_char scs scs_l) (\<lambda>sc.
     let scf_suf = (if is_suffix fc then c_char fc else 0);
         scs_suf = (if is_suffix sc then c_char sc else 0)
     in bindR (component_numbers scf scf_l scs scs_l) (\<lambda>(cmp_1, cmp_2).
        bindR (sub_i32 cmp_1 cmp_2) (\<lambda>cmp.
        if cmp \<noteq> 0 then Inr (Some cmp)
        else if star_skip then Inr (Some 0)
        else if scf_suf - scs_suf \<noteq> 0 then Inr (Some (scf_suf - scs_suf))
        else Inr None))))))))"

definition compare_component ::
  "version_node \<Rightarrow> version_node \<Rightarrow> bool \<Rightarrow> bool \<Rightarrow> int option result" where
  "compare_component cf cs cf_next cs_next =
     (if prefix cf \<noteq> prefix cs then Inr (Some (pre_num (prefix cf) - pre_num (prefix cs)))
      else case (v cf, v cs) of
             (Some scf, Some scs) \<Rightarrow> compare_strings scf scs cf_next cs_next
           | _ \<Rightarrow> Inl Null_Deref)"

fun compare_nodes :: "version_node list \<Rightarrow> version_node list \<Rightarrow> int option result" where
  "compare_nodes [] [] = Inr None"
| "compare_nodes (cf # fs) [] = Inr (Some 1)"
| "compare_nodes [] (cs # ss) = Inr (Some (- 1))"
| "compare_nodes (cf # fs) (cs # ss) =
     bindR (compare_component cf cs (fs \<noteq> []) (ss \<noteq> [])) (\<lambda>r.
       case r of Some x \<Rightarrow> Inr (Some x) | None \<Rightarrow> compare_nodes fs ss)"

definition version_nodes :: "atom_version option \<Rightarrow> version_node list" where
  "version_nodes a = (case a of None \<Rightarrow> [] | Some w \<Rightarrow> nodes w)"

definition atom_version_compare :: "atom_version option \<Rightarrow> atom_version option \<Rightarrow> int result" where
  "atom_version_compare first second =
     bindR (compare_nodes (version_nodes first) (version_nodes second)) (\<lambda>r.
       case r of
         Some x \<Rightarrow> Inr x
       | None \<Rightarrow> (case (first, second) of
                    (Some a, Some b) \<Rightarrow> sub_i32 (revision a) (revision b)
                  | _ \<Rightarrow> Inl Null_Deref))"

section \<open>Versions made of numbers\<close>

text \<open>
  The rank of a digit string: strings with a leading zero are compared as decimal fractions
  (padded on the right), the others as integers, and every fraction is below every integer.
\<close>

definition digit_string :: "string \<Rightarrow> bool" where
  "digit_string s \<longleftrightarrow> s \<noteq> [] \<and> length s \<le> 9 \<and> (\<forall>c \<in> set s. isdigit c)"

definition rank :: "string \<Rightarrow> nat" where
  "rank s = (if hd s = CHR ''0'' then dec_val s * 10 ^ (9 - length s) else 10 ^ 9 + dec_val s)"

definition plain_node :: "version_node \<Rightarrow> bool" where
  "plain_node n \<longleftrightarrow> (case v n of None \<Rightarrow> False | Some s \<Rightarrow> digit_string s)"

definition plain :: "atom_version \<Rightarrow> bool" where
  "plain w \<longleftrightarrow> list_all plain_node (nodes w) \<and> 0 \<le> revision w \<and> revision w < 2 ^ 31"

definition node_key :: "version_node \<Rightarrow> atom_version_pre_t \<times> nat" where
  "node_key n = (prefix n, rank (the (v n)))"

definition version_key :: "atom_version \<Rightarrow> (atom_version_pre_t \<times> nat) list \<times> int" where
  "version_key w = (map node_key (nodes w), revision w)"

lemma digit_string_val: "digit_string s \<Longrightarrow> dec_val s < 10 ^ length s"
  by (simp add: digit_string_def dec_val_less)

lemma digit_string_leading:
  assumes "digit_string s"
  shows "hd s = CHR ''0'' \<Longrightarrow> dec_val s < 10 ^ (length s - 1)"
    and "hd s \<noteq> CHR ''0'' \<Longrightarrow> 10 ^ (length s - 1) \<le> dec_val s"
proof -
  obtain c u where s: "s = c # u" using assms by (cases s) (auto simp: digit_string_def)
  have u: "dec_val u < 10 ^ length u" and c: "isdigit c"
    using assms s by (auto simp: digit_string_def dec_val_less)
  show "hd s = CHR ''0'' \<Longrightarrow> dec_val s < 10 ^ (length s - 1)"
    using u by (simp add: s dec_val_Cons)
  assume "hd s \<noteq> CHR ''0''"
  then have "1 \<le> digit_val c" using c digit_val_zero [OF c] s by (cases "digit_val c") auto
  then have "1 * 10 ^ length u \<le> digit_val c * 10 ^ length u" by (rule mult_le_mono1)
  then have "10 ^ length u \<le> digit_val c * 10 ^ length u + dec_val u" by linarith
  then show "10 ^ (length s - 1) \<le> dec_val s" by (simp only: s dec_val_Cons list.size(4)) simp
qed

lemma digit_string_number:
  assumes "digit_string s" "k \<le> 9 - length s"
  shows "to_i32 (strtol10 (s @ replicate k (CHR ''0''))) = int (dec_val s * 10 ^ k)"
    and "dec_val s * 10 ^ k < 10 ^ 9"
proof -
  let ?t = "s @ replicate k (CHR ''0'')"
  have d: "\<forall>c \<in> set ?t. isdigit c" and l: "length ?t \<le> 9"
    using assms by (auto simp: digit_string_def isdigit_def)
  have "dec_val ?t < 10 ^ length ?t" using d by (rule dec_val_less)
  also have "(10::nat) ^ length ?t \<le> 10 ^ 9" using l by (intro power_increasing) simp_all
  finally show "dec_val s * 10 ^ k < 10 ^ 9" by (simp add: dec_val_pad)
  then show "to_i32 (strtol10 ?t) = int (dec_val s * 10 ^ k)"
    using strtol10_digits [OF d] l to_i32_nat [of "dec_val s * 10 ^ k"]
    by (simp add: dec_val_pad)
qed

text \<open>Padding to a common length \<open>m\<close> separates fractions from integers and keeps fractions in order.\<close>

lemma pad_leading:
  assumes s: "digit_string s" and m: "length s \<le> m" "m \<le> 9"
  shows "hd s = CHR ''0'' \<Longrightarrow> dec_val s * 10 ^ (m - length s) < 10 ^ (m - 1)"
    and "hd s \<noteq> CHR ''0'' \<Longrightarrow> 10 ^ (m - 1) \<le> dec_val s * 10 ^ (m - length s)"
    and "hd s = CHR ''0'' \<Longrightarrow> rank s = dec_val s * 10 ^ (m - length s) * 10 ^ (9 - m)"
proof -
  have ne: "0 < length s" using s by (simp add: digit_string_def)
  then have "length s - 1 + (m - length s) = m - 1" using m by linarith
  then have p: "10 ^ (length s - 1) * 10 ^ (m - length s) = (10::nat) ^ (m - 1)"
    by (simp only: power_add [symmetric])
  show "hd s = CHR ''0'' \<Longrightarrow> dec_val s * 10 ^ (m - length s) < 10 ^ (m - 1)"
    unfolding p [symmetric] using digit_string_leading(1) [OF s] by simp
  show "hd s \<noteq> CHR ''0'' \<Longrightarrow> 10 ^ (m - 1) \<le> dec_val s * 10 ^ (m - length s)"
    unfolding p [symmetric] using digit_string_leading(2) [OF s] by simp
  have "10 ^ (m - length s) * 10 ^ (9 - m) = (10::nat) ^ (9 - length s)"
    using m by (simp flip: power_add)
  then show "hd s = CHR ''0'' \<Longrightarrow> rank s = dec_val s * 10 ^ (m - length s) * 10 ^ (9 - m)"
    by (simp add: rank_def mult.assoc)
qed

lemma rank_split:
  assumes "digit_string s"
  shows "hd s = CHR ''0'' \<Longrightarrow> rank s < 10 ^ 9"
    and "hd s \<noteq> CHR ''0'' \<Longrightarrow> rank s = 10 ^ 9 + dec_val s"
proof -
  have "length s \<le> 9" using assms by (simp add: digit_string_def)
  then show "hd s = CHR ''0'' \<Longrightarrow> rank s < 10 ^ 9"
    using pad_leading(1,3) [OF assms, of 9] by simp
qed (simp add: rank_def)

text \<open>The numbers of two digit strings are in the order of their ranks.\<close>

text \<open>Without a leading zero the numbers themselves are compared, otherwise the shorter one is padded.\<close>

lemma direct_rank:
  assumes s: "digit_string s" and t: "digit_string t"
    and "hd s \<noteq> CHR ''0'' \<or> length s = 1" "hd t \<noteq> CHR ''0'' \<or> length t = 1"
  shows "(dec_val s < dec_val t \<longleftrightarrow> rank s < rank t) \<and> (dec_val s = dec_val t \<longleftrightarrow> rank s = rank t)"
proof -
  have "dec_val w = 0 \<and> rank w = 0 \<or> 0 < dec_val w \<and> rank w = 10 ^ 9 + dec_val w"
    if w: "digit_string w" "hd w \<noteq> CHR ''0'' \<or> length w = 1" for w
  proof (cases "hd w = CHR ''0''")
    case True
    with w(2) digit_string_leading(1) [OF w(1) True] show ?thesis by (simp add: rank_def)
  next
    case False
    have "0 < dec_val w" using digit_string_leading(2) [OF w(1) False] by (rule less_le_trans [rotated]) simp
    with rank_split(2) [OF w(1) False] show ?thesis by simp
  qed
  from this [OF s assms(3)] this [OF t assms(4)] show ?thesis by auto
qed

lemma padded_rank:
  fixes s t :: string
  defines "m \<equiv> max (length s) (length t)"
  defines "a \<equiv> dec_val s * 10 ^ (m - length s)" and "b \<equiv> dec_val t * 10 ^ (m - length t)"
  assumes s: "digit_string s" and t: "digit_string t" and zero: "hd s = CHR ''0'' \<or> hd t = CHR ''0''"
  shows "(a < b \<longleftrightarrow> rank s < rank t) \<and> (a = b \<longleftrightarrow> rank s = rank t)"
proof -
  have m: "length s \<le> m" "length t \<le> m" "m \<le> 9" using s t by (auto simp: digit_string_def m_def)
  note pad_s = pad_leading [OF s m(1,3)] and pad_t = pad_leading [OF t m(2,3)]
  note rank_s = rank_split [OF s] and rank_t = rank_split [OF t]
  show ?thesis
  proof (cases "hd s = CHR ''0''"; cases "hd t = CHR ''0''")
    assume z: "hd s = CHR ''0''" "hd t = CHR ''0''"
    show ?thesis unfolding a_def b_def pad_s(3) [OF z(1)] pad_t(3) [OF z(2)] by simp
  next
    assume z: "hd s = CHR ''0''" "hd t \<noteq> CHR ''0''"
    have "a < b" using pad_s(1) [OF z(1)] pad_t(2) [OF z(2)] unfolding a_def b_def by linarith
    moreover have "rank s < rank t" using rank_s(1) [OF z(1)] rank_t(2) [OF z(2)] by linarith
    ultimately show ?thesis by simp
  next
    assume z: "hd s \<noteq> CHR ''0''" "hd t = CHR ''0''"
    have "b < a" using pad_s(2) [OF z(1)] pad_t(1) [OF z(2)] unfolding a_def b_def by linarith
    moreover have "rank t < rank s" using rank_s(2) [OF z(1)] rank_t(1) [OF z(2)] by linarith
    ultimately show ?thesis by simp
  qed (use zero in simp)
qed

lemma component_numbers_rank:
  assumes s: "digit_string s" and t: "digit_string t"
  shows "\<exists>a b. component_numbers s (length s) t (length t) = Inr (int a, int b) \<and>
           a < 10 ^ 9 \<and> b < 10 ^ 9 \<and> (a < b \<longleftrightarrow> rank s < rank t) \<and> (a = b \<longleftrightarrow> rank s = rank t)"
proof -
  let ?m = "max (length s) (length t)"
  let ?a = "dec_val s * 10 ^ (?m - length s)" and ?b = "dec_val t * 10 ^ (?m - length t)"
  have ne: "s \<noteq> []" "t \<noteq> []" and len: "length s \<le> 9" "length t \<le> 9"
    using s t by (auto simp: digit_string_def)
  have at0: "char_at s 0 = hd s" "char_at t 0 = hd t"
    using ne by (auto simp: char_at_def hd_conv_nth)
  have longer: "(if length s > length t then length s else length t) = ?m" by simp
  have small: "to_i32 (int ?m) = int ?m" using len by (intro to_i32_nat) simp
  note num_s = digit_string_number [OF s, of "?m - length s"]
  note num_t = digit_string_number [OF t, of "?m - length t"]
  have plain_nums: "to_i32 (strtol10 s) = int (dec_val s)" "dec_val s < 10 ^ 9"
      "to_i32 (strtol10 t) = int (dec_val t)" "dec_val t < 10 ^ 9"
    using digit_string_number [OF s, of 0] digit_string_number [OF t, of 0] by simp_all
  show ?thesis
  proof (cases "(hd s \<noteq> CHR ''0'' \<or> length s = 1) \<and> (hd t \<noteq> CHR ''0'' \<or> length t = 1)")
    case True
    then have "component_numbers s (length s) t (length t) = Inr (int (dec_val s), int (dec_val t))"
      using plain_nums unfolding component_numbers_def at0 by simp
    with direct_rank [OF s t] True plain_nums show ?thesis by blast
  next
    case False
    then have "component_numbers s (length s) t (length t) = Inr (int ?a, int ?b)"
      using len num_s num_t unfolding component_numbers_def at0 longer Let_def small by auto
    moreover have "?a < 10 ^ 9" "?b < 10 ^ 9" using num_s(2) num_t(2) len by simp_all
    moreover have "hd s = CHR ''0'' \<or> hd t = CHR ''0''" using False by blast
    ultimately show ?thesis using padded_rank [OF s t] by blast
  qed
qed

lemma isdigit_not_suffix: "isdigit c \<Longrightarrow> \<not> is_suffix c"
proof -
  assume "isdigit c"
  then have "int (of_char c) \<le> 57" by (simp add: isdigit_def)
  then have "of_char c \<le> (57 :: int)" by (simp only: of_nat_of_char)
  then show ?thesis by (simp add: is_suffix_def c_char_def Let_def)
qed

lemma digit_string_last:
  assumes "digit_string s"
  shows "\<exists>c. last_char s (length s) = Inr c \<and> c \<noteq> CHR ''*'' \<and> \<not> is_suffix c"
proof -
  have "s \<noteq> []" "s ! (length s - 1) \<in> set s" using assms by (auto simp: digit_string_def)
  moreover from this have "isdigit (s ! (length s - 1))" using assms by (simp add: digit_string_def)
  then have "s ! (length s - 1) \<noteq> CHR ''*''" "\<not> is_suffix (s ! (length s - 1))"
    by (auto simp: isdigit_not_suffix) (simp add: isdigit_def)
  ultimately show ?thesis by (auto simp: last_char_def char_at_def)
qed

lemma compare_strings_digits:
  assumes s: "digit_string s" and t: "digit_string t"
  shows "\<exists>r. compare_strings s t x y = Inr r \<and>
           (case r of None \<Rightarrow> rank s = rank t | Some d \<Rightarrow> d \<noteq> 0 \<and> agrees d (rank s) (rank t))"
proof -
  obtain c d where c: "last_char s (length s) = Inr c" "c \<noteq> CHR ''*''" "\<not> is_suffix c"
    and d: "last_char t (length t) = Inr d" "d \<noteq> CHR ''*''" "\<not> is_suffix d"
    using digit_string_last [OF s] digit_string_last [OF t] by auto
  obtain a b where ab: "component_numbers s (length s) t (length t) = Inr (int a, int b)"
      "a < 10 ^ 9" "b < 10 ^ 9" "a < b \<longleftrightarrow> rank s < rank t" "a = b \<longleftrightarrow> rank s = rank t"
    using component_numbers_rank [OF s t] by blast
  have "sub_i32 (int a) (int b) = Inr (int a - int b)"
    using ab(2,3) by (simp add: sub_i32_def)
  then have "compare_strings s t x y = Inr (if a = b then None else Some (int a - int b))"
    using c d ab(1) by (cases x; cases y) (simp_all add: compare_strings_def)
  then show ?thesis using ab(4,5) by (auto simp: agrees_def)
qed

lemma compare_component_plain:
  assumes "plain_node m" "plain_node n"
  shows "\<exists>r. compare_component m n x y = Inr r \<and>
           (case r of None \<Rightarrow> node_key m = node_key n
                    | Some d \<Rightarrow> d \<noteq> 0 \<and> agrees d (node_key m) (node_key n))"
proof -
  from assms obtain s t where v: "v m = Some s" "digit_string s" "v n = Some t" "digit_string t"
    by (auto simp: plain_node_def split: option.splits)
  show ?thesis
  proof (cases "prefix m = prefix n")
    case True
    with v compare_strings_digits [of s t x y] show ?thesis
      by (auto simp: compare_component_def node_key_def agrees_def split: option.splits)
  next
    case False
    then show ?thesis
      using pre_num_inject [of "prefix m" "prefix n"]
      by (auto simp: compare_component_def node_key_def agrees_def less_atom_version_pre_t_def
          less_eq_atom_version_pre_t_def simp del: pre_num_inject)
  qed
qed

lemma compare_nodes_plain:
  assumes "list_all plain_node ms" "list_all plain_node ns"
  shows "\<exists>r. compare_nodes ms ns = Inr r \<and>
           (case r of None \<Rightarrow> map node_key ms = map node_key ns
                    | Some d \<Rightarrow> d \<noteq> 0 \<and> agrees d (map node_key ms) (map node_key ns))"
  using assms
proof (induction ms ns rule: compare_nodes.induct)
  case (4 m ms n ns)
  then obtain r where r: "compare_component m n (ms \<noteq> []) (ns \<noteq> []) = Inr r"
      "case r of None \<Rightarrow> node_key m = node_key n
               | Some d \<Rightarrow> d \<noteq> 0 \<and> agrees d (node_key m) (node_key n)"
    using compare_component_plain [of m n "ms \<noteq> []" "ns \<noteq> []"] by auto
  show ?case
  proof (cases r)
    case None
    with 4 r obtain q where "compare_nodes ms ns = Inr q"
        "case q of None \<Rightarrow> map node_key ms = map node_key ns
                 | Some d \<Rightarrow> d \<noteq> 0 \<and> agrees d (map node_key ms) (map node_key ns)"
      by auto
    with None r show ?thesis by (auto simp: agrees_def split: option.splits)
  next
    case (Some d)
    with r show ?thesis by (auto simp: agrees_def)
  qed
qed (auto simp: agrees_def)

lemma version_compare_key:
  assumes "plain a" "plain b"
  shows "\<exists>r. atom_version_compare (Some a) (Some b) = Inr r \<and> agrees r (version_key a) (version_key b)"
proof -
  obtain r where r: "compare_nodes (nodes a) (nodes b) = Inr r"
      "case r of None \<Rightarrow> map node_key (nodes a) = map node_key (nodes b)
               | Some d \<Rightarrow> d \<noteq> 0 \<and> agrees d (map node_key (nodes a)) (map node_key (nodes b))"
    using compare_nodes_plain [of "nodes a" "nodes b"] assms by (auto simp: plain_def)
  show ?thesis
  proof (cases r)
    case None
    have "sub_i32 (revision a) (revision b) = Inr (revision a - revision b)"
      using assms by (simp add: plain_def sub_i32_def)
    with None r show ?thesis
      by (auto simp: atom_version_compare_def version_nodes_def version_key_def agrees_def)
  next
    case (Some d)
    with r show ?thesis
      by (auto simp: atom_version_compare_def version_nodes_def version_key_def agrees_def)
  qed
qed

text \<open>The comparison provides the interface of a version order on plain versions.\<close>

interpretation vo: version_order "\<lambda>a b. atom_version_compare (Some a) (Some b)" plain version_key
  by unfold_locales (rule version_compare_key)

section \<open>Parsing what was printed\<close>

fun pre_name :: "atom_version_pre_t \<Rightarrow> string" where
  "pre_name ATOM_PREFIX_ALPHA = ''alpha''"
| "pre_name ATOM_PREFIX_BETA = ''beta''"
| "pre_name ATOM_PREFIX_PRE = ''pre''"
| "pre_name ATOM_PREFIX_RC = ''rc''"
| "pre_name ATOM_PREFIX_NONE = []"
| "pre_name ATOM_PREFIX_P = ''p''"

definition print_part :: "atom_version_pre_t \<times> string \<Rightarrow> string" where
  "print_part pd = pre_name (fst pd) @ snd pd"

definition separator :: "atom_version_pre_t \<Rightarrow> char" where
  "separator p = (if p = ATOM_PREFIX_NONE then CHR ''.'' else CHR ''_'')"

fun print_parts :: "(atom_version_pre_t \<times> string) list \<Rightarrow> string" where
  "print_parts [] = []"
| "print_parts [pd] = print_part pd"
| "print_parts (pd # qd # rest) = print_part pd @ separator (fst qd) # print_parts (qd # rest)"

definition print_version :: "(atom_version_pre_t \<times> string) list \<Rightarrow> string option \<Rightarrow> string" where
  "print_version ps r = print_parts ps @ (case r of None \<Rightarrow> [] | Some d \<Rightarrow> ''-r'' @ d)"

definition digits :: "string \<Rightarrow> bool" where
  "digits s \<longleftrightarrow> s \<noteq> [] \<and> (\<forall>c \<in> set s. isdigit c)"

definition parsed_node :: "atom_version_pre_t \<times> string \<Rightarrow> version_node" where
  "parsed_node pd = \<lparr>v = Some (snd pd), prefix = fst pd\<rparr>"

lemma pre_name_chars: "c \<in> set (pre_name p) \<Longrightarrow> \<not> isdigit c \<and> c \<notin> set ''._-''"
  by (cases p) (auto simp: isdigit_def)

lemma find_prefix_name: "find_prefix (length (pre_name p)) = Some p"
  by (cases p) (simp_all add: find_prefix_def atom_prefix_links_def)

lemma digit_not_separator: "isdigit c \<Longrightarrow> c \<notin> set ''._-''"
  by (auto simp: isdigit_def)

lemma print_part_chars: "digits (snd pd) \<Longrightarrow> c \<in> set (print_part pd) \<Longrightarrow> c \<notin> set ''._-''"
  using pre_name_chars digit_not_separator unfolding print_part_def digits_def by auto

lemma prefix_len_print:
  assumes "digits (snd pd)"
  shows "prefix_len (print_part pd) = length (pre_name (fst pd))"
proof -
  obtain d u where u: "snd pd = d # u" "isdigit d" using assms by (cases "snd pd") (auto simp: digits_def)
  have "strpbrk (print_part pd) ''0123456789'' = Some (length (pre_name (fst pd)))"
    unfolding strpbrk_def print_part_def u(1)
    by (rule str_index_append) (use u(2) pre_name_chars isdigit_in_digits in auto)
  then show ?thesis by (simp add: prefix_len_def)
qed

lemma version_loop_part:
  assumes d: "digits (snd pd)"
  shows "version_loop (print_part pd) = ([parsed_node pd], True)"
    and "c \<in> set ''._-'' \<Longrightarrow>
      version_loop (print_part pd @ c # rest) = apfst ((#) (parsed_node pd)) (version_loop rest)"
proof -
  have body: "drop (length (pre_name (fst pd))) (print_part pd) = snd pd"
    by (simp add: print_part_def)
  have "strpbrk (print_part pd) ''._-'' = None"
    unfolding strpbrk_def str_index_None using print_part_chars [OF d] by blast
  then show "version_loop (print_part pd) = ([parsed_node pd], True)"
    by (simp add: version_loop.simps [of "print_part pd"] prefix_len_print [OF d] find_prefix_name
        parsed_node_def body)
  assume c: "c \<in> set ''._-''"
  have "strpbrk (print_part pd @ c # rest) ''._-'' = Some (length (print_part pd))"
    unfolding strpbrk_def by (rule str_index_append) (use c print_part_chars [OF d] in blast)+
  then show "version_loop (print_part pd @ c # rest) = apfst ((#) (parsed_node pd)) (version_loop rest)"
    by (simp add: version_loop.simps [of "print_part pd @ c # rest"] prefix_len_print [OF d]
        find_prefix_name parsed_node_def body)
qed

lemma version_loop_print:
  assumes "ps \<noteq> []" "\<forall>pd \<in> set ps. digits (snd pd)"
  shows "version_loop (print_parts ps) = (map parsed_node ps, True)"
  using assms
proof (induction ps rule: print_parts.induct)
  case (3 pd qd rest)
  have "separator (fst qd) \<in> set ''._-''" by (simp add: separator_def)
  with 3 show ?case by (simp add: version_loop_part(2))
qed (simp_all add: version_loop_part)

lemma print_parts_no_dash:
  "\<forall>pd \<in> set ps. digits (snd pd) \<Longrightarrow> CHR ''-'' \<notin> set (print_parts ps)"
proof (induction ps rule: print_parts.induct)
  case (2 pd)
  then show ?case using print_part_chars by fastforce
next
  case (3 pd qd rest)
  then have "CHR ''-'' \<notin> set (print_part pd)" using print_part_chars by fastforce
  with 3 show ?case by (auto simp: separator_def)
qed simp

lemma digits_no_dash: "digits d \<Longrightarrow> CHR ''-'' \<notin> set d"
  by (auto simp: digits_def isdigit_def)

lemma split_revision_print:
  assumes "\<forall>pd \<in> set ps. digits (snd pd)" "\<And>d. r = Some d \<Longrightarrow> digits d \<and> length d \<le> 9"
  shows "split_revision rv (print_version ps r) =
           ((case r of None \<Rightarrow> rv | Some d \<Rightarrow> int (dec_val d)), print_parts ps)"
proof (cases r)
  case None
  then show ?thesis using print_parts_no_dash [OF assms(1)]
    by (simp add: split_revision_def print_version_def strrchr_None [THEN iffD2])
next
  case (Some e)
  with assms(2) have e: "digits e" "length e \<le> 9" by auto
  let ?str = "print_parts ps @ CHR ''-'' # (CHR ''r'' # e)"
  have str: "print_version ps (Some e) = ?str"
    by (simp add: print_version_def)
  have "strrchr ?str (CHR ''-'') = Some (length (print_parts ps))"
    by (rule strrchr_append) (use digits_no_dash [OF e(1)] in simp)
  moreover have "to_i32 (strtol10 e) = int (dec_val e)"
    using digit_string_number(1) [of e 0] e by (simp add: digits_def digit_string_def)
  ultimately show ?thesis
    unfolding Some str split_revision_def by (simp add: char_at_def nth_append)
qed

lemma parse_print_aux:
  assumes "ps \<noteq> []" "\<forall>pd \<in> set ps. digits (snd pd)"
    and "\<And>d. r = Some d \<Longrightarrow> digits d \<and> length d \<le> 9"
  shows "atom_version_init atom_version_new (print_version ps r) =
           \<lparr>full_version = Some (print_version ps r), nodes = map parsed_node ps,
            revision = (case r of None \<Rightarrow> 0 | Some d \<Rightarrow> int (dec_val d))\<rparr>"
  using assms
  by (simp add: atom_version_init_def split_revision_print version_loop_print atom_version_new_def
      split: option.split)

lemma parsed_plain:
  assumes "ps \<noteq> []" "\<forall>pd \<in> set ps. digits (snd pd) \<and> length (snd pd) \<le> 9"
    and "\<forall>d. r = Some d \<longrightarrow> digits d \<and> length d \<le> 9"
  defines "w \<equiv> atom_version_init atom_version_new (print_version ps r)"
  shows "plain w"
    and "version_key w = (map (\<lambda>(p, d). (p, rank d)) ps, case r of None \<Rightarrow> 0 | Some d \<Rightarrow> int (dec_val d))"
proof -
  have w: "w = \<lparr>full_version = Some (print_version ps r), nodes = map parsed_node ps,
            revision = (case r of None \<Rightarrow> 0 | Some d \<Rightarrow> int (dec_val d))\<rparr>"
    unfolding w_def by (rule parse_print_aux) (use assms in auto)
  have "list_all plain_node (map parsed_node ps)"
    using assms(2) by (auto simp: list_all_iff plain_node_def parsed_node_def digit_string_def digits_def)
  moreover have "int (dec_val d) < 2147483648" if "r = Some d" for d
    using digit_string_number(2) [of d 0] assms(3) that
    by (simp add: digit_string_def digits_def)
  ultimately show "plain w" by (auto simp: w plain_def split: option.split)
  show "version_key w = (map (\<lambda>(p, d). (p, rank d)) ps, case r of None \<Rightarrow> 0 | Some d \<Rightarrow> int (dec_val d))"
    by (auto simp: w version_key_def node_key_def parsed_node_def)
qed

section \<open>Properties\<close>

lemma rank_values: "rank [c] = (if c = CHR ''0'' then 0 else 10 ^ 9 + digit_val c)"
    "rank [c, d] = (if c = CHR ''0'' then digit_val d * 10 ^ 7 else 10 ^ 9 + 10 * digit_val c + digit_val d)"
    "digit_val c = of_char c - 48"
  by (simp_all add: rank_def dec_val_def digit_val_def)

text \<open>
  C8: on versions whose components are strings of one to nine digits,
  \<^verbatim>\<open>atom_version_compare\<close> is defined and its sign is the lexicographic order of the keys:
  component by component first the prefix (alpha, beta, pre, rc, none, p), then the rank of
  the number, a longer version being newer than its own beginning, and the revision last.
  It is hence a total order on keys.
\<close>

theorem version_compare_order:
  assumes "plain a" and "plain b"
  shows "\<exists>r. atom_version_compare (Some a) (Some b) = Inr r \<and>
           (r < 0 \<longleftrightarrow> version_key a < version_key b) \<and>
           (r = 0 \<longleftrightarrow> version_key a = version_key b) \<and>
           (0 < r \<longleftrightarrow> version_key b < version_key a)"
  using version_compare_key [OF assms] agrees_simps by blast

theorem version_compare_order_witness:
  defines "a \<equiv> atom_version_init atom_version_new ''1.10-r2''"
    and "b \<equiv> atom_version_init atom_version_new ''1.9''"
  shows "plain a \<and> plain b \<and> version_key b < version_key a \<and>
         (\<exists>r. atom_version_compare (Some a) (Some b) = Inr r \<and> 0 < r)"
proof -
  have a: "a = \<lparr>full_version = Some ''1.10-r2'', nodes = map (\<lambda>d. \<lparr>v = Some d, prefix = ATOM_PREFIX_NONE\<rparr>)
      [''1'', ''10''], revision = 2\<rparr>" unfolding a_def by code_simp
  have b: "b = \<lparr>full_version = Some ''1.9'', nodes = map (\<lambda>d. \<lparr>v = Some d, prefix = ATOM_PREFIX_NONE\<rparr>)
      [''1'', ''9''], revision = 0\<rparr>" unfolding b_def by code_simp
  have p: "plain a" "plain b"
    by (simp_all add: a b plain_def plain_node_def digit_string_def isdigit_def)
  have k: "version_key b < version_key a"
    by (simp add: a b version_key_def node_key_def rank_values)
  from version_compare_order [OF p] k p show ?thesis by blast
qed

text \<open>
  C25: parsing reads back what a version string says: a list of components (prefix and
  digits, of any length) printed with their separators, and an optional revision of one to
  nine digits, is parsed into exactly these components and this revision, and the string is
  kept as \<^verbatim>\<open>full_version\<close>.
\<close>

theorem version_parse_print:
  assumes "ps \<noteq> []" and "\<forall>pd \<in> set ps. digits (snd pd)"
    and "\<forall>d. r = Some d \<longrightarrow> digits d \<and> length d \<le> 9"
  shows "atom_version_init atom_version_new (print_version ps r) =
           \<lparr>full_version = Some (print_version ps r),
            nodes = map (\<lambda>(p, d). \<lparr>v = Some d, prefix = p\<rparr>) ps,
            revision = (case r of None \<Rightarrow> 0 | Some d \<Rightarrow> int (dec_val d))\<rparr>"
  using parse_print_aux [of ps r] assms by (simp add: parsed_node_def case_prod_beta)

theorem version_parse_print_witness:
  "atom_version_init atom_version_new ''1.02_rc3-r14'' =
     \<lparr>full_version = Some ''1.02_rc3-r14'',
      nodes = [\<lparr>v = Some ''1'', prefix = ATOM_PREFIX_NONE\<rparr>, \<lparr>v = Some ''02'', prefix = ATOM_PREFIX_NONE\<rparr>,
               \<lparr>v = Some ''3'', prefix = ATOM_PREFIX_RC\<rparr>],
      revision = 14\<rparr>"
proof -
  let ?ps = "[(ATOM_PREFIX_NONE, ''1''), (ATOM_PREFIX_NONE, ''02''), (ATOM_PREFIX_RC, ''3'')]"
  have "print_version ?ps (Some ''14'') = ''1.02_rc3-r14''" "dec_val ''14'' = 14" by code_simp+
  then show ?thesis
    using version_parse_print [of ?ps "Some ''14''"] by (simp add: digits_def isdigit_def)
qed

definition revision_value :: "string option \<Rightarrow> nat" where
  "revision_value r = (case r of None \<Rightarrow> 0 | Some d \<Rightarrow> dec_val d)"

text \<open>
  C24: from strings to the order: for two version strings printed from components of one to
  nine digits, each with a revision of that many digits or none, parsing both and comparing them
  gives the sign of the lexicographic order of what was printed. No revision counts as \<open>-r0\<close>.
\<close>

theorem version_strings_ordered:
  assumes "ps \<noteq> []" and "\<forall>pd \<in> set ps. digits (snd pd) \<and> length (snd pd) \<le> 9"
    and "qs \<noteq> []" and "\<forall>pd \<in> set qs. digits (snd pd) \<and> length (snd pd) \<le> 9"
    and "\<forall>d. r = Some d \<longrightarrow> digits d \<and> length d \<le> 9" and "\<forall>d. r' = Some d \<longrightarrow> digits d \<and> length d \<le> 9"
  shows "\<exists>c. atom_version_compare
              (Some (atom_version_init atom_version_new (print_version ps r)))
              (Some (atom_version_init atom_version_new (print_version qs r'))) = Inr c \<and>
           (c < 0 \<longleftrightarrow> (map (\<lambda>(p, s). (p, rank s)) ps, revision_value r) < (map (\<lambda>(p, s). (p, rank s)) qs, revision_value r')) \<and>
           (c = 0 \<longleftrightarrow> map (\<lambda>(p, s). (p, rank s)) ps = map (\<lambda>(p, s). (p, rank s)) qs \<and> revision_value r = revision_value r')"
proof -
  note pa = parsed_plain [OF assms(1,2,5)] and pb = parsed_plain [OF assms(3,4,6)]
  have rev: "(case x of None \<Rightarrow> 0 | Some d \<Rightarrow> int (dec_val d)) = int (revision_value x)" for x
    by (simp add: revision_value_def split: option.split)
  from version_compare_key [OF pa(1) pb(1)] show ?thesis
    unfolding pa(2) pb(2) rev agrees_def less_prod_simp prod.inject of_nat_less_iff of_nat_eq_iff .
qed

theorem version_strings_ordered_witness:
  "\<exists>c d. atom_version_compare
        (Some (atom_version_init atom_version_new (print_version [(ATOM_PREFIX_NONE, ''1''), (ATOM_PREFIX_RC, ''3'')] (Some ''0''))))
        (Some (atom_version_init atom_version_new (print_version [(ATOM_PREFIX_NONE, ''1''), (ATOM_PREFIX_P, ''1'')] None))) = Inr c \<and>
      c < 0 \<and>
      atom_version_compare
        (Some (atom_version_init atom_version_new (print_version [(ATOM_PREFIX_NONE, ''1'')] None)))
        (Some (atom_version_init atom_version_new (print_version [(ATOM_PREFIX_NONE, ''1'')] (Some ''0'')))) = Inr d \<and> d = 0"
proof -
  have "(map (\<lambda>(p, s). (p, rank s)) [(ATOM_PREFIX_NONE, ''1''), (ATOM_PREFIX_RC, ''3'')], revision_value (Some ''0''))
      < (map (\<lambda>(p, s). (p, rank s)) [(ATOM_PREFIX_NONE, ''1''), (ATOM_PREFIX_P, ''1'')], revision_value None)"
    by (simp add: rank_values less_atom_version_pre_t_def)
  moreover have "revision_value (Some ''0'') = revision_value None" by (simp add: revision_value_def dec_val_def digit_val_def)
  ultimately show ?thesis
    using version_strings_ordered [of "[(ATOM_PREFIX_NONE, ''1''), (ATOM_PREFIX_RC, ''3'')]"
        "[(ATOM_PREFIX_NONE, ''1''), (ATOM_PREFIX_P, ''1'')]" "Some ''0''" None]
      version_strings_ordered [of "[(ATOM_PREFIX_NONE, ''1'')]" "[(ATOM_PREFIX_NONE, ''1'')]" None "Some ''0''"]
    by (auto simp: digits_def isdigit_def)
qed

section \<open>Versions outside the plain ones\<close>

definition compare_versions :: "string \<Rightarrow> string \<Rightarrow> int result" where
  "compare_versions s t =
     atom_version_compare (Some (atom_version_init atom_version_new s))
       (Some (atom_version_init atom_version_new t))"

text \<open>A letter suffix makes the comparison cyclic, and a version with one unequal to itself.\<close>

lemma version_compare_cycle:
  "compare_versions ''13b'' ''13'' = Inr 98 \<and> compare_versions ''13'' ''12.5'' = Inr 1 \<and>
   compare_versions ''12.5'' ''13b'' = Inr 1"
  by code_simp

lemma version_compare_irreflexive: "compare_versions ''1b.2'' ''1b.2'' = Inr (- 1)"
  by code_simp

text \<open>The suffixes without a number lose their meaning, and a pre-release is newer than its release.\<close>

lemma version_suffix_lost: "compare_versions ''1_alpha'' ''1_beta'' = Inr 0"
  by code_simp

lemma version_pre_release_newer: "compare_versions ''1.0_alpha1'' ''1.0'' = Inr 1"
  by code_simp

text \<open>An empty component, or one that is only a star, is read before its beginning.\<close>

lemma version_empty_component:
  "compare_versions ''1.'' ''1.'' = Inl Out_Of_Bounds"
  "compare_versions ''1.*'' ''1.2'' = Inl Out_Of_Bounds"
  by code_simp+

end
