(* ===== verification/Atoms.thy ===== *)
theory Atoms
  imports Version Lut
begin

text \<open>
  Atoms, the selectors of packages: \<^verbatim>\<open>Atom\<close>, \<^verbatim>\<open>AtomFlag\<close> and their construction, hash,
  comparison and printing in \<^verbatim>\<open>cportage/atom.c\<close>. \<^verbatim>\<open>char*\<close> fields that may be NULL are
  options; the list of use flags linked by \<^verbatim>\<open>next\<close> is a list. Objects are allocated zeroed.
\<close>

section \<open>Data\<close>

type_synonym atom_version_t = u32

definition ATOM_VERSION_NONE :: atom_version_t where "ATOM_VERSION_NONE = 0"
definition ATOM_VERSION_E :: atom_version_t where "ATOM_VERSION_E = 1"
definition ATOM_VERSION_L :: atom_version_t where "ATOM_VERSION_L = 2"
definition ATOM_VERSION_G :: atom_version_t where "ATOM_VERSION_G = 4"
definition ATOM_VERSION_REV :: atom_version_t where "ATOM_VERSION_REV = ATOM_VERSION_E OR 8"
definition ATOM_VERSION_ALL :: atom_version_t where
  "ATOM_VERSION_ALL = ATOM_VERSION_E OR ATOM_VERSION_L OR ATOM_VERSION_G"
definition ATOM_VERSION_GE :: atom_version_t where "ATOM_VERSION_GE = ATOM_VERSION_E OR ATOM_VERSION_G"
definition ATOM_VERSION_LE :: atom_version_t where "ATOM_VERSION_LE = ATOM_VERSION_L OR ATOM_VERSION_E"

lemmas atom_version_t_defs =
  ATOM_VERSION_NONE_def ATOM_VERSION_E_def ATOM_VERSION_L_def ATOM_VERSION_G_def
  ATOM_VERSION_REV_def ATOM_VERSION_ALL_def ATOM_VERSION_GE_def ATOM_VERSION_LE_def

datatype atom_use_t =
    ATOM_USE_DISABLE
  | ATOM_USE_ENABLE
  | ATOM_USE_ENABLE_IF_ON
  | ATOM_USE_DISABLE_IF_OFF
  | ATOM_USE_EQUAL
  | ATOM_USE_OPPOSITE

datatype atom_use_default_t = ATOM_DEFAULT_NONE | ATOM_DEFAULT_ON | ATOM_DEFAULT_OFF

datatype atom_block_t = ATOM_BLOCK_NONE | ATOM_BLOCK_SOFT | ATOM_BLOCK_HARD

datatype atom_slot_t = ATOM_SLOT_IGNORE | ATOM_SLOT_REBUILD

fun block_num :: "atom_block_t \<Rightarrow> u64" where
  "block_num ATOM_BLOCK_NONE = 0"
| "block_num ATOM_BLOCK_SOFT = 1"
| "block_num ATOM_BLOCK_HARD = 2"

fun slot_num :: "atom_slot_t \<Rightarrow> u64" where
  "slot_num ATOM_SLOT_IGNORE = 0"
| "slot_num ATOM_SLOT_REBUILD = 1"

record atom_flag =
  flag_name :: string
  flag_option :: atom_use_t
  flag_def :: atom_use_default_t

record atom =
  atom_id :: lut_id
  id_flag :: lut_flags
  cached_hash :: int
  atom_category :: "string option"
  atom_name :: "string option"
  atom_key :: "string option"
  repository :: "string option"
  atom_slot :: "string option"
  atom_sub_slot :: "string option"
  slot_opts :: atom_slot_t
  version_range :: atom_version_t
  blocks :: atom_block_t
  atom_version :: "atom_version option"
  useflags :: "atom_flag list"

text \<open>\<^verbatim>\<open>PyAtom_new\<close>: every field zero.\<close>

definition atom_new :: atom where
  "atom_new =
     \<lparr>atom_id = 0, id_flag = 0, cached_hash = 0, atom_category = None, atom_name = None,
      atom_key = None, repository = None, atom_slot = None, atom_sub_slot = None,
      slot_opts = ATOM_SLOT_IGNORE, version_range = ATOM_VERSION_NONE, blocks = ATOM_BLOCK_NONE,
      atom_version = None, useflags = []\<rparr>"

section \<open>Use flags of an atom\<close>

definition atomflag_build :: "string \<Rightarrow> atom_flag" where
  "atomflag_build name =
     (if char_at name 0 = CHR ''-''
      then \<lparr>flag_name = drop 1 name, flag_option = ATOM_USE_DISABLE, flag_def = ATOM_DEFAULT_NONE\<rparr>
      else \<lparr>flag_name = name, flag_option = ATOM_USE_ENABLE, flag_def = ATOM_DEFAULT_NONE\<rparr>)"

fun flag_affixes :: "atom_use_t \<Rightarrow> string \<times> string" where
  "flag_affixes ATOM_USE_DISABLE = (''-'', [])"
| "flag_affixes ATOM_USE_ENABLE = ([], [])"
| "flag_affixes ATOM_USE_ENABLE_IF_ON = ([], ''?'')"
| "flag_affixes ATOM_USE_DISABLE_IF_OFF = (''!'', ''?'')"
| "flag_affixes ATOM_USE_EQUAL = ([], ''='')"
| "flag_affixes ATOM_USE_OPPOSITE = (''!'', ''='')"

definition PyAtomFlag_repr :: "atom_flag \<Rightarrow> string" where
  "PyAtomFlag_repr f =
     ''AtomFlag<'' @ fst (flag_affixes (flag_option f)) @ flag_name f @ snd (flag_affixes (flag_option f)) @ ''>''"

section \<open>Hash\<close>

definition flags_hash :: "atom_flag list \<Rightarrow> u64" where
  "flags_hash fs = fold (\<lambda>f h. h + ucast (str_hash (flag_name f))) fs 0"

definition opt_hash :: "string option \<Rightarrow> u64" where
  "opt_hash s = (case s of None \<Rightarrow> 0 | Some t \<Rightarrow> ucast (str_hash t))"

definition version_hash :: "atom_version option \<Rightarrow> u64 result" where
  "version_hash w =
     (case w of
        None \<Rightarrow> Inr 0
      | Some w \<Rightarrow> (case full_version w of None \<Rightarrow> Inl Null_Deref | Some s \<Rightarrow> Inr (ucast (str_hash s))))"

definition hash_data :: "atom \<Rightarrow> u64 \<Rightarrow> u8 list" where
  "hash_data a vh =
     concat (map (le_bytes 8)
       [atom_id a, vh, opt_hash (repository a), opt_hash (atom_slot a), opt_hash (atom_sub_slot a),
        flags_hash (useflags a)]) @
     concat (map (le_bytes 4) [slot_num (slot_opts a), ucast (version_range a), block_num (blocks a)])"

definition PyAtom_hash :: "atom \<Rightarrow> int result" where
  "PyAtom_hash a =
     (if cached_hash a \<noteq> - 1 then Inr (cached_hash a)
      else bindR (version_hash (atom_version a))
             (\<lambda>vh. Inr (uint (map_get_hash (Some (hash_data a vh)) (8 * 6 + 4 * 3)))))"

section \<open>Construction\<close>

text \<open>
  The index of the dash that starts the version in the text after the slash: the last dash
  before a digit, or the dash before it when the last one starts a revision.
\<close>

definition version_split :: "string \<Rightarrow> nat option" where
  "version_split name_ident =
     (case strrchr name_ident (CHR ''-'') of
        None \<Rightarrow> None
      | Some last_dash \<Rightarrow>
          if char_at name_ident (last_dash + 1) = CHR ''r'' \<and> isdigit (char_at name_ident (last_dash + 2))
          then
            (let cut = take last_dash name_ident
             in case strrchr cut (CHR ''-'') of
                  None \<Rightarrow> None
                | Some second_dash \<Rightarrow>
                    if isdigit (char_at cut (second_dash + 1)) then Some second_dash else None)
          else if isdigit (char_at name_ident (last_dash + 1)) then Some last_dash
          else None)"

definition atom_init :: "lut option \<Rightarrow> atom \<Rightarrow> string \<Rightarrow> (int \<times> atom) result" where
  "atom_init packages self input =
     (case packages of
        None \<Rightarrow> Inr (1, self)
      | Some pkgs \<Rightarrow>
          let self = self\<lparr>atom_version := None, useflags := [], atom_slot := None, atom_sub_slot := None,
                slot_opts := ATOM_SLOT_IGNORE, version_range := ATOM_VERSION_ALL,
                blocks := ATOM_BLOCK_NONE, cached_hash := - 1\<rparr>
          in case strchr input (CHR ''/'') of
               None \<Rightarrow> Inr (1, self)
             | Some cat_splt \<Rightarrow>
                 let name_ident = drop (cat_splt + 1) input;
                     category = take cat_splt input;
                     (ver, name) =
                       (case version_split name_ident of
                          None \<Rightarrow> (None, name_ident)
                        | Some i \<Rightarrow>
                            (Some (atom_version_init atom_version_new (drop (i + 1) name_ident)),
                             take i name_ident));
                     key = category @ ''/'' @ name;
                     (i, fl) = lut_get_id pkgs key;
                     self = self\<lparr>atom_version := ver, atom_category := Some category,
                       atom_name := Some name, repository := None, atom_key := Some key,
                       atom_id := i, id_flag := fl\<rparr>
                 in bindR (PyAtom_hash self) (\<lambda>h. Inr (0, self\<lparr>cached_hash := h\<rparr>)))"

text \<open>\<^verbatim>\<open>cmdline_atom_new\<close>: the string \<^verbatim>\<open>SEARCH/name\<close> it prints is not the one it parses.\<close>

definition cmdline_atom_new :: "lut option \<Rightarrow> string \<Rightarrow> atom option result" where
  "cmdline_atom_new packages name =
     bindR (atom_init packages atom_new name) (\<lambda>(code, out). Inr (if code \<noteq> 0 then None else Some out))"

section \<open>Printing and comparing\<close>

definition range_prefix :: "atom_version_t \<Rightarrow> string" where
  "range_prefix r =
     (if r = ATOM_VERSION_ALL then []
      else if r AND ATOM_VERSION_G \<noteq> 0 then ''>''
      else if r AND ATOM_VERSION_L \<noteq> 0 then ''<''
      else [])"

definition the_str :: "string option \<Rightarrow> string result" where
  "the_str s = (case s of None \<Rightarrow> Inl Null_Deref | Some t \<Rightarrow> Inr t)"

definition PyAtom_repr :: "atom \<Rightarrow> string result" where
  "PyAtom_repr a =
     bindR (the_str (atom_category a)) (\<lambda>c. bindR (the_str (atom_name a)) (\<lambda>n.
       case atom_version a of
         None \<Rightarrow> Inr (range_prefix (version_range a) @ c @ ''/'' @ n)
       | Some w \<Rightarrow> bindR (the_str (full_version w)) (\<lambda>f.
           Inr (range_prefix (version_range a) @ c @ ''/'' @ n @ ''-'' @ f))))"

datatype py_op = Py_LT | Py_LE | Py_EQ | Py_NE | Py_GT | Py_GE

fun richcompare :: "int \<Rightarrow> py_op \<Rightarrow> bool" where
  "richcompare c Py_LT = (c < 0)"
| "richcompare c Py_LE = (c \<le> 0)"
| "richcompare c Py_EQ = (c = 0)"
| "richcompare c Py_NE = (c \<noteq> 0)"
| "richcompare c Py_GT = (c > 0)"
| "richcompare c Py_GE = (c \<ge> 0)"

definition PyAtom_richcompare :: "atom \<Rightarrow> atom \<Rightarrow> py_op \<Rightarrow> bool result" where
  "PyAtom_richcompare a b op =
     bindR (the_str (atom_key a)) (\<lambda>k. bindR (the_str (atom_key b)) (\<lambda>k'.
       Inr (richcompare (strcmp k k') op)))"

definition PyAtomVersion_repr :: "Version.atom_version \<Rightarrow> string result" where
  "PyAtomVersion_repr w = bindR (the_str (full_version w)) (\<lambda>f. Inr (''AtomVersion<'' @ f @ ''>''))"

definition PyAtomVersion_richcompare ::
  "Version.atom_version \<Rightarrow> Version.atom_version \<Rightarrow> py_op \<Rightarrow> bool result" where
  "PyAtomVersion_richcompare a b op =
     bindR (atom_version_compare (Some a) (Some b)) (\<lambda>c. Inr (richcompare c op))"

section \<open>Parsing atoms\<close>

lemma char_at_append [simp]: "char_at (s @ t) (length s) = char_at t 0"
  "char_at (s @ t) (length s + k) = char_at t k" "char_at (s @ t) (Suc (length s)) = char_at t 1"
  by (auto simp: char_at_def nth_append)

lemma char_at_Cons [simp]: "char_at (c # s) 0 = c" "char_at (c # s) (Suc k) = char_at s k"
  by (auto simp: char_at_def)

lemma print_parts_digit:
  assumes "ps \<noteq> []" "\<forall>pd \<in> set ps. digits (snd pd)" "fst (hd ps) = ATOM_PREFIX_NONE"
  shows "isdigit (char_at (print_parts ps @ u) 0)"
proof -
  obtain pd qs where ps: "ps = pd # qs" using assms(1) by (cases ps) auto
  then obtain c w where cw: "snd pd = c # w" "isdigit c"
    using assms(2) by (cases "snd pd") (auto simp: digits_def)
  have "\<exists>w'. print_parts ps = c # w'"
    using ps cw assms(3) by (cases qs) (auto simp: print_part_def)
  then show ?thesis using cw(2) by auto
qed

lemma version_split_print:
  assumes ps: "ps \<noteq> []" "\<forall>pd \<in> set ps. digits (snd pd)" "fst (hd ps) = ATOM_PREFIX_NONE"
    and r: "\<forall>d. r = Some d \<longrightarrow> digits d"
  shows "version_split (name @ CHR ''-'' # print_version ps r) = Some (length name)"
proof -
  let ?n = "name @ CHR ''-'' # print_parts ps"
  have cut: "strrchr ?n (CHR ''-'') = Some (length name)"
    using strrchr_append print_parts_no_dash [OF ps(2)] by blast
  have dig: "isdigit (char_at (print_parts ps) 0)"
    using print_parts_digit [OF ps, of "[]"] by simp
  show ?thesis
  proof (cases r)
    case None
    have not_r: "char_at (print_parts ps) 0 \<noteq> CHR ''r''" using dig by (auto simp: isdigit_def)
    from None cut dig not_r show ?thesis
      by (simp add: version_split_def print_version_def)
  next
    case (Some d)
    then have "digits d" using r by simp
    then obtain c u where d: "d = c # u" "isdigit c" "CHR ''-'' \<notin> set d"
      using digits_no_dash [of d] by (cases d) (auto simp: digits_def)
    have str: "name @ CHR ''-'' # print_version ps r = ?n @ CHR ''-'' # CHR ''r'' # d"
      by (simp add: print_version_def Some)
    have last: "strrchr (?n @ CHR ''-'' # CHR ''r'' # d) (CHR ''-'') = Some (length ?n)"
      by (rule strrchr_append) (use d in simp)
    have at: "char_at (?n @ CHR ''-'' # CHR ''r'' # d) (length ?n + 1) = CHR ''r''"
      "isdigit (char_at (?n @ CHR ''-'' # CHR ''r'' # d) (length ?n + 2))"
      using d(1,2) by (simp_all only: char_at_append) (simp_all add: numeral_2_eq_2)
    have tk: "take (length ?n) (?n @ CHR ''-'' # CHR ''r'' # d) = ?n"
      by (rule append_eq_conv_conj [THEN iffD1, THEN conjunct1, symmetric]) simp
    show ?thesis unfolding str version_split_def last using at dig
      by (simp only: option.case tk Let_def cut) simp
  qed
qed

lemma version_split_none:
  assumes "\<forall>i < length s. s ! i = CHR ''-'' \<longrightarrow>
      \<not> isdigit (char_at s (i + 1)) \<and> \<not> (char_at s (i + 1) = CHR ''r'' \<and> isdigit (char_at s (i + 2)))"
  shows "version_split s = None"
proof (cases "strrchr s (CHR ''-'')")
  case None
  then show ?thesis by (simp add: version_split_def)
next
  case (Some i)
  then have "i < length s \<and> s ! i = CHR ''-''" by (rule strrchr_SomeD)
  with assms Some show ?thesis by (auto simp: version_split_def)
qed

text \<open>The atom of a category, a name and a version: id and flag are the ones of its key.\<close>

definition parsed_atom :: "lut \<Rightarrow> string \<Rightarrow> string \<Rightarrow> int \<Rightarrow> Version.atom_version option \<Rightarrow> atom" where
  "parsed_atom t cat name h ver =
     \<lparr>atom_id = fst (lut_get_id t (cat @ ''/'' @ name)), id_flag = snd (lut_get_id t (cat @ ''/'' @ name)),
      cached_hash = h, atom_category = Some cat, atom_name = Some name,
      atom_key = Some (cat @ ''/'' @ name), repository = None, atom_slot = None, atom_sub_slot = None,
      slot_opts = ATOM_SLOT_IGNORE, version_range = ATOM_VERSION_ALL, blocks = ATOM_BLOCK_NONE,
      atom_version = ver, useflags = []\<rparr>"

text \<open>What \<^verbatim>\<open>atom_init\<close> makes of a string with a slash, given where its version starts.\<close>

lemma atom_init_split:
  assumes cat: "CHR ''/'' \<notin> set cat"
    and split: "version_split s = (case ver of None \<Rightarrow> None | Some w \<Rightarrow> Some (length name))"
    and s: "s = name @ (case ver of None \<Rightarrow> [] | Some w \<Rightarrow> CHR ''-'' # w)"
    and full: "\<forall>w. ver = Some w \<longrightarrow> full_version (atom_version_init atom_version_new w) = Some w"
  shows "\<exists>h. atom_init (Some t) self (cat @ CHR ''/'' # s) = Inr (0, parsed_atom t cat name h
           (map_option (atom_version_init atom_version_new) ver))"
proof -
  have slash: "strchr (cat @ CHR ''/'' # x) (CHR ''/'') = Some (length cat)" for x
    using cat by (rule strchr_append)
  show ?thesis
  proof (cases ver)
    case None
    with split s show ?thesis
      by (cases self) (simp add: atom_init_def slash case_prod_beta PyAtom_hash_def version_hash_def
          parsed_atom_def Let_def)
  next
    case (Some w)
    with split s full show ?thesis
      by (cases self) (simp add: atom_init_def slash case_prod_beta PyAtom_hash_def version_hash_def
          parsed_atom_def Let_def)
  qed
qed

lemma atom_init_versioned:
  assumes "CHR ''/'' \<notin> set cat"
    and "ps \<noteq> []" "\<forall>pd \<in> set ps. digits (snd pd)" "fst (hd ps) = ATOM_PREFIX_NONE"
    and "\<forall>d. r = Some d \<longrightarrow> digits d \<and> length d \<le> 9"
  shows "\<exists>h. atom_init (Some t) self (cat @ ''/'' @ name @ ''-'' @ print_version ps r) =
           Inr (0, parsed_atom t cat name h (Some
             \<lparr>full_version = Some (print_version ps r), nodes = map parsed_node ps,
              revision = (case r of None \<Rightarrow> 0 | Some d \<Rightarrow> int (dec_val d))\<rparr>))"
proof -
  let ?v = "print_version ps r"
  let ?s = "name @ CHR ''-'' # ?v"
  have init: "atom_version_init atom_version_new ?v =
      \<lparr>full_version = Some ?v, nodes = map parsed_node ps,
       revision = (case r of None \<Rightarrow> 0 | Some d \<Rightarrow> int (dec_val d))\<rparr>"
    using assms by (intro parse_print_aux) auto
  have 1: "version_split ?s = (case Some ?v of None \<Rightarrow> None | Some w \<Rightarrow> Some (length name))"
    using assms by (simp add: version_split_print)
  have 2: "?s = name @ (case Some ?v of None \<Rightarrow> [] | Some w \<Rightarrow> CHR ''-'' # w)" by simp
  have 3: "\<forall>w. Some ?v = Some w \<longrightarrow> full_version (atom_version_init atom_version_new w) = Some w"
    using init by simp
  from atom_init_split [OF assms(1) 1 2 3, of t self] show ?thesis
    by (simp add: init)
qed

lemma atom_init_unversioned:
  assumes "CHR ''/'' \<notin> set cat" "version_split name = None"
  shows "\<exists>h. atom_init (Some t) self (cat @ ''/'' @ name) = Inr (0, parsed_atom t cat name h None)"
  using atom_init_split [where ver = None and s = name and name = name, OF assms(1)] assms(2) by simp

section \<open>The version in the hash\<close>

lemma length_le_bytes [simp]: "length (le_bytes n w) = n"
  by (simp add: le_bytes_def)

lemma bit_le_bytes: "i < n \<Longrightarrow> j < 8 \<Longrightarrow> bit (le_bytes n w ! i) j \<longleftrightarrow> bit w (8 * i + j)"
  by (simp add: le_bytes_def bit_simps)

lemma le_bytes_4_inject: "le_bytes 4 (ucast h) = le_bytes 4 (ucast k) \<longleftrightarrow> h = k" for h k :: u32
proof
  assume eq: "le_bytes 4 (ucast h) = le_bytes 4 (ucast k)"
  show "h = k"
  proof (rule bit_word_eqI)
    fix n assume n: "n < LENGTH(32)"
    then have "n div 4 div 2 < 4" "n mod 8 < 8" "8 * (n div 8) + n mod 8 = n" by simp_all
    then have "n div 8 < 4" "n mod 8 < 8" "8 * (n div 8) + n mod 8 = n" by simp_all
    then have "bit (ucast h :: u64) n \<longleftrightarrow> bit (ucast k :: u64) n"
      using eq bit_le_bytes [of "n div 8" 4 "n mod 8" "ucast h"]
        bit_le_bytes [of "n div 8" 4 "n mod 8" "ucast k"] by simp
    then show "bit h n \<longleftrightarrow> bit k n" using n by (simp add: bit_simps)
  qed
qed simp

lemma le_bytes_8_split: "le_bytes 8 (ucast h) = le_bytes 4 (ucast h) @ [0, 0, 0, 0]" for h :: u32
proof -
  have z: "ucast (drop_bit (8 * i) (ucast h :: u64)) = (0 :: u8)" if "4 \<le> i" for i
    by (rule bit_word_eqI) (use that in \<open>auto simp: bit_simps dest: bit_imp_le_length\<close>)
  have "[0..<8] = [0..<4] @ [4, 5, 6, 7::nat]" by (simp add: upt_rec)
  then show ?thesis using z [of 4] z [of 5] z [of 6] z [of 7] by (simp add: le_bytes_def)
qed

lemma hash_data_version:
  "map_get_hash (Some (hash_data a (ucast h))) 60 = map_get_hash (Some (hash_data a (ucast k))) 60 \<longleftrightarrow> h = k"
  for h k :: u32
proof -
  obtain s where len: "length s = 48"
    and s: "\<And>h. hash_data a (ucast (h :: u32)) = le_bytes 8 (atom_id a) @ le_bytes 4 (ucast h) @ s"
    by (rule that [of "[0, 0, 0, 0] @ concat (map (le_bytes 8) [opt_hash (repository a), opt_hash (atom_slot a),
        opt_hash (atom_sub_slot a), flags_hash (useflags a)]) @
        concat (map (le_bytes 4) [slot_num (slot_opts a), ucast (version_range a), block_num (blocks a)])"])
      (simp_all add: hash_data_def le_bytes_8_split)
  show ?thesis
    using map_get_hash_one_block [of "le_bytes 8 (atom_id a)" "le_bytes 4 (ucast h)" "le_bytes 4 (ucast k)" s]
      le_bytes_4_inject [of h k] by (auto simp: s len)
qed

section \<open>Properties\<close>

text \<open>
  C26: a string \<open>category/name-version[-rN]\<close> whose version starts with a digit and whose name
  may contain any dashes is split by \<^verbatim>\<open>atom_init\<close> exactly at these places: category, name,
  key and parsed version are the given ones, and id and id flag are those of the key in the
  package table.
\<close>

theorem atom_init_parses:
  assumes "CHR ''/'' \<notin> set cat"
    and "ps \<noteq> []" and "\<forall>pd \<in> set ps. digits (snd pd)" and "fst (hd ps) = ATOM_PREFIX_NONE"
    and "\<forall>d. r = Some d \<longrightarrow> digits d \<and> length d \<le> 9"
  shows "\<exists>a. atom_init (Some t) self (cat @ ''/'' @ name @ ''-'' @ print_version ps r) = Inr (0, a) \<and>
           atom_category a = Some cat \<and> atom_name a = Some name \<and>
           atom_key a = Some (cat @ ''/'' @ name) \<and>
           (atom_id a, id_flag a) = lut_get_id t (cat @ ''/'' @ name) \<and>
           atom_version a = Some
             \<lparr>full_version = Some (print_version ps r), nodes = map parsed_node ps,
              revision = (case r of None \<Rightarrow> 0 | Some d \<Rightarrow> int (dec_val d))\<rparr>"
  using atom_init_versioned [OF assms, of t self name] by (auto simp: parsed_atom_def)

theorem atom_init_parses_witness:
  "\<exists>a. atom_init (Some (lut_new 512)) atom_new ''dev-libs/lib-4ti2-1.6.7-r2'' = Inr (0, a) \<and>
     atom_name a = Some ''lib-4ti2'' \<and> map_option revision (atom_version a) = Some 2"
proof -
  let ?ps = "map (\<lambda>d. (ATOM_PREFIX_NONE, d)) [''1'', ''6'', ''7'']"
  have "print_version ?ps (Some ''2'') = ''1.6.7-r2''" "dec_val ''2'' = 2" by code_simp+
  then show ?thesis
    using atom_init_parses [of "''dev-libs''" ?ps "Some ''2''" "lut_new 512" atom_new "''lib-4ti2''"]
    by (auto simp: digits_def isdigit_def)
qed

text \<open>
  printing a parsed atom gives back the string it was parsed from, behind the sign of
  its range, whichever range the parser of dependencies sets.
\<close>

theorem atom_repr_parsed:
  assumes "CHR ''/'' \<notin> set cat"
    and "ps \<noteq> []" and "\<forall>pd \<in> set ps. digits (snd pd)" and "fst (hd ps) = ATOM_PREFIX_NONE"
    and "\<forall>d. r = Some d \<longrightarrow> digits d \<and> length d \<le> 9"
    and "atom_init (Some t) self (cat @ ''/'' @ name @ ''-'' @ print_version ps r) = Inr (code, a)"
  shows "PyAtom_repr (a\<lparr>version_range := rng\<rparr>) =
           Inr (range_prefix rng @ cat @ ''/'' @ name @ ''-'' @ print_version ps r)"
  using atom_init_versioned [OF assms(1-5), of t self name] assms(6)
  by (auto simp: parsed_atom_def PyAtom_repr_def the_str_def)

theorem atom_repr_parsed_witness:
  "\<exists>a. atom_init (Some (lut_new 512)) atom_new ''a/b-1.0-r3'' = Inr (0, a) \<and>
     PyAtom_repr (a\<lparr>version_range := ATOM_VERSION_G\<rparr>) = Inr ''>a/b-1.0-r3''"
proof -
  let ?ps = "map (\<lambda>d. (ATOM_PREFIX_NONE, d)) [''1'', ''0'']"
  have p: "print_version ?ps (Some ''3'') = ''1.0-r3''" "range_prefix ATOM_VERSION_G = ''>''" by code_simp+
  have d: "\<forall>d. Some ''3'' = Some d \<longrightarrow> digits d \<and> length d \<le> 9" "\<forall>pd \<in> set ?ps. digits (snd pd)"
    by (auto simp: digits_def isdigit_def)
  from atom_init_versioned [OF _ _ d(2) _ d(1), of "''a''" "lut_new 512" atom_new "''b''"]
  obtain a where a: "atom_init (Some (lut_new 512)) atom_new (''a'' @ ''/'' @ ''b'' @ ''-'' @
      print_version ?ps (Some ''3'')) = Inr (0, a)" by auto
  with atom_repr_parsed [OF _ _ d(2) _ d(1) a, of ATOM_VERSION_G] show ?thesis unfolding p by auto
qed

text \<open>
  a name in which no dash starts a version or a revision is taken whole, the atom then
  has no version; the whole text behind the first slash is the name.
\<close>

theorem atom_init_plain_name:
  assumes "CHR ''/'' \<notin> set cat"
    and "\<forall>i < length name. name ! i = CHR ''-'' \<longrightarrow> \<not> isdigit (char_at name (i + 1)) \<and>
          \<not> (char_at name (i + 1) = CHR ''r'' \<and> isdigit (char_at name (i + 2)))"
  shows "\<exists>a. atom_init (Some t) self (cat @ ''/'' @ name) = Inr (0, a) \<and>
           atom_category a = Some cat \<and> atom_name a = Some name \<and> atom_version a = None \<and>
           (atom_id a, id_flag a) = lut_get_id t (cat @ ''/'' @ name)"
  using atom_init_unversioned [OF assms(1) version_split_none [OF assms(2)], of t self]
  by (auto simp: parsed_atom_def)

theorem atom_init_plain_name_witness:
  "\<exists>a. atom_init (Some (lut_new 512)) atom_new ''x11-libs/gtk-doc'' = Inr (0, a) \<and>
     atom_name a = Some ''gtk-doc'' \<and> atom_version a = None"
proof -
  have "\<forall>i < length ''gtk-doc''. ''gtk-doc'' ! i = CHR ''-'' \<longrightarrow> \<not> isdigit (char_at ''gtk-doc'' (i + 1)) \<and>
      \<not> (char_at ''gtk-doc'' (i + 1) = CHR ''r'' \<and> isdigit (char_at ''gtk-doc'' (i + 2)))"
    by (simp add: All_less_Suc char_at_def isdigit_def)
  from atom_init_plain_name [OF _ this, of "''x11-libs''" "lut_new 512" atom_new] show ?thesis
    by simp blast
qed

text \<open>
  two atoms that differ only in their version compare equal, but have the same hash
  only if the two version strings have: keys and versions are mixed into the hash, so
  atoms equal for \<^verbatim>\<open>==\<close> are in general not equal for a Python set or dict.
\<close>

theorem atom_hash_versions:
  assumes "cached_hash a = - 1" and "atom_key a = Some k"
    and "atom_version a = Some w" and "full_version w = Some s" and "full_version w' = Some s'"
  defines "b \<equiv> a\<lparr>atom_version := Some w'\<rparr>"
  shows "PyAtom_richcompare a b Py_EQ = Inr True \<and> PyAtom_hash a \<noteq> Inl e \<and> PyAtom_hash b \<noteq> Inl e \<and>
         (PyAtom_hash a = PyAtom_hash b \<longleftrightarrow> str_hash s = str_hash s')"
proof -
  have b: "hash_data b vh = hash_data a vh" for vh by (simp add: b_def hash_data_def)
  have "PyAtom_hash a = Inr (uint (map_get_hash (Some (hash_data a (ucast (str_hash s)))) 60))"
      "PyAtom_hash b = Inr (uint (map_get_hash (Some (hash_data a (ucast (str_hash s')))) 60))"
    using assms(1-5) b by (simp_all add: PyAtom_hash_def version_hash_def b_def)
  moreover have "PyAtom_richcompare a b Py_EQ = Inr True"
    using assms(2) by (simp add: PyAtom_richcompare_def b_def the_str_def)
  ultimately show ?thesis by (simp add: word_uint_eq_iff [symmetric] hash_data_version)
qed

theorem atom_hash_versions_witness:
  defines "w \<equiv> \<lambda>s. \<lparr>full_version = Some s, nodes = [\<lparr>v = Some s, prefix = ATOM_PREFIX_NONE\<rparr>], revision = 0\<rparr>"
  defines "a \<equiv> atom_new\<lparr>atom_key := Some ''a/b'', cached_hash := - 1, atom_version := Some (w ''1'')\<rparr>"
  shows "PyAtom_richcompare a (a\<lparr>atom_version := Some (w ''2'')\<rparr>) Py_EQ = Inr True \<and>
         PyAtom_hash a \<noteq> PyAtom_hash (a\<lparr>atom_version := Some (w ''2'')\<rparr>)"
proof -
  have "str_hash ''1'' \<noteq> str_hash ''2''" by code_simp
  then show ?thesis
    using atom_hash_versions [of a "''a/b''" "w ''1''" "''1''" "w ''2''" "''2''" Null_Deref]
    by (simp add: a_def w_def)
qed

section \<open>Atoms the code does not handle\<close>

text \<open>A version with an unknown prefix has no \<^verbatim>\<open>full_version\<close>, which the hash then dereferences.\<close>

lemma atom_invalid_version_crash:
  "atom_init (Some t) self ''a/b-1.abcdef2'' = Inl Null_Deref"
proof -
  have "strchr ''a/b-1.abcdef2'' (CHR ''/'') = Some 1" "version_split ''b-1.abcdef2'' = Some 1"
    "full_version (atom_version_init atom_version_new ''1.abcdef2'') = None"
    by code_simp+
  then show ?thesis
    by (simp add: atom_init_def Let_def case_prod_beta PyAtom_hash_def version_hash_def)
qed

text \<open>A name given on the command line without a category is refused.\<close>

lemma cmdline_atom_refused: "CHR ''/'' \<notin> set name \<Longrightarrow> cmdline_atom_new (Some t) name = Inr None"
  by (simp add: cmdline_atom_new_def atom_init_def Let_def strchr_None [THEN iffD2])

text \<open>The sign of the range \<open>=\<close> is not printed, and \<open>>=\<close> and \<open><=\<close> lose theirs.\<close>

lemma range_prefix_lost:
  "range_prefix ATOM_VERSION_E = []" "range_prefix ATOM_VERSION_GE = ''>''"
  "range_prefix ATOM_VERSION_LE = ''<''" "range_prefix ATOM_VERSION_REV = []"
  by code_simp+

end
