(* ===== verification/Objects.thy ===== *)
theory Objects
  imports Atoms
begin

text \<open>
  The objects of the package manager and the state they live in: the structs of
  \<^verbatim>\<open>dependency.h\<close>, \<^verbatim>\<open>use.h\<close>, \<^verbatim>\<open>ebuild.h\<close>, \<^verbatim>\<open>package.h\<close> and \<^verbatim>\<open>portage.h\<close>. Objects that the
  tables refer to are addressed by 64-bit pointers, 0 being NULL; expression trees own
  their children and are plain values, their \<^verbatim>\<open>next\<close> links being lists.
\<close>

section \<open>Expressions\<close>

datatype use_operator_t =
    USE_OP_DISABLE
  | USE_OP_ENABLE
  | USE_OP_LEAST_ONE
  | USE_OP_EXACT_ONE
  | USE_OP_MOST_ONE

datatype dependency =
  Dependency (use_operator: use_operator_t) (use_condition: lut_id) (dep_atom: "atom option")
    (children: "dependency list")

datatype required_use =
  RequiredUse (ru_name: "string option") (global_flag: lut_id) (ru_operator: use_operator_t)
    (ru_depend: "required_use list")

section \<open>Objects\<close>

record use_flag =
  use_name :: string
  use_state :: bool

datatype arch_t =
    ARCH_AMD64 | ARCH_X86 | ARCH_ARM | ARCH_ARM64 | ARCH_HPPA
  | ARCH_IA64 | ARCH_PPC | ARCH_PPC64 | ARCH_SPARC

datatype keyword_t = KEYWORD_BROKEN | KEYWORD_NONE | KEYWORD_UNSTABLE | KEYWORD_STABLE

text \<open>
  The fields of \<^verbatim>\<open>Ebuild\<close>. The link \<^verbatim>\<open>older\<close> is the order of the package's list of ebuilds;
  \<open>package\<close> is the pointer to the package, 0 while the ebuild is in none. An empty list of
  dependencies is the NULL pointer.
\<close>

record ebuild =
  ebuild_name :: "string option"
  ebuild_category :: "string option"
  ebuild_package_id :: lut_id
  package_lut_flags :: lut_flags
  ebuild_slot :: "string option"
  ebuild_sub_slot :: "string option"
  ebuild_key :: "string option"
  package_key :: "string option"
  ebuild_file :: "string option"
  cache_file :: "string option"
  depend :: "dependency list"
  bdepend :: "dependency list"
  rdepend :: "dependency list"
  pdepend :: "dependency list"
  iuse :: "string \<rightharpoonup> bool"
  arch_keywords :: "arch_t \<Rightarrow> keyword_t"
  required_use :: "required_use list"
  ebuild_version :: "atom_version option"
  metadata_init :: bool
  package :: u64

definition ebuild_new :: ebuild where
  "ebuild_new =
     \<lparr>ebuild_name = None, ebuild_category = None, ebuild_package_id = 0, package_lut_flags = 0,
      ebuild_slot = None, ebuild_sub_slot = None, ebuild_key = None, package_key = None,
      ebuild_file = None, cache_file = None, depend = [], bdepend = [], rdepend = [], pdepend = [],
      iuse = Map.empty, arch_keywords = (\<lambda>_. KEYWORD_BROKEN), required_use = [], ebuild_version = None,
      metadata_init = False, package = 0\<rparr>"

record package =
  package_id :: lut_id
  package_category :: "string option"
  package_name :: "string option"
  pkg_key :: "string option"
  ebuilds :: "u64 list"

definition package_new :: package where
  "package_new =
     \<lparr>package_id = 0, package_category = None, package_name = None, pkg_key = None, ebuilds = []\<rparr>"

section \<open>State\<close>

text \<open>
  The fields of \<^verbatim>\<open>Portage\<close>, the reference counts of all objects, and the objects by address.
\<close>

record world =
  global_flags :: lut
  packages :: lut
  counts :: refs
  use_objs :: "u64 \<rightharpoonup> use_flag"
  pkg_objs :: "u64 \<rightharpoonup> package"
  ebuild_objs :: "u64 \<rightharpoonup> ebuild"

definition PORTAGE_INITIAL_PKG_LUT_SIZE :: u64 where "PORTAGE_INITIAL_PKG_LUT_SIZE = 512"

text \<open>\<^verbatim>\<open>PyPortage_init\<close>: both tables are new.\<close>

definition PyPortage_init :: "world \<Rightarrow> world" where
  "PyPortage_init w =
     w\<lparr>global_flags := lut_new 256, packages := lut_new PORTAGE_INITIAL_PKG_LUT_SIZE\<rparr>"

text \<open>\<^verbatim>\<open>Py_INCREF\<close> and \<^verbatim>\<open>Py_DECREF\<close>, and the count 1 of a new object.\<close>

definition add_count :: "int \<Rightarrow> u64 \<Rightarrow> world \<Rightarrow> world" where
  "add_count c a w = w\<lparr>counts := (counts w)\<lparr>py_refs := (py_refs (counts w))(a := py_refs (counts w) a + c)\<rparr>\<rparr>"

definition new_count :: "u64 \<Rightarrow> world \<Rightarrow> world" where
  "new_count a w = w\<lparr>counts := (counts w)\<lparr>py_refs := (py_refs (counts w))(a := 1)\<rparr>\<rparr>"

text \<open>
  An allocator chooses an address that no object of the state has; it is the only part of
  the Python runtime whose choice matters to the model.
\<close>

definition in_use :: "world \<Rightarrow> u64 \<Rightarrow> bool" where
  "in_use w a \<longleftrightarrow> use_objs w a \<noteq> None \<or> pkg_objs w a \<noteq> None \<or> ebuild_objs w a \<noteq> None"

definition fresh_alloc :: "(world \<Rightarrow> u64) \<Rightarrow> world \<Rightarrow> bool" where
  "fresh_alloc alloc w \<longleftrightarrow> alloc w \<noteq> 0 \<and> \<not> in_use w (alloc w)"

section \<open>Python results\<close>

datatype py_exc = TypeError | RuntimeError | KeyError | SystemError | FileNotFoundError

datatype 'a py = Raise py_exc | Return 'a

definition bindP :: "'a py result \<Rightarrow> ('a \<Rightarrow> 'b py result) \<Rightarrow> 'b py result" where
  "bindP m f = bindR m (\<lambda>r. case r of Raise e \<Rightarrow> Inr (Raise e) | Return x \<Rightarrow> f x)"

lemma bindP_simps [simp]:
  "bindP (Inl e) f = Inl e"
  "bindP (Inr (Raise x)) f = Inr (Raise x)"
  "bindP (Inr (Return y)) f = f y"
  by (simp_all add: bindP_def)

lemma bindP_cong [fundef_cong]:
  "m = m' \<Longrightarrow> (\<And>x. m' = Inr (Return x) \<Longrightarrow> f x = f' x) \<Longrightarrow> bindP m f = bindP m' f'"
  by (cases m'; cases "projr m'") (simp_all add: bindP_def)

lemma add_count_simps [simp]:
  "global_flags (add_count c a w) = global_flags w" "packages (add_count c a w) = packages w"
  "use_objs (add_count c a w) = use_objs w" "pkg_objs (add_count c a w) = pkg_objs w"
  "ebuild_objs (add_count c a w) = ebuild_objs w"
  "py_refs (counts (add_count c a w)) = (py_refs (counts w))(a := py_refs (counts w) a + c)"
  by (simp_all add: add_count_def)

lemma new_count_simps [simp]:
  "global_flags (new_count a w) = global_flags w" "packages (new_count a w) = packages w"
  "use_objs (new_count a w) = use_objs w" "pkg_objs (new_count a w) = pkg_objs w"
  "ebuild_objs (new_count a w) = ebuild_objs w"
  "py_refs (counts (new_count a w)) = (py_refs (counts w))(a := 1)"
  by (simp_all add: new_count_def)

end
