(* ===== verification/Packages.thy ===== *)
theory Packages
  imports Objects
begin

text \<open>
  Packages: the list of ebuilds of a package, kept from newest to oldest, and the search
  of an ebuild for an atom (\<^verbatim>\<open>cportage/package.c\<close>, and \<^verbatim>\<open>atom_matches\<close> of \<^verbatim>\<open>cportage/atom.c\<close>).
\<close>

section \<open>Operations\<close>

text \<open>\<^verbatim>\<open>PyPackage_init\<close>: the key is split at the first slash.\<close>

definition PyPackage_init :: "package \<Rightarrow> string \<Rightarrow> package result" where
  "PyPackage_init self key =
     (case strchr key (CHR ''/'') of
        None \<Rightarrow> Inl Null_Deref
      | Some cat_split \<Rightarrow>
          Inr (self\<lparr>pkg_key := Some key, package_category := Some (take cat_split key),
                    package_name := Some (drop (cat_split + 1) key), ebuilds := []\<rparr>))"

definition the_ebuild :: "world \<Rightarrow> u64 \<Rightarrow> ebuild result" where
  "the_ebuild w a =
     (if a = 0 then Inl Null_Deref
      else case ebuild_objs w a of None \<Rightarrow> Inl Use_After_Free | Some e \<Rightarrow> Inr e)"

definition the_package :: "world \<Rightarrow> u64 \<Rightarrow> package result" where
  "the_package w a =
     (if a = 0 then Inl Null_Deref
      else case pkg_objs w a of None \<Rightarrow> Inl Use_After_Free | Some p \<Rightarrow> Inr p)"

text \<open>The search of \<^verbatim>\<open>PyPackage_add_ebuild\<close>: how many ebuilds stay in front of the new one.\<close>

fun ebuild_place :: "world \<Rightarrow> u64 \<Rightarrow> atom_version option \<Rightarrow> u64 list \<Rightarrow> nat py result" where
  "ebuild_place w ebuild ver [] = Inr (Return 0)"
| "ebuild_place w ebuild ver (current # rest) =
     (if ebuild = current then Inr (Raise RuntimeError)
      else bindR (the_ebuild w current) (\<lambda>c.
           bindR (atom_version_compare ver (ebuild_version c)) (\<lambda>r.
           if r > 0 then Inr (Return 0)
           else bindP (ebuild_place w ebuild ver rest) (\<lambda>n. Inr (Return (Suc n))))))"

definition PyPackage_add_ebuild :: "u64 \<Rightarrow> u64 \<Rightarrow> world \<Rightarrow> world py result" where
  "PyPackage_add_ebuild self ebuild w =
     bindR (the_ebuild w ebuild) (\<lambda>e.
       if package e \<noteq> 0 then Inr (Raise RuntimeError)
       else bindR (the_package w self) (\<lambda>p.
         bindP (ebuild_place w ebuild (ebuild_version e) (ebuilds p)) (\<lambda>n.
           Inr (Return ((add_count 1 ebuild w)
             \<lparr>pkg_objs := (pkg_objs w)(self \<mapsto> p\<lparr>ebuilds := take n (ebuilds p) @ ebuild # drop n (ebuilds p)\<rparr>),
              ebuild_objs := (ebuild_objs w)(ebuild \<mapsto> e\<lparr>package := self\<rparr>)\<rparr>)))))"

definition range_has :: "atom \<Rightarrow> u32 \<Rightarrow> bool" where
  "range_has a m \<longleftrightarrow> version_range a AND m \<noteq> 0"

fun match_ebuilds :: "world \<Rightarrow> atom \<Rightarrow> u64 list \<Rightarrow> u64 result" where
  "match_ebuilds w a [] = Inr 0"
| "match_ebuilds w a (current # rest) =
     bindR (the_ebuild w current) (\<lambda>c.
     bindR (atom_version_compare (ebuild_version c) (atom_version a)) (\<lambda>r.
       if r = 0 \<and> range_has a ATOM_VERSION_E \<or> r > 0 \<and> range_has a ATOM_VERSION_G
          \<or> r < 0 \<and> range_has a ATOM_VERSION_L
       then Inr current
       else if r > 0 \<and> \<not> range_has a ATOM_VERSION_L then Inr 0
       else match_ebuilds w a rest))"

text \<open>The result 0 stands for \<^verbatim>\<open>Py_None\<close>.\<close>

definition PyPackage_match_atom :: "u64 \<Rightarrow> atom \<Rightarrow> world \<Rightarrow> (u64 \<times> world) result" where
  "PyPackage_match_atom self a w =
     bindR (the_package w self) (\<lambda>p.
     bindR (match_ebuilds w a (ebuilds p)) (\<lambda>c.
       Inr (c, if c = 0 then w else add_count 1 c w)))"

definition atom_matches :: "atom \<Rightarrow> ebuild \<Rightarrow> u32 result" where
  "atom_matches self target =
     bindR (the_str (atom_key self)) (\<lambda>k. bindR (the_str (package_key target)) (\<lambda>k'.
       if strcmp k k' \<noteq> 0 then Inr 0
       else bindR (atom_version_compare (atom_version self) (ebuild_version target)) (\<lambda>r.
         if r = 0 then Inr (version_range self AND ATOM_VERSION_E)
         else if r > 0 then Inr (version_range self AND ATOM_VERSION_L)
         else Inr (version_range self AND ATOM_VERSION_G))))"

section \<open>Packages in order\<close>

text \<open>
  A well-formed package lists distinct ebuilds with plain versions, from newest to oldest,
  each pointing back to it; an ebuild is in no list unless it points to the package.
\<close>

definition version_at :: "world \<Rightarrow> u64 \<Rightarrow> Version.atom_version" where
  "version_at w c = the (ebuild_version (the (ebuild_objs w c)))"

definition key_at :: "world \<Rightarrow> u64 \<Rightarrow> (atom_version_pre_t \<times> nat) list \<times> int" where
  "key_at w c = version_key (version_at w c)"

definition ebuild_ok :: "world \<Rightarrow> u64 \<Rightarrow> bool" where
  "ebuild_ok w c \<longleftrightarrow> c \<noteq> 0 \<and>
     (\<exists>e ver. ebuild_objs w c = Some e \<and> ebuild_version e = Some ver \<and> plain ver)"

definition package_ok :: "world \<Rightarrow> u64 \<Rightarrow> package \<Rightarrow> bool" where
  "package_ok w a p \<longleftrightarrow> a \<noteq> 0 \<and> distinct (ebuilds p) \<and>
     (\<forall>c \<in> set (ebuilds p). ebuild_ok w c \<and> package (the (ebuild_objs w c)) = a) \<and>
     sorted_wrt (\<lambda>x y. key_at w y \<le> key_at w x) (ebuilds p)"

definition packages_ok :: "world \<Rightarrow> bool" where
  "packages_ok w \<longleftrightarrow> (\<forall>a p. pkg_objs w a = Some p \<longrightarrow> package_ok w a p)"

lemma ebuild_okE:
  assumes "ebuild_ok w c"
  obtains e where "the_ebuild w c = Inr e" "ebuild_objs w c = Some e"
    "ebuild_version e = Some (version_at w c)" "plain (version_at w c)"
  using assms by (auto simp: ebuild_ok_def the_ebuild_def version_at_def)

lemma ebuild_place_filter:
  assumes "\<forall>c \<in> set cs. ebuild_ok w c" "sorted_wrt (\<lambda>x y. key_at w y \<le> key_at w x) cs"
    and "a \<notin> set cs" "plain ver"
  shows "ebuild_place w a (Some ver) cs =
    Inr (Return (length (takeWhile (\<lambda>c. version_key ver \<le> key_at w c) cs)))"
  using assms
proof (induction cs)
  case (Cons c cs)
  then obtain e where e: "the_ebuild w c = Inr e" "ebuild_version e = Some (version_at w c)"
      "plain (version_at w c)"
    using ebuild_okE by (metis list.set_intros(1))
  obtain r where r: "atom_version_compare (Some ver) (Some (version_at w c)) = Inr r"
      "0 < r \<longleftrightarrow> key_at w c < version_key ver"
    using vo.compare_cases [OF Cons.prems(4) e(3)] unfolding key_at_def by metis
  with Cons e show ?case by auto
qed simp

text \<open>The effect of adding an ebuild, on the list and on the state.\<close>

definition inserted :: "world \<Rightarrow> u64 \<Rightarrow> u64 list \<Rightarrow> u64 list" where
  "inserted w a cs = filter (\<lambda>c. key_at w a \<le> key_at w c) cs @ a # filter (\<lambda>c. key_at w c < key_at w a) cs"

definition added :: "u64 \<Rightarrow> package \<Rightarrow> u64 \<Rightarrow> ebuild \<Rightarrow> world \<Rightarrow> world" where
  "added self p a e w = (add_count 1 a w)
     \<lparr>pkg_objs := (pkg_objs w)(self \<mapsto> p\<lparr>ebuilds := inserted w a (ebuilds p)\<rparr>),
      ebuild_objs := (ebuild_objs w)(a \<mapsto> e\<lparr>package := self\<rparr>)\<rparr>"

lemma add_ebuild_result:
  assumes "packages_ok w" "pkg_objs w self = Some p" "ebuild_ok w a" "ebuild_objs w a = Some e"
    and "package e = 0"
  shows "PyPackage_add_ebuild self a w = Inr (Return (added self p a e w))"
proof -
  have ok: "package_ok w self p" using assms(1,2) by (simp add: packages_ok_def)
  then have "a \<notin> set (ebuilds p)" using assms(4,5) by (auto simp: package_ok_def)
  moreover obtain ver where v: "ebuild_version e = Some ver" "plain ver" "version_at w a = ver"
    using assms(3,4) by (auto simp: ebuild_ok_def version_at_def)
  ultimately have place: "ebuild_place w a (ebuild_version e) (ebuilds p) =
      Inr (Return (length (takeWhile (\<lambda>c. key_at w a \<le> key_at w c) (ebuilds p))))"
    using ebuild_place_filter [of "ebuilds p" w a ver] ok by (simp add: package_ok_def key_at_def)
  let ?n = "length (takeWhile (\<lambda>c. key_at w a \<le> key_at w c) (ebuilds p))"
  have "take ?n (ebuilds p) = takeWhile (\<lambda>c. key_at w a \<le> key_at w c) (ebuilds p)"
    "drop ?n (ebuilds p) = dropWhile (\<lambda>c. key_at w a \<le> key_at w c) (ebuilds p)"
    by (simp_all only: takeWhile_eq_take [symmetric] dropWhile_eq_drop [symmetric])
  then have "take ?n (ebuilds p) @ a # drop ?n (ebuilds p) = inserted w a (ebuilds p)"
    using ok sorted_split [of "key_at w" "ebuilds p" "key_at w a"]
    by (simp only: inserted_def package_ok_def)
  with place assms ok show ?thesis
    by (simp add: PyPackage_add_ebuild_def the_ebuild_def the_package_def ebuild_ok_def package_ok_def
        added_def)
qed

lemma added_simps [simp]:
  "pkg_objs (added self p a e w) = (pkg_objs w)(self \<mapsto> p\<lparr>ebuilds := inserted w a (ebuilds p)\<rparr>)"
  "ebuild_objs (added self p a e w) = (ebuild_objs w)(a \<mapsto> e\<lparr>package := self\<rparr>)"
  "py_refs (counts (added self p a e w)) = (py_refs (counts w))(a := py_refs (counts w) a + 1)"
  "packages (added self p a e w) = packages w" "global_flags (added self p a e w) = global_flags w"
  "use_objs (added self p a e w) = use_objs w"
  by (simp_all add: added_def)

lemma set_inserted [simp]: "set (inserted w a cs) = insert a (set cs)"
  by (auto simp: inserted_def)

lemma distinct_inserted: "distinct cs \<Longrightarrow> a \<notin> set cs \<Longrightarrow> distinct (inserted w a cs)"
  by (auto simp: inserted_def)

lemma key_at_added [simp]: "ebuild_objs w a = Some e \<Longrightarrow> key_at (added self p a e w) = key_at w"
  by (auto simp: fun_eq_iff key_at_def version_at_def)

lemma ebuild_ok_added [simp]: "ebuild_objs w a = Some e \<Longrightarrow> ebuild_ok (added self p a e w) c = ebuild_ok w c"
  by (auto simp: ebuild_ok_def)

lemma packages_ok_added [keeps]:
  assumes "packages_ok w" "pkg_objs w self = Some p" "ebuild_ok w a" "ebuild_objs w a = Some e"
    and "package e = 0"
  shows "packages_ok (added self p a e w)"
  unfolding packages_ok_def
proof (intro allI impI)
  fix b q assume q: "pkg_objs (added self p a e w) b = Some q"
  have away: "a \<notin> set (ebuilds r)" if "pkg_objs w x = Some r" for x r
    using assms(1,4,5) that by (force simp: packages_ok_def package_ok_def)
  show "package_ok (added self p a e w) b q"
  proof (cases "b = self")
    case True
    then have "q = p\<lparr>ebuilds := inserted w a (ebuilds p)\<rparr>" using q by simp
    moreover have ok: "package_ok w self p" using assms(1,2) by (simp add: packages_ok_def)
    moreover have "sorted_wrt (\<lambda>x y. key_at w y \<le> key_at w x) (inserted w a (ebuilds p))"
      unfolding inserted_def by (rule sorted_insert) (use ok in \<open>simp add: package_ok_def\<close>)
    ultimately show ?thesis
      using True assms(3,4) away [OF assms(2)]
      by (auto simp: package_ok_def distinct_inserted)
  next
    case False
    then have "pkg_objs w b = Some q" using q by simp
    with assms(1) have "package_ok w b q" "a \<notin> set (ebuilds q)"
      using away by (auto simp: packages_ok_def)
    with assms(4) show ?thesis by (auto simp: package_ok_def)
  qed
qed

section \<open>The search for an atom\<close>

text \<open>The ebuilds an atom accepts: the order of the keys and the bits of its range.\<close>

definition accepts :: "world \<Rightarrow> atom \<Rightarrow> u64 \<Rightarrow> bool" where
  "accepts w a c =
     (let k = version_key (the (atom_version a)) in
      key_at w c = k \<and> range_has a ATOM_VERSION_E \<or> k < key_at w c \<and> range_has a ATOM_VERSION_G
      \<or> key_at w c < k \<and> range_has a ATOM_VERSION_L)"

lemma atom_matches_accepts:
  assumes "ebuild_ok w c" "atom_version a = Some ver" "plain ver" "atom_key a = Some k"
    and "package_key (the (ebuild_objs w c)) = Some k"
  shows "\<exists>m. atom_matches a (the (ebuild_objs w c)) = Inr m \<and> (m \<noteq> 0 \<longleftrightarrow> accepts w a c)"
proof -
  from assms(1) obtain e where e: "ebuild_objs w c = Some e" "ebuild_version e = Some (version_at w c)"
      "plain (version_at w c)" by (rule ebuild_okE)
  obtain r where r: "atom_version_compare (Some ver) (Some (version_at w c)) = Inr r"
      "r < 0 \<longleftrightarrow> version_key ver < key_at w c" "r = 0 \<longleftrightarrow> version_key ver = key_at w c"
      "0 < r \<longleftrightarrow> key_at w c < version_key ver"
    using vo.compare_cases [OF assms(3) e(3)] unfolding key_at_def by metis
  have "atom_matches a e = Inr (if r = 0 then version_range a AND ATOM_VERSION_E
      else if r > 0 then version_range a AND ATOM_VERSION_L else version_range a AND ATOM_VERSION_G)"
    using assms e r by (simp add: atom_matches_def the_str_def)
  with e r show ?thesis
    by (cases r "0 :: int" rule: linorder_cases)
      (auto simp: accepts_def assms(2) range_has_def Let_def)
qed

lemma match_ebuilds_step:
  assumes "ebuild_ok w c" "atom_version a = Some ver" "plain ver"
  shows "match_ebuilds w a (c # cs) =
    (if accepts w a c then Inr c
     else if version_key ver < key_at w c \<and> \<not> range_has a ATOM_VERSION_L then Inr 0
     else match_ebuilds w a cs)"
proof -
  from assms(1) obtain e where e: "the_ebuild w c = Inr e" "ebuild_version e = Some (version_at w c)"
      "plain (version_at w c)" by (rule ebuild_okE)
  obtain r where r: "atom_version_compare (Some (version_at w c)) (Some ver) = Inr r"
      "r < 0 \<longleftrightarrow> key_at w c < version_key ver" "r = 0 \<longleftrightarrow> key_at w c = version_key ver"
      "0 < r \<longleftrightarrow> version_key ver < key_at w c"
    using vo.compare_cases [OF e(3) assms(3)] unfolding key_at_def by metis
  show ?thesis using e r assms(2) by (simp add: accepts_def Let_def)
qed

lemma match_ebuilds_find:
  assumes "\<forall>c \<in> set cs. ebuild_ok w c" "atom_version a = Some ver" "plain ver"
    and "range_has a ATOM_VERSION_L \<or> range_has a ATOM_VERSION_G"
  shows "match_ebuilds w a cs = Inr (case find (accepts w a) cs of None \<Rightarrow> 0 | Some c \<Rightarrow> c)"
  using assms(1)
proof (induction cs)
  case (Cons c cs)
  then have "ebuild_ok w c" by simp
  moreover have "accepts w a c" if "version_key ver < key_at w c" "\<not> range_has a ATOM_VERSION_L"
    using that assms(2,4) by (simp add: accepts_def)
  ultimately show ?case
    using Cons match_ebuilds_step [OF _ assms(2,3), of w c cs] by auto
qed simp

lemma match_ebuilds_exact:
  assumes "\<forall>c \<in> set cs. ebuild_ok w c" "atom_version a = Some ver" "plain ver"
    and "sorted_wrt (\<lambda>x y. key_at w y \<le> key_at w x) cs"
    and "\<not> range_has a ATOM_VERSION_L" "\<not> range_has a ATOM_VERSION_G" "range_has a ATOM_VERSION_E"
  shows "match_ebuilds w a cs =
    Inr (case cs of [] \<Rightarrow> 0 | c # _ \<Rightarrow> if key_at w c = version_key ver then c else 0)"
  using assms(1,4)
proof (induction cs)
  case (Cons c cs)
  note step = match_ebuilds_step [OF _ assms(2,3), of w c cs]
  have acc: "accepts w a c \<longleftrightarrow> key_at w c = version_key ver"
    using assms(2,5-7) by (auto simp: accepts_def)
  show ?case
  proof (cases "key_at w c < version_key ver")
    case True
    have "match_ebuilds w a cs = Inr 0"
    proof (cases cs)
      case (Cons d ds)
      with Cons.prems have "key_at w d \<le> key_at w c" by simp
      with True have "key_at w d \<noteq> version_key ver" by auto
      with Cons.IH Cons.prems Cons show ?thesis by simp
    qed simp
    with True step acc Cons.prems show ?thesis by auto
  next
    case False
    with step acc assms(5) Cons.prems show ?thesis by auto
  qed
qed simp

lemma find_first_newest:
  assumes "sorted_wrt (\<lambda>x y. key_at w y \<le> key_at w x) cs" "find P cs = Some c" "d \<in> set cs" "P d"
  shows "key_at w d \<le> key_at w c"
  using assms by (induction cs) (auto split: if_splits)

lemma match_atom_newest_aux:
  assumes "packages_ok w" and "pkg_objs w self = Some p"
    and "atom_version a = Some ver" and "plain ver" and "atom_key a = Some k"
    and "\<forall>c \<in> set (ebuilds p). package_key (the (ebuild_objs w c)) = Some k"
    and "range_has a ATOM_VERSION_L \<or> range_has a ATOM_VERSION_G"
  shows "\<exists>c w'. PyPackage_match_atom self a w = Inr (c, w') \<and>
    (c = 0 \<longrightarrow> w' = w \<and> (\<forall>d \<in> set (ebuilds p). atom_matches a (the (ebuild_objs w d)) = Inr 0)) \<and>
    (c \<noteq> 0 \<longrightarrow> c \<in> set (ebuilds p) \<and> w' = add_count 1 c w \<and>
       (\<exists>m. atom_matches a (the (ebuild_objs w c)) = Inr m \<and> m \<noteq> 0) \<and>
       (\<forall>d \<in> set (ebuilds p). (\<exists>m. atom_matches a (the (ebuild_objs w d)) = Inr m \<and> m \<noteq> 0) \<longrightarrow>
          key_at w d \<le> key_at w c))"
proof -
  have ok: "package_ok w self p" using assms(1,2) by (simp add: packages_ok_def)
  then have eb: "\<forall>c \<in> set (ebuilds p). ebuild_ok w c" and nz: "self \<noteq> 0" "\<forall>c \<in> set (ebuilds p). c \<noteq> 0"
    by (auto simp: package_ok_def ebuild_ok_def)
  have am: "\<exists>m. atom_matches a (the (ebuild_objs w c)) = Inr m \<and> (m \<noteq> 0 \<longleftrightarrow> accepts w a c)"
    if "c \<in> set (ebuilds p)" for c
    using atom_matches_accepts eb assms(3-6) that by blast
  let ?f = "find (accepts w a) (ebuilds p)"
  have run: "PyPackage_match_atom self a w =
      Inr (case ?f of None \<Rightarrow> (0, w) | Some c \<Rightarrow> (c, if c = 0 then w else add_count 1 c w))"
    using match_ebuilds_find [OF eb assms(3,4,7)] assms(2) nz(1)
    by (simp add: PyPackage_match_atom_def the_package_def split: option.split)
  show ?thesis
  proof (cases ?f)
    case None
    then have "\<forall>d \<in> set (ebuilds p). \<not> accepts w a d" by (simp add: find_None_iff)
    with am have "\<forall>d \<in> set (ebuilds p). atom_matches a (the (ebuild_objs w d)) = Inr 0" by metis
    with None run show ?thesis by simp
  next
    case (Some c)
    then have c: "c \<in> set (ebuilds p)" "accepts w a c" using find_SomeD by fast+
    have "key_at w d \<le> key_at w c" if "d \<in> set (ebuilds p)" "accepts w a d" for d
      using find_first_newest [OF _ Some that] ok by (simp add: package_ok_def)
    with am c nz(2) Some run show ?thesis by simp (metis Inr_inject)
  qed
qed

section \<open>Properties\<close>

text \<open>A small state for the examples: a package with the versions 3 and 1, and a loose version 2.\<close>

definition number_version :: "string \<Rightarrow> Version.atom_version" where
  "number_version s =
     \<lparr>full_version = Some s, nodes = [\<lparr>v = Some s, prefix = ATOM_PREFIX_NONE\<rparr>], revision = 0\<rparr>"

definition sample_ebuild :: "string \<Rightarrow> u64 \<Rightarrow> ebuild" where
  "sample_ebuild s p = ebuild_new\<lparr>package_key := Some ''a/b'', ebuild_version := Some (number_version s), package := p\<rparr>"

definition sample_world :: world where
  "sample_world =
     \<lparr>global_flags = lut_new 256, packages = lut_new 512, counts = \<lparr>py_refs = \<lambda>_. 1, obj_refs = \<lambda>_. 0\<rparr>,
      use_objs = Map.empty, pkg_objs = [16 \<mapsto> package_new\<lparr>pkg_key := Some ''a/b'', ebuilds := [2, 1]\<rparr>],
      ebuild_objs = [1 \<mapsto> sample_ebuild ''1'' 16, 2 \<mapsto> sample_ebuild ''3'' 16, 3 \<mapsto> sample_ebuild ''2'' 0]\<rparr>"

lemma number_version_facts:
  "isdigit c \<Longrightarrow> plain (number_version [c])"
  "version_key (number_version [c]) = ([(ATOM_PREFIX_NONE, if c = CHR ''0'' then 0 else 10 ^ 9 + digit_val c)], 0)"
  by (simp_all add: number_version_def plain_def plain_node_def digit_string_def version_key_def
      node_key_def rank_values)

lemma sample_facts:
  "packages_ok sample_world" "ebuild_ok sample_world 3"
  "key_at sample_world 1 < key_at sample_world 3" "key_at sample_world 3 < key_at sample_world 2"
proof -
  have k: "key_at sample_world 1 = ([(ATOM_PREFIX_NONE, 10 ^ 9 + 1)], 0)"
    "key_at sample_world 2 = ([(ATOM_PREFIX_NONE, 10 ^ 9 + 3)], 0)"
    "key_at sample_world 3 = ([(ATOM_PREFIX_NONE, 10 ^ 9 + 2)], 0)"
    by (simp_all add: key_at_def version_at_def sample_world_def sample_ebuild_def number_version_facts digit_val_def)
  then show "key_at sample_world 1 < key_at sample_world 3" "key_at sample_world 3 < key_at sample_world 2"
    by simp_all
  have ok: "ebuild_ok sample_world c" if "c \<in> {1, 2, 3}" for c
    using that by (auto simp: ebuild_ok_def sample_world_def sample_ebuild_def number_version_facts isdigit_def)
  then show "ebuild_ok sample_world 3" by simp
  have "package_ok sample_world 16 (package_new\<lparr>pkg_key := Some ''a/b'', ebuilds := [2, 1]\<rparr>)"
    using ok by (simp add: package_ok_def k) (simp add: sample_world_def sample_ebuild_def)
  then show "packages_ok sample_world"
    by (auto simp: packages_ok_def sample_world_def split: if_splits)
qed

text \<open>
  C14: adding an ebuild that belongs to no package, where all versions are made of numbers, always
  succeeds and keeps every package in order. The new ebuild stands behind all ebuilds that are newer or equal and in front of all
  older ones, which keep their order; it points to its package, its reference count grows by
  one, other packages are untouched, and adding it again, to any package, is refused.
\<close>

theorem add_ebuild_sorted:
  assumes "packages_ok w" and "pkg_objs w self = Some p"
    and "ebuild_ok w a" and "ebuild_objs w a = Some e" and "package e = 0"
  shows "\<exists>w'. PyPackage_add_ebuild self a w = Inr (Return w') \<and> packages_ok w' \<and>
    pkg_objs w' = (pkg_objs w)(self \<mapsto> p\<lparr>ebuilds :=
      filter (\<lambda>c. key_at w a \<le> key_at w c) (ebuilds p) @ a # filter (\<lambda>c. key_at w c < key_at w a) (ebuilds p)\<rparr>) \<and>
    map_option package (ebuild_objs w' a) = Some self \<and>
    py_refs (counts w') a = py_refs (counts w) a + 1 \<and>
    (\<forall>b. PyPackage_add_ebuild b a w' = Inr (Raise RuntimeError))"
proof -
  have "self \<noteq> 0" "a \<noteq> 0"
    using assms by (auto simp: packages_ok_def package_ok_def ebuild_ok_def)
  then have "PyPackage_add_ebuild b a (added self p a e w) = Inr (Raise RuntimeError)" for b
    by (simp add: PyPackage_add_ebuild_def the_ebuild_def)
  then show ?thesis
    using add_ebuild_result [OF assms] packages_ok_added [OF assms] by (simp add: inserted_def)
qed

theorem add_ebuild_sorted_witness:
  "\<exists>w'. PyPackage_add_ebuild 16 3 sample_world = Inr (Return w') \<and> packages_ok w' \<and>
     map_option ebuilds (pkg_objs w' 16) = Some [2, 3, 1]"
proof -
  have p: "pkg_objs sample_world 16 = Some (package_new\<lparr>pkg_key := Some ''a/b'', ebuilds := [2, 1]\<rparr>)"
    "ebuild_objs sample_world 3 = Some (sample_ebuild ''2'' 0)" "package (sample_ebuild ''2'' 0) = 0"
    by (simp_all add: sample_world_def sample_ebuild_def)
  from add_ebuild_sorted [OF sample_facts(1) p(1) sample_facts(2) p(2,3)] sample_facts(3,4)
  show ?thesis by (auto simp: not_le less_imp_le)
qed

text \<open>
  C15: for an atom whose range contains "older" or "newer" (all ranges but \<open>=\<close> and \<open>~\<close>), where all
  versions are made of numbers,
  \<^verbatim>\<open>match_atom\<close> returns the newest ebuild of the package that \<^verbatim>\<open>atom_matches\<close> accepts, with a
  new reference, and None, leaving the state as it is, exactly when none is accepted.
\<close>

theorem match_atom_newest:
  assumes "packages_ok w" and "pkg_objs w self = Some p"
    and "atom_version a = Some ver" and "plain ver" and "atom_key a = Some k"
    and "\<forall>c \<in> set (ebuilds p). package_key (the (ebuild_objs w c)) = Some k"
    and "range_has a ATOM_VERSION_L \<or> range_has a ATOM_VERSION_G"
  shows "\<exists>c w'. PyPackage_match_atom self a w = Inr (c, w') \<and>
    (c = 0 \<longrightarrow> w' = w \<and> (\<forall>d \<in> set (ebuilds p). atom_matches a (the (ebuild_objs w d)) = Inr 0)) \<and>
    (c \<noteq> 0 \<longrightarrow> c \<in> set (ebuilds p) \<and> w' = add_count 1 c w \<and>
       (\<exists>m. atom_matches a (the (ebuild_objs w c)) = Inr m \<and> m \<noteq> 0) \<and>
       (\<forall>d \<in> set (ebuilds p). (\<exists>m. atom_matches a (the (ebuild_objs w d)) = Inr m \<and> m \<noteq> 0) \<longrightarrow>
          key_at w d \<le> key_at w c))"
  using match_atom_newest_aux [OF assms] .

definition sample_atom :: "string \<Rightarrow> atom_version_t \<Rightarrow> atom" where
  "sample_atom s r = atom_new\<lparr>atom_key := Some ''a/b'', atom_version := Some (number_version s), version_range := r\<rparr>"

lemma sample_objs:
  "pkg_objs sample_world 16 = Some (package_new\<lparr>pkg_key := Some ''a/b'', ebuilds := [2, 1]\<rparr>)"
  "the (ebuild_objs sample_world 1) = sample_ebuild ''1'' 16"
  "the (ebuild_objs sample_world 2) = sample_ebuild ''3'' 16"
  "package_key (sample_ebuild s q) = Some ''a/b''"
  by (simp_all add: sample_world_def sample_ebuild_def)

lemma sample_matches:
  "atom_matches (sample_atom ''2'' ATOM_VERSION_LE) (sample_ebuild ''1'' 16) = Inr 2"
  "atom_matches (sample_atom ''2'' ATOM_VERSION_LE) (sample_ebuild ''3'' 16) = Inr 0"
  by code_simp+

theorem match_atom_newest_witness:
  "\<exists>w'. PyPackage_match_atom 16 (sample_atom ''2'' ATOM_VERSION_LE) sample_world = Inr (1, w')"
proof -
  let ?a = "sample_atom ''2'' ATOM_VERSION_LE"
  let ?p = "package_new\<lparr>pkg_key := Some ''a/b'', ebuilds := [2, 1]\<rparr>"
  have a: "atom_version ?a = Some (number_version ''2'')" "plain (number_version ''2'')"
    "atom_key ?a = Some ''a/b''" "\<forall>c \<in> set (ebuilds ?p). package_key (the (ebuild_objs sample_world c)) = Some ''a/b''"
    "range_has ?a ATOM_VERSION_L \<or> range_has ?a ATOM_VERSION_G"
    by (simp_all add: sample_atom_def number_version_facts isdigit_def sample_objs range_has_def atom_version_t_defs)
  from match_atom_newest [OF sample_facts(1) sample_objs(1) a] obtain c w'
    where run: "PyPackage_match_atom 16 ?a sample_world = Inr (c, w')"
      and none: "c = 0 \<longrightarrow> (\<forall>d \<in> set (ebuilds ?p). atom_matches ?a (the (ebuild_objs sample_world d)) = Inr 0)"
      and found: "c \<noteq> 0 \<longrightarrow> c \<in> set (ebuilds ?p) \<and> (\<exists>m. atom_matches ?a (the (ebuild_objs sample_world c)) = Inr m \<and> m \<noteq> 0)"
    by blast
  have "c \<noteq> 0" using none by (auto simp: sample_objs sample_matches)
  moreover have "c \<noteq> 2" using found by (auto simp: sample_objs sample_matches)
  ultimately have "c = 1" using found by auto
  with run show ?thesis by simp
qed

text \<open>
  for a range that is neither older nor newer (\<open>=\<close> and \<open>~\<close>) \<^verbatim>\<open>match_atom\<close> looks at the
  newest ebuild only: it is returned if its version is the atom's, revision included, and
  otherwise nothing is found, even if the exact version is in the package.
\<close>

theorem match_atom_exact:
  assumes "packages_ok w" and "pkg_objs w self = Some p"
    and "atom_version a = Some ver" and "plain ver"
    and "version_range a = ATOM_VERSION_E \<or> version_range a = ATOM_VERSION_REV"
  shows "PyPackage_match_atom self a w = Inr
    (case ebuilds p of
       [] \<Rightarrow> (0, w)
     | c # _ \<Rightarrow> if key_at w c = version_key ver then (c, add_count 1 c w) else (0, w))"
proof -
  have ok: "package_ok w self p" using assms(1,2) by (simp add: packages_ok_def)
  then have eb: "\<forall>c \<in> set (ebuilds p). ebuild_ok w c" and nz: "self \<noteq> 0" "\<forall>c \<in> set (ebuilds p). c \<noteq> 0"
    by (auto simp: package_ok_def ebuild_ok_def)
  have rng: "\<not> range_has a ATOM_VERSION_L" "\<not> range_has a ATOM_VERSION_G" "range_has a ATOM_VERSION_E"
    using assms(5) by (auto simp: range_has_def atom_version_t_defs)
  have "match_ebuilds w a (ebuilds p) =
      Inr (case ebuilds p of [] \<Rightarrow> 0 | c # _ \<Rightarrow> if key_at w c = version_key ver then c else 0)"
    using match_ebuilds_exact [OF eb assms(3,4) _ rng] ok by (simp add: package_ok_def)
  with assms(2) nz show ?thesis
    by (auto simp: PyPackage_match_atom_def the_package_def split: list.splits)
qed

theorem match_atom_exact_witness:
  "PyPackage_match_atom 16 (sample_atom ''1'' ATOM_VERSION_E) sample_world = Inr (0, sample_world) \<and>
   key_at sample_world 1 = version_key (number_version ''1'')"
proof -
  have "plain (number_version ''1'')" by (simp add: number_version_facts isdigit_def)
  moreover have k: "key_at sample_world 1 = version_key (number_version ''1'')"
    by (simp add: key_at_def version_at_def sample_world_def sample_ebuild_def)
  moreover have "key_at sample_world 2 \<noteq> version_key (number_version ''1'')"
    using sample_facts(3,4) unfolding k [symmetric] by auto
  ultimately show ?thesis
    using match_atom_exact [OF sample_facts(1) sample_objs(1), of "sample_atom ''1'' ATOM_VERSION_E"
        "number_version ''1''"]
    by (simp add: sample_atom_def)
qed

end
