(* ===== verification/Ebuilds.thy ===== *)
theory Ebuilds
  imports Packages
begin

text \<open>
  Ebuilds (\<^verbatim>\<open>cportage/ebuild.c\<close>): construction from a cache file name and the metadata read
  from the cache file. \<^verbatim>\<open>realpath\<close> and the contents of files are arguments; the parsers
  of dependencies and of required use, generated from the grammars, are parameters that
  return an expression (empty: NULL) and the state with the use flags they met.
\<close>

section \<open>Construction\<close>

definition PATH_MAX :: nat where "PATH_MAX = 4096"

text \<open>\<^verbatim>\<open>snprintf\<close> to a buffer of \<^verbatim>\<open>PATH_MAX\<close> bytes cuts the text to fit.\<close>

definition snprintf_path :: "string \<Rightarrow> string" where
  "snprintf_path s = take (PATH_MAX - 1) s"

definition ebuild_init ::
  "(string \<Rightarrow> string option) \<Rightarrow> lut option \<Rightarrow> ebuild \<Rightarrow> string option \<Rightarrow> string \<Rightarrow> string \<Rightarrow> string
    \<Rightarrow> (py_exc option \<times> ebuild) result" where
  "ebuild_init realpath pkgs self ebuild_repo_path cache_repo_path category name_and_version =
     (let key = category @ ''/'' @ name_and_version
      in bindR (atom_init pkgs atom_new key) (\<lambda>(_, atom).
         let self = self\<lparr>ebuild_key := Some key, ebuild_package_id := atom_id atom,
               package_lut_flags := id_flag atom, package_key := atom_key atom,
               ebuild_version := atom_version atom, ebuild_name := atom_name atom,
               ebuild_category := atom_category atom, ebuild_slot := atom_slot atom,
               ebuild_sub_slot := atom_sub_slot atom, iuse := Map.empty\<rparr>
         in case ebuild_version self of
              None \<Rightarrow> Inl Assertion_Failure
            | Some ver \<Rightarrow>
                let cache = (\<lambda>self. case realpath (snprintf_path (cache_repo_path @ ''/'' @ key)) of
                      None \<Rightarrow> Inr (Some FileNotFoundError, self\<lparr>cache_file := None\<rparr>)
                    | Some f \<Rightarrow> Inr (None, self\<lparr>cache_file := Some f\<rparr>))
                in case ebuild_repo_path of
                     None \<Rightarrow> cache (self\<lparr>ebuild_file := None\<rparr>)
                   | Some repo \<Rightarrow>
                       bindR (the_str (package_key self)) (\<lambda>pk.
                       bindR (the_str (ebuild_name self)) (\<lambda>nm.
                       bindR (the_str (full_version ver)) (\<lambda>fv.
                       case realpath (snprintf_path (repo @ ''/'' @ pk @ ''/'' @ nm @ ''-'' @ fv @ ''.ebuild'')) of
                         None \<Rightarrow> Inr (Some FileNotFoundError, self\<lparr>ebuild_file := None\<rparr>)
                       | Some f \<Rightarrow> cache (self\<lparr>ebuild_file := Some f\<rparr>))))))"

section \<open>Keywords and use flags\<close>

definition keyword_links :: "(arch_t \<times> string) list" where
  "keyword_links =
     [(ARCH_AMD64, ''amd64''), (ARCH_X86, ''x86''), (ARCH_ARM, ''arm''), (ARCH_ARM64, ''arm64''),
      (ARCH_HPPA, ''hppa''), (ARCH_IA64, ''ia64''), (ARCH_PPC, ''ppc''), (ARCH_PPC64, ''ppc64''),
      (ARCH_SPARC, ''sparc'')]"

definition keyword_token :: "string \<Rightarrow> (arch_t \<Rightarrow> keyword_t) \<Rightarrow> arch_t \<Rightarrow> keyword_t" where
  "keyword_token tok kws =
     (let (opt, target) =
            (if char_at tok 0 = CHR ''~'' then (KEYWORD_UNSTABLE, drop 1 tok)
             else if char_at tok 0 = CHR ''-'' then (KEYWORD_BROKEN, drop 1 tok)
             else (KEYWORD_STABLE, tok))
      in if target = ''**'' \<or> target = ''*'' then (\<lambda>_. opt)
         else case find (\<lambda>(_, s). s = target) keyword_links of
                None \<Rightarrow> kws
              | Some (arch, _) \<Rightarrow> kws(arch := opt))"

definition ebuild_keyword_init :: "ebuild \<Rightarrow> string \<Rightarrow> ebuild" where
  "ebuild_keyword_init self line =
     self\<lparr>arch_keywords := fold keyword_token (strtok_all [CHR '' '', CHR 0x0A, CHR 0x09] line) (arch_keywords self)\<rparr>"

text \<open>A use flag with its default state; the flag replaces one of the same name.\<close>

definition iuse_token :: "string \<Rightarrow> (string \<rightharpoonup> bool) \<Rightarrow> string \<rightharpoonup> bool" where
  "iuse_token tok m =
     (if char_at tok 0 = CHR ''+'' then m(drop 1 tok \<mapsto> True)
      else if char_at tok 0 = CHR ''-'' then m(drop 1 tok \<mapsto> False)
      else m(tok \<mapsto> False))"

definition ebuild_iuse_init :: "ebuild \<Rightarrow> string \<Rightarrow> ebuild" where
  "ebuild_iuse_init self line = self\<lparr>iuse := fold iuse_token (strtok_all '' '' line) (iuse self)\<rparr>"

section \<open>Metadata\<close>

text \<open>\<^verbatim>\<open>getdelim\<close>: the text up to and with the delimiter, and the rest of the file.\<close>

definition getdelim :: "char \<Rightarrow> string \<Rightarrow> string \<times> string" where
  "getdelim d s =
     (case dropWhile (\<lambda>c. c \<noteq> d) s of
        [] \<Rightarrow> (s, [])
      | c # r \<Rightarrow> (takeWhile (\<lambda>c. c \<noteq> d) s @ [c], r))"

definition c_string :: "string \<Rightarrow> string" where
  "c_string s = takeWhile (\<lambda>c. c \<noteq> CHR 0x00) s"

text \<open>
  The names and values the loop reads: each with its last character cut off, until one of
  the two reads finds the end of the file.
\<close>

function metadata_fields :: "string \<Rightarrow> (string \<times> string) list" where
  "metadata_fields s =
     (if s = [] then []
      else let (name, r) = getdelim (CHR ''='') s
           in if r = [] then []
              else let (val, r') = getdelim (CHR 0x0A) r
                   in (c_string (butlast name), c_string (butlast val)) # metadata_fields r')"
  by pat_completeness auto

lemma getdelim_length: "getdelim d s = (a, r) \<Longrightarrow> length r \<le> length s"
proof -
  assume "getdelim d s = (a, r)"
  moreover have "length (dropWhile (\<lambda>c. c \<noteq> d) s) \<le> length s" by (rule length_dropWhile_le)
  ultimately show ?thesis by (auto simp: getdelim_def split: list.splits)
qed

lemma getdelim_shorter: "getdelim d s = (a, r) \<Longrightarrow> s \<noteq> [] \<Longrightarrow> length r < length s"
proof -
  assume "getdelim d s = (a, r)" "s \<noteq> []"
  moreover have "length (dropWhile (\<lambda>c. c \<noteq> d) s) \<le> length s" by (rule length_dropWhile_le)
  ultimately show ?thesis by (auto simp: getdelim_def split: list.splits)
qed

termination metadata_fields
proof (relation "measure length", simp)
  fix s :: string and x name r xa val r'
  assume "s \<noteq> []" "x = getdelim (CHR ''='') s" "(name, r) = x" "r \<noteq> []"
    "xa = getdelim (CHR 0x0A) r" "(val, r') = xa"
  then show "(r', s) \<in> measure length"
    using getdelim_shorter [of "CHR ''=''" s name r] getdelim_shorter [of "CHR 0x0A" r val r'] by simp
qed

declare metadata_fields.simps [simp del]

type_synonym depend_parser = "string \<Rightarrow> world \<Rightarrow> (dependency list \<times> world) result"
type_synonym required_use_parser = "string \<Rightarrow> world \<Rightarrow> (required_use list \<times> world) result"

text \<open>The four dependency fields; a second definition and an unparsable value are errors.\<close>

definition depend_setup ::
  "(string \<times> (ebuild \<Rightarrow> dependency list) \<times> (dependency list \<Rightarrow> ebuild \<Rightarrow> ebuild)) list" where
  "depend_setup =
     [(''DEPEND'', depend, \<lambda>d e. e\<lparr>depend := d\<rparr>), (''RDEPEND'', rdepend, \<lambda>d e. e\<lparr>rdepend := d\<rparr>),
      (''PDEPEND'', pdepend, \<lambda>d e. e\<lparr>pdepend := d\<rparr>), (''BDEPEND'', bdepend, \<lambda>d e. e\<lparr>bdepend := d\<rparr>)]"

definition depend_field ::
  "depend_parser \<Rightarrow> string \<Rightarrow> string \<Rightarrow> int \<Rightarrow> ebuild \<Rightarrow> world \<Rightarrow> (int \<times> ebuild \<times> world) result" where
  "depend_field depend_parse name val error self w =
     (case find (\<lambda>(n, _, _). n = name) depend_setup of
        None \<Rightarrow> Inr (error, self, w)
      | Some (_, get, put) \<Rightarrow>
          if get self \<noteq> [] then Inr (1, self, w)
          else bindR (depend_parse val w) (\<lambda>(d, w).
                 Inr (if d = [] then (2, self, w) else (error, put d self, w))))"

fun metadata_loop ::
  "depend_parser \<Rightarrow> required_use_parser \<Rightarrow> (string \<times> string) list \<Rightarrow> int \<Rightarrow> ebuild \<Rightarrow> world
    \<Rightarrow> (int \<times> ebuild \<times> world) result" where
  "metadata_loop dp rp [] error self w = Inr (error, self, w)"
| "metadata_loop dp rp ((name, val) # lines) error self w =
     bindR (depend_field dp name val error self w) (\<lambda>(error, self, w).
         if name = ''SLOT'' then
           (case strtok_all ''/'' val of
              [] \<Rightarrow> Inl Null_Deref
            | [tok] \<Rightarrow> metadata_loop dp rp lines error (self\<lparr>ebuild_slot := Some tok\<rparr>) w
            | tok # tok2 # _ \<Rightarrow>
                metadata_loop dp rp lines error (self\<lparr>ebuild_slot := Some tok, ebuild_sub_slot := Some tok2\<rparr>) w)
         else if name = ''REQUIRED_USE'' then
           bindR (rp val w) (\<lambda>(r, w). let self = self\<lparr>required_use := r\<rparr>
            in if r = [] then Inr (3, self, w) else metadata_loop dp rp lines error self w)
         else if name = ''KEYWORDS'' then
           metadata_loop dp rp lines error (ebuild_keyword_init self val) w
         else if name = ''IUSE'' then
           metadata_loop dp rp lines error (ebuild_iuse_init self val) w
         else metadata_loop dp rp lines error self w)"

text \<open>
  \<^verbatim>\<open>ebuild_metadata_init\<close>: \<open>contents\<close> is the text of the cache file, \<open>None\<close> when it cannot be
  opened, and \<open>closes\<close> tells whether \<^verbatim>\<open>fclose\<close> succeeds.
\<close>

definition ebuild_metadata_init ::
  "depend_parser \<Rightarrow> required_use_parser \<Rightarrow> string option \<Rightarrow> bool \<Rightarrow> ebuild \<Rightarrow> world
    \<Rightarrow> (int \<times> ebuild \<times> world) result" where
  "ebuild_metadata_init dp rp contents closes self w =
     (case contents of
        None \<Rightarrow> Inr (- 1, self, w)
      | Some text \<Rightarrow>
          bindR (metadata_loop dp rp (metadata_fields text) 0 (self\<lparr>arch_keywords := (\<lambda>_. KEYWORD_NONE)\<rparr>) w)
            (\<lambda>(error, self, w).
              let self = (if error = 0 then self\<lparr>metadata_init := True\<rparr> else self)
              in Inr (if closes then error else 4, self, w)))"

definition PyEbuild_metadata_init ::
  "depend_parser \<Rightarrow> required_use_parser \<Rightarrow> string option \<Rightarrow> bool \<Rightarrow> ebuild \<Rightarrow> world
    \<Rightarrow> (ebuild \<times> world) py result" where
  "PyEbuild_metadata_init dp rp contents closes self w =
     bindR (ebuild_metadata_init dp rp contents closes self w)
       (\<lambda>(code, self, w). Inr (if code \<noteq> 0 then Raise RuntimeError else Return (self, w)))"

section \<open>Reading what was written\<close>

definition metadata_line :: "string \<times> string \<Rightarrow> string" where
  "metadata_line f = fst f @ ''='' @ snd f @ [CHR 0x0A]"

definition field_ok :: "string \<times> string \<Rightarrow> bool" where
  "field_ok f \<longleftrightarrow> CHR ''='' \<notin> set (fst f) \<and> CHR 0x0A \<notin> set (snd f) \<and>
     CHR 0x00 \<notin> set (fst f) \<and> CHR 0x00 \<notin> set (snd f)"

lemma getdelim_found: "d \<notin> set a \<Longrightarrow> getdelim d (a @ d # r) = (a @ [d], r)"
  by (induction a) (auto simp: getdelim_def split: list.splits)

lemma c_string_id: "CHR 0x00 \<notin> set s \<Longrightarrow> c_string s = s"
  unfolding c_string_def by (rule takeWhile_eq_all_conv [THEN iffD2]) auto

lemma metadata_fields_line:
  assumes "field_ok f"
  shows "metadata_fields (metadata_line f @ rest) = f # metadata_fields rest"
proof -
  have 1: "getdelim (CHR ''='') (metadata_line f @ rest) = (fst f @ ''='', snd f @ [CHR 0x0A] @ rest)"
    using assms getdelim_found [of "CHR ''=''" "fst f"] by (simp add: metadata_line_def field_ok_def)
  have 2: "getdelim (CHR 0x0A) (snd f @ [CHR 0x0A] @ rest) = (snd f @ [CHR 0x0A], rest)"
    using assms getdelim_found [of "CHR 0x0A" "snd f"] by (simp add: field_ok_def)
  show ?thesis
    using assms 2 by (subst metadata_fields.simps) (simp add: 1 c_string_id field_ok_def, simp add: metadata_line_def)
qed

lemma metadata_fields_lines:
  "\<forall>f \<in> set fs. field_ok f \<Longrightarrow> metadata_fields (concat (map metadata_line fs) @ rest) = fs @ metadata_fields rest"
  by (induction fs) (simp_all add: metadata_fields_line)

text \<open>What a keyword token says: the architectures it names and the value it gives them.\<close>

definition keyword_value :: "string \<Rightarrow> keyword_t" where
  "keyword_value tok = (if char_at tok 0 = CHR ''~'' then KEYWORD_UNSTABLE
     else if char_at tok 0 = CHR ''-'' then KEYWORD_BROKEN else KEYWORD_STABLE)"

definition keyword_target :: "string \<Rightarrow> string" where
  "keyword_target tok = (if char_at tok 0 \<in> {CHR ''~'', CHR ''-''} then drop 1 tok else tok)"

definition arch_name :: "arch_t \<Rightarrow> string" where
  "arch_name a = the (map_of keyword_links a)"

definition keyword_names :: "arch_t \<Rightarrow> string \<Rightarrow> bool" where
  "keyword_names a tok \<longleftrightarrow> keyword_target tok \<in> {''*'', ''**'', arch_name a}"

lemma keyword_token_apply:
  "keyword_token tok kws a = (if keyword_names a tok then keyword_value tok else kws a)"
proof -
  have split: "(if char_at tok 0 = CHR ''~'' then (KEYWORD_UNSTABLE, drop 1 tok)
      else if char_at tok 0 = CHR ''-'' then (KEYWORD_BROKEN, drop 1 tok) else (KEYWORD_STABLE, tok)) =
      (keyword_value tok, keyword_target tok)"
    by (simp add: keyword_value_def keyword_target_def)
  show ?thesis
    unfolding keyword_token_def split keyword_names_def arch_name_def
    by (cases a) (auto simp: keyword_links_def)
qed

text \<open>The last token that names something decides.\<close>

lemma fold_last:
  assumes "\<And>t m. step t m a = (if names t then val t else m a)"
  shows "fold step ts m a = (case find names (rev ts) of None \<Rightarrow> m a | Some t \<Rightarrow> val t)"
  using assms by (induction ts arbitrary: m) (auto simp: find_append split: option.splits)

definition iuse_name :: "string \<Rightarrow> string" where
  "iuse_name tok = (if char_at tok 0 \<in> {CHR ''+'', CHR ''-''} then drop 1 tok else tok)"

lemma iuse_token_apply:
  "iuse_token tok m a = (if iuse_name tok = a then Some (char_at tok 0 = CHR ''+'') else m a)"
  by (auto simp: iuse_token_def iuse_name_def)

section \<open>An ebuild from its file name\<close>

text \<open>The ebuild made from the cache file of a category, a name and a version.\<close>

definition cache_ebuild :: "lut \<Rightarrow> string \<Rightarrow> string \<Rightarrow> Version.atom_version \<Rightarrow> string \<Rightarrow> string \<Rightarrow> ebuild" where
  "cache_ebuild t cat name ver file f = ebuild_new
     \<lparr>ebuild_key := Some (cat @ ''/'' @ file), ebuild_package_id := fst (lut_get_id t (cat @ ''/'' @ name)),
      package_lut_flags := snd (lut_get_id t (cat @ ''/'' @ name)), package_key := Some (cat @ ''/'' @ name),
      ebuild_version := Some ver, ebuild_name := Some name, ebuild_category := Some cat,
      cache_file := Some f\<rparr>"

lemma ebuild_init_cache:
  assumes "CHR ''/'' \<notin> set cat"
    and "ps \<noteq> []" "\<forall>pd \<in> set ps. digits (snd pd)" "fst (hd ps) = ATOM_PREFIX_NONE"
    and "\<forall>d. r = Some d \<longrightarrow> digits d \<and> length d \<le> 9"
    and "realpath (snprintf_path (cache @ ''/'' @ cat @ ''/'' @ name @ ''-'' @ print_version ps r)) = Some f"
  shows "ebuild_init realpath (Some t) ebuild_new None cache cat (name @ ''-'' @ print_version ps r) =
    Inr (None, cache_ebuild t cat name
      \<lparr>full_version = Some (print_version ps r), nodes = map parsed_node ps,
       revision = (case r of None \<Rightarrow> 0 | Some d \<Rightarrow> int (dec_val d))\<rparr> (name @ ''-'' @ print_version ps r) f)"
proof -
  obtain h where "atom_init (Some t) atom_new (cat @ ''/'' @ name @ ''-'' @ print_version ps r) =
      Inr (0, parsed_atom t cat name h (Some \<lparr>full_version = Some (print_version ps r),
        nodes = map parsed_node ps, revision = (case r of None \<Rightarrow> 0 | Some d \<Rightarrow> int (dec_val d))\<rparr>))"
    using atom_init_versioned [OF assms(1-5)] by blast
  with assms(6) show ?thesis
    by (simp add: ebuild_init_def Let_def parsed_atom_def cache_ebuild_def ebuild_new_def)
qed

section \<open>Properties\<close>

text \<open>
  a cache file made of lines \<open>NAME=value\<close> is read back line by line: names without an
  equals sign, values without a line break, in the order of the file.
\<close>

theorem metadata_fields_read:
  assumes "\<forall>f \<in> set fs. field_ok f"
  shows "metadata_fields (concat (map metadata_line fs)) = fs"
  using metadata_fields_lines [OF assms, of "[]"] by (simp add: metadata_fields.simps [of "[]"])

theorem metadata_fields_read_witness:
  "metadata_fields (''SLOT=0/1.2'' @ [CHR 0x0A] @ ''IUSE=+ssl doc'' @ [CHR 0x0A]) =
     [(''SLOT'', ''0/1.2''), (''IUSE'', ''+ssl doc'')]"
  using metadata_fields_read [of "[(''SLOT'', ''0/1.2''), (''IUSE'', ''+ssl doc'')]"]
  by (simp add: metadata_line_def field_ok_def)

text \<open>
  \<^verbatim>\<open>KEYWORDS\<close>: of the tokens on the line the last one that names an architecture (by name,
  \<open>*\<close> or \<open>**\<close>) decides its keyword: unstable after a tilde, broken after a dash, stable
  otherwise; an architecture that no token names keeps what it had.
\<close>

theorem keywords_last_token:
  assumes "\<forall>t \<in> set ts. token [CHR '' '', CHR 0x0A, CHR 0x09] t"
  shows "arch_keywords (ebuild_keyword_init e (join (CHR '' '') ts)) a =
    (case find (keyword_names a) (rev ts) of None \<Rightarrow> arch_keywords e a | Some t \<Rightarrow> keyword_value t)"
  using strtok_all_join [OF _ assms, of "CHR '' ''"]
    fold_last [of keyword_token a "keyword_names a" keyword_value, OF keyword_token_apply]
  by (simp add: ebuild_keyword_init_def)

theorem keywords_last_token_witness:
  "arch_keywords (ebuild_keyword_init ebuild_new ''-* ~amd64 x86'') ARCH_AMD64 = KEYWORD_UNSTABLE \<and>
   arch_keywords (ebuild_keyword_init ebuild_new ''-* ~amd64 x86'') ARCH_ARM = KEYWORD_BROKEN"
  using keywords_last_token [of "[''-*'', ''~amd64'', ''x86'']" ebuild_new]
  by (simp add: token_def keyword_names_def keyword_target_def keyword_value_def arch_name_def keyword_links_def)

text \<open>
  \<^verbatim>\<open>IUSE\<close>: a flag is enabled by default exactly if the last token with its name starts with
  a plus sign, and is in the dictionary if it was there or some token has its name.
\<close>

theorem iuse_last_token:
  assumes "\<forall>t \<in> set ts. token '' '' t"
  shows "iuse (ebuild_iuse_init e (join (CHR '' '') ts)) f =
    (case find (\<lambda>t. iuse_name t = f) (rev ts) of
       None \<Rightarrow> iuse e f | Some t \<Rightarrow> Some (char_at t 0 = CHR ''+''))"
  using strtok_all_join [OF _ assms, of "CHR '' ''"]
    fold_last [of iuse_token f "\<lambda>t. iuse_name t = f" "\<lambda>t. Some (char_at t 0 = CHR ''+'')", OF iuse_token_apply]
  by (simp add: ebuild_iuse_init_def)

theorem iuse_last_token_witness:
  "iuse (ebuild_iuse_init ebuild_new ''+ssl doc -gtk'') ''ssl'' = Some True \<and>
   iuse (ebuild_iuse_init ebuild_new ''+ssl doc -gtk'') ''gtk'' = Some False \<and>
   iuse (ebuild_iuse_init ebuild_new ''+ssl doc -gtk'') ''qt'' = None"
  using iuse_last_token [of "[''+ssl'', ''doc'', ''-gtk'']" ebuild_new]
  by (simp add: token_def iuse_name_def ebuild_new_def)

text \<open>
  The cache file \<open>category/name-version\<close> of a repository becomes an ebuild of the package
  \<open>category/name\<close> with the parsed version, the id and the flag the package table has for this
  key, the resolved path of the cache file, and no package yet.
\<close>

theorem ebuild_init_result:
  assumes "CHR ''/'' \<notin> set cat"
    and "ps \<noteq> []" and "\<forall>pd \<in> set ps. digits (snd pd)" and "fst (hd ps) = ATOM_PREFIX_NONE"
    and "\<forall>d. r = Some d \<longrightarrow> digits d \<and> length d \<le> 9"
    and "realpath (snprintf_path (cache @ ''/'' @ cat @ ''/'' @ name @ ''-'' @ print_version ps r)) = Some f"
  shows "\<exists>e. ebuild_init realpath (Some t) ebuild_new None cache cat (name @ ''-'' @ print_version ps r) =
      Inr (None, e) \<and> package_key e = Some (cat @ ''/'' @ name) \<and>
    (ebuild_package_id e, package_lut_flags e) = lut_get_id t (cat @ ''/'' @ name) \<and>
    map_option nodes (ebuild_version e) = Some (map parsed_node ps) \<and>
    cache_file e = Some f \<and> package e = 0"
  using ebuild_init_cache [where realpath = realpath and cache = cache and name = name and f = f and t = t,
      OF assms]
  by (simp add: cache_ebuild_def ebuild_new_def)

theorem ebuild_init_result_witness:
  "\<exists>e. ebuild_init Some (Some (lut_new 512)) ebuild_new None ''/cache'' ''app-misc'' ''foo-1.2'' = Inr (None, e) \<and>
     package_key e = Some ''app-misc/foo'' \<and> cache_file e = Some ''/cache/app-misc/foo-1.2''"
proof -
  let ?ps = "map (\<lambda>d. (ATOM_PREFIX_NONE, d)) [''1'', ''2'']"
  have p: "print_version ?ps None = ''1.2''" by code_simp
  have d: "\<forall>pd \<in> set ?ps. digits (snd pd)" by (simp add: digits_def isdigit_def)
  have "Some (snprintf_path (''/cache'' @ ''/'' @ ''app-misc'' @ ''/'' @ ''foo'' @ ''-'' @ print_version ?ps None)) =
      Some ''/cache/app-misc/foo-1.2''"
    unfolding p by (simp add: snprintf_path_def PATH_MAX_def)
  from ebuild_init_result [where realpath = Some and cache = "''/cache''" and name = "''foo''" and t = "lut_new 512",
      OF _ _ d _ _ this]
  show ?thesis unfolding p by auto
qed

section \<open>Files the reader gets wrong\<close>

text \<open>Without a line break at its end the last value loses its last character.\<close>

lemma metadata_last_character_lost:
  assumes "field_ok f" "snd f \<noteq> []"
  shows "metadata_fields (fst f @ ''='' @ snd f) = [(fst f, butlast (snd f))]"
proof -
  have 1: "getdelim (CHR ''='') (fst f @ CHR ''='' # snd f) = (fst f @ ''='', snd f)"
    using assms getdelim_found [of "CHR ''=''" "fst f"] by (simp add: field_ok_def)
  have "dropWhile (\<lambda>c. c \<noteq> CHR 0x0A) (snd f) = []" using assms by (auto simp: field_ok_def)
  then have 2: "getdelim (CHR 0x0A) (snd f) = (snd f, [])" by (simp only: getdelim_def list.case)
  have "c_string (butlast (snd f)) = butlast (snd f)"
    using assms by (auto simp: field_ok_def intro!: c_string_id dest: in_set_butlastD)
  with assms show ?thesis
    by (subst metadata_fields.simps) (simp add: 1 2 c_string_id field_ok_def metadata_fields.simps [of "[]"])
qed

end
