(* ===== verification/Portage_Db.thy ===== *)
theory Portage_Db
  imports Ebuilds Lut_Capacity
begin

text \<open>
  The package database: \<^verbatim>\<open>cportage/portage.c\<close>, the global use flags and the required-use
  nodes of \<^verbatim>\<open>cportage/use.c\<close>, and the dependency nodes of \<^verbatim>\<open>cportage/dependency.c\<close>. The
  allocator and the directory listing are arguments.
\<close>

section \<open>Use flags\<close>

text \<open>\<^verbatim>\<open>use_get_global\<close>: the id of a flag, which is entered (disabled) when it is new.\<close>

definition use_get_global ::
  "(world \<Rightarrow> u64) \<Rightarrow> string option \<Rightarrow> world \<Rightarrow> (lut_id \<times> world) result" where
  "use_get_global alloc useflag w =
     (case useflag of
        None \<Rightarrow> Inr (0, w)
      | Some name \<Rightarrow>
          (case lut_get_id (global_flags w) name of (out, flag) \<Rightarrow>
             if flag_set flag LUT_FLAG_NOT_FOUND then
               (let a = alloc w;
                    w1 = new_count a (w\<lparr>use_objs := (use_objs w)(a \<mapsto> \<lparr>use_name = name, use_state = False\<rparr>)\<rparr>)
                in bindR (lut_insert_id name a out (flag OR LUT_FLAG_PYTHON) (global_flags w1, counts w1))
                     (\<lambda>(l, r). Inr (out, add_count (- 1) a (w1\<lparr>global_flags := l, counts := r\<rparr>))))
             else Inr (out, w)))"

definition PyPortage_get_use_flag :: "lut_id \<Rightarrow> world \<Rightarrow> u64 \<times> world" where
  "PyPortage_get_use_flag i w =
     (let use_flag = lut_get (global_flags w) i
      in if use_flag = 0 then (0, w) else (use_flag, add_count 1 use_flag w))"

section \<open>Expression nodes\<close>

definition use_build_required_use ::
  "(world \<Rightarrow> u64) \<Rightarrow> string option \<Rightarrow> use_operator_t \<Rightarrow> world \<Rightarrow> (required_use \<times> world) result" where
  "use_build_required_use alloc target opt w =
     bindR (use_get_global alloc target w) (\<lambda>(i, w). Inr (RequiredUse target i opt [], w))"

definition dependency_build_atom :: "atom \<Rightarrow> dependency" where
  "dependency_build_atom a = Dependency USE_OP_DISABLE 0 (Some a) []"

definition dependency_build_grouping :: "dependency list \<Rightarrow> dependency" where
  "dependency_build_grouping kids = Dependency USE_OP_DISABLE 0 None kids"

definition dependency_build_use ::
  "(world \<Rightarrow> u64) \<Rightarrow> string option \<Rightarrow> use_operator_t \<Rightarrow> dependency list \<Rightarrow> world \<Rightarrow> (dependency \<times> world) result" where
  "dependency_build_use alloc use_flag opt kids w =
     (case use_flag of
        None \<Rightarrow> Inr (Dependency opt 0 None kids, w)
      | Some f \<Rightarrow> bindR (use_get_global alloc (Some f) w) (\<lambda>(i, w). Inr (Dependency opt i None kids, w)))"

section \<open>Packages of the database\<close>

text \<open>The result 0 stands for \<^verbatim>\<open>Py_None\<close>.\<close>

definition PyPortage_get_package :: "lut_id \<Rightarrow> world \<Rightarrow> u64 \<times> world" where
  "PyPortage_get_package i w =
     (let p = lut_get (packages w) i in if p = 0 then (0, w) else (p, add_count 1 p w))"

definition PyPortage_add_package :: "u64 \<Rightarrow> world \<Rightarrow> world result" where
  "PyPortage_add_package pkg w =
     bindR (the_package w pkg) (\<lambda>p. bindR (the_str (pkg_key p)) (\<lambda>key.
     bindR (lut_insert key pkg LUT_FLAG_PYTHON (packages w, counts w)) (\<lambda>(i, l, r).
       Inr (w\<lparr>packages := l, counts := r, pkg_objs := (pkg_objs w)(pkg \<mapsto> p\<lparr>package_id := i\<rparr>)\<rparr>))))"

definition PyPortage_match_atom :: "atom \<Rightarrow> world \<Rightarrow> (u64 \<times> world) py result" where
  "PyPortage_match_atom a w =
     (let pkg = lut_get (packages w) (atom_id a)
      in if pkg = 0 then Inr (Raise KeyError)
         else map_sum id Return (PyPackage_match_atom pkg a w))"

section \<open>Reading a repository\<close>

text \<open>
  One cache file: the ebuild is made, its package is looked up or made and entered in the
  table, and the ebuild is added to it; the result of adding is ignored.
\<close>

definition find_or_make_package :: "(world \<Rightarrow> u64) \<Rightarrow> ebuild \<Rightarrow> world \<Rightarrow> (u64 \<times> world) py result" where
  "find_or_make_package alloc e w =
     (if flag_set (package_lut_flags e) LUT_FLAG_NOT_FOUND then
        bindR (the_str (package_key e)) (\<lambda>key.
        case strchr key (CHR ''/'') of
          None \<Rightarrow> Inl Null_Deref
        | Some cat_split \<Rightarrow>
            let pkg = alloc w;
                p = package_new\<lparr>package_id := ebuild_package_id e, pkg_key := Some key,
                      package_category := Some (take cat_split key),
                      package_name := Some (drop (cat_split + 1) key), ebuilds := []\<rparr>;
                w1 = new_count pkg (w\<lparr>pkg_objs := (pkg_objs w)(pkg \<mapsto> p)\<rparr>)
            in bindR (lut_insert_id key pkg (ebuild_package_id e) (LUT_FLAG_NOT_FOUND OR LUT_FLAG_PYTHON)
                        (packages w1, counts w1))
                 (\<lambda>(l, r). Inr (Return (pkg, add_count (- 1) pkg (w1\<lparr>packages := l, counts := r\<rparr>)))))
      else
        (let pkg = lut_get (packages w) (ebuild_package_id e)
         in if pkg = 0 then Inr (Raise SystemError) else Inr (Return (pkg, w))))"

definition cache_file_step ::
  "(world \<Rightarrow> u64) \<Rightarrow> (string \<Rightarrow> string option) \<Rightarrow> string option \<Rightarrow> string \<Rightarrow> string \<Rightarrow> string \<Rightarrow> world
    \<Rightarrow> world py result" where
  "cache_file_step alloc realpath ebuild_path cache_path category file w =
     (let a = alloc w
      in bindR (ebuild_init realpath (Some (packages w)) ebuild_new ebuild_path cache_path category file)
        (\<lambda>(exc, e).
          if exc \<noteq> None then Inr (Raise RuntimeError)
          else bindP (find_or_make_package alloc e (new_count a (w\<lparr>ebuild_objs := (ebuild_objs w)(a \<mapsto> e)\<rparr>)))
            (\<lambda>(pkg, w). bindR (PyPackage_add_ebuild pkg a w)
              (\<lambda>r. Inr (Return (add_count (- 1) a (case r of Raise _ \<Rightarrow> w | Return w' \<Rightarrow> w')))))))"

text \<open>
  A directory entry of the cache: its name and what \<^verbatim>\<open>stat\<close> finds (\<open>None\<close>: it fails), which is
  whether it is a directory and the names in it (\<open>None\<close>: it cannot be opened).
\<close>

type_synonym dir_entry = "string \<times> (bool \<times> string list option) option"

fun scan_files ::
  "(world \<Rightarrow> u64) \<Rightarrow> (string \<Rightarrow> string option) \<Rightarrow> string option \<Rightarrow> string \<Rightarrow> string \<Rightarrow> string list
    \<Rightarrow> u32 \<Rightarrow> world \<Rightarrow> (u32 \<times> world) py result" where
  "scan_files alloc realpath ebuild_path cache_path category [] i w = Inr (Return (i, w))"
| "scan_files alloc realpath ebuild_path cache_path category (file # files) i w =
     (if char_at file 0 = CHR ''.'' \<or> file = ''Manifest.gz''
      then scan_files alloc realpath ebuild_path cache_path category files i w
      else bindP (cache_file_step alloc realpath ebuild_path cache_path category file w)
             (\<lambda>w. scan_files alloc realpath ebuild_path cache_path category files (i + 1) w))"

fun scan_dirs ::
  "(world \<Rightarrow> u64) \<Rightarrow> (string \<Rightarrow> string option) \<Rightarrow> string option \<Rightarrow> string \<Rightarrow> dir_entry list
    \<Rightarrow> u32 \<Rightarrow> world \<Rightarrow> (u32 \<times> world) py result" where
  "scan_dirs alloc realpath ebuild_path cache_path [] i w = Inr (Return (i, w))"
| "scan_dirs alloc realpath ebuild_path cache_path ((name, st) # entries) i w =
     (if PATH_MAX \<le> length (cache_path @ ''/'' @ name) then Inl Out_Of_Bounds
      else case st of
        None \<Rightarrow> Inr (Raise RuntimeError)
      | Some (is_dir, files) \<Rightarrow>
          if char_at name 0 = CHR ''.'' \<or> \<not> is_dir
          then scan_dirs alloc realpath ebuild_path cache_path entries i w
          else case files of
            None \<Rightarrow> Inr (Raise RuntimeError)
          | Some fs \<Rightarrow>
              bindP (scan_files alloc realpath ebuild_path cache_path name fs i w)
                (\<lambda>(i, w). scan_dirs alloc realpath ebuild_path cache_path entries i w))"

text \<open>
  The method of the global \<^verbatim>\<open>Portage\<close> object: the ebuilds it makes look up their ids in the table of
  \<^verbatim>\<open>global_portage\<close>, which is \<open>packages w\<close> here.
\<close>

definition PyPortage_initialize_repository ::
  "(world \<Rightarrow> u64) \<Rightarrow> (string \<Rightarrow> string option) \<Rightarrow> string option \<Rightarrow> string \<Rightarrow> dir_entry list option
    \<Rightarrow> world \<Rightarrow> (u32 \<times> world) py result" where
  "PyPortage_initialize_repository alloc realpath ebuild_path cache_path listing w =
     (case listing of
        None \<Rightarrow> Inr (Raise RuntimeError)
      | Some entries \<Rightarrow> scan_dirs alloc realpath ebuild_path cache_path entries 0 w)"

section \<open>The database in order\<close>

text \<open>
  Every entry of the package table is a package with that key and id, every ebuild listed by
  a package has its key, and there is room: \<open>m\<close> more packages fit into the table, and
  \<open>2 * m\<close> more objects into memory.
\<close>

definition entries_ok :: "world \<Rightarrow> bool" where
  "entries_ok w \<longleftrightarrow> (\<forall>i k d f. lut_entries (packages w) i = Some (k, d, f) \<longrightarrow>
     d \<noteq> 0 \<and> (\<exists>p. pkg_objs w d = Some p \<and> pkg_key p = Some k \<and> package_id p = i))"

definition keys_ok :: "world \<Rightarrow> bool" where
  "keys_ok w \<longleftrightarrow> (\<forall>a p. pkg_objs w a = Some p \<longrightarrow>
     (\<forall>c \<in> set (ebuilds p). package_key (the (ebuild_objs w c)) = pkg_key p))"

definition space :: "nat \<Rightarrow> world \<Rightarrow> bool" where
  "space m w \<longleftrightarrow> card (Collect (in_use w)) + 2 * m < 2 ^ 64 - 1"

definition db_ok :: "nat \<Rightarrow> world \<Rightarrow> bool" where
  "db_ok m w \<longleftrightarrow> packages_ok w \<and> entries_ok w \<and> keys_ok w \<and> lut_cap m (packages w) \<and> space m w"

text \<open>An allocator that finds a free address whenever there is one.\<close>

definition good_alloc :: "(world \<Rightarrow> u64) \<Rightarrow> bool" where
  "good_alloc alloc \<longleftrightarrow> (\<forall>w. (\<exists>a. a \<noteq> 0 \<and> \<not> in_use w a) \<longrightarrow> fresh_alloc alloc w)"

text \<open>
  An ebuild is indexed when its package is in the table under the package key and lists it,
  and its version is the rest of its own key.
\<close>

definition of_file :: "ebuild \<Rightarrow> string \<Rightarrow> string \<Rightarrow> bool" where
  "of_file e key full \<longleftrightarrow> ebuild_key e = Some full \<and>
     ebuild_version e = Some (atom_version_init atom_version_new (drop (Suc (length key)) full))"

lemma of_file_package [simp]: "of_file (e\<lparr>package := x\<rparr>) key full = of_file e key full"
  by (simp add: of_file_def)

definition indexed :: "world \<Rightarrow> string \<Rightarrow> string \<Rightarrow> bool" where
  "indexed w key full \<longleftrightarrow> (\<exists>i d f p c e. lut_entries (packages w) i = Some (key, d, f) \<and>
     pkg_objs w d = Some p \<and> c \<in> set (ebuilds p) \<and> ebuild_objs w c = Some e \<and> of_file e key full)"

lemma space_free:
  assumes "good_alloc alloc" "card (Collect (in_use w)) < 2 ^ 64 - 1"
  shows "fresh_alloc alloc w"
proof -
  have "\<exists>a. a \<noteq> 0 \<and> \<not> in_use w a"
  proof (rule ccontr)
    assume "\<not> ?thesis"
    then have "UNIV = insert 0 (Collect (in_use w))" by auto
    then have "card (UNIV :: u64 set) \<le> Suc (card (Collect (in_use w)))"
      by (metis card_insert_le_m1 card_insert_disjoint finite insert_absorb le_Suc_eq le_refl)
    with assms(2) show False by (simp add: card_word)
  qed
  with assms(1) show ?thesis by (simp add: good_alloc_def)
qed

lemma in_use_insert:
  assumes "\<And>x. in_use w' x \<Longrightarrow> x = a \<or> in_use w x"
  shows "card (Collect (in_use w')) \<le> Suc (card (Collect (in_use w)))"
proof -
  have "Collect (in_use w') \<subseteq> insert a (Collect (in_use w))" using assms by blast
  then have "card (Collect (in_use w')) \<le> card (insert a (Collect (in_use w)))" by (intro card_mono) simp_all
  also have "\<dots> \<le> Suc (card (Collect (in_use w)))" by (rule card_insert_le_m1) simp_all
  finally show ?thesis .
qed

text \<open>What the new objects leave as it was.\<close>

lemma package_ok_frame:
  assumes "package_ok w a p" "\<And>c. c \<in> set (ebuilds p) \<Longrightarrow> ebuild_objs w' c = ebuild_objs w c"
  shows "package_ok w' a p"
proof -
  have k: "key_at w' c = key_at w c" "ebuild_ok w' c = ebuild_ok w c" if "c \<in> set (ebuilds p)" for c
    using assms(2) [OF that] by (simp_all add: key_at_def version_at_def ebuild_ok_def)
  have "sorted_wrt (\<lambda>x y. key_at w' y \<le> key_at w' x) (ebuilds p)"
    using assms(1) k(1) unfolding package_ok_def by (auto elim!: sorted_wrt_mono_rel [rotated])
  with assms k(2) show ?thesis by (simp add: package_ok_def)
qed

text \<open>The state with a new ebuild that is in no package yet.\<close>

definition with_ebuild :: "u64 \<Rightarrow> ebuild \<Rightarrow> world \<Rightarrow> world" where
  "with_ebuild a e w = new_count a (w\<lparr>ebuild_objs := (ebuild_objs w)(a \<mapsto> e)\<rparr>)"

lemma with_ebuild_simps [simp]:
  "packages (with_ebuild a e w) = packages w" "pkg_objs (with_ebuild a e w) = pkg_objs w"
  "ebuild_objs (with_ebuild a e w) = (ebuild_objs w)(a \<mapsto> e)" "use_objs (with_ebuild a e w) = use_objs w"
  by (simp_all add: with_ebuild_def)

lemma listed_in_use:
  "packages_ok w \<Longrightarrow> pkg_objs w d = Some p \<Longrightarrow> c \<in> set (ebuilds p) \<Longrightarrow> in_use w c \<and> ebuild_objs w c \<noteq> None"
proof -
  assume "packages_ok w" "pkg_objs w d = Some p" "c \<in> set (ebuilds p)"
  then have "ebuild_ok w c" by (auto simp: packages_ok_def package_ok_def)
  then show "in_use w c \<and> ebuild_objs w c \<noteq> None" by (auto simp: ebuild_ok_def in_use_def)
qed

lemma with_ebuild_ok [keeps]:
  assumes "db_ok (Suc m) w" "\<not> in_use w a"
  shows "packages_ok (with_ebuild a e w)" "entries_ok (with_ebuild a e w)" "keys_ok (with_ebuild a e w)"
    "indexed w k full \<Longrightarrow> indexed (with_ebuild a e w) k full"
    "card (Collect (in_use (with_ebuild a e w))) \<le> Suc (card (Collect (in_use w)))"
proof -
  have ok: "packages_ok w" "entries_ok w" "keys_ok w" using assms(1) by (simp_all add: db_ok_def)
  have away: "a \<noteq> c" if "pkg_objs w d = Some p" "c \<in> set (ebuilds p)" for d p c
    using listed_in_use [OF ok(1) that] assms(2) by auto
  show "packages_ok (with_ebuild a e w)"
    unfolding packages_ok_def
  proof (intro allI impI)
    fix d p assume "pkg_objs (with_ebuild a e w) d = Some p"
    then have p: "pkg_objs w d = Some p" by simp
    with ok(1) have "package_ok w d p" by (simp add: packages_ok_def)
    then show "package_ok (with_ebuild a e w) d p"
      by (rule package_ok_frame) (use away [OF p] in auto)
  qed
  show "entries_ok (with_ebuild a e w)" using ok(2) by (simp add: entries_ok_def)
  show "keys_ok (with_ebuild a e w)" using ok(3) away by (fastforce simp: keys_ok_def)
  show "indexed (with_ebuild a e w) k full" if "indexed w k full"
  proof -
    from that obtain i d f p c e' where x: "lut_entries (packages w) i = Some (k, d, f)"
      "pkg_objs w d = Some p" "c \<in> set (ebuilds p)" "ebuild_objs w c = Some e'" "of_file e' k full"
      unfolding indexed_def by blast
    moreover have "a \<noteq> c" using away [OF x(2,3)] .
    ultimately show ?thesis unfolding indexed_def by (intro exI [of _ i] exI [of _ d] exI [of _ f] exI [of _ p]
          exI [of _ c] exI [of _ e']) simp
  qed
  show "card (Collect (in_use (with_ebuild a e w))) \<le> Suc (card (Collect (in_use w)))"
    by (rule in_use_insert [of _ a]) (auto simp: in_use_def split: if_splits)
qed

text \<open>The state with a new, empty package entered in the table.\<close>

definition with_package :: "u64 \<Rightarrow> package \<Rightarrow> lut \<Rightarrow> refs \<Rightarrow> world \<Rightarrow> world" where
  "with_package pkg p l r w = add_count (- 1) pkg
     ((new_count pkg (w\<lparr>pkg_objs := (pkg_objs w)(pkg \<mapsto> p)\<rparr>))\<lparr>packages := l, counts := r\<rparr>)"

lemma with_package_simps [simp]:
  "packages (with_package pkg p l r w) = l" "ebuild_objs (with_package pkg p l r w) = ebuild_objs w"
  "pkg_objs (with_package pkg p l r w) = (pkg_objs w)(pkg \<mapsto> p)" "use_objs (with_package pkg p l r w) = use_objs w"
  by (simp_all add: with_package_def)

lemma with_package_ok [keeps]:
  assumes "packages_ok w" "entries_ok w" "keys_ok w" "pkg \<noteq> 0" "\<not> in_use w pkg" "ebuilds p = []"
    and "lut_entries l = (lut_entries (packages w))(i \<mapsto> (k, pkg, fl))" "pkg_key p = Some k" "package_id p = i"
    and "lut_entries (packages w) i = None"
  shows "packages_ok (with_package pkg p l r w)" "entries_ok (with_package pkg p l r w)"
    "keys_ok (with_package pkg p l r w)"
    "indexed w k' full \<Longrightarrow> indexed (with_package pkg p l r w) k' full"
    "card (Collect (in_use (with_package pkg p l r w))) \<le> Suc (card (Collect (in_use w)))"
proof -
  have free: "pkg_objs w pkg = None" using assms(5) by (simp add: in_use_def)
  show "packages_ok (with_package pkg p l r w)"
    unfolding packages_ok_def
  proof (intro allI impI)
    fix d q assume q: "pkg_objs (with_package pkg p l r w) d = Some q"
    show "package_ok (with_package pkg p l r w) d q"
    proof (cases "d = pkg")
      case True
      with q assms(4,6) show ?thesis by (simp add: package_ok_def)
    next
      case False
      with q assms(1) have "package_ok w d q" by (simp add: packages_ok_def)
      then show ?thesis by (rule package_ok_frame) simp
    qed
  qed
  show "entries_ok (with_package pkg p l r w)"
    using assms(2,4,7-9) free unfolding entries_ok_def by (auto split: if_splits) fastforce+
  show "keys_ok (with_package pkg p l r w)"
    using assms(3,6) by (auto simp: keys_ok_def split: if_splits)
  show "indexed (with_package pkg p l r w) k' full" if "indexed w k' full"
  proof -
    from that obtain j d f q c e where x: "lut_entries (packages w) j = Some (k', d, f)"
      "pkg_objs w d = Some q" "c \<in> set (ebuilds q)" "ebuild_objs w c = Some e" "of_file e k' full"
      unfolding indexed_def by blast
    moreover have "j \<noteq> i" "d \<noteq> pkg" using x(1,2) assms(10) free by auto
    ultimately show ?thesis unfolding indexed_def
      by (intro exI [of _ j] exI [of _ d] exI [of _ f] exI [of _ q] exI [of _ c] exI [of _ e]) (simp add: assms(7))
  qed
  show "card (Collect (in_use (with_package pkg p l r w))) \<le> Suc (card (Collect (in_use w)))"
    by (rule in_use_insert [of _ pkg]) (auto simp: in_use_def split: if_splits)
qed

lemma strchr_key: "CHR ''/'' \<notin> set cat \<Longrightarrow> strchr (cat @ ''/'' @ name) (CHR ''/'') = Some (length cat)"
  using strchr_append [of "CHR ''/''" cat name] by simp

lemma id_flag_cases:
  obtains i where "lut_get_id l k = (i, LUT_FLAG_NOT_FOUND)" | i where "lut_get_id l k = (i, LUT_FLAG_EXISTS)"
  by (cases "find (\<lambda>x. nkey x = k) (chain l (str_hash k))") (auto simp: lut_get_id_chain)

text \<open>Looking up or making the package of an ebuild keeps the database in order.\<close>

lemma find_or_make_result:
  assumes ok: "packages_ok w" "entries_ok w" "keys_ok w" and cap: "lut_cap (Suc m) (packages w)"
    and alloc: "fresh_alloc alloc w" and cat: "CHR ''/'' \<notin> set cat"
    and key: "package_key e = Some k" "k = cat @ ''/'' @ name"
    and id: "lut_get_id (packages w) k = (ebuild_package_id e, package_lut_flags e)"
  shows "\<exists>pkg p i f w'. find_or_make_package alloc e w = Inr (Return (pkg, w')) \<and>
    packages_ok w' \<and> entries_ok w' \<and> keys_ok w' \<and> lut_cap m (packages w') \<and>
    ebuild_objs w' = ebuild_objs w \<and> pkg_objs w' pkg = Some p \<and> pkg_key p = Some k \<and>
    lut_entries (packages w') i = Some (k, pkg, f) \<and>
    (\<forall>k' full. indexed w k' full \<longrightarrow> indexed w' k' full) \<and>
    card (Collect (in_use w')) \<le> Suc (card (Collect (in_use w)))"
proof -
  have wf: "lut_wf (packages w)" and room: "lut_room (packages w) k"
    using cap cap_room by (auto simp: lut_cap_def)
  have split: "strchr k (CHR ''/'') = Some (length cat)" unfolding key(2) using cat by (rule strchr_key)
  show ?thesis
  proof (rule id_flag_cases [of "packages w" k])
    fix i assume i: "lut_get_id (packages w) k = (i, LUT_FLAG_NOT_FOUND)"
    define pkg where "pkg = alloc w"
    define p where "p = package_new\<lparr>package_id := i, pkg_key := Some k,
      package_category := Some (take (length cat) k), package_name := Some (drop (length cat + 1) k), ebuilds := []\<rparr>"
    define w1 where "w1 = new_count pkg (w\<lparr>pkg_objs := (pkg_objs w)(pkg \<mapsto> p)\<rparr>)"
    have pkg: "pkg \<noteq> 0" "\<not> in_use w pkg" using alloc by (simp_all add: fresh_alloc_def pkg_def)
    from cap_insert [OF cap user_flags_python i, of pkg "counts w1"] obtain l r
      where ins: "lut_insert_id k pkg i (LUT_FLAG_NOT_FOUND OR LUT_FLAG_PYTHON) (packages w, counts w1) = Inr (l, r)"
        "lut_cap m l" "lut_entries l = (lut_entries (packages w))(i \<mapsto> (k, pkg, LUT_FLAG_NOT_FOUND OR LUT_FLAG_PYTHON))"
      by blast
    have e: "ebuild_package_id e = i" "package_lut_flags e = LUT_FLAG_NOT_FOUND" using id i by simp_all
    have "find_or_make_package alloc e w = Inr (Return (pkg, with_package pkg p l r w))"
      using ins(1) unfolding w1_def p_def pkg_def with_package_def
      by (simp add: find_or_make_package_def e key(1) the_str_def split Let_def flag_set_def lut_flag_defs)
    moreover have pe: "ebuilds p = []" "pkg_key p = Some k" "package_id p = i"
      by (simp_all add: p_def)
    moreover have "lut_entries (packages w) i = None" using lut_fresh_id [OF wf room i] .
    note facts = with_package_ok [OF ok pkg pe(1) ins(3) pe(2,3) this]
    ultimately show ?thesis using ins(2,3) facts by (intro exI [of _ pkg] exI [of _ p] exI [of _ i]) auto
  next
    fix i assume i: "lut_get_id (packages w) k = (i, LUT_FLAG_EXISTS)"
    then obtain d f where df: "lut_entries (packages w) i = Some (k, d, f)"
      using lut_entries_iff [OF wf] by blast
    with ok(2) obtain p where p: "d \<noteq> 0" "pkg_objs w d = Some p" "pkg_key p = Some k"
      unfolding entries_ok_def by blast
    have e: "ebuild_package_id e = i" "package_lut_flags e = LUT_FLAG_EXISTS" using id i by simp_all
    have "find_or_make_package alloc e w = Inr (Return (d, w))"
      using p(1) df by (simp add: find_or_make_package_def e flag_set_def lut_flag_defs lut_get_entries)
    then show ?thesis using ok p df cap_mono [OF cap, of m]
      by (intro exI [of _ d] exI [of _ p] exI [of _ i] exI [of _ f] exI [of _ w]) simp
  qed
qed

lemma add_count_ok [simp]:
  "packages_ok (add_count c a w) = packages_ok w" "entries_ok (add_count c a w) = entries_ok w"
  "keys_ok (add_count c a w) = keys_ok w" "indexed (add_count c a w) k full = indexed w k full"
  "in_use (add_count c a w) = in_use w"
proof -
  have k: "key_at (add_count c a w) = key_at w" "ebuild_ok (add_count c a w) = ebuild_ok w"
    by (auto simp: fun_eq_iff key_at_def version_at_def ebuild_ok_def)
  show "packages_ok (add_count c a w) = packages_ok w" by (simp add: packages_ok_def package_ok_def k)
  show "entries_ok (add_count c a w) = entries_ok w" by (simp add: entries_ok_def)
  show "keys_ok (add_count c a w) = keys_ok w" by (simp add: keys_ok_def)
  show "indexed (add_count c a w) k full = indexed w k full" by (simp add: indexed_def)
  show "in_use (add_count c a w) = in_use w" by (simp add: in_use_def fun_eq_iff)
qed

text \<open>Adding an ebuild of the package's key keeps the database in order.\<close>

lemma added_ok [keeps]:
  assumes "entries_ok w" "keys_ok w" "pkg_objs w pkg = Some p" "ebuild_objs w a = Some e"
    and "package_key e = pkg_key p"
  shows "entries_ok (added pkg p a e w)" "keys_ok (added pkg p a e w)"
    "in_use (added pkg p a e w) = in_use w"
    "indexed w k full \<Longrightarrow> indexed (added pkg p a e w) k full"
    "lut_entries (packages w) i = Some (k', pkg, f) \<Longrightarrow> of_file e k' full' \<Longrightarrow>
       indexed (added pkg p a e w) k' full'"
proof -
  show "entries_ok (added pkg p a e w)"
    using assms(1,3) unfolding entries_ok_def by (auto split: if_splits) fastforce+
  show "keys_ok (added pkg p a e w)"
    using assms(2-5) by (auto simp: keys_ok_def split: if_splits) (metis option.sel)
  show "in_use (added pkg p a e w) = in_use w"
    using assms(3,4) by (auto simp: in_use_def fun_eq_iff)
  show "indexed (added pkg p a e w) k full" if "indexed w k full"
  proof -
    from that obtain j d g q c e' where x: "lut_entries (packages w) j = Some (k, d, g)"
      "pkg_objs w d = Some q" "c \<in> set (ebuilds q)" "ebuild_objs w c = Some e'" "of_file e' k full"
      unfolding indexed_def by blast
    let ?q = "if d = pkg then p\<lparr>ebuilds := inserted w a (ebuilds p)\<rparr> else q"
    let ?e = "if c = a then e\<lparr>package := pkg\<rparr> else e'"
    have "pkg_objs (added pkg p a e w) d = Some ?q" "ebuild_objs (added pkg p a e w) c = Some ?e"
      using x by simp_all
    moreover have "c \<in> set (ebuilds ?q)" using x(2,3) assms(3) by auto
    moreover have "of_file ?e k full" using x(4,5) assms(4) by auto
    ultimately show ?thesis unfolding indexed_def using x(1)
      by (intro exI [of _ j] exI [of _ d] exI [of _ g] exI [of _ ?q] exI [of _ c] exI [of _ ?e]) simp
  qed
  show "indexed (added pkg p a e w) k' full'"
    if "lut_entries (packages w) i = Some (k', pkg, f)" "of_file e k' full'"
    using that unfolding indexed_def
    by (intro exI [of _ i] exI [of _ pkg] exI [of _ f] exI [of _ "p\<lparr>ebuilds := inserted w a (ebuilds p)\<rparr>"]
        exI [of _ a] exI [of _ "e\<lparr>package := pkg\<rparr>"]) simp
qed

text \<open>The files of a cache directory that hold a version made of numbers.\<close>

definition cache_name :: "(string \<Rightarrow> string option) \<Rightarrow> string \<Rightarrow> string \<Rightarrow> string \<Rightarrow> string \<Rightarrow> bool" where
  "cache_name realpath cache cat name file \<longleftrightarrow>
     CHR ''/'' \<notin> set cat \<and> realpath (snprintf_path (cache @ ''/'' @ cat @ ''/'' @ file)) \<noteq> None \<and>
     (\<exists>ps r. file = name @ ''-'' @ print_version ps r \<and> ps \<noteq> [] \<and> fst (hd ps) = ATOM_PREFIX_NONE \<and>
        (\<forall>pd \<in> set ps. digits (snd pd) \<and> length (snd pd) \<le> 9) \<and>
        (\<forall>d. r = Some d \<longrightarrow> digits d \<and> length d \<le> 9))"

lemma cache_file_step_result:
  assumes ok: "db_ok (Suc m) w" and alloc: "good_alloc alloc"
    and fname: "cache_name realpath cache cat name file"
  shows "\<exists>w'. cache_file_step alloc realpath None cache cat file w = Inr (Return w') \<and> db_ok m w' \<and>
    indexed w' (cat @ ''/'' @ name) (cat @ ''/'' @ file) \<and>
    (\<forall>k full. indexed w k full \<longrightarrow> indexed w' k full)"
proof -
  from fname obtain ps r f where slash: "CHR ''/'' \<notin> set cat"
    and str: "file = name @ ''-'' @ print_version ps r"
    and ps: "ps \<noteq> []" "\<forall>pd \<in> set ps. digits (snd pd) \<and> length (snd pd) \<le> 9" "fst (hd ps) = ATOM_PREFIX_NONE"
    and r: "\<forall>d. r = Some d \<longrightarrow> digits d \<and> length d \<le> 9"
    and path: "realpath (snprintf_path (cache @ ''/'' @ cat @ ''/'' @ name @ ''-'' @ print_version ps r)) = Some f"
    unfolding cache_name_def by auto
  let ?k = "cat @ ''/'' @ name"
  have dig: "\<forall>pd \<in> set ps. digits (snd pd)" using ps(2) by blast
  define ver where "ver = \<lparr>full_version = Some (print_version ps r), nodes = map parsed_node ps,
       revision = (case r of None \<Rightarrow> 0 | Some d \<Rightarrow> int (dec_val d))\<rparr>"
  have plain: "plain ver"
    using parsed_plain(1) [OF ps(1,2) r] parse_print_aux [OF ps(1) dig] r by (simp add: ver_def)
  define e where "e = cache_ebuild (packages w) cat name ver file f"
  have init: "ebuild_init realpath (Some (packages w)) ebuild_new None cache cat file = Inr (None, e)"
    using ebuild_init_cache [where realpath = realpath and cache = cache and name = name and f = f
        and t = "packages w", OF slash ps(1) dig ps(3) r path] by (simp add: e_def ver_def str)
  have e: "package_key e = Some ?k" "ebuild_key e = Some (cat @ ''/'' @ file)" "ebuild_version e = Some ver"
    "package e = 0" "lut_get_id (packages w) ?k = (ebuild_package_id e, package_lut_flags e)"
    by (simp_all add: e_def cache_ebuild_def ebuild_new_def)
  define a where "a = alloc w"
  have room: "card (Collect (in_use w)) + 2 * Suc m < 2 ^ 64 - 1" and cap: "lut_cap (Suc m) (packages w)"
    using ok by (simp_all add: db_ok_def space_def)
  then have a: "a \<noteq> 0" "\<not> in_use w a"
    using space_free [OF alloc, of w] by (simp_all add: fresh_alloc_def a_def)
  let ?w1 = "with_ebuild a e w"
  note w1 = with_ebuild_ok [OF ok a(2)]
  have card1: "card (Collect (in_use ?w1)) \<le> Suc (card (Collect (in_use w)))" by (rule w1(5))
  then have fresh1: "fresh_alloc alloc ?w1" using space_free [OF alloc] room by simp
  have "lut_cap (Suc m) (packages ?w1)" "lut_get_id (packages ?w1) ?k = (ebuild_package_id e, package_lut_flags e)"
    using cap e(5) by simp_all
  from find_or_make_result [OF w1(1-3) this(1) fresh1 slash e(1) refl this(2)] obtain pkg p i g w2
    where make: "find_or_make_package alloc e ?w1 = Inr (Return (pkg, w2))"
      and w2: "packages_ok w2" "entries_ok w2" "keys_ok w2" "lut_cap m (packages w2)"
        "ebuild_objs w2 = ebuild_objs ?w1" "pkg_objs w2 pkg = Some p" "pkg_key p = Some ?k"
        "lut_entries (packages w2) i = Some (?k, pkg, g)"
        "\<forall>k' full. indexed ?w1 k' full \<longrightarrow> indexed w2 k' full"
        "card (Collect (in_use w2)) \<le> Suc (card (Collect (in_use ?w1)))"
    by blast
  have obj: "ebuild_objs w2 a = Some e" using w2(5) by simp
  then have eb: "ebuild_ok w2 a" using a(1) e(3) plain by (simp add: ebuild_ok_def)
  let ?w3 = "added pkg p a e w2"
  have add: "PyPackage_add_ebuild pkg a w2 = Inr (Return ?w3)"
    by (rule add_ebuild_result [OF w2(1,6) eb obj e(4)])
  have "cache_file_step alloc realpath None cache cat file w = Inr (Return (add_count (- 1) a ?w3))"
    using init make add by (simp add: cache_file_step_def with_ebuild_def flip: a_def)
  moreover have "package_key e = pkg_key p" using e(1) w2(7) by simp
  note w3 = added_ok [OF w2(2,3,6) obj this]
  have "packages_ok ?w3" by (rule packages_ok_added [OF w2(1,6) eb obj e(4)])
  moreover have "space m ?w3"
    using w2(10) card1 room by (simp add: space_def w3(3))
  moreover have "drop (Suc (length ?k)) (cat @ ''/'' @ file) = print_version ps r" by (simp add: str)
  then have "of_file e ?k (cat @ ''/'' @ file)"
    using e(2,3) parse_print_aux [OF ps(1) dig] r by (simp add: of_file_def ver_def)
  then have "indexed ?w3 ?k (cat @ ''/'' @ file)" by (rule w3(5) [OF w2(8)])
  moreover have "indexed ?w3 k full" if "indexed w k full" for k full
    using w1(4) [OF that] w2(9) w3(4) by blast
  ultimately show ?thesis using w3(1,2) w2(4) by (simp add: db_ok_def space_def)
qed

section \<open>Scanning a repository\<close>

definition skipped :: "string \<Rightarrow> bool" where
  "skipped file_name \<longleftrightarrow> char_at file_name 0 = CHR ''.'' \<or> file_name = ''Manifest.gz''"

text \<open>The categories and files of a listing that are cache files.\<close>

definition repo_files :: "dir_entry list \<Rightarrow> (string \<times> string) list" where
  "repo_files entries = concat (map (\<lambda>(name, st).
     case st of
       Some (True, Some fs) \<Rightarrow> if char_at name 0 = CHR ''.'' then [] else map (Pair name) (filter (\<lambda>f. \<not> skipped f) fs)
     | _ \<Rightarrow> []) entries)"

definition entry_ok :: "(string \<Rightarrow> string option) \<Rightarrow> string \<Rightarrow> dir_entry \<Rightarrow> bool" where
  "entry_ok realpath cache entry \<longleftrightarrow> length (cache @ ''/'' @ fst entry) < PATH_MAX \<and>
     (\<exists>is_dir files. snd entry = Some (is_dir, files) \<and>
        (char_at (fst entry) 0 \<noteq> CHR ''.'' \<and> is_dir \<longrightarrow>
           (\<exists>fs. files = Some fs \<and>
              (\<forall>f \<in> set fs. skipped f \<or> (\<exists>name. cache_name realpath cache (fst entry) name f)))))"

definition all_indexed :: "(string \<Rightarrow> string option) \<Rightarrow> string \<Rightarrow> (string \<times> string) list \<Rightarrow> world \<Rightarrow> bool" where
  "all_indexed realpath cache fs w \<longleftrightarrow> (\<forall>(cat, f) \<in> set fs. \<exists>name.
     cache_name realpath cache cat name f \<and> indexed w (cat @ ''/'' @ name) (cat @ ''/'' @ f))"

lemma scan_files_result:
  assumes "good_alloc alloc"
    and "\<forall>f \<in> set fs. skipped f \<or> (\<exists>name. cache_name realpath cache cat name f)"
    and "db_ok (m + length (filter (\<lambda>f. \<not> skipped f) fs)) w"
  shows "\<exists>w'. scan_files alloc realpath None cache cat fs i w =
      Inr (Return (i + word_of_nat (length (filter (\<lambda>f. \<not> skipped f) fs)), w')) \<and> db_ok m w' \<and>
    all_indexed realpath cache (map (Pair cat) (filter (\<lambda>f. \<not> skipped f) fs)) w' \<and>
    (\<forall>k full. indexed w k full \<longrightarrow> indexed w' k full)"
  using assms(2,3)
proof (induction fs arbitrary: i w)
  case (Cons f fs)
  show ?case
  proof (cases "skipped f")
    case True
    then have "scan_files alloc realpath None cache cat (f # fs) i w =
        scan_files alloc realpath None cache cat fs i w" by (simp add: skipped_def)
    with True Cons show ?thesis by simp
  next
    case False
    let ?n = "length (filter (\<lambda>f. \<not> skipped f) fs)"
    from False Cons.prems obtain name where name: "cache_name realpath cache cat name f" by auto
    have "db_ok (Suc (m + ?n)) w" using Cons.prems(2) False by simp
    from cache_file_step_result [OF this assms(1) name] obtain w1 where
      step: "cache_file_step alloc realpath None cache cat f w = Inr (Return w1)" "db_ok (m + ?n) w1"
        "indexed w1 (cat @ ''/'' @ name) (cat @ ''/'' @ f)" "\<forall>k full. indexed w k full \<longrightarrow> indexed w1 k full"
      by blast
    with Cons.IH [of w1 "i + 1"] Cons.prems(1) obtain w' where
      rest: "scan_files alloc realpath None cache cat fs (i + 1) w1 = Inr (Return (i + 1 + word_of_nat ?n, w'))"
        "db_ok m w'" "all_indexed realpath cache (map (Pair cat) (filter (\<lambda>f. \<not> skipped f) fs)) w'"
        "\<forall>k full. indexed w1 k full \<longrightarrow> indexed w' k full"
      by auto
    have "scan_files alloc realpath None cache cat (f # fs) i w = Inr (Return (i + word_of_nat (Suc ?n), w'))"
      using False step(1) rest(1) by (simp add: skipped_def add.assoc)
    moreover have "all_indexed realpath cache (map (Pair cat) (filter (\<lambda>f. \<not> skipped f) (f # fs))) w'"
      using False name rest(3,4) step(3) by (auto simp: all_indexed_def)
    ultimately show ?thesis using False rest(2,4) step(4) by auto
  qed
qed (simp add: all_indexed_def)

lemma repo_files_Cons: "repo_files (entry # entries) = repo_files [entry] @ repo_files entries"
  by (simp add: repo_files_def)

lemma scan_dirs_result:
  assumes "good_alloc alloc" "\<forall>entry \<in> set entries. entry_ok realpath cache entry"
    and "db_ok (m + length (repo_files entries)) w"
  shows "\<exists>w'. scan_dirs alloc realpath None cache entries i w =
      Inr (Return (i + word_of_nat (length (repo_files entries)), w')) \<and> db_ok m w' \<and>
    all_indexed realpath cache (repo_files entries) w' \<and>
    (\<forall>k full. indexed w k full \<longrightarrow> indexed w' k full)"
  using assms(2,3)
proof (induction entries arbitrary: i w)
  case Nil
  then show ?case by (simp add: repo_files_def all_indexed_def)
next
  case (Cons entry entries)
  obtain name is_dir files where entry: "entry = (name, Some (is_dir, files))"
    and len: "\<not> PATH_MAX \<le> length (cache @ ''/'' @ name)"
    and fs: "char_at name 0 \<noteq> CHR ''.'' \<and> is_dir \<Longrightarrow> \<exists>fs. files = Some fs \<and>
        (\<forall>f \<in> set fs. skipped f \<or> (\<exists>n. cache_name realpath cache name n f))"
    using Cons.prems(1) by (cases entry) (auto simp: entry_ok_def)
  show ?case
  proof (cases "char_at name 0 = CHR ''.'' \<or> \<not> is_dir")
    case True
    then have "repo_files [entry] = []"
      by (cases is_dir) (auto simp: repo_files_def entry split: option.split)
    then have "repo_files (entry # entries) = repo_files entries"
      by (simp only: repo_files_Cons [of entry entries] append_Nil)
    moreover have "scan_dirs alloc realpath None cache (entry # entries) i w =
        scan_dirs alloc realpath None cache entries i w"
      using True len by (auto simp: entry)
    ultimately show ?thesis using Cons by simp
  next
    case False
    with fs obtain files' where fs': "files = Some files'"
      "\<forall>f \<in> set files'. skipped f \<or> (\<exists>n. cache_name realpath cache name n f)" by blast
    let ?fs = "filter (\<lambda>f. \<not> skipped f) files'"
    have rf: "repo_files [entry] = map (Pair name) ?fs" using False by (simp add: repo_files_def entry fs'(1))
    have "db_ok ((m + length (repo_files entries)) + length ?fs) w"
      using Cons.prems(2) rf by (simp add: repo_files_Cons [of entry entries] ac_simps)
    from scan_files_result [OF assms(1) fs'(2) this, of i] obtain w1 where
      step: "scan_files alloc realpath None cache name files' i w = Inr (Return (i + word_of_nat (length ?fs), w1))"
        "db_ok (m + length (repo_files entries)) w1" "all_indexed realpath cache (map (Pair name) ?fs) w1"
        "\<forall>k full. indexed w k full \<longrightarrow> indexed w1 k full"
      by blast
    with Cons.IH [of w1 "i + word_of_nat (length ?fs)"] Cons.prems(1) obtain w' where
      rest: "scan_dirs alloc realpath None cache entries (i + word_of_nat (length ?fs)) w1 =
          Inr (Return (i + word_of_nat (length ?fs) + word_of_nat (length (repo_files entries)), w'))"
        "db_ok m w'" "all_indexed realpath cache (repo_files entries) w'"
        "\<forall>k full. indexed w1 k full \<longrightarrow> indexed w' k full"
      by auto
    have len_rf: "length (repo_files (entry # entries)) = length ?fs + length (repo_files entries)"
      by (simp only: repo_files_Cons [of entry entries] rf length_append length_map)
    have "scan_dirs alloc realpath None cache (entry # entries) i w =
        Inr (Return (i + word_of_nat (length (repo_files (entry # entries))), w'))"
      using False len step(1) rest(1) unfolding len_rf by (simp add: entry fs'(1) add.assoc)
    moreover have "all_indexed realpath cache (repo_files (entry # entries)) w'"
      using step(3) rest(3,4) unfolding repo_files_Cons [of entry entries] rf
      by (auto simp: all_indexed_def split: prod.splits) blast
    ultimately show ?thesis using rest(2,4) step(4) by auto
  qed
qed

section \<open>Examples\<close>

text \<open>A state without objects, and an allocator that takes the lowest free address.\<close>

definition empty_world :: world where
  "empty_world =
     \<lparr>global_flags = lut_new 256, packages = lut_new 512, counts = \<lparr>py_refs = \<lambda>_. 0, obj_refs = \<lambda>_. 0\<rparr>,
      use_objs = Map.empty, pkg_objs = Map.empty, ebuild_objs = Map.empty\<rparr>"

definition lowest_free :: "world \<Rightarrow> u64" where
  "lowest_free w =
     (case find (\<lambda>a. \<not> in_use w a) (map word_of_nat [1..<2 ^ 64]) of None \<Rightarrow> 0 | Some a \<Rightarrow> a)"

lemma lowest_free_good: "good_alloc lowest_free"
  unfolding good_alloc_def
proof (intro allI impI)
  fix w assume "\<exists>a. a \<noteq> 0 \<and> \<not> in_use w a"
  then obtain a where a: "a \<noteq> 0" "\<not> in_use w a" by blast
  let ?as = "map word_of_nat [1..<2 ^ 64] :: u64 list"
  have nz: "b \<noteq> 0" if "b \<in> set ?as" for b
  proof -
    from that obtain x where x: "1 \<le> x" "x < 2 ^ 64" "b = word_of_nat x" by auto
    then have "unat b = x" by (simp add: unat_of_nat)
    with x(1) show ?thesis by auto
  qed
  have "a = word_of_nat (unat a)" by simp
  moreover have "unat a \<in> {1..<2 ^ 64}"
    using a(1) unat_bound [of a] by (simp add: unat_gt_0 Suc_le_eq)
  ultimately have "a \<in> set ?as" by (simp only: set_map set_upt) (rule image_eqI)
  with a(2) obtain b where b: "find (\<lambda>a. \<not> in_use w a) ?as = Some b"
    by (cases "find (\<lambda>a. \<not> in_use w a) ?as") (auto simp: find_None_iff)
  then have "\<not> in_use w b" "b \<noteq> 0" using find_SomeD [OF b] nz by auto
  with b show "fresh_alloc lowest_free w" by (simp only: fresh_alloc_def lowest_free_def option.case) simp
qed

lemma empty_world_ok: "db_ok 65536 empty_world"
proof -
  have "Collect (in_use empty_world) = {}" by (simp add: in_use_def empty_world_def)
  then have card: "card (Collect (in_use empty_world)) = 0" by (simp only: card.empty)
  have "space 65536 empty_world" unfolding space_def card by simp
  moreover have "lut_cap 65536 (packages empty_world)" by (simp add: empty_world_def cap_new)
  ultimately show ?thesis
    by (simp add: db_ok_def packages_ok_def entries_ok_def keys_ok_def)
      (simp add: empty_world_def lut_entries_new)
qed

section \<open>Properties\<close>

text \<open>
  C6: reading a repository whose cache files are named \<open>name-version\<close>, with versions made of
  components of one to nine digits, succeeds for up to
  65536 files, whatever their number, order and names and whichever keys collide in the
  hash: the number of files is returned, every file has become an ebuild that the package
  of its key lists, the lists are again sorted and the table consistent, and everything
  that was indexed before still is.
\<close>

theorem repository_indexed:
  assumes "good_alloc alloc" and "\<forall>entry \<in> set entries. entry_ok realpath cache entry"
    and "db_ok (m + length (repo_files entries)) w"
  shows "\<exists>w'. PyPortage_initialize_repository alloc realpath None cache (Some entries) w =
      Inr (Return (word_of_nat (length (repo_files entries)), w')) \<and> db_ok m w' \<and>
    (\<forall>(cat, f) \<in> set (repo_files entries). \<exists>name. cache_name realpath cache cat name f \<and>
       indexed w' (cat @ ''/'' @ name) (cat @ ''/'' @ f)) \<and>
    (\<forall>k full. indexed w k full \<longrightarrow> indexed w' k full)"
  using scan_dirs_result [OF assms, of 0] by (simp add: PyPortage_initialize_repository_def all_indexed_def)

theorem repository_indexed_witness:
  defines "entries \<equiv> [(''metadata'', Some (False, None)), (''a'', Some (True, Some [''Manifest.gz'', ''b-1.2'', ''b-1.10-r1'']))]"
  shows "\<exists>w'. PyPortage_initialize_repository lowest_free Some None ''/c'' (Some entries) empty_world =
      Inr (Return (2, w')) \<and>
    (\<exists>name. cache_name Some ''/c'' ''a'' name ''b-1.2'' \<and> indexed w' (''a/'' @ name) ''a/b-1.2'')"
proof -
  have files: "repo_files entries = [(''a'', ''b-1.2''), (''a'', ''b-1.10-r1'')]"
    by (simp add: entries_def repo_files_def skipped_def char_at_def)
  have names: "cache_name Some ''/c'' ''a'' ''b'' ''b-1.2''" "cache_name Some ''/c'' ''a'' ''b'' ''b-1.10-r1''"
    unfolding cache_name_def
    by (simp, intro exI [of _ "map (Pair ATOM_PREFIX_NONE) [''1'', ''2'']"] exI [of _ None],
        simp add: print_version_def print_part_def separator_def digits_def isdigit_def)
      (simp, intro exI [of _ "map (Pair ATOM_PREFIX_NONE) [''1'', ''10'']"] exI [of _ "Some ''1''"],
        simp add: print_version_def print_part_def separator_def digits_def isdigit_def)
  then have ok: "\<forall>entry \<in> set entries. entry_ok Some ''/c'' entry"
    by (auto simp: entries_def entry_ok_def PATH_MAX_def skipped_def char_at_def)
  have "db_ok (65534 + length (repo_files entries)) empty_world" using empty_world_ok by (simp add: files)
  from repository_indexed [OF lowest_free_good ok this] show ?thesis by (auto simp: files)
qed

text \<open>
  An atom whose key is in the table is matched in the package of that key: the search
  does not fail, and for a range with "older" or "newer" it returns the newest accepted
  ebuild of the package, or None if there is none.
\<close>

theorem portage_match_newest:
  assumes "db_ok m w" and "lut_get_id (packages w) k = (atom_id a, LUT_FLAG_EXISTS)"
    and "atom_key a = Some k" and "atom_version a = Some ver" and "plain ver"
    and "range_has a ATOM_VERSION_L \<or> range_has a ATOM_VERSION_G"
  shows "\<exists>pkg p c w'. pkg_objs w pkg = Some p \<and> pkg_key p = Some k \<and>
    PyPortage_match_atom a w = Inr (Return (c, w')) \<and>
    (c = 0 \<longrightarrow> (\<forall>d \<in> set (ebuilds p). atom_matches a (the (ebuild_objs w d)) = Inr 0)) \<and>
    (c \<noteq> 0 \<longrightarrow> c \<in> set (ebuilds p) \<and>
       (\<forall>d \<in> set (ebuilds p). (\<exists>m. atom_matches a (the (ebuild_objs w d)) = Inr m \<and> m \<noteq> 0) \<longrightarrow>
          key_at w d \<le> key_at w c))"
proof -
  have ok: "packages_ok w" "entries_ok w" "keys_ok w" "lut_wf (packages w)"
    using assms(1) by (simp_all add: db_ok_def lut_cap_def)
  from lut_entries_iff [OF ok(4)] assms(2) obtain pkg f
    where entry: "lut_entries (packages w) (atom_id a) = Some (k, pkg, f)" by blast
  with ok(2) obtain p where p: "pkg \<noteq> 0" "pkg_objs w pkg = Some p" "pkg_key p = Some k"
    unfolding entries_ok_def by blast
  have "\<forall>c \<in> set (ebuilds p). package_key (the (ebuild_objs w c)) = Some k"
    using ok(3) p(2,3) by (simp add: keys_ok_def)
  moreover have "PyPortage_match_atom a w = map_sum id Return (PyPackage_match_atom pkg a w)"
    using entry p(1) by (simp add: PyPortage_match_atom_def lut_get_entries)
  moreover obtain c w' where "PyPackage_match_atom pkg a w = Inr (c, w')"
    "c = 0 \<longrightarrow> (\<forall>d \<in> set (ebuilds p). atom_matches a (the (ebuild_objs w d)) = Inr 0)"
    "c \<noteq> 0 \<longrightarrow> c \<in> set (ebuilds p) \<and>
       (\<forall>d \<in> set (ebuilds p). (\<exists>m. atom_matches a (the (ebuild_objs w d)) = Inr m \<and> m \<noteq> 0) \<longrightarrow>
          key_at w d \<le> key_at w c)"
    using match_atom_newest_aux [OF ok(1) p(2) assms(4,5,3) calculation(1) assms(6)] by blast
  ultimately show ?thesis using p(2,3)
    by (intro exI [of _ pkg] exI [of _ p] exI [of _ c] exI [of _ w']) simp
qed

theorem portage_match_newest_witness:
  "\<exists>w i c w'. cache_file_step lowest_free Some None ''/c'' ''a'' ''b-1.2'' empty_world = Inr (Return w) \<and>
     lut_get_id (packages w) ''a/b'' = (i, LUT_FLAG_EXISTS) \<and>
     PyPortage_match_atom ((sample_atom ''9'' ATOM_VERSION_LE)\<lparr>atom_id := i\<rparr>) w = Inr (Return (c, w'))"
proof -
  have name: "cache_name Some ''/c'' ''a'' ''b'' ''b-1.2''"
    unfolding cache_name_def
    by (simp, intro exI [of _ "map (Pair ATOM_PREFIX_NONE) [''1'', ''2'']"] exI [of _ None],
        simp add: print_version_def print_part_def separator_def digits_def isdigit_def)
  have "db_ok (Suc 65535) empty_world" using empty_world_ok by simp
  from cache_file_step_result [OF this lowest_free_good name] obtain w
    where w: "cache_file_step lowest_free Some None ''/c'' ''a'' ''b-1.2'' empty_world = Inr (Return w)"
      "db_ok 65535 w" "indexed w (''a'' @ ''/'' @ ''b'') (''a'' @ ''/'' @ ''b-1.2'')" by blast
  then obtain i d f where "lut_entries (packages w) i = Some (''a/b'', d, f)" unfolding indexed_def by auto
  moreover have "lut_wf (packages w)" using w(2) by (simp add: db_ok_def lut_cap_def)
  ultimately have i: "lut_get_id (packages w) ''a/b'' = (i, LUT_FLAG_EXISTS)" using lut_entries_iff by blast
  let ?a = "(sample_atom ''9'' ATOM_VERSION_LE)\<lparr>atom_id := i\<rparr>"
  have a: "lut_get_id (packages w) ''a/b'' = (atom_id ?a, LUT_FLAG_EXISTS)" "atom_key ?a = Some ''a/b''"
    "atom_version ?a = Some (number_version ''9'')" "plain (number_version ''9'')"
    "range_has ?a ATOM_VERSION_L \<or> range_has ?a ATOM_VERSION_G"
    using i by (simp_all add: sample_atom_def number_version_facts isdigit_def range_has_def atom_version_t_defs)
  from portage_match_newest [OF w(2) a] w(1) i show ?thesis by blast
qed

text \<open>
  an atom whose key is not in the table is not matched: \<^verbatim>\<open>KeyError\<close> is raised, whatever the
  atom's range and version.
\<close>

theorem portage_match_missing:
  assumes "db_ok (Suc m) w" and "lut_get_id (packages w) k = (atom_id a, LUT_FLAG_NOT_FOUND)"
  shows "PyPortage_match_atom a w = Inr (Raise KeyError)"
proof -
  have "lut_wf (packages w)" "lut_room (packages w) k"
    using assms(1) cap_room by (auto simp: db_ok_def lut_cap_def)
  with assms(2) have "lut_entries (packages w) (atom_id a) = None" using lut_fresh_id by blast
  then show ?thesis by (simp add: PyPortage_match_atom_def lut_get_entries)
qed

theorem portage_match_missing_witness:
  "PyPortage_match_atom (atom_new\<lparr>atom_id := fst (lut_get_id (lut_new 512) ''a/b'')\<rparr>) empty_world = Inr (Raise KeyError)"
proof -
  have "db_ok (Suc 65535) empty_world" using empty_world_ok by simp
  moreover have "lut_get_id (packages empty_world) ''a/b'' =
      (atom_id (atom_new\<lparr>atom_id := fst (lut_get_id (lut_new 512) ''a/b'')\<rparr>), LUT_FLAG_NOT_FOUND)"
    by (simp add: empty_world_def lut_get_id_new)
  ultimately show ?thesis by (rule portage_match_missing)
qed

text \<open>
  the id of a use flag. \<^verbatim>\<open>use_get_global\<close> always yields an id; from then on the id reads back
  the name, asking again yields the same id without any change, the ids of all other flags
  stay what they were and differ from it, and a flag that was new is a disabled flag object
  whose only reference is the table's.
\<close>

theorem use_flag_ids:
  assumes "lut_wf (global_flags w)" and "lut_room (global_flags w) name" and "fresh_alloc alloc w"
  shows "\<exists>i w'. use_get_global alloc (Some name) w = Inr (i, w') \<and>
    lut_get_key (global_flags w') i = Some name \<and>
    use_get_global alloc (Some name) w' = Inr (i, w') \<and>
    (\<forall>k j. k \<noteq> name \<and> lut_get_id (global_flags w) k = (j, LUT_FLAG_EXISTS) \<longrightarrow>
       lut_get_id (global_flags w') k = (j, LUT_FLAG_EXISTS) \<and> j \<noteq> i) \<and>
    (snd (lut_get_id (global_flags w) name) = LUT_FLAG_NOT_FOUND \<longrightarrow>
       lut_get (global_flags w') i = alloc w \<and> py_refs (counts w') (alloc w) = 1 \<and>
       use_objs w' (alloc w) = Some \<lparr>use_name = name, use_state = False\<rparr>)"
proof (rule id_flag_cases [of "global_flags w" name])
  fix i assume i: "lut_get_id (global_flags w) name = (i, LUT_FLAG_EXISTS)"
  then have "use_get_global alloc (Some name) w = Inr (i, w)"
    by (simp add: use_get_global_def flag_set_def lut_flag_defs)
  moreover have "lut_get_key (global_flags w) i = Some name"
    using lut_entries_iff [OF assms(1)] i by (auto simp: lut_get_key_entries)
  moreover have "j \<noteq> i" if "k \<noteq> name" "lut_get_id (global_flags w) k = (j, LUT_FLAG_EXISTS)" for k j
    using lut_entries_iff [OF assms(1)] i that by (metis Pair_inject option.inject)
  ultimately show ?thesis using i by (auto simp: lut_flag_defs)
next
  fix i assume i: "lut_get_id (global_flags w) name = (i, LUT_FLAG_NOT_FOUND)"
  define a where "a = alloc w"
  have a0: "a \<noteq> 0" using assms(3) by (simp add: fresh_alloc_def a_def)
  define w1 where "w1 = new_count a (w\<lparr>use_objs := (use_objs w)(a \<mapsto> \<lparr>use_name = name, use_state = False\<rparr>)\<rparr>)"
  show ?thesis
  proof (rule insert_id_new [OF assms(1,2) i, of a LUT_FLAG_PYTHON "counts w1"])
    fix l1 l
    assume ins: "lut_insert_id name a i (LUT_FLAG_NOT_FOUND OR LUT_FLAG_PYTHON) (global_flags w, counts w1) =
        Inr (l, data_incref (LUT_FLAG_NOT_FOUND OR LUT_FLAG_PYTHON) a (counts w1))"
    define r where "r = data_incref (LUT_FLAG_NOT_FOUND OR LUT_FLAG_PYTHON) a (counts w1)"
    define w' where "w' = add_count (- 1) a (w1\<lparr>global_flags := l, counts := r\<rparr>)"
    have run: "use_get_global alloc (Some name) w = Inr (i, w')"
      using ins i by (simp add: use_get_global_def flag_set_def lut_flag_defs Let_def w'_def r_def w1_def a_def)
    have store: "lut_insert name a LUT_FLAG_PYTHON (global_flags w, counts w1) = Inr (i, l, r)"
      using ins i by (simp add: lut_insert_def r_def)
    have "lut_find (l, r) name = (i, True)"
      using lt.store_then_find [of "(global_flags w, counts w1)" name a i "(l, r)"] assms(1,2) store by simp
    then have id: "lut_get_id l name = (i, LUT_FLAG_EXISTS)" by (simp add: lut_find_cases)
    have full: "lut_get l i = a" "lut_get_key l i = Some name"
      using insert_full [OF assms(1,2) user_flags_python, of a "counts w1"] store by auto
    have others: "lut_get_id l k = (j, LUT_FLAG_EXISTS)"
      if "lut_get_id (global_flags w) k = (j, LUT_FLAG_EXISTS)" for k j
      using lt.store_keeps_find [of "(global_flags w, counts w1)" name a i "(l, r)" k j] assms(1,2) store that
      by (simp add: lut_find_cases)
    have "j \<noteq> i" if "lut_get_id (global_flags w) k = (j, LUT_FLAG_EXISTS)" for k j
      using lut_entries_iff [OF assms(1)] lut_fresh_id [OF assms(1,2) i] that by force
    moreover have "use_get_global alloc (Some name) w' = Inr (i, w')"
      using id by (simp add: use_get_global_def w'_def flag_set_def lut_flag_defs)
    moreover have "py_refs (counts w') a = 1"
      using a0 by (simp add: w'_def r_def w1_def data_incref_def data_add_ref_def flag_set_def lut_flag_defs)
    moreover have "use_objs w' a = Some \<lparr>use_name = name, use_state = False\<rparr>"
      by (simp add: w'_def w1_def)
    ultimately show ?thesis using run full others by (auto simp: w'_def a_def)
  qed
qed

theorem use_flag_ids_witness:
  "\<exists>i w'. use_get_global lowest_free (Some ''ssl'') empty_world = Inr (i, w') \<and>
     lut_get_key (global_flags w') i = Some ''ssl'' \<and> py_refs (counts w') (lowest_free empty_world) = 1"
proof -
  have "fresh_alloc lowest_free empty_world"
    using lowest_free_good empty_world_ok space_free [of lowest_free empty_world] by (simp add: db_ok_def space_def)
  moreover have "lut_wf (global_flags empty_world)" "lut_room (global_flags empty_world) ''ssl''"
    "snd (lut_get_id (global_flags empty_world) ''ssl'') = LUT_FLAG_NOT_FOUND"
    by (simp_all add: empty_world_def lut_wf_new room_new lut_get_id_new)
  ultimately show ?thesis using use_flag_ids [of empty_world "''ssl''" lowest_free] by blast
qed

section \<open>The end of a database\<close>

text \<open>The counts that are left when both tables are freed; objects whose count is then 0 die.\<close>

definition PyPortage_dealloc :: "world \<Rightarrow> refs result" where
  "PyPortage_dealloc w = bindR (lut_free (global_flags w) (counts w)) (lut_free (packages w))"

lemma portage_dealloc_releases:
  assumes "lut_owns (global_flags w) r1 (counts w)" "lut_owns (packages w) r0 r1"
    and "unat (lut_size (global_flags w)) < 2 ^ 32" "unat (lut_size (packages w)) < 2 ^ 32"
  shows "PyPortage_dealloc w = Inr r0"
  using assms by (simp add: PyPortage_dealloc_def lut_free_owned)

end
