(* ===== verification/Ref_Objects.thy ===== *)
theory Ref_Objects
  imports Prelude
begin

text \<open>
  Reference-counted objects (\<^verbatim>\<open>hacksaw/object.h\<close>). An object that is alive has a 64-bit count;
  an address without one has been freed. The null pointer is skipped by both macros, and
  \<^verbatim>\<open>OBJECT_DECREF\<close> frees an object whose count is 0 or becomes 0.
\<close>

type_synonym ref_counts = "u64 \<rightharpoonup> u64"

definition OBJECT_INCREF :: "u64 \<Rightarrow> ref_counts \<Rightarrow> ref_counts result" where
  "OBJECT_INCREF a rc =
     (if a = 0 then Inr rc
      else case rc a of None \<Rightarrow> Inl Use_After_Free | Some c \<Rightarrow> Inr (rc(a \<mapsto> c + 1)))"

definition OBJECT_DECREF :: "u64 \<Rightarrow> ref_counts \<Rightarrow> ref_counts result" where
  "OBJECT_DECREF a rc =
     (if a = 0 then Inr rc
      else case rc a of
             None \<Rightarrow> Inl Use_After_Free
           | Some c \<Rightarrow> if c = 0 \<or> c - 1 = 0 then Inr (rc(a := None)) else Inr (rc(a \<mapsto> c - 1)))"

text \<open>A live object whose count is far from overflowing; the null pointer counts as live.\<close>

definition live :: "ref_counts \<Rightarrow> u64 \<Rightarrow> bool" where
  "live rc a \<longleftrightarrow> a = 0 \<or> (\<exists>c. rc a = Some c \<and> unat c < 2 ^ 63)"

lemma incref_live: "live rc a \<Longrightarrow> a \<noteq> 0 \<Longrightarrow> \<exists>c. rc a = Some c \<and> OBJECT_INCREF a rc = Inr (rc(a \<mapsto> c + 1))"
  by (auto simp: live_def OBJECT_INCREF_def)

lemma incref_null [simp]: "OBJECT_INCREF 0 rc = Inr rc" "OBJECT_DECREF 0 rc = Inr rc"
  by (simp_all add: OBJECT_INCREF_def OBJECT_DECREF_def)

text \<open>Taking and dropping a reference of an object that has one already changes nothing.\<close>

lemma incref_decref:
  assumes "live rc a" "a = 0 \<or> rc a \<noteq> Some 0"
  shows "bindR (OBJECT_INCREF a rc) (OBJECT_DECREF a) = Inr rc"
proof (cases "a = 0")
  case False
  with assms(1) obtain c where c: "rc a = Some c" "unat c < 2 ^ 63" by (auto simp: live_def)
  then have "unat (c + 1) = unat c + 1" by (simp add: unat_word_ariths)
  then have "c + 1 \<noteq> 0" by (metis add_is_0 one_neq_zero unat_0)
  moreover have "c \<noteq> 0" using assms(2) False c(1) by simp
  ultimately show ?thesis
    using False c(1) by (simp add: OBJECT_INCREF_def OBJECT_DECREF_def fun_upd_idem)
qed simp

section \<open>Dropping several references\<close>

fun drop_refs :: "u64 list \<Rightarrow> ref_counts \<Rightarrow> ref_counts result" where
  "drop_refs [] rc = Inr rc"
| "drop_refs (d # ds) rc = bindR (OBJECT_DECREF d rc) (drop_refs ds)"

lemma drop_refs_append: "drop_refs (xs @ ys) rc = bindR (drop_refs xs rc) (drop_refs ys)"
  by (induction xs arbitrary: rc) (auto simp: bindR_def split: sum.split)

text \<open>The count of an object after \<open>n\<close> references are dropped.\<close>

definition dropped :: "nat \<Rightarrow> u64 option \<Rightarrow> u64 option" where
  "dropped n r = (case r of None \<Rightarrow> None | Some c \<Rightarrow> if n = 0 then Some c else if unat c = n then None else Some (c - of_nat n))"

lemma drop_refs_result:
  assumes "\<forall>a \<in> set ds. a \<noteq> 0 \<longrightarrow> (\<exists>c. rc a = Some c \<and> count_list ds a \<le> unat c)"
  shows "\<exists>rc'. drop_refs ds rc = Inr rc' \<and> (\<forall>a. rc' a = (if a = 0 then rc a else dropped (count_list ds a) (rc a)))"
  using assms
proof (induction ds arbitrary: rc)
  case Nil
  then show ?case by (auto simp: dropped_def split: option.split)
next
  case (Cons d ds)
  show ?case
  proof (cases "d = 0")
    case True
    with Cons.prems have "\<forall>a \<in> set ds. a \<noteq> 0 \<longrightarrow> (\<exists>c. rc a = Some c \<and> count_list ds a \<le> unat c)"
      by (auto split: if_splits)
    from Cons.IH [OF this] True show ?thesis by auto
  next
    case False
    note d0 = this
    then obtain c where c: "rc d = Some c" "Suc (count_list ds d) \<le> unat c" using Cons.prems by auto
    then have c0: "c \<noteq> 0" by auto
    have unat_one: "unat c = Suc 0 \<longleftrightarrow> c = 1" by (simp add: word_unat_eq_iff)
    have pred: "unat (c - 1) = unat c - 1" using c0 by (simp add: unat_minus_one)
    define rc1 where "rc1 = (if c - 1 = 0 then rc(d := None) else rc(d \<mapsto> c - 1))"
    have step: "OBJECT_DECREF d rc = Inr rc1"
      using False c c0 by (simp add: OBJECT_DECREF_def rc1_def)
    have last: "count_list ds d = 0" if "c - 1 = 0"
      using that pred c(2) by simp
    have "\<exists>c. rc1 a = Some c \<and> count_list ds a \<le> unat c" if a: "a \<in> set ds" "a \<noteq> 0" for a
    proof (cases "a = d")
      case True
      then have "count_list ds d \<noteq> 0" using a(1) by (simp add: count_list_0_iff)
      then show ?thesis using True last pred c(2) by (auto simp: rc1_def)
    next
      case False
      then have "\<exists>c. rc a = Some c \<and> count_list ds a \<le> unat c" using Cons.prems a by auto
      then show ?thesis using False by (auto simp: rc1_def)
    qed
    then obtain rc' where rc': "drop_refs ds rc1 = Inr rc'"
      "\<And>a. rc' a = (if a = 0 then rc1 a else dropped (count_list ds a) (rc1 a))"
      using Cons.IH [of rc1] by blast
    have "rc' a = (if a = 0 then rc a else dropped (count_list (d # ds) a) (rc a))" for a
    proof (cases "a = d")
      case True
      then show ?thesis
        using c c0 False last pred
        by (auto simp: rc'(2) rc1_def dropped_def algebra_simps unat_one)
    next
      case False
      then show ?thesis using d0 by (simp add: rc'(2) rc1_def dropped_def)
    qed
    then show ?thesis using step rc'(1) by auto
  qed
qed

section \<open>Room for further references\<close>

definition refs_room :: "nat \<Rightarrow> ref_counts \<Rightarrow> bool" where
  "refs_room n rc \<longleftrightarrow> (\<forall>a c. rc a = Some c \<longrightarrow> unat c + n < 2 ^ 64)"

lemma refs_room_suc: "refs_room (Suc n) rc \<Longrightarrow> refs_room n rc"
  unfolding refs_room_def by fastforce

text \<open>Every object of a container is alive, with a count that covers its occurrences.\<close>

definition covered :: "ref_counts \<Rightarrow> u64 list \<Rightarrow> bool" where
  "covered rc xs \<longleftrightarrow> (\<forall>a \<in> set xs. a \<noteq> 0 \<longrightarrow> (\<exists>c. rc a = Some c \<and> count_list xs a \<le> unat c))"

definition increfd :: "u64 \<Rightarrow> ref_counts \<Rightarrow> ref_counts" where
  "increfd d rc = (if d = 0 then rc else rc(d := map_option (\<lambda>c. c + 1) (rc d)))"

lemma incref_alive: "d = 0 \<or> rc d \<noteq> None \<Longrightarrow> OBJECT_INCREF d rc = Inr (increfd d rc)"
  by (auto simp: OBJECT_INCREF_def increfd_def)

lemma increfd_alive: "rc a \<noteq> None \<Longrightarrow> increfd d rc a \<noteq> None"
  by (auto simp: increfd_def)

lemma refs_room_increfd:
  assumes "refs_room (Suc n) rc"
  shows "refs_room n (increfd d rc)"
  unfolding refs_room_def
proof (intro allI impI)
  fix a c assume c: "increfd d rc a = Some c"
  show "unat c + n < 2 ^ 64"
  proof (cases "d \<noteq> 0 \<and> a = d")
    case True
    then obtain c0 where c0: "rc d = Some c0" "c = c0 + 1" using c by (auto simp: increfd_def)
    then have "unat c0 + Suc n < 2 ^ 64" using assms unfolding refs_room_def by blast
    then show ?thesis using c0(2) by (simp add: unat_word_ariths)
  next
    case False
    then have "rc a = Some c" using c by (auto simp: increfd_def split: if_splits)
    then have "unat c + Suc n < 2 ^ 64" using assms unfolding refs_room_def by blast
    then show ?thesis by simp
  qed
qed

lemma unat_incref:
  assumes "refs_room (Suc n) rc" "rc a = Some c"
  shows "unat (c + 1) = Suc (unat c)"
proof -
  have "unat c + Suc n < 2 ^ 64" using assms unfolding refs_room_def by blast
  then show ?thesis by (simp add: unat_word_ariths)
qed

lemma covered_put:
  assumes "covered rc xs" "refs_room (Suc n) rc" "d = 0 \<or> rc d \<noteq> None"
    and "\<And>a. count_list ys a \<le> (if a = d then Suc (count_list xs a) else count_list xs a)"
  shows "covered (increfd d rc) ys"
  unfolding covered_def
proof (intro ballI impI)
  fix a assume a: "a \<in> set ys" "a \<noteq> 0"
  have old: "\<exists>c. rc a = Some c \<and> count_list xs a \<le> unat c" if "count_list xs a \<noteq> 0"
    using assms(1) a(2) that by (simp add: covered_def count_list_0_iff)
  have pos: "count_list ys a \<noteq> 0" using a(1) by (simp add: count_list_0_iff)
  show "\<exists>c. increfd d rc a = Some c \<and> count_list ys a \<le> unat c"
  proof (cases "a = d")
    case True
    then obtain c where c: "rc d = Some c" using assms(3) a(2) by auto
    then have "count_list xs d \<le> unat c" using old True by (cases "count_list xs d") auto
    then show ?thesis using assms(4) [of a] True a(2) c unat_incref [OF assms(2) c] by (auto simp: increfd_def)
  next
    case False
    with assms(4) [of a] pos have "count_list xs a \<noteq> 0" "count_list ys a \<le> count_list xs a" by auto
    then show ?thesis using old False by (fastforce simp: increfd_def)
  qed
qed

lemma covered_subset:
  assumes "covered rc xs" "\<And>a. count_list ys a \<le> count_list xs a"
  shows "covered rc ys"
  unfolding covered_def
proof (intro ballI impI)
  fix a assume a: "a \<in> set ys" "a \<noteq> 0"
  then have "count_list ys a \<noteq> 0" by (simp add: count_list_0_iff)
  then have "count_list xs a \<noteq> 0" using assms(2) [of a] by linarith
  then obtain c where "rc a = Some c" "count_list xs a \<le> unat c"
    using assms(1) a(2) by (auto simp: covered_def count_list_0_iff)
  then show "\<exists>c. rc a = Some c \<and> count_list ys a \<le> unat c" using assms(2) [of a] le_trans by blast
qed

text \<open>
  Handing an object over: the container's reference becomes the caller's, by taking one
  and dropping one.
\<close>

lemma hand_over:
  assumes "covered rc (d # xs)" "refs_room (Suc n) rc"
  shows "bindR (OBJECT_INCREF d rc) (OBJECT_DECREF d) = Inr rc"
proof (cases "d = 0")
  case False
  then obtain c where c: "rc d = Some c" "Suc (count_list xs d) \<le> unat c" using assms(1) by (auto simp: covered_def)
  then have "c + 1 \<noteq> 0" "c \<noteq> 0" using unat_incref [OF assms(2) c(1)] by (metis nat.distinct(1) unat_0, auto)
  with False c(1) show ?thesis by (simp add: OBJECT_INCREF_def OBJECT_DECREF_def fun_upd_idem)
qed simp

end
