(* ===== verification/Hash_Map.thy ===== *)
theory Hash_Map
  imports Murmur Doubles Ref_Objects
begin

text \<open>
  The hash map of \<^verbatim>\<open>hacksaw/map.c\<close>: buckets of items linked by \<^verbatim>\<open>next\<close>, with insertion at the
  front. The counts of the data objects are part of the state of the operations that
  change them.
\<close>

section \<open>Data\<close>

record map_item =
  item_key :: string
  item_data :: u64

record hash_map =
  hash_table :: "map_item list list"
  map_n :: u32
  overlaps :: u32
  map_size :: u64
  realloc_at :: u64
  threshold :: f64

section \<open>Operations\<close>

definition map_new :: "u64 \<Rightarrow> f64 \<Rightarrow> hash_map" where
  "map_new new_size t =
     \<lparr>hash_table = replicate (unat new_size) [], map_n = 0, overlaps = 0, map_size = new_size,
      realloc_at = scaled t new_size, threshold = t\<rparr>"

definition map_offset :: "u64 \<Rightarrow> string \<Rightarrow> nat result" where
  "map_offset sz key = (if sz = 0 then Inl Division_By_Zero else Inr (unat (ucast (str_hash key) mod sz)))"

text \<open>Replace the data of the item with a key, if there is one.\<close>

fun replace_data :: "string \<Rightarrow> u64 \<Rightarrow> map_item list \<Rightarrow> map_item list option" where
  "replace_data key d [] = None"
| "replace_data key d (x # xs) =
     (if item_key x = key then Some (x\<lparr>item_data := d\<rparr> # xs) else map_option ((#) x) (replace_data key d xs))"

definition prv_map_insert_item :: "map_item \<Rightarrow> hash_map \<Rightarrow> hash_map result" where
  "prv_map_insert_item item m =
     bindR (map_offset (map_size m) (item_key item)) (\<lambda>offset.
       let bucket = hash_table m ! offset;
           m = (if bucket \<noteq> [] then m\<lparr>overlaps := overlaps m + 1\<rparr> else m)
       in case replace_data (item_key item) (item_data item) bucket of
            Some bucket' \<Rightarrow> Inr (m\<lparr>hash_table := (hash_table m)[offset := bucket']\<rparr>)
          | None \<Rightarrow> Inr (m\<lparr>hash_table := (hash_table m)[offset := item # bucket], map_n := map_n m + 1\<rparr>))"

text \<open>The recursion goes to the end of the list first, so the last item is moved first.\<close>

fun prv_map_realloc_item :: "map_item list \<Rightarrow> hash_map \<Rightarrow> hash_map result" where
  "prv_map_realloc_item [] m = Inr m"
| "prv_map_realloc_item (x # xs) m = bindR (prv_map_realloc_item xs m) (prv_map_insert_item x)"

fun realloc_buckets :: "map_item list list \<Rightarrow> hash_map \<Rightarrow> hash_map result" where
  "realloc_buckets [] m = Inr m"
| "realloc_buckets (b # bs) m = bindR (prv_map_realloc_item b m) (realloc_buckets bs)"

definition map_realloc :: "u64 \<Rightarrow> hash_map \<Rightarrow> hash_map result" where
  "map_realloc sz m =
     realloc_buckets (hash_table m)
       (m\<lparr>hash_table := replicate (unat sz) [], map_size := sz, realloc_at := scaled (threshold m) sz\<rparr>)"

definition map_insert :: "string \<Rightarrow> u64 \<Rightarrow> hash_map \<times> ref_counts \<Rightarrow> (hash_map \<times> ref_counts) result" where
  "map_insert key data s =
     (case s of (m, rc) \<Rightarrow>
        bindR (if ucast (map_n m + 1) \<ge> realloc_at m then map_realloc (map_size m * 2) m else Inr m) (\<lambda>m.
        bindR (OBJECT_INCREF data rc) (\<lambda>rc.
        bindR (prv_map_insert_item \<lparr>item_key = key, item_data = data\<rparr> m) (\<lambda>m. Inr (m, rc)))))"

definition map_get :: "hash_map \<Rightarrow> string \<Rightarrow> u64 result" where
  "map_get m key =
     bindR (map_offset (map_size m) key) (\<lambda>index.
       Inr (case find (\<lambda>x. item_key x = key) (hash_table m ! index) of None \<Rightarrow> 0 | Some x \<Rightarrow> item_data x))"

fun remove_item :: "string \<Rightarrow> map_item list \<Rightarrow> (u64 \<times> map_item list) option" where
  "remove_item key [] = None"
| "remove_item key (x # xs) =
     (if item_key x = key then Some (item_data x, xs) else map_option (apsnd ((#) x)) (remove_item key xs))"

definition map_remove :: "string \<Rightarrow> hash_map \<Rightarrow> (u64 \<times> hash_map) result" where
  "map_remove key m =
     bindR (map_offset (map_size m) key) (\<lambda>index.
       case remove_item key (hash_table m ! index) of
         None \<Rightarrow> Inr (0, m)
       | Some (d, bucket) \<Rightarrow> Inr (d, m\<lparr>hash_table := (hash_table m)[index := bucket]\<rparr>))"

fun prv_map_free_bucket :: "map_item list \<Rightarrow> ref_counts \<Rightarrow> ref_counts result" where
  "prv_map_free_bucket [] rc = Inr rc"
| "prv_map_free_bucket (x # xs) rc = bindR (prv_map_free_bucket xs rc) (OBJECT_DECREF (item_data x))"

fun map_free_buckets :: "map_item list list \<Rightarrow> ref_counts \<Rightarrow> ref_counts result" where
  "map_free_buckets [] rc = Inr rc"
| "map_free_buckets (b # bs) rc = bindR (prv_map_free_bucket b rc) (map_free_buckets bs)"

text \<open>The counter of the loop is an \<^verbatim>\<open>int\<close>, which overflows on tables of \<open>2 ^ 31\<close> buckets or more.\<close>

definition map_free :: "hash_map \<Rightarrow> ref_counts \<Rightarrow> ref_counts result" where
  "map_free m rc = (if unat (map_size m) < 2 ^ 31 then map_free_buckets (hash_table m) rc else Inl Signed_Overflow)"

section \<open>Well-formed maps\<close>

definition map_wf :: "hash_map \<Rightarrow> bool" where
  "map_wf m \<longleftrightarrow> map_size m \<noteq> 0 \<and> length (hash_table m) = unat (map_size m) \<and>
     (\<forall>i < length (hash_table m). distinct (map item_key (hash_table m ! i)) \<and>
        (\<forall>x \<in> set (hash_table m ! i). map_offset (map_size m) (item_key x) = Inr i))"

text \<open>The contents of a map: the data stored under a key.\<close>

definition map_contents :: "hash_map \<Rightarrow> string \<rightharpoonup> u64" where
  "map_contents m key =
     (case map_offset (map_size m) key of
        Inl e \<Rightarrow> None
      | Inr i \<Rightarrow> map_option item_data (find (\<lambda>x. item_key x = key) (hash_table m ! i)))"

lemma map_offset_bound:
  assumes "map_wf m"
  obtains i where "map_offset (map_size m) key = Inr i" "i < length (hash_table m)"
proof -
  have "map_size m \<noteq> 0" "length (hash_table m) = unat (map_size m)" using assms by (simp_all add: map_wf_def)
  moreover from this(1) have "unat (ucast (str_hash key) mod map_size m) < unat (map_size m)"
    by (simp add: unat_mod unat_gt_0)
  ultimately show ?thesis using that by (simp add: map_offset_def)
qed

lemma map_get_contents:
  assumes "map_wf m"
  shows "map_get m key = Inr (case map_contents m key of None \<Rightarrow> 0 | Some d \<Rightarrow> d)"
  by (rule map_offset_bound [OF assms, of key])
    (simp add: map_get_def map_contents_def split: option.split)

lemma replace_data_cases:
  "replace_data key d xs = (if key \<in> item_key ` set xs
     then Some (map (\<lambda>x. x) (takeWhile (\<lambda>x. item_key x \<noteq> key) xs) @
       (hd (dropWhile (\<lambda>x. item_key x \<noteq> key) xs))\<lparr>item_data := d\<rparr> # tl (dropWhile (\<lambda>x. item_key x \<noteq> key) xs))
     else None)"
  by (induction xs) auto

lemma replace_data_None: "replace_data key d xs = None \<longleftrightarrow> key \<notin> item_key ` set xs"
  by (simp add: replace_data_cases)

lemma replace_data_Some:
  assumes "replace_data key d xs = Some ys"
  shows "map item_key ys = map item_key xs"
    and "find (\<lambda>x. item_key x = k) ys = (if k = key
      then map_option (\<lambda>x. x\<lparr>item_data := d\<rparr>) (find (\<lambda>x. item_key x = k) xs) else find (\<lambda>x. item_key x = k) xs)"
  using assms by (induction xs arbitrary: ys) (auto split: if_splits)

lemma remove_item_None: "remove_item key xs = None \<longleftrightarrow> key \<notin> item_key ` set xs"
  by (induction xs) auto

lemma remove_item_Some:
  assumes "remove_item key xs = Some (d, ys)"
  shows "\<exists>us x vs. xs = us @ x # vs \<and> ys = us @ vs \<and> item_key x = key \<and> item_data x = d \<and> key \<notin> item_key ` set us"
  using assms
proof (induction xs arbitrary: ys)
  case (Cons x xs)
  show ?case
  proof (cases "item_key x = key")
    case True
    with Cons.prems show ?thesis by (intro exI [of _ "[]"]) simp
  next
    case False
    with Cons.prems obtain zs where zs: "remove_item key xs = Some (d, zs)" "ys = x # zs" by auto
    from Cons.IH [OF zs(1)] obtain us w vs where
      "xs = us @ w # vs" "zs = us @ vs" "item_key w = key" "item_data w = d" "key \<notin> item_key ` set us" by blast
    with zs(2) False show ?thesis by (intro exI [of _ "x # us"] exI [of _ w] exI [of _ vs]) simp
  qed
qed simp

lemma find_key_append:
  "find (\<lambda>x. item_key x = k) (us @ vs) =
     (if k \<in> item_key ` set us then find (\<lambda>x. item_key x = k) us else find (\<lambda>x. item_key x = k) vs)"
  by (induction us) auto

lemma find_key_None: "find (\<lambda>x. item_key x = k) xs = None \<longleftrightarrow> k \<notin> item_key ` set xs"
  by (auto simp: find_None_iff)

section \<open>Changing one bucket\<close>

text \<open>Every operation changes at most one bucket; the invariant and the contents follow that change.\<close>

lemma map_wf_set_bucket:
  assumes "map_wf m" "map_offset (map_size m) key = Inr i" "distinct (map item_key b)"
    and "\<And>x. x \<in> set b \<Longrightarrow> x \<in> set (hash_table m ! i) \<or> item_key x \<in> insert key (item_key ` set (hash_table m ! i))"
    and "map_size m' = map_size m" "hash_table m' = (hash_table m)[i := b]" "i < length (hash_table m)"
  shows "map_wf m'"
  unfolding map_wf_def
proof (intro conjI allI impI)
  show "map_size m' \<noteq> 0" "length (hash_table m') = unat (map_size m')" using assms by (simp_all add: map_wf_def)
next
  fix j assume j: "j < length (hash_table m')"
  show "distinct (map item_key (hash_table m' ! j))"
    using assms j by (cases "j = i") (simp_all add: map_wf_def)
  show "\<forall>x \<in> set (hash_table m' ! j). map_offset (map_size m') (item_key x) = Inr j"
  proof (cases "j = i")
    case True
    have "map_offset (map_size m) (item_key x) = Inr i" if "x \<in> set b" for x
      using assms(4) [OF that] assms(1,2,7) by (auto simp: map_wf_def)
    with True assms(5-7) show ?thesis by simp
  next
    case False
    with j assms show ?thesis by (simp add: map_wf_def)
  qed
qed

lemma map_contents_set_bucket:
  assumes "map_wf m" "map_size m' = map_size m" "hash_table m' = (hash_table m)[i := b]" "i < length (hash_table m)"
  shows "map_contents m' k = (if map_offset (map_size m) k = Inr i
     then map_option item_data (find (\<lambda>x. item_key x = k) b) else map_contents m k)"
  by (rule map_offset_bound [OF assms(1), of k]) (use assms in \<open>auto simp: map_contents_def\<close>)

section \<open>Insertion\<close>

lemma insert_item_result:
  assumes "map_wf m"
  obtains m' where "prv_map_insert_item x m = Inr m'" "map_wf m'" "map_size m' = map_size m"
    "threshold m' = threshold m" "realloc_at m' = realloc_at m"
    "map_contents m' = (map_contents m)(item_key x \<mapsto> item_data x)"
    "map_n m' = (if map_contents m (item_key x) = None then map_n m + 1 else map_n m)"
proof -
  obtain i where i: "map_offset (map_size m) (item_key x) = Inr i" "i < length (hash_table m)"
    by (rule map_offset_bound [OF assms])
  let ?b = "hash_table m ! i"
  let ?m = "if ?b \<noteq> [] then m\<lparr>overlaps := overlaps m + 1\<rparr> else m"
  have dist: "distinct (map item_key ?b)" using assms i(2) by (simp add: map_wf_def)
  have other: "map_offset (map_size m) k = Inr i \<Longrightarrow>
      map_contents m k = map_option item_data (find (\<lambda>x. item_key x = k) ?b)" for k
    by (simp add: map_contents_def)
  show ?thesis
  proof (cases "replace_data (item_key x) (item_data x) ?b")
    case None
    let ?m' = "?m\<lparr>hash_table := (hash_table m)[i := x # ?b], map_n := map_n m + 1\<rparr>"
    have a: "prv_map_insert_item x m = Inr ?m'"
      using i(1) None by (simp add: prv_map_insert_item_def Let_def)
    have b: "map_wf ?m'"
      by (rule map_wf_set_bucket [OF assms i(1), where b = "x # ?b"])
        (use None dist i in \<open>auto simp: replace_data_None\<close>)
    have c: "map_contents ?m' = (map_contents m)(item_key x \<mapsto> item_data x)"
    proof
      fix k
      have "map_contents ?m' k = (if map_offset (map_size m) k = Inr i
          then map_option item_data (find (\<lambda>y. item_key y = k) (x # ?b)) else map_contents m k)"
        by (rule map_contents_set_bucket [OF assms]) (simp_all add: i(2))
      then show "map_contents ?m' k = ((map_contents m)(item_key x \<mapsto> item_data x)) k"
        using i(1) other by (cases "k = item_key x") simp_all
    qed
    have d: "map_contents m (item_key x) = None"
      using None other [OF i(1)] by (simp add: replace_data_None find_key_None)
    show ?thesis by (rule that [OF a b _ _ _ c]) (simp_all add: d)
  next
    case (Some b')
    note r = replace_data_Some [OF Some]
    have key: "item_key x \<in> item_key ` set ?b" using Some replace_data_None [of "item_key x" "item_data x" ?b] by simp
    let ?m' = "?m\<lparr>hash_table := (hash_table m)[i := b']\<rparr>"
    have a: "prv_map_insert_item x m = Inr ?m'"
      using i(1) Some by (simp add: prv_map_insert_item_def Let_def)
    have b: "map_wf ?m'"
    proof (rule map_wf_set_bucket [OF assms i(1), where b = b'])
      show "distinct (map item_key b')" using dist r(1) by simp
      fix y assume "y \<in> set b'"
      then have "item_key y \<in> set (map item_key b')" by simp
      then show "y \<in> set ?b \<or> item_key y \<in> insert (item_key x) (item_key ` set ?b)" using r(1) by simp
    qed (use i in simp_all)
    have c: "map_contents ?m' = (map_contents m)(item_key x \<mapsto> item_data x)"
    proof
      fix k
      have n: "find (\<lambda>y. item_key y = item_key x) ?b \<noteq> None" unfolding find_key_None using key by simp
      have "map_contents ?m' k = (if map_offset (map_size m) k = Inr i
          then map_option item_data (find (\<lambda>y. item_key y = k) b') else map_contents m k)"
        by (rule map_contents_set_bucket [OF assms]) (simp_all add: i(2))
      then show "map_contents ?m' k = ((map_contents m)(item_key x \<mapsto> item_data x)) k"
        using i(1) other n r(2) [of k] by (cases "k = item_key x") (auto split: option.splits)
    qed
    have d: "map_contents m (item_key x) \<noteq> None"
      using key other [OF i(1)] by (simp add: find_key_None)
    show ?thesis by (rule that [OF a b _ _ _ c]) (simp_all add: d)
  qed
qed

section \<open>Reallocation\<close>

definition pair_of :: "map_item \<Rightarrow> string \<times> u64" where
  "pair_of x = (item_key x, item_data x)"

lemma fst_pair_of [simp]: "map (fst \<circ> pair_of) xs = map item_key xs"
  by (simp add: pair_of_def)

lemma map_of_find: "map_option item_data (find (\<lambda>x. item_key x = k) xs) = map_of (map pair_of xs) k"
  by (induction xs) (auto simp: pair_of_def)

lemma dom_map_of_pairs: "dom (map_of (map pair_of xs)) = item_key ` set xs"
  by (simp add: dom_map_of_conv_image_fst image_image pair_of_def)

lemma realloc_item_result:
  assumes "map_wf m" "distinct (map item_key xs)" "\<forall>x \<in> set xs. map_contents m (item_key x) = None"
  shows "\<exists>m'. prv_map_realloc_item xs m = Inr m' \<and> map_wf m' \<and> map_size m' = map_size m \<and>
    threshold m' = threshold m \<and> realloc_at m' = realloc_at m \<and> map_contents m' = map_contents m ++ map_of (map pair_of xs) \<and>
    map_n m' = map_n m + word_of_nat (length xs)"
  using assms
proof (induction xs)
  case (Cons x xs)
  obtain m1 where m1: "prv_map_realloc_item xs m = Inr m1" "map_wf m1" "map_size m1 = map_size m"
    "threshold m1 = threshold m \<and> realloc_at m1 = realloc_at m" "map_contents m1 = map_contents m ++ map_of (map pair_of xs)"
    "map_n m1 = map_n m + word_of_nat (length xs)"
    using Cons by auto
  have new: "map_contents m1 (item_key x) = None"
    using Cons.prems(2,3) dom_map_of_pairs [of xs] by (auto simp: m1(5) map_add_None)
  obtain m2 where m2: "prv_map_insert_item x m1 = Inr m2" "map_wf m2" "map_size m2 = map_size m1"
    "threshold m2 = threshold m1 \<and> realloc_at m2 = realloc_at m1" "map_contents m2 = (map_contents m1)(item_key x \<mapsto> item_data x)"
    "map_n m2 = map_n m1 + 1"
    by (rule insert_item_result [OF m1(2), of x]) (simp add: new)
  show ?case
  proof (intro exI [of _ m2] conjI)
    show "map_contents m2 = map_contents m ++ map_of (map pair_of (x # xs))"
      by (simp only: m2(5) m1(5) list.map map_of.simps pair_of_def fst_conv snd_conv map_add_upd)
  qed (simp_all add: m1(1,3,4,6) m2(1,2,3,4,6))
qed simp

lemma realloc_buckets_result:
  assumes "map_wf m" "distinct (map item_key (concat bs))" "\<forall>x \<in> set (concat bs). map_contents m (item_key x) = None"
  shows "\<exists>m'. realloc_buckets bs m = Inr m' \<and> map_wf m' \<and> map_size m' = map_size m \<and>
    threshold m' = threshold m \<and> realloc_at m' = realloc_at m \<and> map_contents m' = map_contents m ++ map_of (map pair_of (concat bs)) \<and>
    map_n m' = map_n m + word_of_nat (length (concat bs))"
  using assms
proof (induction bs arbitrary: m)
  case (Cons b bs)
  have dist: "distinct (map item_key b)" "distinct (map item_key (concat bs))"
    "item_key ` set b \<inter> item_key ` set (concat bs) = {}"
    using Cons.prems(2) by auto
  obtain m1 where m1: "prv_map_realloc_item b m = Inr m1" "map_wf m1" "map_size m1 = map_size m"
    "threshold m1 = threshold m \<and> realloc_at m1 = realloc_at m" "map_contents m1 = map_contents m ++ map_of (map pair_of b)"
    "map_n m1 = map_n m + word_of_nat (length b)"
    using realloc_item_result [OF Cons.prems(1) dist(1)] Cons.prems(3) by auto
  have "map_contents m1 (item_key x) = None" if "x \<in> set (concat bs)" for x
  proof -
    have "item_key x \<notin> item_key ` set b" using dist(3) that by blast
    then have "map_of (map pair_of b) (item_key x) = None"
      by (metis domIff dom_map_of_pairs)
    then show ?thesis using Cons.prems(3) that by (simp add: m1(5) map_add_None)
  qed
  then obtain m2 where m2: "realloc_buckets bs m1 = Inr m2" "map_wf m2" "map_size m2 = map_size m1"
    "threshold m2 = threshold m1 \<and> realloc_at m2 = realloc_at m1" "map_contents m2 = map_contents m1 ++ map_of (map pair_of (concat bs))"
    "map_n m2 = map_n m1 + word_of_nat (length (concat bs))"
    using Cons.IH [OF m1(2) dist(2)] by blast
  have disj: "dom (map_of (map pair_of b)) \<inter> dom (map_of (map pair_of (concat bs))) = {}"
    by (simp only: dom_map_of_pairs dist(3))
  have "map_contents m2 = map_contents m ++ (map_of (map pair_of b) ++ map_of (map pair_of (concat bs)))"
    by (simp add: m2(5) m1(5))
  also have "\<dots> = map_contents m ++ map_of (map pair_of (concat (b # bs)))"
    by (simp only: map_add_comm [OF disj]) simp
  finally show ?case
    by (intro exI [of _ m2]) (simp add: m1(1,3,4,6) m2(1,2,3,4,6) add.assoc)
qed simp

lemma map_items_distinct:
  assumes "map_wf m"
  shows "distinct (map item_key (concat (hash_table m)))"
proof -
  have "distinct (map item_key (concat bs))"
    if "\<forall>i < length bs. distinct (map item_key (bs ! i)) \<and> (\<forall>x \<in> set (bs ! i). off (item_key x) = Inr (i + c))"
    for bs :: "map_item list list" and off :: "string \<Rightarrow> nat result" and c
    using that
  proof (induction bs arbitrary: c)
    case (Cons b bs)
    have "distinct (map item_key (concat bs))"
      using Cons.prems by (intro Cons.IH [of "Suc c"]) (metis Suc_less_eq add_Suc_shift length_Cons nth_Cons_Suc)
    moreover have "distinct (map item_key b)" "\<forall>x \<in> set b. off (item_key x) = Inr c"
      using Cons.prems by (metis add_0 length_greater_0_conv list.distinct(1) nth_Cons_0)+
    moreover have "\<forall>x \<in> set (concat bs). off (item_key x) \<noteq> Inr c"
    proof
      fix x assume "x \<in> set (concat bs)"
      then obtain b' where b': "b' \<in> set bs" "x \<in> set b'" by auto
      from b'(1) obtain i where "i < length bs" "bs ! i = b'" by (auto simp: in_set_conv_nth)
      with b'(2) have "i < length bs" "x \<in> set (bs ! i)" by simp_all
      then have "off (item_key x) = Inr (Suc i + c)" using Cons.prems by (metis Suc_less_eq length_Cons nth_Cons_Suc)
      then show "off (item_key x) \<noteq> Inr c" by simp
    qed
    ultimately show ?case by fastforce
  qed simp
  from this [of "hash_table m" "map_offset (map_size m)" 0] show ?thesis
    using assms by (simp add: map_wf_def)
qed

lemma map_contents_items:
  assumes "map_wf m"
  shows "map_contents m = map_of (map pair_of (concat (hash_table m)))"
proof
  fix k
  obtain i where i: "map_offset (map_size m) k = Inr i" "i < length (hash_table m)"
    by (rule map_offset_bound [OF assms])
  have "filter (\<lambda>x. item_key x = k) (concat (hash_table m)) = filter (\<lambda>x. item_key x = k) (hash_table m ! i)"
    using assms i by (intro filter_concat_single) (auto simp: map_wf_def)
  then have "find (\<lambda>x. item_key x = k) (concat (hash_table m)) = find (\<lambda>x. item_key x = k) (hash_table m ! i)"
    by (rule find_filter_cong)
  then show "map_contents m k = map_of (map pair_of (concat (hash_table m))) k"
    using i(1) by (simp add: map_contents_def map_of_find [symmetric])
qed

lemma map_new_wf:
  assumes "sz \<noteq> 0"
  shows "map_wf (map_new sz t)" "map_contents (map_new sz t) = Map.empty"
  using assms by (auto simp: map_wf_def map_new_def map_contents_def map_offset_def fun_eq_iff unat_mod unat_gt_0)

lemma map_realloc_result:
  assumes "map_wf m" "sz \<noteq> 0"
  shows "\<exists>m'. map_realloc sz m = Inr m' \<and> map_wf m' \<and> map_size m' = sz \<and> threshold m' = threshold m \<and>
    realloc_at m' = scaled (threshold m) sz \<and>
    map_contents m' = map_contents m \<and> map_n m' = map_n m + word_of_nat (length (concat (hash_table m)))"
proof -
  let ?m = "m\<lparr>hash_table := replicate (unat sz) [], map_size := sz, realloc_at := scaled (threshold m) sz\<rparr>"
  have wf: "map_wf ?m" and empty: "map_contents ?m = Map.empty"
    using assms(2) by (auto simp: map_wf_def map_contents_def map_offset_def fun_eq_iff unat_mod unat_gt_0)
  obtain m' where "realloc_buckets (hash_table m) ?m = Inr m'" "map_wf m'" "map_size m' = sz" "threshold m' = threshold m"
    "realloc_at m' = scaled (threshold m) sz"
    "map_contents m' = Map.empty ++ map_of (map pair_of (concat (hash_table m)))"
    "map_n m' = map_n m + word_of_nat (length (concat (hash_table m)))"
    using realloc_buckets_result [OF wf map_items_distinct [OF assms(1)]] unfolding empty by auto
  then show ?thesis
    by (intro exI [of _ m']) (simp add: map_realloc_def map_contents_items [OF assms(1)])
qed

section \<open>Insertion and removal\<close>

lemma double_nonzero: "sz \<noteq> 0 \<Longrightarrow> unat sz < 2 ^ 63 \<Longrightarrow> unat (sz * 2) = 2 * unat sz \<and> sz * 2 \<noteq> 0" for sz :: u64
proof -
  assume "sz \<noteq> 0" "unat sz < 2 ^ 63"
  then have "unat (sz * 2) = 2 * unat sz" by (simp add: unat_word_ariths)
  moreover from this \<open>sz \<noteq> 0\<close> have "sz * 2 \<noteq> 0" by (metis mult_eq_0_iff unat_eq_zero zero_neq_numeral)
  ultimately show ?thesis by simp
qed

text \<open>What an insertion does, with the two ways it may go: with and without reallocation.\<close>

lemma map_insert_cases:
  assumes "map_wf m" "unat (map_size m) < 2 ^ 63" "d = 0 \<or> rc d \<noteq> None"
  obtains m1 m2 where
    "map_insert key d (m, rc) = Inr (m2, if d = 0 then rc else rc(d := map_option (\<lambda>c. c + 1) (rc d)))"
    "map_wf m2" "map_contents m2 = (map_contents m)(key \<mapsto> d)"
    "map_size m2 = map_size m1" "threshold m2 = threshold m" "realloc_at m2 = realloc_at m1"
    "map_n m2 = (if map_contents m key = None then map_n m1 + 1 else map_n m1)"
    "if ucast (map_n m + 1) \<ge> realloc_at m
     then map_size m1 = map_size m * 2 \<and> realloc_at m1 = scaled (threshold m) (map_size m * 2) \<and>
          map_n m1 = map_n m + word_of_nat (length (concat (hash_table m)))
     else m1 = m"
proof -
  have nz: "map_size m * 2 \<noteq> 0" using assms(1,2) double_nonzero by (simp add: map_wf_def)
  define m1 where "m1 = (if ucast (map_n m + 1) \<ge> realloc_at m then projr (map_realloc (map_size m * 2) m) else m)"
  have g: "(if ucast (map_n m + 1) \<ge> realloc_at m then map_realloc (map_size m * 2) m else Inr m) = Inr m1"
    and m1: "map_wf m1" "map_contents m1 = map_contents m" "threshold m1 = threshold m"
    and grown: "if ucast (map_n m + 1) \<ge> realloc_at m
     then map_size m1 = map_size m * 2 \<and> realloc_at m1 = scaled (threshold m) (map_size m * 2) \<and>
          map_n m1 = map_n m + word_of_nat (length (concat (hash_table m)))
     else m1 = m"
    using map_realloc_result [OF assms(1) nz] assms(1) by (auto simp: m1_def)
  have inc: "OBJECT_INCREF d rc = Inr (if d = 0 then rc else rc(d := map_option (\<lambda>c. c + 1) (rc d)))"
    using assms(3) by (auto simp: OBJECT_INCREF_def)
  obtain m2 where m2: "prv_map_insert_item \<lparr>item_key = key, item_data = d\<rparr> m1 = Inr m2" "map_wf m2"
    "map_size m2 = map_size m1" "threshold m2 = threshold m1" "realloc_at m2 = realloc_at m1"
    "map_contents m2 = (map_contents m1)(key \<mapsto> d)"
    "map_n m2 = (if map_contents m1 key = None then map_n m1 + 1 else map_n m1)"
    by (rule insert_item_result [OF m1(1), of "\<lparr>item_key = key, item_data = d\<rparr>"]) simp
  have "map_insert key d (m, rc) = Inr (m2, if d = 0 then rc else rc(d := map_option (\<lambda>c. c + 1) (rc d)))"
    unfolding map_insert_def prod.case g inc bindR_simps m2(1) ..
  then show ?thesis
    by (rule that) (use m2 m1 grown in simp_all)
qed

lemma remove_result:
  assumes "map_wf m"
  shows "\<exists>m'. map_remove key m = Inr (case map_contents m key of None \<Rightarrow> 0 | Some d \<Rightarrow> d, m') \<and> map_wf m' \<and>
    map_contents m' = (map_contents m)(key := None) \<and> map_size m' = map_size m \<and> threshold m' = threshold m \<and>
    realloc_at m' = realloc_at m \<and> map_n m' = map_n m"
proof -
  obtain i where i: "map_offset (map_size m) key = Inr i" "i < length (hash_table m)"
    by (rule map_offset_bound [OF assms])
  let ?b = "hash_table m ! i"
  have mc: "map_contents m k = map_option item_data (find (\<lambda>x. item_key x = k) ?b)"
    if "map_offset (map_size m) k = Inr i" for k
    using that by (simp add: map_contents_def)
  show ?thesis
  proof (cases "remove_item key ?b")
    case None
    then have "map_contents m key = None"
      unfolding mc [OF i(1)] remove_item_None by (simp add: find_key_None)
    moreover from this have "(map_contents m)(key := None) = map_contents m" by (simp add: fun_upd_idem)
    moreover have "map_remove key m = Inr (0, m)" using None i(1) by (simp add: map_remove_def)
    ultimately show ?thesis using assms by (intro exI [of _ m]) simp
  next
    case (Some r)
    obtain d b where r: "r = (d, b)" by (cases r)
    from remove_item_Some [OF Some [unfolded r]] obtain us x vs where
      s: "?b = us @ x # vs" "b = us @ vs" "item_key x = key" "item_data x = d" "key \<notin> item_key ` set us"
      by blast
    have dist: "distinct (map item_key ?b)" using assms i(2) by (simp add: map_wf_def)
    let ?m = "m\<lparr>hash_table := (hash_table m)[i := b]\<rparr>"
    have "map_remove key m = Inr (d, ?m)" using Some i(1) r by (simp add: map_remove_def)
    moreover have "map_contents m key = Some d"
      using s by (simp add: mc [OF i(1)] find_key_append)
    moreover have "map_wf ?m"
      by (rule map_wf_set_bucket [OF assms i(1), where b = b]) (use dist s i(2) in auto)
    moreover have "map_contents ?m = (map_contents m)(key := None)"
    proof
      fix k
      have c: "map_contents ?m k = (if map_offset (map_size m) k = Inr i
          then map_option item_data (find (\<lambda>y. item_key y = k) b) else map_contents m k)"
        by (rule map_contents_set_bucket [OF assms]) (simp_all add: i(2))
      show "map_contents ?m k = ((map_contents m)(key := None)) k"
      proof (cases "k = key")
        case True
        have "key \<notin> item_key ` set b" using dist s by auto
        then have "find (\<lambda>y. item_key y = key) b = None" by (simp only: find_key_None not_False_eq_True)
        then show ?thesis using True c i(1) by simp
      next
        case False
        then show ?thesis using c s mc [of k] by (auto simp: find_key_append)
      qed
    qed
    ultimately show ?thesis by (intro exI [of _ ?m]) simp
  qed
qed

end
