(* ===== verification/Map_Script.thy ===== *)
theory Map_Script
  imports Prelude
begin

text \<open>
  The contract of a keyed store, as a locale: putting and deleting change the finite map
  the state stands for and nothing else, as long as there is room for another operation.
  From it follows once, for every provider, that a whole script of operations succeeds
  and leaves the map that the script describes.
\<close>

datatype ('k, 'd) map_op = Put 'k 'd | Del 'k

fun run_ops :: "('k \<Rightarrow> 'd \<Rightarrow> 's \<Rightarrow> 's result) \<Rightarrow> ('k \<Rightarrow> 's \<Rightarrow> 's result) \<Rightarrow> ('k, 'd) map_op list \<Rightarrow> 's \<Rightarrow> 's result" where
  "run_ops put del [] s = Inr s"
| "run_ops put del (Put k d # ops) s = bindR (put k d s) (run_ops put del ops)"
| "run_ops put del (Del k # ops) s = bindR (del k s) (run_ops put del ops)"

fun spec_ops :: "('k, 'd) map_op list \<Rightarrow> ('k \<rightharpoonup> 'd) \<Rightarrow> ('k \<rightharpoonup> 'd)" where
  "spec_ops [] f = f"
| "spec_ops (Put k d # ops) f = spec_ops ops (f(k \<mapsto> d))"
| "spec_ops (Del k # ops) f = spec_ops ops (f(k := None))"

locale map_store =
  fixes ok :: "nat \<Rightarrow> 's \<Rightarrow> bool"
    and usable :: "'s \<Rightarrow> 'd \<Rightarrow> bool"
    and put :: "'k \<Rightarrow> 'd \<Rightarrow> 's \<Rightarrow> 's result"
    and del :: "'k \<Rightarrow> 's \<Rightarrow> 's result"
    and contents :: "'s \<Rightarrow> 'k \<rightharpoonup> 'd"
  assumes put_law: "ok (Suc n) s \<Longrightarrow> usable s d \<Longrightarrow> \<exists>s'. put k d s = Inr s' \<and> ok n s' \<and>
      contents s' = (contents s)(k \<mapsto> d) \<and> (\<forall>d. usable s d \<longrightarrow> usable s' d)"
    and del_law: "ok (Suc n) s \<Longrightarrow> \<exists>s'. del k s = Inr s' \<and> ok n s' \<and>
      contents s' = (contents s)(k := None) \<and> (\<forall>d. usable s d \<longrightarrow> usable s' d)"
begin

lemma script:
  assumes "ok (n + length ops) s" "\<forall>k d. Put k d \<in> set ops \<longrightarrow> usable s d"
  shows "\<exists>s'. run_ops put del ops s = Inr s' \<and> ok n s' \<and> contents s' = spec_ops ops (contents s)"
  using assms
proof (induction ops arbitrary: s)
  case (Cons op ops)
  show ?case
  proof (cases op)
    case (Put k d)
    obtain s1 where "put k d s = Inr s1" "ok (n + length ops) s1" "contents s1 = (contents s)(k \<mapsto> d)"
      "\<forall>d. usable s d \<longrightarrow> usable s1 d"
      using put_law [of "n + length ops" s d k] Cons.prems Put by auto
    with Cons.IH [of s1] Cons.prems(2) Put show ?thesis by (auto simp del: fun_upd_apply)
  next
    case (Del k)
    obtain s1 where "del k s = Inr s1" "ok (n + length ops) s1" "contents s1 = (contents s)(k := None)"
      "\<forall>d. usable s d \<longrightarrow> usable s1 d"
      using del_law [of "n + length ops" s k] Cons.prems Del by auto
    with Cons.IH [of s1] Cons.prems(2) Del show ?thesis by (auto simp del: fun_upd_apply)
  qed
qed simp

end

end
