(* ===== verification/Map_Use.thy ===== *)
theory Map_Use
  imports Hash_Map Map_Script
begin

text \<open>
  What a client of \<^verbatim>\<open>hacksaw/map.c\<close> may rely on over a whole run. The bounds of a map that
  started with \<^verbatim>\<open>map_new(32, 0.8)\<close> (as the repository does), the references the map holds
  and the contract of a keyed store.
\<close>

section \<open>The load factor 0.8\<close>

text \<open>The \<^verbatim>\<open>double\<close> nearest to 0.8.\<close>

definition f64_08 :: f64 where "f64_08 = F64 7205759403792794 53"

lemma f64_trunc_2: "2 * f64_trunc (f64_mult t (f64_of_nat n)) \<le> f64_trunc (f64_mult t (f64_of_nat (2 * n)))"
proof -
  let ?x = "round53 (mantissa t * round53 n)"
  have "round53 (mantissa t * (2 * round53 n)) = 2 * ?x"
    using round53_double [of "mantissa t * round53 n"] by (simp add: ac_simps)
  moreover have "2 * (?x div 2 ^ scale t) \<le> (2 * ?x) div 2 ^ scale t"
    by (simp add: less_eq_div_iff_mult_less_eq)
  ultimately show ?thesis
    by (simp add: f64_trunc_def f64_mult_def f64_of_nat_def round53_double)
qed

lemma scaled_08_double:
  assumes "unat sz < 2 ^ 60"
  shows "2 * unat (scaled f64_08 sz) \<le> unat (scaled f64_08 (sz * 2))"
proof -
  have "unat (sz * 2) = 2 * unat sz" using assms by (simp add: unat_word_ariths)
  then show ?thesis
    using assms f64_trunc_2 [of f64_08 "unat sz"] by (simp add: unat_scaled f64_08_def)
qed

lemma scaled_08_32: "scaled f64_08 32 = 25"
  by (simp add: scaled_def f64_08_def f64_trunc_def f64_mult_def f64_of_nat_def round53_def bit_len.simps
      round_shift_def Let_def)

section \<open>How far a map grows\<close>

text \<open>
  After \<open>k\<close> operations the counter \<^verbatim>\<open>n\<close> may exceed the number of items, because a
  reallocation counts every item again; it is bounded by \<open>k\<close> for each size the table had.
\<close>

definition map_grown :: "nat \<Rightarrow> nat \<Rightarrow> hash_map \<Rightarrow> bool" where
  "map_grown k j m \<longleftrightarrow> map_wf m \<and> threshold m = f64_08 \<and> realloc_at m = scaled f64_08 (map_size m) \<and>
     unat (map_size m) = 32 * 2 ^ j \<and> 25 * 2 ^ j \<le> unat (realloc_at m) \<and>
     unat (map_n m) \<le> (j + 1) * k \<and> length (concat (hash_table m)) \<le> k \<and>
     (j = 0 \<or> 25 * 2 ^ (j - 1) \<le> j * k + 1)"

lemma grown_bound:
  assumes "map_grown k j m" "k \<le> 2 ^ 20"
  shows "j \<le> 20"
proof (rule ccontr)
  assume "\<not> j \<le> 20"
  then have "j * 2 ^ 20 + 1 < (25::nat) * 2 ^ (j - 1)"
  proof (induction j)
    case (Suc j)
    show ?case
    proof (cases "j = 20")
      case False
      with Suc have j: "20 < j" "j * 2 ^ 20 + 1 < 25 * 2 ^ (j - 1)" by simp_all
      then have "(2::nat) ^ j = 2 * 2 ^ (j - 1)" by (cases j) simp_all
      moreover have "(2::nat) ^ 20 \<le> j * 2 ^ 20" using j(1) by simp
      ultimately show ?thesis using j(2) by simp
    qed simp
  qed simp
  moreover have "25 * 2 ^ (j - 1) \<le> j * k + 1" using assms(1) \<open>\<not> j \<le> 20\<close> by (simp add: map_grown_def)
  moreover have "j * k \<le> j * 2 ^ 20" using assms(2) by (rule mult_le_mono2)
  ultimately show False by linarith
qed

lemma grown_size: "map_grown k j m \<Longrightarrow> k \<le> 2 ^ 20 \<Longrightarrow> unat (map_size m) \<le> 2 ^ 25"
proof -
  assume a: "map_grown k j m" "k \<le> 2 ^ 20"
  then have "(2::nat) ^ j \<le> 2 ^ 20" using grown_bound [OF a] by (intro power_increasing) simp_all
  then show ?thesis using a(1) by (simp add: map_grown_def)
qed

lemma grown_n: "map_grown k j m \<Longrightarrow> k \<le> 2 ^ 20 \<Longrightarrow> unat (map_n m) \<le> 21 * 2 ^ 20"
proof -
  assume a: "map_grown k j m" "k \<le> 2 ^ 20"
  then have "(j + 1) * k \<le> 21 * 2 ^ 20" using grown_bound [OF a] by (intro mult_le_mono) simp_all
  then show ?thesis using a(1) by (simp add: map_grown_def)
qed

lemma items_card:
  assumes "map_wf m"
  shows "length (concat (hash_table m)) = card (dom (map_contents m))"
  using distinct_card [OF map_items_distinct [OF assms]]
  by (simp add: map_contents_items [OF assms] dom_map_of_pairs)

lemma finite_contents: "map_wf m \<Longrightarrow> finite (dom (map_contents m))"
  by (simp add: map_contents_items finite_dom_map_of)

lemma grown_new: "map_grown 0 0 (map_new 32 f64_08)"
  by (simp add: map_grown_def map_new_wf) (simp add: map_new_def scaled_08_32)

lemma insert_grown:
  assumes "map_grown k j m" "k < 2 ^ 20" "d = 0 \<or> rc d \<noteq> None"
  shows "\<exists>m' j'. map_insert key d (m, rc) = Inr (m', if d = 0 then rc else rc(d := map_option (\<lambda>c. c + 1) (rc d))) \<and>
    map_grown (Suc k) j' m' \<and> map_contents m' = (map_contents m)(key \<mapsto> d)"
proof -
  have wf: "map_wf m" and g: "threshold m = f64_08" "realloc_at m = scaled f64_08 (map_size m)"
    "unat (map_size m) = 32 * 2 ^ j" "25 * 2 ^ j \<le> unat (realloc_at m)" "unat (map_n m) \<le> (j + 1) * k"
    "length (concat (hash_table m)) \<le> k" "j = 0 \<or> 25 * 2 ^ (j - 1) \<le> j * k + 1"
    using assms(1) unfolding map_grown_def by blast+
  have sz: "unat (map_size m) \<le> 2 ^ 25" and n: "unat (map_n m) \<le> 21 * 2 ^ 20" and j: "j \<le> 20"
    using grown_size [OF assms(1)] grown_n [OF assms(1)] grown_bound [OF assms(1)] assms(2) by simp_all
  have sz63: "unat (map_size m) < 2 ^ 63" using sz by simp
  obtain m1 m' where
    ins: "map_insert key d (m, rc) = Inr (m', if d = 0 then rc else rc(d := map_option (\<lambda>c. c + 1) (rc d)))"
    and m': "map_wf m'" "map_contents m' = (map_contents m)(key \<mapsto> d)"
    "map_size m' = map_size m1" "threshold m' = threshold m" "realloc_at m' = realloc_at m1"
    "map_n m' = (if map_contents m key = None then map_n m1 + 1 else map_n m1)"
    and m1: "if ucast (map_n m + 1) \<ge> realloc_at m
     then map_size m1 = map_size m * 2 \<and> realloc_at m1 = scaled (threshold m) (map_size m * 2) \<and>
          map_n m1 = map_n m + word_of_nat (length (concat (hash_table m)))
     else m1 = m"
    by (rule map_insert_cases [where rc = rc, OF wf sz63 assms(3), of key])
  have len: "length (concat (hash_table m')) \<le> Suc k"
  proof -
    have "card (dom (map_contents m')) \<le> Suc (card (dom (map_contents m)))"
      by (simp add: m'(2) card_insert_if finite_contents [OF wf])
    then show ?thesis using g(6) by (simp add: items_card wf m'(1))
  qed
  have step: "unat (map_n m') \<le> unat (map_n m1) + 1" using m'(6) by (simp add: unat_word_ariths)
  show ?thesis
  proof (cases "ucast (map_n m + 1) \<ge> realloc_at m")
    case False
    then have "m1 = m" using m1 by simp
    then have "map_grown (Suc k) j m'"
      using m' g len step by (auto simp: map_grown_def)
    with ins m'(2) show ?thesis by blast
  next
    case True
    with m1 have m1: "map_size m1 = map_size m * 2" "realloc_at m1 = scaled f64_08 (map_size m * 2)"
      "map_n m1 = map_n m + word_of_nat (length (concat (hash_table m)))" by (simp_all add: g(1))
    have two: "unat (map_size m * 2) = 2 * unat (map_size m)" using sz by (simp add: unat_word_ariths)
    have "unat (map_n m1) \<le> unat (map_n m) + length (concat (hash_table m))"
      unfolding m1(3) by (simp add: unat_word_ariths unat_of_nat)
    then have "unat (map_n m') \<le> (Suc j + 1) * Suc k" using step g(5,6) by simp
    moreover have "unat (map_n m + 1) = unat (map_n m) + 1" using n by (simp add: unat_word_ariths)
    then have "unat (realloc_at m) \<le> unat (map_n m) + 1" using True by (simp add: word_le_nat_alt)
    then have "25 * 2 ^ (Suc j - 1) \<le> Suc j * Suc k + 1" using g(4,5) by simp
    moreover have "25 * 2 ^ Suc j \<le> unat (realloc_at m1)"
      using scaled_08_double [of "map_size m"] sz g(2,4) m1(2) by simp
    ultimately have "map_grown (Suc k) (Suc j) m'"
      using m' m1 g len two by (simp add: map_grown_def)
    with ins m'(2) show ?thesis by blast
  qed
qed

section \<open>The references a map holds\<close>

definition holders :: "(string \<rightharpoonup> u64) \<Rightarrow> u64 \<Rightarrow> nat" where
  "holders f a = card {k. f k = Some a}"

text \<open>Every object in the map is alive and its count covers the places that hold it.\<close>

definition owned :: "(string \<rightharpoonup> u64) \<Rightarrow> ref_counts \<Rightarrow> bool" where
  "owned f rc \<longleftrightarrow> (\<forall>a. a \<noteq> 0 \<longrightarrow> 0 < holders f a \<longrightarrow> (\<exists>c. rc a = Some c \<and> holders f a \<le> unat c))"

lemma finite_holders: "finite (dom f) \<Longrightarrow> finite {k. f k = Some a}"
  by (rule finite_subset [of _ "dom f"]) auto

lemma holders_put:
  assumes "finite (dom f)"
  shows "holders (f(key \<mapsto> d)) a \<le> (if a = d then Suc (holders f a) else holders f a)"
proof (cases "a = d")
  case True
  have "holders (f(key \<mapsto> d)) a \<le> card (insert key {k. f k = Some a})"
    unfolding holders_def by (intro card_mono) (auto simp: finite_holders [OF assms])
  also have "\<dots> \<le> Suc (holders f a)"
    by (simp add: holders_def card_insert_if finite_holders [OF assms])
  finally show ?thesis using True by simp
next
  case False
  have "card {k. (f(key \<mapsto> d)) k = Some a} \<le> card {k. f k = Some a}"
    using False by (intro card_mono) (auto simp: finite_holders [OF assms] split: if_splits)
  with False show ?thesis by (simp add: holders_def)
qed

lemma holders_del:
  assumes "finite (dom f)"
  shows "holders (f(key := None)) a \<le> holders f a"
  unfolding holders_def by (intro card_mono) (auto simp: finite_holders [OF assms] split: if_splits)

lemma owned_del:
  assumes "finite (dom f)" "owned f rc"
  shows "owned (f(key := None)) rc"
  unfolding owned_def
proof (intro allI impI)
  fix a :: u64 assume a: "a \<noteq> 0" "0 < holders (f(key := None)) a"
  note le = holders_del [OF assms(1), of key a]
  with a obtain c where "rc a = Some c" "holders f a \<le> unat c" using assms(2) unfolding owned_def by fastforce
  with le show "\<exists>c. rc a = Some c \<and> holders (f(key := None)) a \<le> unat c" by auto
qed

lemma owned_put:
  assumes "finite (dom f)" "owned f rc" "refs_room (Suc n) rc" "d = 0 \<or> rc d \<noteq> None"
    and "rc' = (if d = 0 then rc else rc(d := map_option (\<lambda>c. c + 1) (rc d)))"
  shows "owned (f(key \<mapsto> d)) rc'" "refs_room n rc'"
proof -
  have suc: "unat (c + 1) = unat c + 1" if "rc a = Some c" for a c
  proof -
    have "unat c + Suc n < 2 ^ 64" using assms(3) that unfolding refs_room_def by blast
    then show ?thesis by (simp add: unat_word_ariths)
  qed
  show "refs_room n rc'"
    unfolding refs_room_def
  proof (intro allI impI)
    fix a c assume c: "rc' a = Some c"
    show "unat c + n < 2 ^ 64"
    proof (cases "d \<noteq> 0 \<and> a = d")
      case True
      then obtain c0 where c0: "rc d = Some c0" "c = c0 + 1" using c assms(5) by auto
      then have "unat c0 + Suc n < 2 ^ 64" using assms(3) unfolding refs_room_def by blast
      then show ?thesis using suc [OF c0(1)] c0(2) by simp
    next
      case False
      then have "rc a = Some c" using c assms(5) by (auto split: if_splits)
      then have "unat c + Suc n < 2 ^ 64" using assms(3) unfolding refs_room_def by blast
      then show ?thesis by simp
    qed
  qed
  show "owned (f(key \<mapsto> d)) rc'"
    unfolding owned_def
  proof (intro allI impI)
    fix a :: u64 assume a: "a \<noteq> 0" "0 < holders (f(key \<mapsto> d)) a"
    note h = holders_put [OF assms(1), of key d a]
    show "\<exists>c. rc' a = Some c \<and> holders (f(key \<mapsto> d)) a \<le> unat c"
    proof (cases "a = d")
      case True
      with a(1) assms(4) obtain c where c: "rc d = Some c" by auto
      have "holders f d \<le> unat c"
        using assms(2) c a(1) True by (cases "holders f d = 0") (auto simp: owned_def)
      then show ?thesis using True a(1) c h assms(5) suc [OF c] by simp
    next
      case False
      then show ?thesis using a h assms(2,5) unfolding owned_def by (auto intro: order_trans)
    qed
  qed
qed

section \<open>Freeing a map\<close>

lemma free_bucket_drops: "prv_map_free_bucket b rc = drop_refs (List.rev (map item_data b)) rc"
  by (induction b arbitrary: rc) (auto simp: drop_refs_append bindR_def split: sum.split)

lemma free_buckets_drop:
  "map_free_buckets bs rc = drop_refs (concat (map (\<lambda>b. List.rev (map item_data b)) bs)) rc"
  by (induction bs arbitrary: rc) (auto simp: drop_refs_append free_bucket_drops bindR_def split: sum.split)

lemma count_list_filter: "count_list (map f xs) a = length (filter (\<lambda>x. f x = a) xs)"
  by (induction xs) auto

lemma free_count:
  assumes "map_wf m"
  shows "count_list (concat (map (\<lambda>b. List.rev (map item_data b)) (hash_table m))) a = holders (map_contents m) a"
proof -
  let ?xs = "concat (hash_table m)"
  have dist: "distinct (map item_key ?xs)" by (rule map_items_distinct [OF assms])
  have "count_list (concat (map (\<lambda>b. List.rev (map item_data b)) bs)) a = count_list (map item_data (concat bs)) a" for bs
    by (induction bs) simp_all
  then have "count_list (concat (map (\<lambda>b. List.rev (map item_data b)) (hash_table m))) a =
      length (map item_key (filter (\<lambda>x. item_data x = a) ?xs))"
    by (simp add: count_list_filter)
  also have "\<dots> = card (item_key ` set (filter (\<lambda>x. item_data x = a) ?xs))"
    using distinct_card [of "map item_key (filter (\<lambda>x. item_data x = a) ?xs)"] distinct_map_filter [OF dist] by simp
  also have "item_key ` set (filter (\<lambda>x. item_data x = a) ?xs) = {k. map_of (map pair_of ?xs) k = Some a}"
  proof -
    have "distinct (map fst (map pair_of ?xs))" using dist by simp
    then have "map_of (map pair_of ?xs) k = Some a \<longleftrightarrow> (k, a) \<in> set (map pair_of ?xs)" for k
      by (rule map_of_eq_Some_iff)
    then show ?thesis by (auto simp: pair_of_def image_iff)
  qed
  finally show ?thesis by (simp add: holders_def map_contents_items [OF assms])
qed

lemma free_result:
  assumes "map_wf m" "unat (map_size m) < 2 ^ 31" "owned (map_contents m) rc"
  shows "\<exists>rc'. map_free m rc = Inr rc' \<and>
    (\<forall>a. rc' a = (if a = 0 then rc a else dropped (holders (map_contents m) a) (rc a)))"
proof -
  let ?ds = "concat (map (\<lambda>b. List.rev (map item_data b)) (hash_table m))"
  have "\<forall>a \<in> set ?ds. a \<noteq> 0 \<longrightarrow> (\<exists>c. rc a = Some c \<and> count_list ?ds a \<le> unat c)"
  proof (intro ballI impI)
    fix a :: u64 assume a: "a \<in> set ?ds" "a \<noteq> 0"
    then have "0 < holders (map_contents m) a"
      unfolding free_count [OF assms(1), symmetric] by (simp add: count_list_0_iff neq0_conv [symmetric] del: neq0_conv)
    then show "\<exists>c. rc a = Some c \<and> count_list ?ds a \<le> unat c"
      using assms(3) a(2) unfolding owned_def free_count [OF assms(1)] by blast
  qed
  from drop_refs_result [OF this, unfolded free_count [OF assms(1)]] show ?thesis
    unfolding map_free_def free_buckets_drop using assms(2) by simp
qed

section \<open>The map as a keyed store\<close>

text \<open>Dropping a key through \<^verbatim>\<open>map_remove\<close>, whose result the caller takes over.\<close>

definition map_drop :: "string \<Rightarrow> hash_map \<times> ref_counts \<Rightarrow> (hash_map \<times> ref_counts) result" where
  "map_drop key s = (case s of (m, rc) \<Rightarrow> bindR (map_remove key m) (\<lambda>(d, m'). Inr (m', rc)))"

definition map_ok :: "nat \<Rightarrow> hash_map \<times> ref_counts \<Rightarrow> bool" where
  "map_ok n s \<longleftrightarrow> (\<exists>k j. k + n \<le> 2 ^ 20 \<and> map_grown k j (fst s)) \<and> refs_room n (snd s) \<and>
     owned (map_contents (fst s)) (snd s)"

definition alive :: "hash_map \<times> ref_counts \<Rightarrow> u64 \<Rightarrow> bool" where
  "alive s d \<longleftrightarrow> d = 0 \<or> snd s d \<noteq> None"

lemma map_ok_wf: "map_ok n s \<Longrightarrow> map_wf (fst s)"
  by (auto simp: map_ok_def map_grown_def)

lemma put_ok:
  assumes "map_ok (Suc n) s" "alive s d"
  shows "\<exists>s'. map_insert key d s = Inr s' \<and> map_ok n s' \<and>
    map_contents (fst s') = (map_contents (fst s))(key \<mapsto> d) \<and> (\<forall>d. alive s d \<longrightarrow> alive s' d)"
proof -
  obtain m rc where s: "s = (m, rc)" by (cases s)
  from assms(1) obtain k j where k: "k + Suc n \<le> 2 ^ 20" "map_grown k j m" and r: "refs_room (Suc n) rc"
    "owned (map_contents m) rc"
    by (auto simp: map_ok_def s)
  have d: "d = 0 \<or> rc d \<noteq> None" using assms(2) by (simp add: alive_def s)
  have k20: "k < 2 ^ 20" using k(1) by linarith
  let ?rc = "if d = 0 then rc else rc(d := map_option (\<lambda>c. c + 1) (rc d))"
  obtain m' j' where m': "map_insert key d (m, rc) = Inr (m', ?rc)" "map_grown (Suc k) j' m'"
    "map_contents m' = (map_contents m)(key \<mapsto> d)"
    using insert_grown [where rc = rc, OF k(2) k20 d, of key] by blast
  have "map_wf m" using k(2) by (simp add: map_grown_def)
  note fin = finite_contents [OF this]
  note own = owned_put(1) [OF fin r(2,1) d refl, of key] owned_put(2) [OF fin r(2,1) d refl]
  have "Suc k + n \<le> 2 ^ 20" using k(1) by simp
  then have ok: "map_ok n (m', ?rc)"
    unfolding map_ok_def fst_conv snd_conv m'(3) using m'(2) own by blast
  have "\<forall>d'. alive s d' \<longrightarrow> alive (m', ?rc) d'" using d by (auto simp: alive_def s)
  with ok show ?thesis
    unfolding s using m'(1) m'(3) by (intro exI [of _ "(m', ?rc)"]) (simp del: fun_upd_apply)
qed

lemma drop_ok:
  assumes "map_ok (Suc n) s"
  shows "\<exists>s'. map_drop key s = Inr s' \<and> map_ok n s' \<and>
    map_contents (fst s') = (map_contents (fst s))(key := None) \<and> (\<forall>d. alive s d \<longrightarrow> alive s' d)"
proof -
  obtain m rc where s: "s = (m, rc)" by (cases s)
  from assms(1) obtain k j where k: "k + Suc n \<le> 2 ^ 20" "map_grown k j m" and r: "refs_room (Suc n) rc"
    "owned (map_contents m) rc"
    by (auto simp: map_ok_def s)
  have wf: "map_wf m" using k(2) by (simp add: map_grown_def)
  obtain d m' where m': "map_remove key m = Inr (d, m')" "map_wf m'"
    "map_contents m' = (map_contents m)(key := None)" "map_size m' = map_size m" "threshold m' = threshold m"
    "realloc_at m' = realloc_at m" "map_n m' = map_n m"
    using remove_result [OF wf, of key] by blast
  have "card (dom (map_contents m')) \<le> card (dom (map_contents m))"
    unfolding m'(3) by (intro card_mono finite_contents [OF wf]) auto
  then have "length (concat (hash_table m')) \<le> length (concat (hash_table m))"
    by (simp add: items_card wf m'(2))
  then have "map_grown k j m'"
    using k(2) m' by (auto simp: map_grown_def)
  moreover have "owned (map_contents m') rc"
    unfolding m'(3) by (rule owned_del [OF finite_contents [OF wf] r(2)])
  moreover have "refs_room n rc" unfolding refs_room_def
  proof (intro allI impI)
    fix a c assume "rc a = Some c"
    then have "unat c + Suc n < 2 ^ 64" using r(1) unfolding refs_room_def by blast
    then show "unat c + n < 2 ^ 64" by simp
  qed
  moreover have "k + n \<le> 2 ^ 20" using k(1) by simp
  ultimately have "map_ok n (m', rc)" unfolding map_ok_def fst_conv snd_conv by blast
  moreover have "map_drop key s = Inr (m', rc)" by (simp add: map_drop_def s m'(1))
  ultimately show ?thesis by (intro exI [of _ "(m', rc)"]) (simp add: s alive_def m'(3) del: fun_upd_apply)
qed

interpretation hm: map_store map_ok alive map_insert map_drop "\<lambda>s. map_contents (fst s)"
  by unfold_locales (rule put_ok, assumption+, rule drop_ok, assumption)

section \<open>Properties\<close>

lemma script_result:
  assumes "length ops \<le> 2 ^ 20" "\<forall>k d. Put k d \<in> set ops \<longrightarrow> d = 0 \<or> rc d \<noteq> None"
    and "\<forall>a c. rc a = Some c \<longrightarrow> unat c < 2 ^ 63"
  shows "\<exists>s. run_ops map_insert map_drop ops (map_new 32 f64_08, rc) = Inr s \<and> map_ok 0 s \<and>
    map_contents (fst s) = spec_ops ops Map.empty"
proof -
  have "refs_room (length ops) rc" unfolding refs_room_def
  proof (intro allI impI)
    fix a c assume "rc a = Some c"
    then have "unat c < 2 ^ 63" using assms(3) by blast
    then show "unat c + length ops < 2 ^ 64" using assms(1) by simp
  qed
  moreover have "map_contents (map_new 32 f64_08) = Map.empty" by (rule map_new_wf) simp
  moreover have "owned Map.empty rc" by (simp add: owned_def holders_def)
  ultimately have "map_ok (length ops) (map_new 32 f64_08, rc)"
    unfolding map_ok_def fst_conv snd_conv using grown_new assms(1) by (metis add_0)
  then show ?thesis
    using hm.script [of 0 ops "(map_new 32 f64_08, rc)"] assms(2)
    by (simp add: alive_def map_new_wf)
qed

text \<open>C13: A map created as the repository does (32 buckets, load factor 0.8) behaves as a finite
  map over every sequence of at most \<open>2 ^ 20\<close> insertions and removals: every operation
  succeeds, through every reallocation on the way, and afterwards \<^verbatim>\<open>map_get\<close> returns
  exactly what the sequence describes, the null pointer for a key that is not there.\<close>

theorem map_runs_as_finite_map:
  assumes "length ops \<le> 2 ^ 20" "\<forall>k d. Put k d \<in> set ops \<longrightarrow> d = 0 \<or> rc d \<noteq> None"
    and "\<forall>a c. rc a = Some c \<longrightarrow> unat c < 2 ^ 63"
  shows "\<exists>m rc'. run_ops map_insert map_drop ops (map_new 32 f64_08, rc) = Inr (m, rc') \<and>
    (\<forall>key. map_get m key = Inr (case spec_ops ops Map.empty key of None \<Rightarrow> 0 | Some d \<Rightarrow> d))"
proof -
  from script_result [OF assms] obtain m rc' where "run_ops map_insert map_drop ops (map_new 32 f64_08, rc) = Inr (m, rc')"
    "map_ok 0 (m, rc')" "map_contents m = spec_ops ops Map.empty" by auto
  then show ?thesis using map_get_contents [of m] map_ok_wf [of 0 "(m, rc')"] by auto
qed

lemma map_runs_as_finite_map_witness:
  "\<exists>m rc'. run_ops map_insert map_drop [Put ''sys'' 8, Put ''dev'' 16, Put ''sys'' 24, Del ''dev'']
      (map_new 32 f64_08, [8 \<mapsto> 1, 16 \<mapsto> 0, 24 \<mapsto> 0]) = Inr (m, rc') \<and>
    (\<forall>key. map_get m key = Inr (case spec_ops [Put ''sys'' 8, Put ''dev'' 16, Put ''sys'' 24, Del ''dev''] Map.empty key of
       None \<Rightarrow> 0 | Some d \<Rightarrow> d))"
  by (rule map_runs_as_finite_map) (auto split: if_splits)

text \<open>Freeing a map never touches a freed object. After any such sequence, \<^verbatim>\<open>map_free\<close>
  succeeds; it drops, of every object, one reference for each key that holds it, and an
  object whose last reference that was is freed.\<close>

theorem map_free_safe:
  assumes "length ops \<le> 2 ^ 20" "\<forall>k d. Put k d \<in> set ops \<longrightarrow> d = 0 \<or> rc d \<noteq> None"
    and "\<forall>a c. rc a = Some c \<longrightarrow> unat c < 2 ^ 63"
  shows "\<exists>m rc' rc''. run_ops map_insert map_drop ops (map_new 32 f64_08, rc) = Inr (m, rc') \<and>
    map_free m rc' = Inr rc'' \<and>
    (\<forall>a. a \<noteq> 0 \<longrightarrow> rc'' a = dropped (holders (spec_ops ops Map.empty) a) (rc' a))"
proof -
  from script_result [OF assms] obtain m rc' where run: "run_ops map_insert map_drop ops (map_new 32 f64_08, rc) = Inr (m, rc')"
    "map_ok 0 (m, rc')" "map_contents m = spec_ops ops Map.empty" by auto
  then obtain k j where k: "k \<le> 2 ^ 20" "map_grown k j m" "owned (map_contents m) rc'" by (auto simp: map_ok_def)
  then have "unat (map_size m) < 2 ^ 31" "map_wf m" using grown_size [OF k(2,1)] by (simp_all add: map_grown_def)
  from free_result [OF this(2,1) k(3)] run show ?thesis by auto
qed

lemma map_free_safe_witness:
  "\<exists>m rc' rc''. run_ops map_insert map_drop [Put ''sys'' 8, Put ''dev'' 8] (map_new 32 f64_08, [8 \<mapsto> 0]) = Inr (m, rc') \<and>
    map_free m rc' = Inr rc'' \<and>
    (\<forall>a. a \<noteq> 0 \<longrightarrow> rc'' a = dropped (holders (spec_ops [Put ''sys'' 8, Put ''dev'' 8] Map.empty) a) (rc' a))"
  by (rule map_free_safe) (auto split: if_splits)

text \<open>Reallocation is invisible to lookups: the new table is well formed, and every key maps
  to what it did. The counter \<^verbatim>\<open>n\<close>, however, is not reset, so that it counts every item again.\<close>

theorem map_realloc_invisible:
  assumes "map_wf m" "sz \<noteq> 0"
  shows "\<exists>m'. map_realloc sz m = Inr m' \<and> map_wf m' \<and> map_size m' = sz \<and> map_get m' = map_get m \<and>
    map_n m' = map_n m + word_of_nat (length (concat (hash_table m)))"
proof -
  from map_realloc_result [OF assms] obtain m' where "map_realloc sz m = Inr m'" "map_wf m'" "map_size m' = sz"
    "map_contents m' = map_contents m" "map_n m' = map_n m + word_of_nat (length (concat (hash_table m)))" by blast
  moreover from this have "map_get m' = map_get m" by (simp add: fun_eq_iff map_get_contents assms(1))
  ultimately show ?thesis by blast
qed

lemma map_realloc_invisible_witness:
  "\<exists>m'. map_realloc 64 (map_new 32 f64_08) = Inr m' \<and> map_wf m' \<and> map_size m' = 64 \<and>
    map_get m' = map_get (map_new 32 f64_08) \<and>
    map_n m' = map_n (map_new 32 f64_08) + word_of_nat (length (concat (hash_table (map_new 32 f64_08))))"
  by (rule map_realloc_invisible) (simp_all add: map_new_wf)

text \<open>Overwriting a key leaks the object that was there: the old data loses a holder, but its
  count stays what it was.\<close>

theorem map_overwrite_leaks:
  assumes "map_wf m" "unat (map_size m) < 2 ^ 63" "map_contents m key = Some old" "d \<noteq> old" "d = 0 \<or> rc d \<noteq> None"
  shows "\<exists>m' rc'. map_insert key d (m, rc) = Inr (m', rc') \<and> map_get m' key = Inr d \<and>
    Suc (holders (map_contents m') old) = holders (map_contents m) old \<and> rc' old = rc old"
proof -
  obtain m1 m' where ins: "map_insert key d (m, rc) = Inr (m', if d = 0 then rc else rc(d := map_option (\<lambda>c. c + 1) (rc d)))"
    and wf: "map_wf m'" and con: "map_contents m' = (map_contents m)(key \<mapsto> d)"
    by (rule map_insert_cases [where rc = rc, OF assms(1,2,5), of key])
  have eq: "{k. map_contents m' k = Some old} = {k. map_contents m k = Some old} - {key}"
    using assms(4) by (auto simp: con split: if_splits)
  have "finite {k. map_contents m k = Some old}" by (rule finite_holders [OF finite_contents [OF assms(1)]])
  then have "Suc (holders (map_contents m') old) = holders (map_contents m) old"
    unfolding holders_def eq using assms(3) by (intro card_Suc_Diff1) auto
  moreover have "map_get m' key = Inr d" by (simp add: map_get_contents [OF wf] con)
  ultimately show ?thesis using ins assms(4) by (intro exI [of _ m'] exI conjI) (assumption, auto)
qed

definition one_item_map :: hash_map where
  "one_item_map = \<lparr>hash_table = [[\<lparr>item_key = ''sys'', item_data = 8\<rparr>]], map_n = 1, overlaps = 0,
     map_size = 1, realloc_at = 1, threshold = f64_08\<rparr>"

lemma map_overwrite_leaks_witness:
  "\<exists>m' rc'. map_insert ''sys'' 16 (one_item_map, [8 \<mapsto> 1, 16 \<mapsto> 0]) = Inr (m', rc') \<and>
    map_get m' ''sys'' = Inr 16 \<and>
    Suc (holders (map_contents m') 8) = holders (map_contents one_item_map) 8 \<and> rc' 8 = [8 \<mapsto> 1, 16 \<mapsto> 0] (8 :: u64)"
  by (rule map_overwrite_leaks)
    (simp_all add: map_wf_def one_item_map_def map_offset_def map_contents_def)

end
