(* ===== verification/Linked_Vector.thy ===== *)
theory Linked_Vector
  imports Ref_Objects
begin

text \<open>
  The doubly linked list of \<^verbatim>\<open>hacksaw/linked_vector.c\<close>, on which the queues and stacks rest:
  nodes on a heap of their own, addressed by 64-bit pointers. An address the heap does
  not map is not allocated (or freed), and reading it is an error. The allocator is a
  parameter; what the operations need of it is that it returns a free address.
\<close>

section \<open>Data\<close>

record linked_node =
  node_data :: u64
  node_prev :: u64
  node_next :: u64

type_synonym node_heap = "u64 \<rightharpoonup> linked_node"

record linked_vector =
  lv_head :: u64
  lv_tail :: u64
  lv_heap :: node_heap
  lv_refs :: ref_counts

type_synonym malloc = "node_heap \<Rightarrow> u64"

definition load_node :: "u64 \<Rightarrow> node_heap \<Rightarrow> linked_node result" where
  "load_node p h = (if p = 0 then Inl Null_Deref else case h p of None \<Rightarrow> Inl Use_After_Free | Some nd \<Rightarrow> Inr nd)"

section \<open>Operations\<close>

text \<open>\<^verbatim>\<open>tail\<close> is left uninitialised: \<open>garbage\<close> is what the allocated memory held.\<close>

definition linked_vector_new :: "u64 \<Rightarrow> ref_counts \<Rightarrow> linked_vector" where
  "linked_vector_new garbage rc = \<lparr>lv_head = 0, lv_tail = garbage, lv_heap = Map.empty, lv_refs = rc\<rparr>"

definition linked_node_new :: "malloc \<Rightarrow> u64 \<Rightarrow> linked_vector \<Rightarrow> (u64 \<times> linked_vector) result" where
  "linked_node_new alloc object self =
     (let out = alloc (lv_heap self) in
      if out = 0 then Inl Null_Deref
      else bindR (OBJECT_INCREF object (lv_refs self)) (\<lambda>rc.
        Inr (out, self\<lparr>lv_heap := (lv_heap self)(out \<mapsto> \<lparr>node_data = object, node_prev = 0, node_next = 0\<rparr>),
                       lv_refs := rc\<rparr>)))"

definition linked_node_free :: "u64 \<Rightarrow> linked_vector \<Rightarrow> linked_vector result" where
  "linked_node_free p self =
     bindR (load_node p (lv_heap self)) (\<lambda>nd.
     bindR (OBJECT_DECREF (node_data nd) (lv_refs self)) (\<lambda>rc.
       Inr (self\<lparr>lv_heap := (lv_heap self)(p := None), lv_refs := rc\<rparr>)))"

text \<open>The loop of \<^verbatim>\<open>linked_vector_free\<close>; \<open>None\<close> when it does not end.\<close>

partial_function (option) free_nodes :: "u64 \<Rightarrow> linked_vector \<Rightarrow> linked_vector result option" where
  "free_nodes current_ref self =
     (if current_ref = 0 then Some (Inr self)
      else case load_node current_ref (lv_heap self) of
             Inl e \<Rightarrow> Some (Inl e)
           | Inr nd \<Rightarrow> (case linked_node_free current_ref self of
                         Inl e \<Rightarrow> Some (Inl e)
                       | Inr self' \<Rightarrow> free_nodes (node_next nd) self'))"

definition linked_vector_free :: "linked_vector \<Rightarrow> linked_vector result option" where
  "linked_vector_free self = free_nodes (lv_head self) self"

text \<open>\<^verbatim>\<open>i != index\<close> compares in 32 bits, so a negative index walks to the end of the list.\<close>

fun walk_nodes :: "nat \<Rightarrow> u64 \<Rightarrow> node_heap \<Rightarrow> u64 result" where
  "walk_nodes 0 current_ref h = Inr current_ref"
| "walk_nodes (Suc i) current_ref h =
     (if current_ref = 0 then Inr current_ref
      else bindR (load_node current_ref h) (\<lambda>nd. walk_nodes i (node_next nd) h))"

definition linked_vector_get :: "linked_vector \<Rightarrow> int \<Rightarrow> u64 result" where
  "linked_vector_get self index = walk_nodes (unat (word_of_int index :: u32)) (lv_head self) (lv_heap self)"

text \<open>The tail is looked at only when there is a head: before the first append it is garbage.\<close>

definition linked_vector_append :: "malloc \<Rightarrow> u64 \<Rightarrow> linked_vector \<Rightarrow> (u64 \<times> linked_vector) result" where
  "linked_vector_append alloc data self =
     bindR (linked_node_new alloc data self) (\<lambda>(new_node, self).
       if lv_head self = 0 \<or> lv_tail self = 0 then Inr (new_node, self\<lparr>lv_head := new_node, lv_tail := new_node\<rparr>)
       else bindR (load_node (lv_tail self) (lv_heap self)) (\<lambda>last_nd.
         let h = (lv_heap self)(lv_tail self \<mapsto> last_nd\<lparr>node_next := new_node\<rparr>)
         in bindR (load_node new_node h) (\<lambda>nd.
              Inr (new_node, self\<lparr>lv_heap := h(new_node \<mapsto> nd\<lparr>node_prev := lv_tail self\<rparr>), lv_tail := new_node\<rparr>))))"

definition linked_vector_prepend :: "malloc \<Rightarrow> u64 \<Rightarrow> linked_vector \<Rightarrow> (u64 \<times> linked_vector) result" where
  "linked_vector_prepend alloc data self =
     bindR (linked_node_new alloc data self) (\<lambda>(new_node, self).
       if lv_head self = 0 \<or> lv_tail self = 0 then Inr (new_node, self\<lparr>lv_head := new_node, lv_tail := new_node\<rparr>)
       else bindR (load_node (lv_head self) (lv_heap self)) (\<lambda>head_nd.
         let h = (lv_heap self)(lv_head self \<mapsto> head_nd\<lparr>node_prev := new_node\<rparr>)
         in bindR (load_node new_node h) (\<lambda>nd.
              Inr (new_node, self\<lparr>lv_heap := h(new_node \<mapsto> nd\<lparr>node_next := lv_head self\<rparr>), lv_head := new_node\<rparr>))))"

text \<open>The walk all the loops over a queue share: apply a callback to each element, in order.\<close>

partial_function (option) foreach_node ::
    "node_heap \<Rightarrow> (u64 \<Rightarrow> 's \<Rightarrow> 's result) \<Rightarrow> u64 \<Rightarrow> 's \<Rightarrow> 's result option" where
  "foreach_node h f current s =
     (if current = 0 then Some (Inr s)
      else case load_node current h of
             Inl e \<Rightarrow> Some (Inl e)
           | Inr nd \<Rightarrow> (case f (node_data nd) s of
                         Inl e \<Rightarrow> Some (Inl e)
                       | Inr s' \<Rightarrow> foreach_node h f (node_next nd) s'))"

section \<open>Chains of nodes\<close>

primrec chained :: "node_heap \<Rightarrow> u64 \<Rightarrow> u64 list \<Rightarrow> bool" where
  "chained h p [] \<longleftrightarrow> p = 0"
| "chained h p (a # as) \<longleftrightarrow> p = a \<and> a \<noteq> 0 \<and> (\<exists>nd. h a = Some nd \<and> chained h (node_next nd) as)"

definition data_at :: "node_heap \<Rightarrow> u64 \<Rightarrow> u64" where
  "data_at h a = (case h a of None \<Rightarrow> 0 | Some nd \<Rightarrow> node_data nd)"

text \<open>
  What a list of nodes stands for. The tail matters only while there are nodes; the
  \<^verbatim>\<open>prev\<close> pointers are written but never read. The heap holds the nodes of the list and
  no others: nothing has leaked.
\<close>

definition lv_nodes :: "linked_vector \<Rightarrow> u64 list \<Rightarrow> u64 list \<Rightarrow> bool" where
  "lv_nodes v as xs \<longleftrightarrow> chained (lv_heap v) (lv_head v) as \<and> distinct as \<and> dom (lv_heap v) = set as \<and>
     (as \<noteq> [] \<longrightarrow> lv_tail v = last as) \<and> xs = map (data_at (lv_heap v)) as"

definition lv_repr :: "nat \<Rightarrow> linked_vector \<Rightarrow> u64 list \<Rightarrow> bool" where
  "lv_repr n v xs \<longleftrightarrow> (\<exists>as. lv_nodes v as xs) \<and> covered (lv_refs v) xs \<and> refs_room n (lv_refs v)"

definition malloc_ok :: "nat \<Rightarrow> malloc \<Rightarrow> bool" where
  "malloc_ok N alloc \<longleftrightarrow> (\<forall>h. finite (dom h) \<longrightarrow> card (dom h) < N \<longrightarrow> alloc h \<noteq> 0 \<and> h (alloc h) = None)"

lemma chained_nonzero: "chained h p as \<Longrightarrow> a \<in> set as \<Longrightarrow> a \<noteq> 0"
  by (induction as arbitrary: p) auto

lemma chained_head: "chained h p as \<Longrightarrow> p = 0 \<longleftrightarrow> as = []"
  by (cases as) auto

lemma chained_upd:
  assumes "a \<notin> set as"
  shows "chained (h(a := r)) p as \<longleftrightarrow> chained h p as"
  using assms by (induction as arbitrary: p) auto

lemma data_at_upd: "a \<notin> set as \<Longrightarrow> map (data_at (h(a := r))) as = map (data_at h) as"
  by (auto simp: data_at_def)

text \<open>Writing the link of the last node extends the chain.\<close>

lemma chained_snoc:
  assumes "chained h p as" "distinct as" "as \<noteq> []" "h (last as) = Some t" "a \<notin> set as" "a \<noteq> 0"
    "h' (last as) = Some (t\<lparr>node_next := a\<rparr>)" "h' a = Some nd" "node_next nd = 0"
    "\<And>b. b \<notin> {last as, a} \<Longrightarrow> h' b = h b"
  shows "chained h' p (as @ [a])"
  using assms(1-3,5) assms(4,6-)
proof (induction as arbitrary: p)
  case (Cons b as)
  show ?case
  proof (cases "as = []")
    case True
    with Cons.prems show ?thesis by auto
  next
    case False
    then have b: "b \<notin> {last as, a}" using Cons.prems by auto
    have "chained h' q (as @ [a])" if "chained h q as" for q
      by (rule Cons.IH) (use Cons.prems that False in auto)
    moreover have "h' b = h b" by (rule Cons.prems(10)) (use b False in simp)
    ultimately show ?thesis using Cons.prems by auto
  qed
qed simp

section \<open>Adding nodes\<close>

lemma nodes_card: "lv_nodes v as xs \<Longrightarrow> finite (dom (lv_heap v)) \<and> card (dom (lv_heap v)) = length xs"
  by (auto simp: lv_nodes_def distinct_card)

lemma node_new_result:
  assumes "lv_nodes v as xs" "malloc_ok N alloc" "length xs < N" "d = 0 \<or> lv_refs v d \<noteq> None"
  obtains a where "a \<noteq> 0" "lv_heap v a = None" "a \<notin> set as"
    "linked_node_new alloc d v = Inr (a, v\<lparr>lv_heap := (lv_heap v)(a \<mapsto> \<lparr>node_data = d, node_prev = 0, node_next = 0\<rparr>),
       lv_refs := increfd d (lv_refs v)\<rparr>)"
proof -
  let ?a = "alloc (lv_heap v)"
  have "?a \<noteq> 0 \<and> lv_heap v ?a = None"
    using assms(2,3) nodes_card [OF assms(1)] unfolding malloc_ok_def by metis
  moreover from this have "?a \<notin> set as" using assms(1) by (auto simp: lv_nodes_def)
  ultimately show ?thesis
    using that [of ?a] by (simp add: linked_node_new_def Let_def incref_alive [where rc = "lv_refs v", OF assms(4)])
qed

lemma append_result:
  assumes "lv_nodes v as xs" "malloc_ok N alloc" "length xs < N" "d = 0 \<or> lv_refs v d \<noteq> None"
  shows "\<exists>a v'. linked_vector_append alloc d v = Inr (a, v') \<and> lv_nodes v' (as @ [a]) (xs @ [d]) \<and>
    lv_refs v' = increfd d (lv_refs v)"
proof -
  obtain a where a: "a \<noteq> 0" "lv_heap v a = None" "a \<notin> set as" and new:
    "linked_node_new alloc d v = Inr (a, v\<lparr>lv_heap := (lv_heap v)(a \<mapsto> \<lparr>node_data = d, node_prev = 0, node_next = 0\<rparr>),
       lv_refs := increfd d (lv_refs v)\<rparr>)"
    by (rule node_new_result [OF assms])
  have v: "chained (lv_heap v) (lv_head v) as" "distinct as" "dom (lv_heap v) = set as"
    "as \<noteq> [] \<Longrightarrow> lv_tail v = last as" "xs = map (data_at (lv_heap v)) as"
    using assms(1) by (auto simp: lv_nodes_def)
  show ?thesis
  proof (cases "as = []")
    case True
    then have "lv_head v = 0" using v(1) by simp
    with True v(3,5) a show ?thesis by (auto simp: linked_vector_append_def new lv_nodes_def data_at_def)
  next
    case False
    let ?t = "last as"
    have t: "?t \<in> set as" "?t \<noteq> 0" "lv_tail v = ?t" "?t \<noteq> a"
      using False a(3) v(4) chained_nonzero [OF v(1)] by auto
    then obtain nd where nd: "lv_heap v ?t = Some nd" using v(3) by (metis domD)
    define h' where "h' = (lv_heap v)(a \<mapsto> \<lparr>node_data = d, node_prev = ?t, node_next = 0\<rparr>, ?t \<mapsto> nd\<lparr>node_next := a\<rparr>)"
    have app: "linked_vector_append alloc d v =
        Inr (a, v\<lparr>lv_heap := h', lv_refs := increfd d (lv_refs v), lv_tail := a\<rparr>)"
      using t a(1) nd False chained_head [OF v(1)]
      by (simp add: linked_vector_append_def new load_node_def Let_def h'_def fun_upd_twist)
    have "chained h' (lv_head v) (as @ [a])"
      by (rule chained_snoc [OF v(1,2) False nd a(3,1)]) (use t in \<open>auto simp: h'_def\<close>)
    moreover have "dom h' = set (as @ [a])" using v(3) t(1) by (auto simp: h'_def)
    moreover have "xs @ [d] = map (data_at h') (as @ [a])"
      unfolding v(5) using a(3) t nd by (auto simp: data_at_def h'_def)
    ultimately have "lv_nodes (v\<lparr>lv_heap := h', lv_refs := increfd d (lv_refs v), lv_tail := a\<rparr>) (as @ [a]) (xs @ [d])"
      using v(2) a(3) by (simp add: lv_nodes_def)
    with app show ?thesis by (intro exI conjI) (assumption, assumption, simp)
  qed
qed

lemma prepend_result:
  assumes "lv_nodes v as xs" "malloc_ok N alloc" "length xs < N" "d = 0 \<or> lv_refs v d \<noteq> None"
  shows "\<exists>a v'. linked_vector_prepend alloc d v = Inr (a, v') \<and> lv_nodes v' (a # as) (d # xs) \<and>
    lv_refs v' = increfd d (lv_refs v)"
proof -
  obtain a where a: "a \<noteq> 0" "lv_heap v a = None" "a \<notin> set as" and new:
    "linked_node_new alloc d v = Inr (a, v\<lparr>lv_heap := (lv_heap v)(a \<mapsto> \<lparr>node_data = d, node_prev = 0, node_next = 0\<rparr>),
       lv_refs := increfd d (lv_refs v)\<rparr>)"
    by (rule node_new_result [OF assms])
  have v: "chained (lv_heap v) (lv_head v) as" "distinct as" "dom (lv_heap v) = set as"
    "as \<noteq> [] \<Longrightarrow> lv_tail v = last as" "xs = map (data_at (lv_heap v)) as"
    using assms(1) by (auto simp: lv_nodes_def)
  show ?thesis
  proof (cases as)
    case Nil
    then have "lv_head v = 0" using v(1) by simp
    with Nil v(3,5) a show ?thesis by (auto simp: linked_vector_prepend_def new lv_nodes_def data_at_def)
  next
    case (Cons b bs)
    have b: "lv_head v = b" "b \<noteq> 0" "b \<noteq> a" "b \<notin> set bs" using v(1,2) a(3) Cons by auto
    obtain nd where nd: "lv_heap v b = Some nd" "chained (lv_heap v) (node_next nd) bs" using v(1) Cons by auto
    have tail: "lv_tail v = last as" "lv_tail v \<noteq> 0"
      using v(4) Cons chained_nonzero [OF v(1), of "last as"] by auto
    define h' where "h' = (lv_heap v)(b \<mapsto> nd\<lparr>node_prev := a\<rparr>, a \<mapsto> \<lparr>node_data = d, node_prev = 0, node_next = b\<rparr>)"
    have app: "linked_vector_prepend alloc d v =
        Inr (a, v\<lparr>lv_heap := h', lv_refs := increfd d (lv_refs v), lv_head := a\<rparr>)"
      using b a(1) nd(1) tail
      by (simp add: linked_vector_prepend_def new load_node_def Let_def h'_def fun_upd_twist)
    have "chained h' (node_next nd) bs"
      using nd(2) b(4) a(3) Cons by (simp add: h'_def chained_upd)
    then have "chained h' a (a # as)" using b a(1) Cons by (simp add: h'_def)
    moreover have "dom h' = set (a # as)" using v(3) Cons by (auto simp: h'_def)
    moreover have "d # xs = map (data_at h') (a # as)"
      unfolding v(5) using a(3) b nd(1) by (auto simp: data_at_def h'_def)
    ultimately have "lv_nodes (v\<lparr>lv_heap := h', lv_refs := increfd d (lv_refs v), lv_head := a\<rparr>) (a # as) (d # xs)"
      using v(2) a(3) tail(1) Cons by (simp add: lv_nodes_def)
    with app show ?thesis by (intro exI conjI) (assumption, assumption, simp)
  qed
qed

section \<open>Reading and freeing\<close>

lemma walk_chain:
  assumes "chained h p as"
  shows "walk_nodes i p h = Inr (if i < length as then as ! i else 0)"
  using assms
proof (induction i arbitrary: p as)
  case 0
  then show ?case by (cases as) auto
next
  case (Suc i)
  then show ?case by (cases as) (auto simp: load_node_def)
qed

lemma foreach_chain:
  assumes "chained h p as"
  shows "foreach_node h f p s = Some (fold (\<lambda>x r. bindR r (f x)) (map (data_at h) as) (Inr s))"
  using assms
proof (induction as arbitrary: p s)
  case Nil
  then show ?case by (simp add: foreach_node.simps)
next
  case (Cons a as)
  then obtain nd where nd: "p = a" "a \<noteq> 0" "h a = Some nd" "chained h (node_next nd) as" by auto
  have "data_at h a = node_data nd" by (simp add: data_at_def nd)
  then show ?case
    using nd Cons.IH [OF nd(4)]
    by (subst foreach_node.simps) (auto simp: load_node_def split: sum.split)
qed

lemma free_chain:
  assumes "lv_nodes v as xs" "covered (lv_refs v) xs"
  shows "\<exists>rc. linked_vector_free v = Some (Inr (v\<lparr>lv_heap := Map.empty, lv_refs := rc\<rparr>)) \<and>
    drop_refs xs (lv_refs v) = Inr rc"
proof -
  have "\<exists>rc. free_nodes p v = Some (Inr (v\<lparr>lv_heap := Map.empty, lv_refs := rc\<rparr>)) \<and> drop_refs xs (lv_refs v) = Inr rc"
    if "chained (lv_heap v) p as" "distinct as" "dom (lv_heap v) = set as" "xs = map (data_at (lv_heap v)) as"
       "drop_refs xs (lv_refs v) = Inr rc'" for v p as xs rc'
    using that
  proof (induction as arbitrary: v p xs)
    case Nil
    then show ?case by (simp add: free_nodes.simps)
  next
    case (Cons a as)
    from Cons.prems(1) obtain nd where nd: "p = a" "a \<noteq> 0" "lv_heap v a = Some nd" "chained (lv_heap v) (node_next nd) as"
      by auto
    have xs: "xs = node_data nd # map (data_at (lv_heap v)) as" using Cons.prems(4) nd(3) by (simp add: data_at_def)
    obtain rc1 where rc1: "OBJECT_DECREF (node_data nd) (lv_refs v) = Inr rc1"
      "drop_refs (map (data_at (lv_heap v)) as) rc1 = Inr rc'" using Cons.prems(5) xs by auto
    let ?v = "v\<lparr>lv_heap := (lv_heap v)(a := None), lv_refs := rc1\<rparr>"
    have a: "a \<notin> set as" using Cons.prems(2) by simp
    have "\<exists>rc. free_nodes (node_next nd) ?v = Some (Inr (?v\<lparr>lv_heap := Map.empty, lv_refs := rc\<rparr>)) \<and>
        drop_refs (map (data_at (lv_heap v)) as) (lv_refs ?v) = Inr rc"
    proof (rule Cons.IH)
      show "chained (lv_heap ?v) (node_next nd) as" using nd(4) a by (simp add: chained_upd del: fun_upd_apply)
      show "dom (lv_heap ?v) = set as" using Cons.prems(3) a by auto
      show "map (data_at (lv_heap v)) as = map (data_at (lv_heap ?v)) as"
        using a by (simp add: data_at_upd del: fun_upd_apply)
      show "distinct as" using Cons.prems(2) by simp
      show "drop_refs (map (data_at (lv_heap v)) as) (lv_refs ?v) = Inr rc'" using rc1(2) by simp
    qed
    then show ?case using nd rc1 xs
      by (subst free_nodes.simps) (simp add: load_node_def linked_node_free_def)
  qed
  moreover obtain rc' where "drop_refs xs (lv_refs v) = Inr rc'"
    using drop_refs_result [of xs "lv_refs v"] assms(2) by (auto simp: covered_def)
  ultimately show ?thesis using assms(1) unfolding linked_vector_free_def lv_nodes_def by blast
qed

end
