(* ===== verification/Container_Script.thy ===== *)
theory Container_Script
  imports Prelude
begin

text \<open>
  The contract of a container, as a locale: adding an element changes the list that the
  state stands for as \<open>place\<close> says (at the back for a queue, at the front for a stack), and
  taking removes its first element. From it follows once what a whole sequence of
  operations returns, for every container.
\<close>

datatype 'a container_op = Add 'a | Take

fun run_container ::
    "('a \<Rightarrow> 's \<Rightarrow> 's result) \<Rightarrow> ('s \<Rightarrow> ('a \<times> 's) result) \<Rightarrow> 'a container_op list \<Rightarrow> 's \<Rightarrow> ('a list \<times> 's) result" where
  "run_container add tak [] s = Inr ([], s)"
| "run_container add tak (Add x # ops) s = bindR (add x s) (run_container add tak ops)"
| "run_container add tak (Take # ops) s =
     bindR (tak s) (\<lambda>(x, s). bindR (run_container add tak ops s) (\<lambda>(ys, s). Inr (x # ys, s)))"

text \<open>The elements the sequence takes, and what is left; taking from nothing gives \<open>z\<close>.\<close>

fun spec_container :: "('a \<Rightarrow> 'a list \<Rightarrow> 'a list) \<Rightarrow> 'a \<Rightarrow> 'a container_op list \<Rightarrow> 'a list \<Rightarrow> 'a list \<times> 'a list" where
  "spec_container place z [] xs = ([], xs)"
| "spec_container place z (Add x # ops) xs = spec_container place z ops (place x xs)"
| "spec_container place z (Take # ops) [] = apfst ((#) z) (spec_container place z ops [])"
| "spec_container place z (Take # ops) (x # xs) = apfst ((#) x) (spec_container place z ops xs)"

text \<open>In every state of room \<open>n\<close>, another \<open>n\<close> operations succeed.\<close>

locale container =
  fixes repr :: "nat \<Rightarrow> 's \<Rightarrow> 'a list \<Rightarrow> bool"
    and usable :: "'s \<Rightarrow> 'a \<Rightarrow> bool"
    and add :: "'a \<Rightarrow> 's \<Rightarrow> 's result"
    and tak :: "'s \<Rightarrow> ('a \<times> 's) result"
    and place :: "'a \<Rightarrow> 'a list \<Rightarrow> 'a list"
    and z :: 'a
  assumes add_law: "repr (Suc n) s xs \<Longrightarrow> usable s x \<Longrightarrow>
      \<exists>s'. add x s = Inr s' \<and> repr n s' (place x xs) \<and> (\<forall>y. usable s y \<longrightarrow> usable s' y)"
    and take_law: "repr (Suc n) s (x # xs) \<Longrightarrow>
      \<exists>s'. tak s = Inr (x, s') \<and> repr n s' xs \<and> (\<forall>y. usable s y \<longrightarrow> usable s' y)"
    and take_empty_law: "repr (Suc n) s [] \<Longrightarrow> tak s = Inr (z, s) \<and> repr n s []"
begin

lemma script:
  assumes "repr (n + length ops) s xs" "\<forall>x. Add x \<in> set ops \<longrightarrow> usable s x"
  shows "\<exists>s'. run_container add tak ops s = Inr (fst (spec_container place z ops xs), s') \<and>
    repr n s' (snd (spec_container place z ops xs))"
  using assms
proof (induction ops arbitrary: s xs)
  case (Cons op ops)
  show ?case
  proof (cases op)
    case (Add x)
    obtain s1 where "add x s = Inr s1" "repr (n + length ops) s1 (place x xs)" "\<forall>y. usable s y \<longrightarrow> usable s1 y"
      using add_law [of "n + length ops" s xs x] Cons.prems Add by auto
    with Cons.IH [of s1 "place x xs"] Cons.prems(2) Add show ?thesis by auto
  next
    case Take
    show ?thesis
    proof (cases xs)
      case Nil
      have "tak s = Inr (z, s)" "repr (n + length ops) s []"
        using take_empty_law [of "n + length ops" s] Cons.prems(1) Nil by simp_all
      with Cons.IH [of s "[]"] Cons.prems(2) Nil Take show ?thesis by auto
    next
      case (Cons x ys)
      have "repr (Suc (n + length ops)) s (x # ys)" using Cons.prems(1) Cons by simp
      from take_law [OF this] obtain s1 where
        "tak s = Inr (x, s1)" "repr (n + length ops) s1 ys" "\<forall>y. usable s y \<longrightarrow> usable s1 y" by blast
      with Cons.IH [of s1 ys] Cons.prems(2) Cons Take show ?thesis by auto
    qed
  qed
qed simp

end

end
