(* ===== verification/Queues.thy ===== *)
theory Queues
  imports Linked_Vector Container_Script
begin

text \<open>
  The containers over the linked list: \<^verbatim>\<open>hacksaw/queue.c\<close>, \<^verbatim>\<open>hacksaw/stack.c\<close> and
  \<^verbatim>\<open>hacksaw/queue_set.c\<close>. Each is an instance of the container contract: a queue
  places elements at the back, a stack at the front, a queue set at the back unless an
  equal one is there.
\<close>

section \<open>Queue\<close>

definition queue_new :: "u64 \<Rightarrow> ref_counts \<Rightarrow> linked_vector" where
  "queue_new garbage rc = linked_vector_new garbage rc"

definition queue_add :: "malloc \<Rightarrow> u64 \<Rightarrow> linked_vector \<Rightarrow> linked_vector result" where
  "queue_add alloc data self = bindR (linked_vector_append alloc data self) (\<lambda>(new_node, self). Inr self)"

definition queue_pop :: "linked_vector \<Rightarrow> (u64 \<times> linked_vector) result" where
  "queue_pop self =
     (if lv_head self = 0 then Inr (0, self)
      else bindR (load_node (lv_head self) (lv_heap self)) (\<lambda>nd.
        let node = lv_head self;
            self = self\<lparr>lv_head := node_next nd\<rparr>;
            to_pop = node_data nd
        in bindR (OBJECT_INCREF to_pop (lv_refs self)) (\<lambda>rc.
           bindR (linked_node_free node (self\<lparr>lv_refs := rc\<rparr>)) (\<lambda>self. Inr (to_pop, self)))))"

definition queue_peek :: "linked_vector \<Rightarrow> u64 result" where
  "queue_peek self =
     (if lv_head self = 0 then Inr 0
      else bindR (load_node (lv_head self) (lv_heap self)) (\<lambda>nd. Inr (node_data nd)))"

definition queue_foreach :: "linked_vector \<Rightarrow> (u64 \<Rightarrow> 's \<Rightarrow> 's result) \<Rightarrow> 's \<Rightarrow> 's result option" where
  "queue_foreach self f s = foreach_node (lv_heap self) f (lv_head self) s"

section \<open>Stack\<close>

definition stack_new :: "u64 \<Rightarrow> ref_counts \<Rightarrow> linked_vector" where
  "stack_new garbage rc = linked_vector_new garbage rc"

definition stack_add :: "malloc \<Rightarrow> u64 \<Rightarrow> linked_vector \<Rightarrow> linked_vector result" where
  "stack_add alloc data self = bindR (linked_vector_prepend alloc data self) (\<lambda>(new_node, self). Inr self)"

definition stack_peek :: "linked_vector \<Rightarrow> u64 result" where
  "stack_peek self =
     (if lv_head self = 0 then Inr 0
      else bindR (load_node (lv_head self) (lv_heap self)) (\<lambda>nd. Inr (node_data nd)))"

text \<open>Unlike \<^verbatim>\<open>queue_pop\<close>, the reference is taken before the head moves.\<close>

definition stack_pop :: "linked_vector \<Rightarrow> (u64 \<times> linked_vector) result" where
  "stack_pop self =
     (if lv_head self = 0 then Inr (0, self)
      else bindR (load_node (lv_head self) (lv_heap self)) (\<lambda>nd.
        let node = lv_head self; out = node_data nd
        in bindR (OBJECT_INCREF out (lv_refs self)) (\<lambda>rc.
           bindR (linked_node_free node (self\<lparr>lv_refs := rc, lv_head := node_next nd\<rparr>)) (\<lambda>self. Inr (out, self)))))"

definition stack_foreach :: "linked_vector \<Rightarrow> (u64 \<Rightarrow> 's \<Rightarrow> 's result) \<Rightarrow> 's \<Rightarrow> 's result option" where
  "stack_foreach self f s = foreach_node (lv_heap self) f (lv_head self) s"

section \<open>Queue set\<close>

text \<open>The comparison answers whether two elements are equal; a null pointer selects identity.\<close>

record queue_set =
  parent :: linked_vector
  cmp :: "u64 \<Rightarrow> u64 \<Rightarrow> bool"

definition cmp_default :: "u64 \<Rightarrow> u64 \<Rightarrow> bool" where
  "cmp_default e1 e2 \<longleftrightarrow> e1 = e2"

definition queue_set_new :: "u64 \<Rightarrow> ref_counts \<Rightarrow> (u64 \<Rightarrow> u64 \<Rightarrow> bool) option \<Rightarrow> queue_set" where
  "queue_set_new garbage rc c =
     \<lparr>parent = queue_new garbage rc, cmp = (case c of None \<Rightarrow> cmp_default | Some c \<Rightarrow> c)\<rparr>"

partial_function (option) inside_node :: "node_heap \<Rightarrow> (u64 \<Rightarrow> u64 \<Rightarrow> bool) \<Rightarrow> u64 \<Rightarrow> u64 \<Rightarrow> bool result option" where
  "inside_node h c el current =
     (if current = 0 then Some (Inr False)
      else case load_node current h of
             Inl e \<Rightarrow> Some (Inl e)
           | Inr nd \<Rightarrow> if c (node_data nd) el then Some (Inr True) else inside_node h c el (node_next nd))"

text \<open>A call that does not return is an error of its own.\<close>

definition returns :: "'a result option \<Rightarrow> 'a result" where
  "returns r = (case r of None \<Rightarrow> Inl Diverges | Some x \<Rightarrow> x)"

definition queue_set_inside :: "queue_set \<Rightarrow> u64 \<Rightarrow> bool result" where
  "queue_set_inside q el = returns (inside_node (lv_heap (parent q)) (cmp q) el (lv_head (parent q)))"

definition queue_set_add :: "malloc \<Rightarrow> u64 \<Rightarrow> queue_set \<Rightarrow> (bool \<times> queue_set) result" where
  "queue_set_add alloc el q =
     bindR (queue_set_inside q el) (\<lambda>inside.
       if inside then Inr (False, q)
       else bindR (queue_add alloc el (parent q)) (\<lambda>p. Inr (True, q\<lparr>parent := p\<rparr>)))"

definition queue_set_peek :: "queue_set \<Rightarrow> u64 result" where
  "queue_set_peek q = queue_peek (parent q)"

definition queue_set_pop :: "queue_set \<Rightarrow> (u64 \<times> queue_set) result" where
  "queue_set_pop q = bindR (queue_pop (parent q)) (\<lambda>(x, p). Inr (x, q\<lparr>parent := p\<rparr>))"

definition queue_set_foreach :: "queue_set \<Rightarrow> (u64 \<Rightarrow> 's \<Rightarrow> 's result) \<Rightarrow> 's \<Rightarrow> 's result option" where
  "queue_set_foreach q f s = queue_foreach (parent q) f s"

definition queue_set_free :: "queue_set \<Rightarrow> linked_vector result option" where
  "queue_set_free q = linked_vector_free (parent q)"

section \<open>What the operations do to the list they stand for\<close>

text \<open>The allocator has addresses for \<open>N\<close> nodes, and there is room for \<open>n\<close> more of them.\<close>

definition lv_room :: "malloc \<Rightarrow> nat \<Rightarrow> nat \<Rightarrow> linked_vector \<Rightarrow> u64 list \<Rightarrow> bool" where
  "lv_room alloc N n v xs \<longleftrightarrow> malloc_ok N alloc \<and> lv_repr n v xs \<and> length xs + n \<le> N"

definition lv_alive :: "linked_vector \<Rightarrow> u64 \<Rightarrow> bool" where
  "lv_alive v d \<longleftrightarrow> d = 0 \<or> lv_refs v d \<noteq> None"

lemma lv_room_new: "malloc_ok N alloc \<Longrightarrow> refs_room n rc \<Longrightarrow> n \<le> N \<Longrightarrow> lv_room alloc N n (linked_vector_new garbage rc) []"
  by (auto simp: lv_room_def lv_repr_def lv_nodes_def linked_vector_new_def covered_def intro: exI [of _ "[]"])

lemma room_added:
  assumes "lv_room alloc N (Suc n) v xs" "lv_alive v d" "lv_nodes v' as ys" "lv_refs v' = increfd d (lv_refs v)"
    and "\<And>a. count_list ys a \<le> (if a = d then Suc (count_list xs a) else count_list xs a)" "length ys = Suc (length xs)"
  shows "lv_room alloc N n v' ys \<and> (\<forall>y. lv_alive v y \<longrightarrow> lv_alive v' y)"
proof -
  have "covered (lv_refs v) xs" "refs_room (Suc n) (lv_refs v)" "length xs + Suc n \<le> N" "malloc_ok N alloc"
    using assms(1) by (auto simp: lv_room_def lv_repr_def)
  moreover have "d = 0 \<or> lv_refs v d \<noteq> None" using assms(2) by (simp add: lv_alive_def)
  ultimately show ?thesis
    using assms(3-) covered_put [of "lv_refs v" xs n d ys] refs_room_increfd [of n "lv_refs v" d]
      increfd_alive [of "lv_refs v" _ d]
    by (auto simp: lv_room_def lv_repr_def lv_alive_def)
qed

lemma queue_add_law:
  assumes "lv_room alloc N (Suc n) v xs" "lv_alive v d"
  shows "\<exists>v'. queue_add alloc d v = Inr v' \<and> lv_room alloc N n v' (xs @ [d]) \<and> (\<forall>y. lv_alive v y \<longrightarrow> lv_alive v' y)"
proof -
  from assms(1) obtain as where "lv_nodes v as xs" "malloc_ok N alloc" "length xs < N" by (auto simp: lv_room_def lv_repr_def)
  from append_result [OF this, of d] assms(2) obtain a v' where
    "linked_vector_append alloc d v = Inr (a, v')" "lv_nodes v' (as @ [a]) (xs @ [d])" "lv_refs v' = increfd d (lv_refs v)"
    by (auto simp: lv_alive_def)
  with room_added [OF assms] show ?thesis by (auto simp: queue_add_def)
qed

lemma stack_add_law:
  assumes "lv_room alloc N (Suc n) v xs" "lv_alive v d"
  shows "\<exists>v'. stack_add alloc d v = Inr v' \<and> lv_room alloc N n v' (d # xs) \<and> (\<forall>y. lv_alive v y \<longrightarrow> lv_alive v' y)"
proof -
  from assms(1) obtain as where "lv_nodes v as xs" "malloc_ok N alloc" "length xs < N" by (auto simp: lv_room_def lv_repr_def)
  from prepend_result [OF this, of d] assms(2) obtain a v' where
    "linked_vector_prepend alloc d v = Inr (a, v')" "lv_nodes v' (a # as) (d # xs)" "lv_refs v' = increfd d (lv_refs v)"
    by (auto simp: lv_alive_def)
  with room_added [OF assms] show ?thesis by (auto simp: stack_add_def)
qed

text \<open>Both ways of popping do the same; the tail may be left pointing at the freed node.\<close>

lemma pops_agree: "stack_pop v = queue_pop v"
  by (cases v) (simp add: stack_pop_def queue_pop_def Let_def)

lemma pop_law:
  assumes "lv_room alloc N (Suc n) v (x # xs)"
  shows "\<exists>v'. queue_pop v = Inr (x, v') \<and> lv_room alloc N n v' xs \<and> (\<forall>y. lv_alive v y \<longrightarrow> lv_alive v' y)"
proof -
  from assms obtain as where nodes: "lv_nodes v as (x # xs)" and cov: "covered (lv_refs v) (x # xs)"
    and room: "refs_room (Suc n) (lv_refs v)" and al: "malloc_ok N alloc" and len: "Suc (length xs) + Suc n \<le> N"
    by (auto simp: lv_room_def lv_repr_def)
  then obtain a bs where as: "as = a # bs" by (cases as) (auto simp: lv_nodes_def)
  with nodes obtain nd where nd: "lv_head v = a" "a \<noteq> 0" "lv_heap v a = Some nd" "chained (lv_heap v) (node_next nd) bs"
    "a \<notin> set bs" "distinct bs" "dom (lv_heap v) = insert a (set bs)" "x = node_data nd"
    "xs = map (data_at (lv_heap v)) bs" "bs \<noteq> [] \<Longrightarrow> lv_tail v = last bs"
    by (auto simp: lv_nodes_def data_at_def split: if_splits)
  let ?v = "v\<lparr>lv_head := node_next nd, lv_heap := (lv_heap v)(a := None)\<rparr>"
  from hand_over [OF cov room] obtain rc where rc: "OBJECT_INCREF x (lv_refs v) = Inr rc" "OBJECT_DECREF x rc = Inr (lv_refs v)"
    by (auto simp: bindR_def split: sum.splits)
  have "queue_pop v = Inr (x, ?v)"
    using nd rc by (simp add: queue_pop_def load_node_def Let_def linked_node_free_def)
  moreover have "lv_nodes ?v bs xs"
    unfolding lv_nodes_def
  proof (intro conjI impI)
    show "chained (lv_heap ?v) (lv_head ?v) bs" using nd(4,5) by (simp add: chained_upd del: fun_upd_apply)
    show "xs = map (data_at (lv_heap ?v)) bs" using nd(5,9) by (simp add: data_at_upd del: fun_upd_apply)
    show "dom (lv_heap ?v) = set bs" using nd(5,7) by auto
  qed (use nd in auto)
  moreover have "covered (lv_refs v) xs" by (rule covered_subset [OF cov]) simp
  ultimately show ?thesis
    using refs_room_suc [OF room] len al by (auto simp: lv_room_def lv_repr_def lv_alive_def)
qed

lemma pop_empty_law:
  assumes "lv_room alloc N (Suc n) v []"
  shows "queue_pop v = Inr (0, v) \<and> lv_room alloc N n v []"
  using assms refs_room_suc by (auto simp: lv_room_def lv_repr_def lv_nodes_def queue_pop_def)

interpretation qc: container "lv_room alloc N" lv_alive "queue_add alloc" queue_pop "\<lambda>x xs. xs @ [x]" 0
  for alloc :: malloc and N :: nat
  by unfold_locales (erule (1) queue_add_law, erule pop_law, erule pop_empty_law)

interpretation sc: container "lv_room alloc N" lv_alive "stack_add alloc" stack_pop "(#)" 0
  for alloc :: malloc and N :: nat
  by unfold_locales (erule (1) stack_add_law, unfold pops_agree, erule pop_law, erule pop_empty_law)

section \<open>The queue set\<close>

lemma inside_chain:
  assumes "chained h p as"
  shows "inside_node h c el p = Some (Inr (\<exists>x \<in> set (map (data_at h) as). c x el))"
  using assms
proof (induction as arbitrary: p)
  case Nil
  then show ?case by (simp add: inside_node.simps)
next
  case (Cons a as)
  then obtain nd where nd: "p = a" "a \<noteq> 0" "h a = Some nd" "chained h (node_next nd) as" by auto
  have "data_at h a = node_data nd" by (simp add: data_at_def nd)
  then show ?case
    using nd Cons.IH [OF nd(4)] by (subst inside_node.simps) (auto simp: load_node_def)
qed

lemma queue_set_inside_result:
  assumes "lv_room alloc N n (parent q) xs"
  shows "queue_set_inside q el = Inr (\<exists>x \<in> set xs. cmp q x el)"
  using assms inside_chain by (fastforce simp: queue_set_inside_def returns_def lv_room_def lv_repr_def lv_nodes_def)

definition qs_room :: "(u64 \<Rightarrow> u64 \<Rightarrow> bool) \<Rightarrow> malloc \<Rightarrow> nat \<Rightarrow> nat \<Rightarrow> queue_set \<Rightarrow> u64 list \<Rightarrow> bool" where
  "qs_room c alloc N n q xs \<longleftrightarrow> cmp q = c \<and> lv_room alloc N n (parent q) xs"

definition set_place :: "(u64 \<Rightarrow> u64 \<Rightarrow> bool) \<Rightarrow> u64 \<Rightarrow> u64 list \<Rightarrow> u64 list" where
  "set_place c x xs = (if \<exists>y \<in> set xs. c y x then xs else xs @ [x])"

lemma lv_room_less: "lv_room alloc N (Suc n) v xs \<Longrightarrow> lv_room alloc N n v xs"
  using refs_room_suc by (auto simp: lv_room_def lv_repr_def)

lemma queue_set_add_law:
  assumes "qs_room c alloc N (Suc n) q xs" "lv_alive (parent q) x"
  shows "\<exists>q'. queue_set_add alloc x q = Inr (\<not> (\<exists>y \<in> set xs. c y x), q') \<and> qs_room c alloc N n q' (set_place c x xs) \<and>
    (\<forall>y. lv_alive (parent q) y \<longrightarrow> lv_alive (parent q') y)"
proof (cases "\<exists>y \<in> set xs. c y x")
  case True
  then show ?thesis
    using assms queue_set_inside_result [of alloc N "Suc n" q xs x] lv_room_less
    by (auto simp: queue_set_add_def qs_room_def set_place_def)
next
  case False
  from queue_add_law [of alloc N n "parent q" xs x] assms obtain p where
    "queue_add alloc x (parent q) = Inr p" "lv_room alloc N n p (xs @ [x])" "\<forall>y. lv_alive (parent q) y \<longrightarrow> lv_alive p y"
    by (auto simp: qs_room_def)
  with False show ?thesis
    using assms queue_set_inside_result [of alloc N "Suc n" q xs x]
    by (auto simp: queue_set_add_def qs_room_def set_place_def)
qed

text \<open>Adding without looking at the answer, as the container contract has it.\<close>

definition queue_set_put :: "malloc \<Rightarrow> u64 \<Rightarrow> queue_set \<Rightarrow> queue_set result" where
  "queue_set_put alloc x q = bindR (queue_set_add alloc x q) (\<lambda>(b, q). Inr q)"

lemma queue_set_put_law:
  assumes "qs_room c alloc N (Suc n) q xs" "lv_alive (parent q) x"
  shows "\<exists>q'. queue_set_put alloc x q = Inr q' \<and> qs_room c alloc N n q' (set_place c x xs) \<and>
    (\<forall>y. lv_alive (parent q) y \<longrightarrow> lv_alive (parent q') y)"
  using queue_set_add_law [OF assms] by (auto simp: queue_set_put_def)

lemma queue_set_pop_law:
  assumes "qs_room c alloc N (Suc n) q (x # xs)"
  shows "\<exists>q'. queue_set_pop q = Inr (x, q') \<and> qs_room c alloc N n q' xs \<and>
    (\<forall>y. lv_alive (parent q) y \<longrightarrow> lv_alive (parent q') y)"
  using pop_law [of alloc N n "parent q" x xs] assms by (auto simp: qs_room_def queue_set_pop_def)

lemma queue_set_pop_empty_law:
  assumes "qs_room c alloc N (Suc n) q []"
  shows "queue_set_pop q = Inr (0, q) \<and> qs_room c alloc N n q []"
  using pop_empty_law [of alloc N n "parent q"] assms by (auto simp: qs_room_def queue_set_pop_def)

interpretation qsc: container "qs_room c alloc N" "\<lambda>q. lv_alive (parent q)" "queue_set_put alloc" queue_set_pop "set_place c" 0
  for c :: "u64 \<Rightarrow> u64 \<Rightarrow> bool" and alloc :: malloc and N :: nat
  by unfold_locales (erule (1) queue_set_put_law, erule queue_set_pop_law, erule queue_set_pop_empty_law)

section \<open>An allocator\<close>

text \<open>The first free address among the first \<open>N\<close>: the hypothesis on the allocator can be met.\<close>

definition first_free :: "nat \<Rightarrow> malloc" where
  "first_free N h = (case find (\<lambda>a. h a = None) (map word_of_nat [1..<Suc N]) of None \<Rightarrow> 0 | Some a \<Rightarrow> a)"

lemma first_free_ok:
  assumes "N < 2 ^ 63"
  shows "malloc_ok N (first_free N)"
  unfolding malloc_ok_def
proof (intro allI impI)
  fix h :: node_heap assume fin: "finite (dom h)" and card: "card (dom h) < N"
  let ?as = "map word_of_nat [1..<Suc N] :: u64 list"
  have u: "unat (word_of_nat n :: u64) = n" if "n < Suc N" for n
    using that assms by (simp add: unat_of_nat)
  then have inj: "inj_on (word_of_nat :: nat \<Rightarrow> u64) {1..<Suc N}"
    by (intro inj_on_inverseI [where g = unat]) simp
  have "card (set ?as) = N" using card_image [OF inj] by (simp only: set_map set_upt card_atLeastLessThan)
  then have "\<not> set ?as \<subseteq> dom h" using card_mono [OF fin, of "set ?as"] card by auto
  then obtain a where a: "find (\<lambda>a. h a = None) ?as = Some a"
    by (cases "find (\<lambda>a. h a = None) ?as") (auto simp: find_None_iff)
  then have "h a = None" "a \<in> set ?as" using find_SomeD by fast+
  moreover have "0 \<notin> set ?as"
  proof
    assume "0 \<in> set ?as"
    then obtain n where "1 \<le> n" "n < Suc N" "word_of_nat n = (0 :: u64)" by auto
    with u [of n] show False by simp
  qed
  moreover have "first_free N h = a" unfolding first_free_def a by simp
  ultimately show "first_free N h \<noteq> 0 \<and> h (first_free N h) = None" by metis
qed

section \<open>Properties\<close>

lemma foreach_collect: "lv_room alloc N n v xs \<Longrightarrow> queue_foreach v (\<lambda>x ys. Inr (ys @ [x])) [] = Some (Inr xs)"
proof -
  assume "lv_room alloc N n v xs"
  then obtain as where "chained (lv_heap v) (lv_head v) as" "xs = map (data_at (lv_heap v)) as"
    by (auto simp: lv_room_def lv_repr_def lv_nodes_def)
  then show ?thesis by (simp add: queue_foreach_def foreach_chain)
qed

text \<open>C22: A queue is first in, first out. Over every sequence of additions and removals within the
  memory there is, each operation succeeds, the removals return what the sequence
  describes (the null pointer from an empty queue), and a walk over the queue visits what
  is left, from the oldest to the newest.\<close>

theorem queue_runs_fifo:
  assumes "malloc_ok N alloc" "length ops \<le> N" "refs_room (length ops) rc"
    and "\<forall>x. Add x \<in> set ops \<longrightarrow> x = 0 \<or> rc x \<noteq> None"
  shows "\<exists>q. run_container (queue_add alloc) queue_pop ops (queue_new garbage rc) =
      Inr (fst (spec_container (\<lambda>x xs. xs @ [x]) 0 ops []), q) \<and>
    queue_foreach q (\<lambda>x ys. Inr (ys @ [x])) [] = Some (Inr (snd (spec_container (\<lambda>x xs. xs @ [x]) 0 ops [])))"
  using qc.script [of alloc N 0 ops "queue_new garbage rc" "[]"] lv_room_new [OF assms(1,3,2)] foreach_collect assms(4)
  by (fastforce simp: queue_new_def lv_alive_def linked_vector_new_def)

lemma queue_runs_fifo_witness:
  "\<exists>q. run_container (queue_add (first_free 8)) queue_pop [Add 8, Add 16, Take, Add 8, Take] (queue_new 99 [8 \<mapsto> 1, 16 \<mapsto> 1]) =
      Inr (fst (spec_container (\<lambda>x xs. xs @ [x]) 0 [Add 8, Add 16, Take, Add 8, Take] []), q) \<and>
    queue_foreach q (\<lambda>x ys. Inr (ys @ [x])) [] =
      Some (Inr (snd (spec_container (\<lambda>x xs. xs @ [x]) 0 [Add 8, Add 16, Take, Add 8, Take] [])))"
  by (rule queue_runs_fifo [OF first_free_ok]) (auto simp: refs_room_def split: if_splits)

text \<open>A stack is last in, first out, in the same sense.\<close>

theorem stack_runs_lifo:
  assumes "malloc_ok N alloc" "length ops \<le> N" "refs_room (length ops) rc"
    and "\<forall>x. Add x \<in> set ops \<longrightarrow> x = 0 \<or> rc x \<noteq> None"
  shows "\<exists>q. run_container (stack_add alloc) stack_pop ops (stack_new garbage rc) =
      Inr (fst (spec_container (#) 0 ops []), q) \<and>
    stack_foreach q (\<lambda>x ys. Inr (ys @ [x])) [] = Some (Inr (snd (spec_container (#) 0 ops [])))"
  using sc.script [of alloc N 0 ops "stack_new garbage rc" "[]"] lv_room_new [OF assms(1,3,2)] foreach_collect assms(4)
  by (fastforce simp: stack_new_def stack_foreach_def queue_foreach_def lv_alive_def linked_vector_new_def)

lemma stack_runs_lifo_witness:
  "\<exists>q. run_container (stack_add (first_free 8)) stack_pop [Add 8, Add 16, Take, Add 8] (stack_new 99 [8 \<mapsto> 1, 16 \<mapsto> 1]) =
      Inr (fst (spec_container (#) 0 [Add 8, Add 16, Take, Add 8] []), q) \<and>
    stack_foreach q (\<lambda>x ys. Inr (ys @ [x])) [] = Some (Inr (snd (spec_container (#) 0 [Add 8, Add 16, Take, Add 8] [])))"
  by (rule stack_runs_lifo [OF first_free_ok]) (auto simp: refs_room_def split: if_splits)

lemma set_place_unique:
  assumes "sorted_wrt (\<lambda>x y. \<not> c x y) xs"
  shows "sorted_wrt (\<lambda>x y. \<not> c x y) (snd (spec_container (set_place c) z ops xs))"
  using assms
  by (induction "set_place c" z ops xs rule: spec_container.induct)
    (auto simp: set_place_def sorted_wrt_append)

text \<open>A queue set is a queue without duplicates: over every sequence of additions and removals
  each operation succeeds, an element equal to one that waits is not added again, the
  removals return the oldest, and no two elements left are equal.\<close>

theorem queue_set_runs_unique:
  assumes "malloc_ok N alloc" "length ops \<le> N" "refs_room (length ops) rc"
    and "\<forall>x. Add x \<in> set ops \<longrightarrow> x = 0 \<or> rc x \<noteq> None"
  shows "\<exists>q xs. run_container (queue_set_put alloc) queue_set_pop ops (queue_set_new garbage rc (Some c)) =
      Inr (fst (spec_container (set_place c) 0 ops []), q) \<and>
    queue_set_foreach q (\<lambda>x ys. Inr (ys @ [x])) [] = Some (Inr xs) \<and>
    xs = snd (spec_container (set_place c) 0 ops []) \<and> sorted_wrt (\<lambda>x y. \<not> c x y) xs \<and>
    (\<forall>el. queue_set_inside q el = Inr (\<exists>x \<in> set xs. c x el))"
proof -
  let ?q = "queue_set_new garbage rc (Some c)" and ?xs = "snd (spec_container (set_place c) 0 ops [])"
  have "qs_room c alloc N (0 + length ops) ?q []"
    using lv_room_new [OF assms(1,3,2), of garbage] by (simp add: qs_room_def queue_set_new_def queue_new_def)
  from qsc.script [OF this] assms(4) obtain q where
    q: "run_container (queue_set_put alloc) queue_set_pop ops ?q = Inr (fst (spec_container (set_place c) 0 ops []), q)"
      "qs_room c alloc N 0 q ?xs"
    by (auto simp: lv_alive_def queue_set_new_def queue_new_def linked_vector_new_def)
  then have "lv_room alloc N 0 (parent q) ?xs" "cmp q = c" by (simp_all add: qs_room_def)
  with q(1) show ?thesis
    using queue_set_inside_result foreach_collect set_place_unique [of c "[]" 0 ops]
    by (intro exI [of _ q] exI [of _ ?xs]) (auto simp: queue_set_foreach_def)
qed

lemma queue_set_runs_unique_witness:
  "\<exists>q xs. run_container (queue_set_put (first_free 8)) queue_set_pop [Add 8, Add 16, Add 8, Take]
        (queue_set_new 99 [8 \<mapsto> 1, 16 \<mapsto> 1] (Some cmp_default)) =
      Inr (fst (spec_container (set_place cmp_default) 0 [Add 8, Add 16, Add 8, Take] []), q) \<and>
    queue_set_foreach q (\<lambda>x ys. Inr (ys @ [x])) [] = Some (Inr xs) \<and>
    xs = snd (spec_container (set_place cmp_default) 0 [Add 8, Add 16, Add 8, Take] []) \<and>
    sorted_wrt (\<lambda>x y. \<not> cmp_default x y) xs \<and>
    (\<forall>el. queue_set_inside q el = Inr (\<exists>x \<in> set xs. cmp_default x el))"
  by (rule queue_set_runs_unique [OF first_free_ok]) (auto simp: refs_room_def split: if_splits)

text \<open>Freeing a list ends, frees every node and drops one reference of each object for every time
  it is in the list; an object that had no other reference is freed.\<close>

theorem linked_vector_free_result:
  assumes "lv_repr n v xs"
  shows "\<exists>v'. linked_vector_free v = Some (Inr v') \<and> lv_heap v' = Map.empty \<and>
    (\<forall>a. a \<noteq> 0 \<longrightarrow> lv_refs v' a = dropped (count_list xs a) (lv_refs v a))"
proof -
  from assms obtain as where nodes: "lv_nodes v as xs" and cov: "covered (lv_refs v) xs" by (auto simp: lv_repr_def)
  from free_chain [OF nodes cov] obtain rc where rc: "linked_vector_free v = Some (Inr (v\<lparr>lv_heap := Map.empty, lv_refs := rc\<rparr>))"
    "drop_refs xs (lv_refs v) = Inr rc" by blast
  with drop_refs_result [of xs "lv_refs v"] cov have "\<forall>a. a \<noteq> 0 \<longrightarrow> rc a = dropped (count_list xs a) (lv_refs v a)"
    by (auto simp: covered_def)
  with rc(1) show ?thesis by simp
qed

definition two_nodes :: linked_vector where
  "two_nodes = \<lparr>lv_head = 1, lv_tail = 2, lv_heap = [1 \<mapsto> \<lparr>node_data = 8, node_prev = 77, node_next = 2\<rparr>,
     2 \<mapsto> \<lparr>node_data = 16, node_prev = 1, node_next = 0\<rparr>], lv_refs = [8 \<mapsto> 1, 16 \<mapsto> 2]\<rparr>"

lemma linked_vector_free_result_witness:
  "\<exists>v'. linked_vector_free two_nodes = Some (Inr v') \<and> lv_heap v' = Map.empty \<and>
    (\<forall>a. a \<noteq> 0 \<longrightarrow> lv_refs v' a = dropped (count_list [8, 16] a) (lv_refs two_nodes a))"
  by (rule linked_vector_free_result [where n = 0])
    (auto simp: two_nodes_def lv_repr_def lv_nodes_def covered_def refs_room_def data_at_def
      intro!: exI [of _ "[1, 2]"] split: if_splits)

end
