(* ===== verification/Vectors.thy ===== *)
theory Vectors
  imports Ref_Objects
begin

text \<open>
  The growing array of \<^verbatim>\<open>hacksaw/vector.c\<close>: \<^verbatim>\<open>s\<close> cells, the first \<^verbatim>\<open>n\<close> of them filled. A cell
  that was never written is \<open>None\<close>, and reading its value is an error, as is an access
  beyond the allocated cells. What taking and dropping a reference of an element does
  depends on the element, whose methods are the parameters \<open>inc\<close> and \<open>dec\<close> over a state of
  their own.
\<close>

section \<open>Data\<close>

definition VECTOR_UNORDERED :: u32 where "VECTOR_UNORDERED = 0"
definition VECTOR_ORDERED :: u32 where "VECTOR_ORDERED = 1"
definition VECTOR_KEEP :: u32 where "VECTOR_KEEP = 2"
definition VECTOR_REMOVE :: u32 where "VECTOR_REMOVE = 0"

record vec =
  vec_ptr :: "u64 option list"
  vec_n :: nat
  vec_s :: nat
  vec_opts :: u32

section \<open>Cells\<close>

definition load_cell :: "nat \<Rightarrow> 'a option list \<Rightarrow> 'a result" where
  "load_cell i xs = (if i < length xs then (case xs ! i of None \<Rightarrow> Inl Uninitialised | Some x \<Rightarrow> Inr x) else Inl Out_Of_Bounds)"

definition store_cell :: "nat \<Rightarrow> 'a \<Rightarrow> 'a option list \<Rightarrow> 'a option list result" where
  "store_cell i x xs = (if i < length xs then Inr (xs[i := Some x]) else Inl Out_Of_Bounds)"

definition resize_cells :: "nat \<Rightarrow> 'a option list \<Rightarrow> 'a option list" where
  "resize_cells k xs = take k xs @ replicate (k - length xs) None"

definition memmove_cells :: "nat \<Rightarrow> nat \<Rightarrow> nat \<Rightarrow> 'a list \<Rightarrow> 'a list result" where
  "memmove_cells dst src cnt xs =
     (if dst + cnt \<le> length xs \<and> src + cnt \<le> length xs
      then Inr (take dst xs @ take cnt (drop src xs) @ drop (dst + cnt) xs) else Inl Out_Of_Bounds)"

text \<open>\<^verbatim>\<open>memcpy\<close> has undefined behaviour when the two ranges overlap.\<close>

definition memcpy_cells :: "nat \<Rightarrow> nat \<Rightarrow> nat \<Rightarrow> 'a list \<Rightarrow> 'a list result" where
  "memcpy_cells dst src cnt xs =
     (if cnt \<noteq> 0 \<and> dst < src + cnt \<and> src < dst + cnt then Inl Overlapping_Copy else memmove_cells dst src cnt xs)"

section \<open>Operations\<close>

definition vector_new :: "u32 \<Rightarrow> vec" where
  "vector_new opts = \<lparr>vec_ptr = replicate 32 None, vec_n = 0, vec_s = 32, vec_opts = opts\<rparr>"

definition vector_allocate :: "vec \<Rightarrow> vec" where
  "vector_allocate v = v\<lparr>vec_s := vec_s v * 2, vec_ptr := resize_cells (vec_s v * 2) (vec_ptr v)\<rparr>"

definition vector_allocate_to_size :: "u32 \<Rightarrow> vec \<Rightarrow> vec" where
  "vector_allocate_to_size s v =
     v\<lparr>vec_s := vec_s v + unat s, vec_ptr := resize_cells (vec_s v + unat s) (vec_ptr v)\<rparr>"

definition vector_get :: "nat \<Rightarrow> vec \<Rightarrow> u64 result" where
  "vector_get i v = load_cell i (vec_ptr v)"

definition vector_add :: "(u64 \<Rightarrow> 'r \<Rightarrow> 'r result) \<Rightarrow> u64 \<Rightarrow> vec \<times> 'r \<Rightarrow> (u32 \<times> vec \<times> 'r) result" where
  "vector_add inc el s =
     (case s of (v, r) \<Rightarrow>
        if \<not> vec_n v + 1 < 2 ^ 31 then Inl Signed_Overflow
        else let v = (if vec_s v = vec_n v + 1 then vector_allocate v else v)
             in bindR (inc el r) (\<lambda>r.
                bindR (store_cell (vec_n v) el (vec_ptr v)) (\<lambda>p.
                  Inr (word_of_nat (vec_n v), v\<lparr>vec_ptr := p, vec_n := vec_n v + 1\<rparr>, r))))"

definition prv_vector_keep_remove :: "nat \<Rightarrow> vec \<Rightarrow> (u64 \<times> vec) result" where
  "prv_vector_keep_remove index v =
     bindR (load_cell index (vec_ptr v)) (\<lambda>out.
     bindR (store_cell index 0 (vec_ptr v)) (\<lambda>p. Inr (out, v\<lparr>vec_ptr := p\<rparr>)))"

definition prv_vector_remove_unordered :: "nat \<Rightarrow> vec \<Rightarrow> (u64 \<times> vec) result" where
  "prv_vector_remove_unordered index v =
     (if vec_n v = 0 then Inl Out_Of_Bounds
      else bindR (load_cell (vec_n v - 1) (vec_ptr v)) (\<lambda>last_data.
           bindR (load_cell index (vec_ptr v)) (\<lambda>out_data.
           bindR (store_cell index last_data (vec_ptr v)) (\<lambda>p.
           bindR (store_cell (vec_n v - 1) 0 p) (\<lambda>p. Inr (out_data, v\<lparr>vec_ptr := p\<rparr>))))))"

text \<open>The count \<^verbatim>\<open>n - index\<close> is taken after \<^verbatim>\<open>n\<close> was lowered; a negative one is a huge length.\<close>

definition remove_ordered :: "nat \<Rightarrow> nat \<Rightarrow> 'a option list \<Rightarrow> ('a \<times> 'a option list) result" where
  "remove_ordered n index xs =
     bindR (load_cell index xs) (\<lambda>out_data.
       if n < index then Inl Out_Of_Bounds
       else bindR (memcpy_cells index (index + 1) (n - index) xs) (\<lambda>p. Inr (out_data, p)))"

definition prv_vector_remove_ordered :: "nat \<Rightarrow> vec \<Rightarrow> (u64 \<times> vec) result" where
  "prv_vector_remove_ordered index v =
     bindR (remove_ordered (vec_n v) index (vec_ptr v)) (\<lambda>(out, p). Inr (out, v\<lparr>vec_ptr := p\<rparr>))"

definition vector_remove :: "(u64 \<Rightarrow> 'r \<Rightarrow> 'r result) \<Rightarrow> u32 \<Rightarrow> vec \<times> 'r \<Rightarrow> (u64 \<times> vec \<times> 'r) result" where
  "vector_remove dec index s =
     (case s of (v, r) \<Rightarrow>
        if unat index \<ge> vec_n v then Inr (0, v, r)
        else bindR (if vec_opts v AND VECTOR_KEEP \<noteq> 0 then prv_vector_keep_remove (unat index) v
                    else let v = v\<lparr>vec_n := vec_n v - 1\<rparr>
                         in if vec_opts v AND VECTOR_UNORDERED \<noteq> 0 then prv_vector_remove_unordered (unat index) v
                            else prv_vector_remove_ordered (unat index) v)
               (\<lambda>(out, v). bindR (dec out r) (\<lambda>r. Inr (out, v, r))))"

text \<open>The length of the move, \<^verbatim>\<open>n - index\<close>, is an unsigned difference.\<close>

definition vector_insert :: "(u64 \<Rightarrow> 'r \<Rightarrow> 'r result) \<Rightarrow> u64 \<Rightarrow> u32 \<Rightarrow> vec \<times> 'r \<Rightarrow> (vec \<times> 'r) result" where
  "vector_insert inc el index s =
     (case s of (v, r) \<Rightarrow>
        if \<not> vec_n v + 1 < 2 ^ 31 then Inl Signed_Overflow
        else let v = (if vec_s v \<le> vec_n v + 1 then vector_allocate v else v)
             in bindR (memmove_cells (unat index + 1) (unat index) (unat (word_of_nat (vec_n v) - index)) (vec_ptr v)) (\<lambda>p.
                bindR (inc el r) (\<lambda>r.
                bindR (store_cell (unat index) el p) (\<lambda>p.
                  Inr (v\<lparr>vec_ptr := p, vec_n := vec_n v + 1\<rparr>, r)))))"

fun extend_from :: "(u64 \<Rightarrow> 'r \<Rightarrow> 'r result) \<Rightarrow> vec \<Rightarrow> nat list \<Rightarrow> vec \<times> 'r \<Rightarrow> (vec \<times> 'r) result" where
  "extend_from inc ex [] s = Inr s"
| "extend_from inc ex (i # is) s =
     bindR (vector_get i ex) (\<lambda>el. bindR (vector_add inc el s) (\<lambda>(k, s). extend_from inc ex is s))"

text \<open>Two different vectors; extending a vector by itself would chase its own end.\<close>

definition vector_extend :: "(u64 \<Rightarrow> 'r \<Rightarrow> 'r result) \<Rightarrow> vec \<Rightarrow> vec \<times> 'r \<Rightarrow> (vec \<times> 'r) result" where
  "vector_extend inc ex s = extend_from inc ex [0..<vec_n ex] s"

fun visit_cells :: "(u64 \<Rightarrow> 's \<Rightarrow> 's result) \<Rightarrow> vec \<Rightarrow> nat list \<Rightarrow> 's \<Rightarrow> 's result" where
  "visit_cells f v [] s = Inr s"
| "visit_cells f v (i # is) s = bindR (vector_get i v) (\<lambda>x. bindR (f x s) (visit_cells f v is))"

definition vector_foreach :: "(u64 \<Rightarrow> 's \<Rightarrow> 's result) \<Rightarrow> vec \<Rightarrow> 's \<Rightarrow> 's result" where
  "vector_foreach f v s = visit_cells f v [0..<vec_n v] s"

definition vector_free :: "(u64 \<Rightarrow> 'r \<Rightarrow> 'r result) \<Rightarrow> vec \<Rightarrow> 'r \<Rightarrow> 'r result" where
  "vector_free dec v r = visit_cells dec v [0..<vec_n v] r"

text \<open>
  \<^verbatim>\<open>vector_new\<close> does not set the method \<^verbatim>\<open>free\<close>, so calling it on a vector jumps to whatever
  the memory held; \<^verbatim>\<open>vector_free\<close> above can only be called by name.
\<close>

definition vector_object_free :: "vec \<Rightarrow> 'r \<Rightarrow> 'r result" where
  "vector_object_free v r = Inl Uninitialised"

section \<open>The list a vector stands for\<close>

definition vec_wf :: "vec \<Rightarrow> bool" where
  "vec_wf v \<longleftrightarrow> vec_s v = length (vec_ptr v) \<and> vec_n v < vec_s v \<and> (\<forall>i < vec_n v. vec_ptr v ! i \<noteq> None)"

definition vec_list :: "vec \<Rightarrow> u64 list" where
  "vec_list v = map the (take (vec_n v) (vec_ptr v))"

lemma length_vec_list: "vec_wf v \<Longrightarrow> length (vec_list v) = vec_n v"
  by (simp add: vec_wf_def vec_list_def)

lemma vec_list_nth: "vec_wf v \<Longrightarrow> i < vec_n v \<Longrightarrow> vec_list v ! i = the (vec_ptr v ! i)"
  by (simp add: vec_wf_def vec_list_def)

lemma load_vec: "vec_wf v \<Longrightarrow> i < vec_n v \<Longrightarrow> load_cell i (vec_ptr v) = Inr (vec_list v ! i)"
  by (auto simp: load_cell_def vec_list_nth vec_wf_def split: option.split)

lemma vector_new_wf: "vec_wf (vector_new opts)" "vec_list (vector_new opts) = []"
  by (simp_all add: vec_wf_def vec_list_def vector_new_def)

text \<open>How a vector is built from the cells of a list.\<close>

lemma vec_of_cells:
  assumes "vec_ptr v = map Some xs @ rest" "vec_n v = length xs" "vec_s v = length (vec_ptr v)" "rest \<noteq> []"
  shows "vec_wf v" "vec_list v = xs"
  using assms by (auto simp: vec_wf_def vec_list_def nth_append comp_def)

lemma cells_of_vec:
  assumes "vec_wf v"
  shows "vec_ptr v = map Some (vec_list v) @ drop (vec_n v) (vec_ptr v)"
proof -
  have "map Some (map the (take (vec_n v) (vec_ptr v))) = take (vec_n v) (vec_ptr v)"
    using assms by (intro nth_equalityI) (auto simp: vec_wf_def)
  then show ?thesis by (simp add: vec_list_def)
qed

lemma vector_allocate_cells:
  assumes "vec_wf v"
  shows "vec_ptr (vector_allocate v) = vec_ptr v @ replicate (vec_s v) None" "vec_wf (vector_allocate v)"
    "vec_list (vector_allocate v) = vec_list v" "vec_n (vector_allocate v) = vec_n v"
    "vec_opts (vector_allocate v) = vec_opts v" "vec_s (vector_allocate v) = 2 * vec_s v"
proof -
  show p: "vec_ptr (vector_allocate v) = vec_ptr v @ replicate (vec_s v) None"
    using assms by (simp add: vector_allocate_def resize_cells_def vec_wf_def)
  have n: "vec_n (vector_allocate v) = vec_n v" "vec_s (vector_allocate v) = 2 * vec_s v"
    by (simp_all add: vector_allocate_def)
  show "vec_wf (vector_allocate v)" "vec_list (vector_allocate v) = vec_list v"
    using assms by (simp_all add: vec_wf_def vec_list_def p n nth_append)
qed (simp_all add: vector_allocate_def)

text \<open>After the growth check of \<^verbatim>\<open>vector_add\<close> and \<^verbatim>\<open>vector_insert\<close> there are two free cells.\<close>

lemma grown:
  assumes "vec_wf v" "v' = (if vec_s v \<le> vec_n v + 1 then vector_allocate v else v)"
  shows "vec_wf v'" "vec_list v' = vec_list v" "vec_n v' = vec_n v" "vec_opts v' = vec_opts v" "vec_n v + 1 < vec_s v'"
  using assms vector_allocate_cells [OF assms(1)] by (auto simp: vec_wf_def)

section \<open>What the operations do to the list\<close>

lemma vector_add_result:
  assumes "vec_wf v" "vec_n v + 1 < 2 ^ 31" "inc el r = Inr r'"
  shows "\<exists>v'. vector_add inc el (v, r) = Inr (word_of_nat (vec_n v), v', r') \<and> vec_wf v' \<and>
    vec_list v' = vec_list v @ [el] \<and> vec_opts v' = vec_opts v"
proof -
  define w where "w = (if vec_s v = vec_n v + 1 then vector_allocate v else v)"
  have "w = (if vec_s v \<le> vec_n v + 1 then vector_allocate v else v)"
    using assms(1) by (auto simp: w_def vec_wf_def)
  note w = grown [OF assms(1) this]
  have n: "vec_n w < length (vec_ptr w)" using w(1) by (simp add: vec_wf_def)
  let ?v = "w\<lparr>vec_ptr := (vec_ptr w)[vec_n w := Some el], vec_n := vec_n w + 1\<rparr>"
  have "vector_add inc el (v, r) = Inr (word_of_nat (vec_n v), ?v, r')"
    using assms(2,3) n unfolding vector_add_def prod.case w_def [symmetric] Let_def by (simp add: store_cell_def w(3))
  moreover have "vec_wf ?v" using w(1,3,5) n by (auto simp: vec_wf_def nth_list_update)
  moreover have "vec_list ?v = vec_list v @ [el]"
    unfolding w(2) [symmetric] using n by (simp add: vec_list_def take_Suc_conv_app_nth)
  ultimately show ?thesis using w(4) by (intro exI [of _ ?v]) simp
qed

lemma memmove_list:
  assumes "i \<le> length xs" "rest \<noteq> []"
  shows "memmove_cells (i + 1) i (length xs - i) (map Some xs @ rest) =
    Inr (map Some (take i xs) @ (map Some xs @ rest) ! i # map Some (drop i xs) @ tl rest)"
proof -
  obtain r rs where rest: "rest = r # rs" using assms(2) by (cases rest) auto
  have "take (Suc i) (map Some xs @ rest) = take i (map Some xs @ rest) @ [(map Some xs @ rest) ! i]"
    using assms by (intro take_Suc_conv_app_nth) (simp add: rest)
  then have "take (i + 1) (map Some xs @ rest) = map Some (take i xs) @ [(map Some xs @ rest) ! i]"
    using assms(1) by (simp add: take_map)
  moreover have "take (length xs - i) (drop i (map Some xs @ rest)) = map Some (drop i xs)"
    using assms(1) by (simp add: drop_map)
  moreover have "drop (i + 1 + (length xs - i)) (map Some xs @ rest) = tl rest"
    using assms(1) by (simp add: rest)
  ultimately show ?thesis
    using assms by (simp add: memmove_cells_def rest)
qed

lemma vector_insert_result:
  assumes "vec_wf v" "vec_n v + 1 < 2 ^ 31" "unat index \<le> vec_n v" "inc el r = Inr r'"
  shows "\<exists>v'. vector_insert inc el index (v, r) = Inr (v', r') \<and> vec_wf v' \<and>
    vec_list v' = take (unat index) (vec_list v) @ el # drop (unat index) (vec_list v) \<and> vec_opts v' = vec_opts v"
proof -
  define w where "w = (if vec_s v \<le> vec_n v + 1 then vector_allocate v else v)"
  note w = grown [OF assms(1) w_def]
  let ?i = "unat index" and ?xs = "vec_list v" and ?rest = "drop (vec_n v) (vec_ptr w)"
  have len: "length ?xs = vec_n v" using assms(1) by (rule length_vec_list)
  have rest: "?rest \<noteq> []" "tl ?rest \<noteq> []" using w(1,5) by (auto simp: vec_wf_def tl_drop)
  have ptr: "vec_ptr w = map Some ?xs @ ?rest" using cells_of_vec [OF w(1)] w(2,3) by simp
  have "unat (word_of_nat (vec_n v) - index :: u32) = vec_n v - ?i"
    using assms(2,3) by (simp add: unat_sub_if' unat_of_nat)
  moreover have "memmove_cells (?i + 1) ?i (vec_n v - ?i) (vec_ptr w) =
      Inr (map Some (take ?i ?xs) @ (map Some ?xs @ ?rest) ! ?i # map Some (drop ?i ?xs) @ tl ?rest)"
    using memmove_list [of ?i ?xs ?rest] assms(3) rest(1) len unfolding ptr [symmetric] by simp
  moreover have "store_cell ?i el (map Some (take ?i ?xs) @ (map Some ?xs @ ?rest) ! ?i # map Some (drop ?i ?xs) @ tl ?rest) =
      Inr (map Some (take ?i ?xs @ el # drop ?i ?xs) @ tl ?rest)"
    using assms(3) len by (simp add: store_cell_def list_update_append)
  ultimately have ins: "vector_insert inc el index (v, r) =
      Inr (w\<lparr>vec_ptr := map Some (take ?i ?xs @ el # drop ?i ?xs) @ tl ?rest, vec_n := vec_n w + 1\<rparr>, r')"
    using assms(2,4) unfolding vector_insert_def prod.case w_def [symmetric] Let_def by (simp add: w(3))
  define ys where "ys = take ?i ?xs @ el # drop ?i ?xs"
  let ?v = "w\<lparr>vec_ptr := map Some ys @ tl ?rest, vec_n := vec_n w + 1\<rparr>"
  have "length ys = vec_n w + 1" using w(3) assms(3) len by (simp add: ys_def)
  moreover have "length (tl ?rest) + vec_n w + 1 = vec_s w" using w(1,3,5) by (simp add: vec_wf_def)
  ultimately have "vec_wf ?v" "vec_list ?v = ys"
    using vec_of_cells [of ?v ys "tl ?rest"] rest(2) by simp_all
  with ins w(4) show ?thesis unfolding ys_def by (intro exI conjI) (assumption, assumption, assumption, simp)
qed

text \<open>Removal is defined for the last two positions only: before them the copied ranges overlap.\<close>

lemma vector_remove_result:
  assumes "vec_wf v" "vec_opts v AND VECTOR_KEEP = 0" "unat index < vec_n v" "dec (vec_list v ! unat index) r = Inr r'"
  shows "vector_remove dec index (v, r) =
      (if unat index + 2 < vec_n v then Inl Overlapping_Copy
       else Inr (vec_list v ! unat index,
         v\<lparr>vec_n := vec_n v - 1, vec_ptr := (if unat index + 2 = vec_n v then (vec_ptr v)[unat index := vec_ptr v ! (unat index + 1)]
            else vec_ptr v)\<rparr>, r'))"
proof -
  let ?i = "unat index"
  have load: "load_cell ?i (vec_ptr v) = Inr (vec_list v ! ?i)" using assms(1,3) by (rule load_vec)
  have len: "vec_n v < length (vec_ptr v)" using assms(1) by (simp add: vec_wf_def)
  consider "?i + 2 < vec_n v" | "?i + 2 = vec_n v" | "?i + 1 = vec_n v" using assms(3) by linarith
  then show ?thesis
  proof cases
    case 1
    then have "?i + 1 < vec_n v - 1" "\<not> vec_n v - 1 < ?i" "vec_n v - 1 - ?i \<noteq> 0" "?i < ?i + 1 + (vec_n v - 1 - ?i)"
      "?i + 1 < ?i + (vec_n v - 1 - ?i)" by linarith+
    with 1 show ?thesis
      using assms(2,3) load
      by (simp add: vector_remove_def VECTOR_UNORDERED_def Let_def prv_vector_remove_ordered_def remove_ordered_def memcpy_cells_def)
  next
    case 2
    have "memmove_cells ?i (?i + 1) 1 (vec_ptr v) = Inr ((vec_ptr v)[?i := vec_ptr v ! (?i + 1)])"
      using 2 len by (simp add: memmove_cells_def take_Suc_conv_app_nth upd_conv_take_nth_drop hd_drop_conv_nth take_Suc)
    moreover have "vec_n v - 1 = Suc ?i" "vec_n v - Suc 0 = Suc ?i" using 2 by simp_all
    ultimately show ?thesis
      using 2 assms(2-4) load
      by (simp add: vector_remove_def VECTOR_UNORDERED_def Let_def prv_vector_remove_ordered_def remove_ordered_def memcpy_cells_def)
  next
    case 3
    then have "memmove_cells ?i (?i + 1) 0 (vec_ptr v) = Inr (vec_ptr v)"
      using len by (simp add: memmove_cells_def)
    then show ?thesis
      using 3 assms(2-4) load
      by (simp add: vector_remove_def VECTOR_UNORDERED_def Let_def prv_vector_remove_ordered_def remove_ordered_def memcpy_cells_def)
  qed
qed

lemma vector_remove_list:
  assumes "vec_wf v" "vec_opts v AND VECTOR_KEEP = 0" "unat index < vec_n v" "vec_n v \<le> unat index + 2"
    "dec (vec_list v ! unat index) r = Inr r'"
  shows "\<exists>v'. vector_remove dec index (v, r) = Inr (vec_list v ! unat index, v', r') \<and> vec_wf v' \<and>
    vec_list v' = take (unat index) (vec_list v) @ drop (Suc (unat index)) (vec_list v) \<and> vec_opts v' = vec_opts v"
proof -
  let ?i = "unat index" and ?xs = "vec_list v"
  let ?p = "if ?i + 2 = vec_n v then (vec_ptr v)[?i := vec_ptr v ! (?i + 1)] else vec_ptr v"
  let ?v = "v\<lparr>vec_n := vec_n v - 1, vec_ptr := ?p\<rparr>"
  have "vector_remove dec index (v, r) = Inr (?xs ! ?i, ?v, r')"
    using vector_remove_result [where dec = dec and r = r, OF assms(1-3,5)] assms(4) by simp
  moreover have len: "vec_n v < length (vec_ptr v)" "vec_s v = length (vec_ptr v)" "\<forall>i < vec_n v. vec_ptr v ! i \<noteq> None"
    using assms(1) by (simp_all add: vec_wf_def)
  then have "vec_wf ?v" using assms(3,4) by (auto simp: vec_wf_def nth_list_update)
  moreover have "vec_list ?v = take ?i ?xs @ drop (Suc ?i) ?xs"
  proof (rule nth_equalityI)
    show "length (vec_list ?v) = length (take ?i ?xs @ drop (Suc ?i) ?xs)"
      using length_vec_list [OF \<open>vec_wf ?v\<close>] length_vec_list [OF assms(1)] assms(3) by simp
  next
    fix k assume "k < length (vec_list ?v)"
    then have k: "k < vec_n v - 1" using length_vec_list [OF \<open>vec_wf ?v\<close>] by simp
    then have "vec_list ?v ! k = the (?p ! k)" using vec_list_nth [OF \<open>vec_wf ?v\<close>, of k] by simp
    moreover have "k < ?i \<or> k = ?i \<and> ?i + 2 = vec_n v" using k assms(4) by linarith
    ultimately show "vec_list ?v ! k = (take ?i ?xs @ drop (Suc ?i) ?xs) ! k"
      using len k assms(3) length_vec_list [OF assms(1)] vec_list_nth [OF assms(1), of k] vec_list_nth [OF assms(1), of "Suc k"]
      by (auto simp: nth_append)
  qed
  ultimately show ?thesis by (intro exI [of _ ?v]) simp
qed

lemma extend_result:
  assumes "vec_wf ex" "set is \<subseteq> {..<vec_n ex}" "vec_wf v" "vec_n v + length is < 2 ^ 31"
    and "refs_room (length is) rc" "covered rc (map ((!) (vec_list ex)) is)"
  shows "\<exists>v'. extend_from OBJECT_INCREF ex is (v, rc) = Inr (v', fold increfd (map ((!) (vec_list ex)) is) rc) \<and> vec_wf v' \<and>
    vec_list v' = vec_list v @ map ((!) (vec_list ex)) is \<and> vec_opts v' = vec_opts v"
  using assms(2-)
proof (induction "is" arbitrary: v rc)
  case (Cons i "is")
  let ?x = "vec_list ex ! i"
  have get: "vector_get i ex = Inr ?x" using Cons.prems(1) load_vec [OF assms(1)] by (simp add: vector_get_def)
  have alive: "?x = 0 \<or> rc ?x \<noteq> None" using Cons.prems(5) by (auto simp: covered_def)
  have "vec_n v + 1 < 2 ^ 31" using Cons.prems(3) by simp
  from vector_add_result [where inc = OBJECT_INCREF and r = rc, OF Cons.prems(2) this incref_alive [where rc = rc, OF alive]] obtain v1 where
    v1: "vector_add OBJECT_INCREF ?x (v, rc) = Inr (word_of_nat (vec_n v), v1, increfd ?x rc)" "vec_wf v1"
      "vec_list v1 = vec_list v @ [?x]" "vec_opts v1 = vec_opts v" by blast
  have n1: "vec_n v1 = vec_n v + 1" using length_vec_list [OF v1(2)] length_vec_list [OF Cons.prems(2)] v1(3) by simp
  have cov: "covered (increfd ?x rc) (map ((!) (vec_list ex)) is)"
  proof (rule covered_put [where xs = "map ((!) (vec_list ex)) (i # is)" and n = "length is"])
    show "covered rc (map ((!) (vec_list ex)) (i # is))" by (rule Cons.prems(5))
    show "refs_room (Suc (length is)) rc" using Cons.prems(4) by simp
  qed (use alive in auto)
  have room: "refs_room (length is) (increfd ?x rc)" by (rule refs_room_increfd) (use Cons.prems(4) in simp)
  from Cons.IH [OF _ v1(2) _ room cov] obtain v' where
    "extend_from OBJECT_INCREF ex is (v1, increfd ?x rc) = Inr (v', fold increfd (map ((!) (vec_list ex)) is) (increfd ?x rc))"
    "vec_wf v'" "vec_list v' = vec_list v1 @ map ((!) (vec_list ex)) is" "vec_opts v' = vec_opts v1"
    using Cons.prems(1,3) n1 by auto
  then show ?case using get v1 by (intro exI [of _ v']) simp
qed simp

lemma visit_result:
  assumes "vec_wf v" "set is \<subseteq> {..<vec_n v}"
  shows "visit_cells f v is s = fold (\<lambda>x r. bindR r (f x)) (map ((!) (vec_list v)) is) (Inr s)"
  using assms(2)
proof (induction "is" arbitrary: s)
  case (Cons i "is")
  have "vector_get i v = Inr (vec_list v ! i)" using Cons.prems load_vec [OF assms(1)] by (simp add: vector_get_def)
  then show ?case using Cons by (cases "f (vec_list v ! i) s") auto
qed simp

lemma foreach_result:
  "vec_wf v \<Longrightarrow> vector_foreach f v s = fold (\<lambda>x r. bindR r (f x)) (vec_list v) (Inr s)"
  using visit_result [of v "[0..<vec_n v]" f s] map_nth [of "vec_list v"]
  by (simp add: vector_foreach_def length_vec_list lessThan_atLeast0)

section \<open>Properties\<close>

text \<open>C37: A vector is a list: inserting at an index up to the length, extending by another vector and
  walking over it do to the list what their names say, through every reallocation, and each
  element added gains one reference.\<close>

theorem vector_is_list:
  assumes "vec_wf v" "vec_wf ex" "vec_n v + vec_n ex + 1 < 2 ^ 31" "unat index \<le> vec_n v + vec_n ex"
    and "refs_room (Suc (vec_n ex)) rc" "covered rc (vec_list ex)" "el = 0 \<or> rc el \<noteq> None"
  shows "\<exists>v1 v2 rc2. vector_extend OBJECT_INCREF ex (v, rc) = Inr (v1, fold increfd (vec_list ex) rc) \<and>
    vector_insert OBJECT_INCREF el index (v1, fold increfd (vec_list ex) rc) = Inr (v2, rc2) \<and>
    vector_foreach (\<lambda>x ys. Inr (ys @ [x])) v2 [] =
      Inr (take (unat index) (vec_list v @ vec_list ex) @ el # drop (unat index) (vec_list v @ vec_list ex)) \<and>
    rc2 = increfd el (fold increfd (vec_list ex) rc)"
proof -
  have all: "map ((!) (vec_list ex)) [0..<vec_n ex] = vec_list ex"
    using map_nth [of "vec_list ex"] length_vec_list [OF assms(2)] by simp
  obtain v1 where v1: "vector_extend OBJECT_INCREF ex (v, rc) = Inr (v1, fold increfd (vec_list ex) rc)" "vec_wf v1"
    "vec_list v1 = vec_list v @ vec_list ex"
    using extend_result [OF assms(2) _ assms(1), of "[0..<vec_n ex]" rc] assms(3,6) refs_room_suc [OF assms(5)]
    unfolding all by (fastforce simp: vector_extend_def lessThan_atLeast0)
  have n1: "vec_n v1 = vec_n v + vec_n ex"
    using length_vec_list [OF v1(2)] length_vec_list [OF assms(1)] length_vec_list [OF assms(2)] v1(3) by simp
  let ?rc = "fold increfd (vec_list ex) rc"
  have "fold increfd xs rc' a \<noteq> None" if "rc' a \<noteq> None" for xs a and rc' :: ref_counts
    using that
  proof (induction xs arbitrary: rc')
    case (Cons x xs)
    then show ?case using increfd_alive [of rc' a x] by (simp del: not_None_eq)
  qed simp
  then have alive: "el = 0 \<or> ?rc el \<noteq> None" using assms(7) by blast
  from vector_insert_result [where inc = OBJECT_INCREF and r = ?rc, OF v1(2) _ _ incref_alive [where rc = ?rc, OF alive], of index] obtain v2 where
    v2: "vector_insert OBJECT_INCREF el index (v1, ?rc) = Inr (v2, increfd el ?rc)" "vec_wf v2"
      "vec_list v2 = take (unat index) (vec_list v1) @ el # drop (unat index) (vec_list v1)"
    using n1 assms(3,4) by auto
  show ?thesis using v1 v2 by (simp add: foreach_result)
qed

definition vec_of :: "u64 list \<Rightarrow> vec" where
  "vec_of xs = \<lparr>vec_ptr = map Some xs @ [None], vec_n = length xs, vec_s = Suc (length xs), vec_opts = VECTOR_ORDERED\<rparr>"

lemma vec_of_wf: "vec_wf (vec_of xs)" "vec_list (vec_of xs) = xs" "vec_n (vec_of xs) = length xs"
  using vec_of_cells [of "vec_of xs" xs "[None]"] by (simp_all add: vec_of_def)

lemma vector_is_list_witness:
  "\<exists>v1 v2 rc2. vector_extend OBJECT_INCREF (vec_of [16, 8]) (vec_of [8], [8 \<mapsto> 2, 16 \<mapsto> 1]) =
      Inr (v1, fold increfd (vec_list (vec_of [16, 8])) [8 \<mapsto> 2, 16 \<mapsto> 1]) \<and>
    vector_insert OBJECT_INCREF 16 1 (v1, fold increfd (vec_list (vec_of [16, 8])) [8 \<mapsto> 2, 16 \<mapsto> 1]) = Inr (v2, rc2) \<and>
    vector_foreach (\<lambda>x ys. Inr (ys @ [x])) v2 [] =
      Inr (take (unat (1 :: u32)) (vec_list (vec_of [8]) @ vec_list (vec_of [16, 8])) @
        16 # drop (unat (1 :: u32)) (vec_list (vec_of [8]) @ vec_list (vec_of [16, 8]))) \<and>
    rc2 = increfd 16 (fold increfd (vec_list (vec_of [16, 8])) [8 \<mapsto> 2, 16 \<mapsto> 1])"
  by (rule vector_is_list) (auto simp: vec_of_wf refs_room_def covered_def split: if_splits)

text \<open>Removal works at the last two positions only. There it takes the element out of the list
  and drops its reference; anywhere before, \<^verbatim>\<open>memcpy\<close> is given overlapping ranges, which is
  undefined behaviour. The option \<^verbatim>\<open>VECTOR_UNORDERED\<close> is 0 and never selects the other way.\<close>

theorem vector_remove_defined:
  assumes "vec_wf v" "vec_opts v \<in> {VECTOR_ORDERED, VECTOR_UNORDERED OR VECTOR_REMOVE}" "unat index < vec_n v"
    and "OBJECT_DECREF (vec_list v ! unat index) rc = Inr rc'"
  shows "if unat index + 2 < vec_n v then vector_remove OBJECT_DECREF index (v, rc) = Inl Overlapping_Copy
    else \<exists>v'. vector_remove OBJECT_DECREF index (v, rc) = Inr (vec_list v ! unat index, v', rc') \<and>
      vec_wf v' \<and> vec_list v' = take (unat index) (vec_list v) @ drop (Suc (unat index)) (vec_list v)"
proof -
  have "vec_opts v AND VECTOR_KEEP = 0"
    using assms(2) by (auto simp: VECTOR_KEEP_def VECTOR_ORDERED_def VECTOR_UNORDERED_def VECTOR_REMOVE_def)
  note facts = assms(1) this assms(3)
  show ?thesis
    using vector_remove_result [where dec = OBJECT_DECREF and r = rc, OF facts assms(4)]
      vector_remove_list [where dec = OBJECT_DECREF and r = rc, OF facts _ assms(4)]
    by (cases "unat index + 2 < vec_n v") auto
qed

lemma vector_remove_defined_witness:
  "if unat (0 :: u32) + 2 < vec_n (vec_of [8, 16, 24])
    then vector_remove OBJECT_DECREF 0 (vec_of [8, 16, 24], [8 \<mapsto> 2]) = Inl Overlapping_Copy
    else \<exists>v'. vector_remove OBJECT_DECREF 0 (vec_of [8, 16, 24], [8 \<mapsto> 2]) =
        Inr (vec_list (vec_of [8, 16, 24]) ! unat (0 :: u32), v', [8 \<mapsto> 1]) \<and>
      vec_wf v' \<and> vec_list v' = take (unat (0 :: u32)) (vec_list (vec_of [8, 16, 24])) @
        drop (Suc (unat (0 :: u32))) (vec_list (vec_of [8, 16, 24]))"
  by (rule vector_remove_defined)
    (simp_all add: vec_of_wf OBJECT_DECREF_def, simp add: vec_of_def)

end
