(* ===== verification/String_Vector.thy ===== *)
theory String_Vector
  imports Vectors CString Map_Use
begin

text \<open>
  The vector of owned strings of \<^verbatim>\<open>hacksaw/string_vector.c\<close>, and \<^verbatim>\<open>map_all_keys\<close> of
  \<^verbatim>\<open>hacksaw/map.c\<close>, its only client. A \<^verbatim>\<open>StringVector\<close> is handed to the functions of
  \<^verbatim>\<open>vector.c\<close> through a cast, but the two structs agree only up to \<^verbatim>\<open>n\<close>.
\<close>

section \<open>Data\<close>

record string_vector =
  sv_ptr :: "string option list"
  sv_n :: nat
  sv_s :: nat

text \<open>
  On the 64-bit target a \<^verbatim>\<open>StringVector\<close> has 24 bytes: \<^verbatim>\<open>free\<close>, \<^verbatim>\<open>ptr\<close>, and \<^verbatim>\<open>n\<close> and \<^verbatim>\<open>s\<close> of
  four bytes each. In a \<^verbatim>\<open>Vector\<close>, \<^verbatim>\<open>n\<close> is padded to eight bytes, and \<^verbatim>\<open>s\<close> follows at offset 24.
\<close>

definition string_vector_size :: nat where "string_vector_size = 8 + 8 + 4 + 4"
definition vector_s_offset :: nat where "vector_s_offset = 8 + 8 + 8"

section \<open>Operations\<close>

definition string_vector_new :: string_vector where
  "string_vector_new = \<lparr>sv_ptr = replicate 32 None, sv_n = 0, sv_s = 32\<rparr>"

text \<open>\<^verbatim>\<open>vector_allocate((Vector*) vec)\<close>: it reads and writes \<^verbatim>\<open>s\<close> where a \<^verbatim>\<open>Vector\<close> has it.\<close>

definition string_vector_allocate :: "string_vector \<Rightarrow> string_vector result" where
  "string_vector_allocate v =
     (if vector_s_offset + 8 \<le> string_vector_size
      then Inr (v\<lparr>sv_s := sv_s v * 2, sv_ptr := resize_cells (sv_s v * 2) (sv_ptr v)\<rparr>)
      else Inl Out_Of_Bounds)"

definition string_vector_add :: "string \<Rightarrow> string_vector \<Rightarrow> string_vector result" where
  "string_vector_add str v =
     bindR (if sv_s v = sv_n v + 1 then string_vector_allocate v else Inr v) (\<lambda>v.
     bindR (store_cell (sv_n v) str (sv_ptr v)) (\<lambda>p. Inr (v\<lparr>sv_ptr := p, sv_n := sv_n v + 1\<rparr>)))"

definition string_vector_insert :: "string \<Rightarrow> u32 \<Rightarrow> string_vector \<Rightarrow> string_vector result" where
  "string_vector_insert str index v =
     bindR (if sv_s v \<le> sv_n v + 1 then string_vector_allocate v else Inr v) (\<lambda>v.
     bindR (memmove_cells (unat index + 1) (unat index) (unat (word_of_nat (sv_n v) - index)) (sv_ptr v)) (\<lambda>p.
     bindR (store_cell (unat index) str p) (\<lambda>p. Inr (v\<lparr>sv_ptr := p, sv_n := sv_n v + 1\<rparr>))))"

definition string_vector_get :: "nat \<Rightarrow> string_vector \<Rightarrow> string result" where
  "string_vector_get index v = load_cell index (sv_ptr v)"

text \<open>Growing keeps the condition of the \<^verbatim>\<open>while\<close> loop true: the loop could end in failure only.\<close>

definition string_vector_set :: "string \<Rightarrow> u32 \<Rightarrow> string_vector \<Rightarrow> string_vector result" where
  "string_vector_set str index v =
     bindR (if sv_s v \<ge> unat index then bindR (string_vector_allocate v) (\<lambda>v. Inl Diverges) else Inr v) (\<lambda>v.
     bindR (load_cell (unat index) (sv_ptr v)) (\<lambda>old_value.
     bindR (store_cell (unat index) str (sv_ptr v)) (\<lambda>p. Inr (v\<lparr>sv_ptr := p\<rparr>))))"

text \<open>The string is freed, but \<^verbatim>\<open>n\<close> stays as it is.\<close>

definition string_vector_remove :: "u32 \<Rightarrow> string_vector \<Rightarrow> string_vector result" where
  "string_vector_remove index v =
     bindR (remove_ordered (sv_n v) (unat index) (sv_ptr v)) (\<lambda>(out, p). Inr (v\<lparr>sv_ptr := p\<rparr>))"

fun add_strings :: "string list \<Rightarrow> string_vector \<Rightarrow> string_vector result" where
  "add_strings [] v = Inr v"
| "add_strings (x # xs) v = bindR (string_vector_add x v) (add_strings xs)"

definition string_vector_split :: "string option \<Rightarrow> string \<Rightarrow> string_vector \<Rightarrow> string_vector result" where
  "string_vector_split str delim v =
     (case str of None \<Rightarrow> Inr v | Some s \<Rightarrow> add_strings (strtok_all delim s) v)"

fun free_strings :: "nat list \<Rightarrow> string_vector \<Rightarrow> unit result" where
  "free_strings [] v = Inr ()"
| "free_strings (i # is) v = bindR (string_vector_get i v) (\<lambda>x. free_strings is v)"

definition string_vector_free :: "string_vector \<Rightarrow> unit result" where
  "string_vector_free v = free_strings [0..<sv_n v] v"

text \<open>
  \<^verbatim>\<open>map_all_keys\<close> visits the buckets in order while it has found fewer keys than \<^verbatim>\<open>n\<close>
  (tables have fewer than \<open>2 ^ 32\<close> buckets, which its index can count).
\<close>

fun collect_keys :: "nat \<Rightarrow> map_item list list \<Rightarrow> string_vector \<Rightarrow> string_vector result" where
  "collect_keys n [] out = Inr out"
| "collect_keys n (b # bs) out =
     (if sv_n out < n then bindR (add_strings (map item_key b) out) (collect_keys n bs) else Inr out)"

definition map_all_keys :: "hash_map \<Rightarrow> string_vector result" where
  "map_all_keys m = collect_keys (unat (map_n m)) (hash_table m) string_vector_new"

section \<open>The list a vector of strings stands for\<close>

definition sv_wf :: "string_vector \<Rightarrow> bool" where
  "sv_wf v \<longleftrightarrow> sv_s v = 32 \<and> length (sv_ptr v) = 32 \<and> sv_n v < 32 \<and> (\<forall>i < sv_n v. sv_ptr v ! i \<noteq> None)"

definition sv_list :: "string_vector \<Rightarrow> string list" where
  "sv_list v = map the (take (sv_n v) (sv_ptr v))"

lemma string_vector_new_wf: "sv_wf string_vector_new" "sv_list string_vector_new = []"
    "sv_n string_vector_new = 0"
  by (simp_all add: sv_wf_def sv_list_def string_vector_new_def)

lemma length_sv_list: "sv_wf v \<Longrightarrow> length (sv_list v) = sv_n v"
  by (simp add: sv_wf_def sv_list_def)

lemma allocate_fails [simp]: "string_vector_allocate v = Inl Out_Of_Bounds"
  by (simp add: string_vector_allocate_def vector_s_offset_def string_vector_size_def)

lemma string_add_result:
  assumes "sv_wf v" "sv_n v < 31"
  shows "\<exists>v'. string_vector_add str v = Inr v' \<and> sv_wf v' \<and> sv_list v' = sv_list v @ [str]"
proof -
  have s: "sv_s v = 32" "length (sv_ptr v) = 32" using assms(1) by (simp_all add: sv_wf_def)
  let ?v = "v\<lparr>sv_ptr := (sv_ptr v)[sv_n v := Some str], sv_n := sv_n v + 1\<rparr>"
  have "string_vector_add str v = Inr ?v"
    using assms(2) s by (simp add: string_vector_add_def store_cell_def)
  moreover have "sv_wf ?v" using assms s by (auto simp: sv_wf_def nth_list_update)
  moreover have "sv_list ?v = sv_list v @ [str]" using assms s by (simp add: sv_list_def take_Suc_conv_app_nth)
  ultimately show ?thesis by blast
qed

lemma string_add_full:
  assumes "sv_wf v" "sv_n v = 31"
  shows "string_vector_add str v = Inl Out_Of_Bounds"
  using assms by (simp add: string_vector_add_def sv_wf_def)

lemma add_strings_result:
  assumes "sv_wf v"
  shows "if sv_n v + length xs \<le> 31 then \<exists>v'. add_strings xs v = Inr v' \<and> sv_wf v' \<and> sv_list v' = sv_list v @ xs
    else add_strings xs v = Inl Out_Of_Bounds"
  using assms
proof (induction xs arbitrary: v)
  case Nil
  then show ?case by (auto simp: sv_wf_def)
next
  case (Cons x xs)
  show ?case
  proof (cases "sv_n v < 31")
    case True
    from string_add_result [OF Cons.prems True] obtain v1 where
      v1: "string_vector_add x v = Inr v1" "sv_wf v1" "sv_list v1 = sv_list v @ [x]" by blast
    have "sv_n v1 = sv_n v + 1" using length_sv_list [OF v1(2)] length_sv_list [OF Cons.prems] v1(3) by simp
    then show ?thesis using Cons.IH [OF v1(2)] v1 by auto
  next
    case False
    then have "sv_n v = 31" using Cons.prems by (auto simp: sv_wf_def)
    then show ?thesis using string_add_full [OF Cons.prems] by simp
  qed
qed

lemma collect_result:
  assumes "sv_wf v" "sv_n v + length (concat bs) \<le> n"
  shows "collect_keys n bs v = add_strings (map item_key (concat bs)) v"
  using assms
proof (induction bs arbitrary: v)
  case (Cons b bs)
  have app: "add_strings (xs @ ys) v = bindR (add_strings xs v) (add_strings ys)" for xs ys v
    by (induction xs arbitrary: v) (auto simp: bindR_def split: sum.split)
  have res: "collect_keys n bs v1 = add_strings (map item_key (concat bs)) v1"
    if "add_strings (map item_key b) v = Inr v1" for v1
  proof -
    have "sv_wf v1" "sv_list v1 = sv_list v @ map item_key b"
      using add_strings_result [OF Cons.prems(1), of "map item_key b"] that by (auto split: if_splits)
    then show ?thesis
      using Cons.IH Cons.prems length_sv_list [of v1] length_sv_list [of v] by auto
  qed
  show ?case
  proof (cases "sv_n v < n")
    case True
    then show ?thesis using res by (cases "add_strings (map item_key b) v") (auto simp: app)
  next
    case False
    then have "length b = 0 \<and> length (concat bs) = 0"
      using Cons.prems(2) unfolding concat.simps length_append by linarith
    then have "b = []" "concat bs = []" by (blast dest: length_0_conv [THEN iffD1])+
    then have "add_strings (map item_key (concat (b # bs))) v = Inr v"
      unfolding concat.simps by (simp only: append_Nil list.map add_strings.simps)
    with False show ?thesis by simp
  qed
qed simp

section \<open>Properties\<close>

text \<open>C40: \<^verbatim>\<open>map_all_keys\<close> returns every key of the map once, in table order, as long as there are at
  most 31 of them and the counter has not lost count; from 32 keys on it reads past the
  end of its own vector.\<close>

theorem map_all_keys_result:
  assumes "map_wf m" "card (dom (map_contents m)) \<le> unat (map_n m)"
  shows "if card (dom (map_contents m)) \<le> 31
    then \<exists>v. map_all_keys m = Inr v \<and> distinct (sv_list v) \<and> set (sv_list v) = dom (map_contents m)
    else map_all_keys m = Inl Out_Of_Bounds"
proof -
  let ?ks = "map item_key (concat (hash_table m))"
  have len: "length ?ks = card (dom (map_contents m))" by (simp add: items_card [OF assms(1)])
  have "map_all_keys m = add_strings ?ks string_vector_new"
    unfolding map_all_keys_def using len assms(2)
    by (intro collect_result string_vector_new_wf) (simp add: string_vector_new_def)
  moreover have "distinct ?ks" by (rule map_items_distinct [OF assms(1)])
  moreover have "set ?ks = dom (map_contents m)"
    unfolding map_contents_items [OF assms(1)] dom_map_of_pairs by simp
  ultimately show ?thesis
    using add_strings_result [OF string_vector_new_wf(1), of ?ks] len
    by (auto simp: string_vector_new_wf)
qed

lemma map_all_keys_result_witness:
  "if card (dom (map_contents one_item_map)) \<le> 31
    then \<exists>v. map_all_keys one_item_map = Inr v \<and> distinct (sv_list v) \<and> set (sv_list v) = dom (map_contents one_item_map)
    else map_all_keys one_item_map = Inl Out_Of_Bounds"
proof (rule map_all_keys_result)
  show wf: "map_wf one_item_map"
    by (simp add: map_wf_def one_item_map_def map_offset_def)
  show "card (dom (map_contents one_item_map)) \<le> unat (map_n one_item_map)"
    by (simp add: items_card [OF wf, symmetric]) (simp add: one_item_map_def)
qed

text \<open>
  \<^verbatim>\<open>string_vector_set\<close> never succeeds: up to index 32 its loop grows the vector through the
  wrong struct, beyond that it reads a cell that is not there.
\<close>

lemma string_vector_set_fails: "sv_wf v \<Longrightarrow> string_vector_set str index v = Inl Out_Of_Bounds"
  by (simp add: string_vector_set_def sv_wf_def load_cell_def)

text \<open>
  Removing the last string leaves \<^verbatim>\<open>n\<close> as it was, with a cell that was never written: freeing
  the vector then frees a wild pointer. Any other removal copies overlapping ranges.
\<close>

lemma string_vector_remove_breaks:
  assumes "sv_wf v" "unat index < sv_n v" "sv_ptr v ! sv_n v = None"
  shows "string_vector_remove index v = Inl Overlapping_Copy \<or>
    (\<exists>v'. string_vector_remove index v = Inr v' \<and> sv_n v' = sv_n v \<and> string_vector_free v' = Inl Uninitialised)"
proof -
  have len: "sv_n v < length (sv_ptr v)" "unat index < length (sv_ptr v)"
    using assms by (auto simp: sv_wf_def)
  obtain x where x: "sv_ptr v ! unat index = Some x" using assms(1,2) by (auto simp: sv_wf_def)
  then have load: "load_cell (unat index) (sv_ptr v) = Inr x" using len by (simp add: load_cell_def)
  show ?thesis
  proof (cases "unat index + 1 = sv_n v")
    case False
    then have "unat index < unat index + 1 + (sv_n v - unat index)" "unat index + 1 < unat index + (sv_n v - unat index)"
      "sv_n v - unat index \<noteq> 0" "\<not> sv_n v < unat index"
      using assms(2) by linarith+
    then have "string_vector_remove index v = Inl Overlapping_Copy"
      by (simp add: string_vector_remove_def remove_ordered_def load memcpy_cells_def)
    then show ?thesis ..
  next
    case True
    let ?p = "(sv_ptr v)[unat index := None]"
    have "memmove_cells (unat index) (unat index + 1) 1 (sv_ptr v) = Inr ?p"
      using True len assms(3)
      by (simp add: memmove_cells_def upd_conv_take_nth_drop take_Suc hd_drop_conv_nth)
    moreover have n: "sv_n v = Suc (unat index)" using True by simp
    ultimately have "string_vector_remove index v = Inr (v\<lparr>sv_ptr := ?p\<rparr>)"
      by (simp add: string_vector_remove_def remove_ordered_def load memcpy_cells_def)
    moreover have "free_strings is (v\<lparr>sv_ptr := ?p\<rparr>) = Inr ()" if "set is \<subseteq> {..<unat index}" for "is"
      using that assms(1,2)
      by (induction "is") (auto simp: string_vector_get_def load_cell_def sv_wf_def split: option.split)
    moreover have "free_strings (xs @ ys) w = bindR (free_strings xs w) (\<lambda>_. free_strings ys w)" for xs ys w
      by (induction xs) (auto simp: bindR_def split: sum.split)
    ultimately show ?thesis
      using len(2) by (simp add: string_vector_free_def n lessThan_atLeast0 string_vector_get_def load_cell_def)
  qed
qed

end
