(* ===== verification/Vec_Set.thy ===== *)
theory Vec_Set
  imports Vectors
begin

text \<open>
  The set over a vector of \<^verbatim>\<open>hacksaw/set.c\<close>. The comparison is a function pointer that may be
  null; what a call through it returns is the parameter \<open>call\<close>, with 0 for equal elements
  (\<^verbatim>\<open>queue_set.c\<close> gives the same type of function the opposite meaning).
\<close>

section \<open>Data and operations\<close>

record vec_set =
  set_parent :: vec
  cmp_func :: u64

type_synonym cmp_call = "u64 \<Rightarrow> u64 \<Rightarrow> u64 \<Rightarrow> int"

definition set_new :: "u64 \<Rightarrow> vec_set" where
  "set_new c = \<lparr>set_parent = vector_new (VECTOR_REMOVE OR VECTOR_UNORDERED), cmp_func = c\<rparr>"

definition set_get :: "vec_set \<Rightarrow> nat \<Rightarrow> u64 result" where
  "set_get s i = vector_get i (set_parent s)"

definition same :: "cmp_call \<Rightarrow> u64 \<Rightarrow> u64 \<Rightarrow> u64 \<Rightarrow> bool" where
  "same call c item el \<longleftrightarrow> (c \<noteq> 0 \<and> call c item el = 0) \<or> (c = 0 \<and> item = el)"

fun inside_from :: "cmp_call \<Rightarrow> vec_set \<Rightarrow> u64 \<Rightarrow> nat list \<Rightarrow> int result" where
  "inside_from call s item [] = Inr (- 1)"
| "inside_from call s item (i # is) =
     bindR (set_get s i) (\<lambda>el. if same call (cmp_func s) item el then Inr (int i) else inside_from call s item is)"

definition set_inside :: "cmp_call \<Rightarrow> vec_set \<Rightarrow> u64 \<Rightarrow> int result" where
  "set_inside call s item = inside_from call s item [0..<vec_n (set_parent s)]"

definition set_add :: "cmp_call \<Rightarrow> u64 \<Rightarrow> vec_set \<times> ref_counts \<Rightarrow> (u32 \<times> vec_set \<times> ref_counts) result" where
  "set_add call element st =
     (case st of (s, rc) \<Rightarrow>
        bindR (set_inside call s element) (\<lambda>index.
          if index = - 1
          then bindR (vector_add OBJECT_INCREF element (set_parent s, rc)) (\<lambda>(k, p, rc). Inr (1, s\<lparr>set_parent := p\<rparr>, rc))
          else Inr (0, s, rc)))"

definition set_remove :: "cmp_call \<Rightarrow> u64 \<Rightarrow> vec_set \<times> ref_counts \<Rightarrow> (u64 \<times> vec_set \<times> ref_counts) result" where
  "set_remove call element st =
     (case st of (s, rc) \<Rightarrow>
        bindR (set_inside call s element) (\<lambda>index.
          if index = - 1 then Inr (0, s, rc)
          else bindR (vector_remove OBJECT_DECREF (word_of_int index) (set_parent s, rc)) (\<lambda>(out, p, rc).
            Inr (out, s\<lparr>set_parent := p\<rparr>, rc))))"

text \<open>Add the elements of a set at some indices, the loop of \<^verbatim>\<open>set_dup\<close> and \<^verbatim>\<open>set_union\<close>.\<close>

fun add_from :: "cmp_call \<Rightarrow> vec_set \<Rightarrow> nat list \<Rightarrow> vec_set \<times> ref_counts \<Rightarrow> (vec_set \<times> ref_counts) result" where
  "add_from call src [] st = Inr st"
| "add_from call src (i # is) st =
     bindR (set_get src i) (\<lambda>el. bindR (set_add call el st) (\<lambda>(k, st). add_from call src is st))"

definition set_dup :: "cmp_call \<Rightarrow> vec_set \<Rightarrow> ref_counts \<Rightarrow> (vec_set \<times> ref_counts) result" where
  "set_dup call s rc = add_from call s [0..<vec_n (set_parent s)] (set_new (cmp_func s), rc)"

definition set_union :: "cmp_call \<Rightarrow> vec_set \<Rightarrow> vec_set \<times> ref_counts \<Rightarrow> (vec_set \<times> ref_counts) result" where
  "set_union call s2 st =
     (if cmp_func (fst st) \<noteq> cmp_func s2 then Inr st
      else add_from call s2 [0..<vec_n (set_parent s2)] st)"

text \<open>The elements of \<open>src\<close> that are also in \<open>other\<close>.\<close>

fun common_from :: "cmp_call \<Rightarrow> vec_set \<Rightarrow> vec_set \<Rightarrow> nat list \<Rightarrow> vec_set \<times> ref_counts \<Rightarrow> (vec_set \<times> ref_counts) result" where
  "common_from call src other [] st = Inr st"
| "common_from call src other (i # is) st =
     bindR (set_get src i) (\<lambda>element.
     bindR (set_inside call other element) (\<lambda>index.
     bindR (if index \<noteq> - 1 then bindR (set_add call element st) (\<lambda>(k, st). Inr st) else Inr st)
       (common_from call src other is)))"

definition set_intersect :: "cmp_call \<Rightarrow> vec_set \<Rightarrow> vec_set \<Rightarrow> ref_counts \<Rightarrow> (vec_set option \<times> ref_counts) result" where
  "set_intersect call s1 s2 rc =
     (if cmp_func s1 \<noteq> cmp_func s2 then Inr (None, rc)
      else bindR (if vec_n (set_parent s1) > vec_n (set_parent s2)
                  then common_from call s1 s2 [0..<vec_n (set_parent s1)] (set_new (cmp_func s1), rc)
                  else common_from call s2 s1 [0..<vec_n (set_parent s2)] (set_new (cmp_func s1), rc))
             (\<lambda>(out, rc). Inr (Some out, rc)))"

text \<open>\<^verbatim>\<open>set_free\<close> frees the vector through its method, which was never set.\<close>

definition set_free :: "vec_set \<Rightarrow> ref_counts \<Rightarrow> ref_counts result" where
  "set_free s rc = vector_object_free (set_parent s) rc"

text \<open>The two loops of \<^verbatim>\<open>set_collapse\<close>; its state is the pair of new sets and the counts.\<close>

fun collapse_inner :: "cmp_call \<Rightarrow> (u64 \<Rightarrow> u64 \<Rightarrow> u64) \<Rightarrow> vec_set \<Rightarrow> u64 \<Rightarrow> nat list \<Rightarrow>
    vec_set \<times> vec_set \<times> ref_counts \<Rightarrow> (vec_set \<times> vec_set \<times> ref_counts) result" where
  "collapse_inner call merge_func src el_1 [] st = Inr st"
| "collapse_inner call merge_func src el_1 (j # js) st =
     (case st of (out_set, has_read, rc) \<Rightarrow>
        bindR (set_get src j) (\<lambda>el_2.
        bindR (set_inside call has_read el_2) (\<lambda>index.
        bindR (if index \<noteq> - 1 then Inr st
               else let out_el = merge_func el_1 el_2
                    in if out_el = 0 then Inr st
                       else bindR (set_add call el_2 (has_read, rc)) (\<lambda>(k, has_read, rc).
                            bindR (set_add call out_el (out_set, rc)) (\<lambda>(k, out_set, rc). Inr (out_set, has_read, rc))))
          (collapse_inner call merge_func src el_1 js))))"

fun collapse_outer :: "cmp_call \<Rightarrow> (u64 \<Rightarrow> u64 \<Rightarrow> u64) \<Rightarrow> vec_set \<Rightarrow> nat list \<Rightarrow>
    vec_set \<times> vec_set \<times> ref_counts \<Rightarrow> (vec_set \<times> vec_set \<times> ref_counts) result" where
  "collapse_outer call merge_func src [] st = Inr st"
| "collapse_outer call merge_func src (i # is) st =
     (case st of (out_set, has_read, rc) \<Rightarrow>
        bindR (set_get src i) (\<lambda>el_1.
        bindR (set_inside call has_read el_1) (\<lambda>index.
        bindR (if index \<noteq> - 1 then Inr st
               else collapse_inner call merge_func src el_1 [i + 1..<vec_n (set_parent src)] st)
          (collapse_outer call merge_func src is))))"

definition set_collapse :: "cmp_call \<Rightarrow> (u64 \<Rightarrow> u64 \<Rightarrow> u64) \<Rightarrow> vec_set \<Rightarrow> ref_counts \<Rightarrow> (vec_set \<times> ref_counts) result" where
  "set_collapse call merge_func to_collapse rc =
     bindR (collapse_outer call merge_func to_collapse [0..<vec_n (set_parent to_collapse)]
              (set_new (cmp_func to_collapse), set_new (cmp_func to_collapse), rc)) (\<lambda>(out_set, has_read, rc).
     bindR (set_free has_read rc) (\<lambda>rc. Inr (out_set, rc)))"

section \<open>What the operations do to the list of elements\<close>

definition elems :: "vec_set \<Rightarrow> u64 list" where
  "elems s = vec_list (set_parent s)"

definition set_wf :: "vec_set \<Rightarrow> bool" where
  "set_wf s \<longleftrightarrow> vec_wf (set_parent s)"

definition alive_all :: "ref_counts \<Rightarrow> u64 list \<Rightarrow> bool" where
  "alive_all rc xs \<longleftrightarrow> (\<forall>x \<in> set xs. x = 0 \<or> rc x \<noteq> None)"

definition place :: "cmp_call \<Rightarrow> u64 \<Rightarrow> u64 \<Rightarrow> u64 list \<Rightarrow> u64 list" where
  "place call c x xs = (if \<exists>y \<in> set xs. same call c x y then xs else xs @ [x])"

lemma set_new_wf: "set_wf (set_new c)" "elems (set_new c) = []" "cmp_func (set_new c) = c"
  by (simp_all add: set_wf_def elems_def set_new_def vector_new_wf)

lemma length_elems: "set_wf s \<Longrightarrow> length (elems s) = vec_n (set_parent s)"
  by (simp add: set_wf_def elems_def length_vec_list)

lemma get_elem: "set_wf s \<Longrightarrow> i < length (elems s) \<Longrightarrow> set_get s i = Inr (elems s ! i)"
  by (simp add: set_get_def vector_get_def elems_def set_wf_def load_vec length_vec_list)

lemma inside_from_result:
  assumes "set_wf s" "set is \<subseteq> {..<length (elems s)}"
  shows "inside_from call s item is =
    Inr (case find (\<lambda>i. same call (cmp_func s) item (elems s ! i)) is of None \<Rightarrow> - 1 | Some i \<Rightarrow> int i)"
  using assms(2) by (induction "is") (auto simp: get_elem [OF assms(1)])

lemma set_inside_result:
  assumes "set_wf s"
  shows "set_inside call s item = Inr (case find (\<lambda>i. same call (cmp_func s) item (elems s ! i)) [0..<length (elems s)] of
      None \<Rightarrow> - 1 | Some i \<Rightarrow> int i)"
  using inside_from_result [OF assms, of "[0..<length (elems s)]"] length_elems [OF assms]
  by (simp add: set_inside_def lessThan_atLeast0)

lemma set_inside_iff:
  assumes "set_wf s"
  obtains k where "set_inside call s item = Inr k" "k = - 1 \<longleftrightarrow> \<not> (\<exists>y \<in> set (elems s). same call (cmp_func s) item y)"
    "k \<noteq> - 1 \<Longrightarrow> 0 \<le> k \<and> k < int (length (elems s)) \<and> same call (cmp_func s) item (elems s ! nat k)"
proof (cases "find (\<lambda>i. same call (cmp_func s) item (elems s ! i)) [0..<length (elems s)]")
  case None
  then have "\<not> (\<exists>y \<in> set (elems s). same call (cmp_func s) item y)"
    by (auto simp: find_None_iff in_set_conv_nth)
  with None show ?thesis using that [of "- 1"] set_inside_result [OF assms, of call item] by simp
next
  case (Some i)
  then have "i < length (elems s)" "same call (cmp_func s) item (elems s ! i)"
    using find_SomeD [OF Some] by simp_all
  moreover from this have "\<exists>y \<in> set (elems s). same call (cmp_func s) item y" by (meson nth_mem)
  ultimately show ?thesis using Some that [of "int i"] set_inside_result [OF assms, of call item] by auto
qed

lemma set_add_result:
  assumes "set_wf s" "length (elems s) + 1 < 2 ^ 31" "el = 0 \<or> rc el \<noteq> None"
  shows "\<exists>s' rc'. set_add call el (s, rc) = Inr (if \<exists>y \<in> set (elems s). same call (cmp_func s) el y then 0 else 1, s', rc') \<and>
    set_wf s' \<and> elems s' = place call (cmp_func s) el (elems s) \<and> cmp_func s' = cmp_func s \<and>
    (\<forall>xs. alive_all rc xs \<longrightarrow> alive_all rc' xs)"
proof -
  obtain k where k: "set_inside call s el = Inr k" "k = - 1 \<longleftrightarrow> \<not> (\<exists>y \<in> set (elems s). same call (cmp_func s) el y)"
    by (rule set_inside_iff [OF assms(1)])
  show ?thesis
  proof (cases "k = - 1")
    case False
    then show ?thesis using k assms(1) by (auto simp: set_add_def place_def)
  next
    case True
    have wf: "vec_wf (set_parent s)" using assms(1) by (simp add: set_wf_def)
    have n: "vec_n (set_parent s) + 1 < 2 ^ 31" using assms(2) length_elems [OF assms(1)] by simp
    from vector_add_result [where inc = OBJECT_INCREF and r = rc, OF wf n incref_alive [where rc = rc, OF assms(3)]]
    obtain p where p: "vector_add OBJECT_INCREF el (set_parent s, rc) = Inr (word_of_nat (vec_n (set_parent s)), p, increfd el rc)"
      "vec_wf p" "vec_list p = vec_list (set_parent s) @ [el]" by blast
    have "alive_all rc xs \<longrightarrow> alive_all (increfd el rc) xs" for xs
      unfolding alive_all_def using increfd_alive [of rc _ el] by blast
    then show ?thesis using True k p by (simp add: set_add_def place_def set_wf_def elems_def)
  qed
qed

lemma add_from_result:
  assumes "set_wf src" "set is \<subseteq> {..<length (elems src)}" "set_wf s" "length (elems s) + length is < 2 ^ 31"
    and "alive_all rc (elems src)"
  shows "\<exists>s' rc'. add_from call src is (s, rc) = Inr (s', rc') \<and> set_wf s' \<and> cmp_func s' = cmp_func s \<and>
    elems s' = fold (place call (cmp_func s)) (map ((!) (elems src)) is) (elems s) \<and>
    (\<forall>xs. alive_all rc xs \<longrightarrow> alive_all rc' xs)"
  using assms(2-)
proof (induction "is" arbitrary: s rc)
  case (Cons i "is")
  let ?x = "elems src ! i"
  have i: "i < length (elems src)" using Cons.prems(1) by simp
  have alive: "?x = 0 \<or> rc ?x \<noteq> None" using Cons.prems(4) i by (auto simp: alive_all_def)
  have small: "length (elems s) + 1 < 2 ^ 31" using Cons.prems(3) by simp
  from set_add_result [OF Cons.prems(2) small, of ?x rc call] alive obtain s1 rc1 k where
    s1: "set_add call ?x (s, rc) = Inr (k, s1, rc1)" "set_wf s1"
    "elems s1 = place call (cmp_func s) ?x (elems s)" "cmp_func s1 = cmp_func s" "\<forall>xs. alive_all rc xs \<longrightarrow> alive_all rc1 xs"
    by auto
  have "length (elems s1) + length is < 2 ^ 31" using Cons.prems(3) by (simp add: s1(3) place_def)
  with Cons.IH [OF _ s1(2)] Cons.prems(1,4) s1(5) obtain s' rc' where
    "add_from call src is (s1, rc1) = Inr (s', rc')" "set_wf s'" "cmp_func s' = cmp_func s1"
    "elems s' = fold (place call (cmp_func s1)) (map ((!) (elems src)) is) (elems s1)"
    "\<forall>xs. alive_all rc1 xs \<longrightarrow> alive_all rc' xs"
    by fastforce
  then show ?case using s1 i by (simp add: get_elem [OF assms(1)])
qed simp

lemma common_from_result:
  assumes "set_wf src" "set_wf oth" "set is \<subseteq> {..<length (elems src)}" "set_wf s" "length (elems s) + length is < 2 ^ 31"
    and "alive_all rc (elems src)"
  shows "\<exists>s' rc'. common_from call src oth is (s, rc) = Inr (s', rc') \<and> set_wf s' \<and> cmp_func s' = cmp_func s \<and>
    elems s' = fold (place call (cmp_func s))
      (filter (\<lambda>x. \<exists>y \<in> set (elems oth). same call (cmp_func oth) x y) (map ((!) (elems src)) is)) (elems s)"
  using assms(3-)
proof (induction "is" arbitrary: s rc)
  case (Cons i "is")
  let ?x = "elems src ! i"
  have i: "i < length (elems src)" using Cons.prems(1) by simp
  obtain k where k: "set_inside call oth ?x = Inr k" "k = - 1 \<longleftrightarrow> \<not> (\<exists>y \<in> set (elems oth). same call (cmp_func oth) ?x y)"
    by (rule set_inside_iff [OF assms(2)])
  show ?case
  proof (cases "k = - 1")
    case True
    from Cons.IH [OF _ Cons.prems(2), of rc] Cons.prems show ?thesis
      using k True i by (auto simp: get_elem [OF assms(1)])
  next
    case False
    have alive: "?x = 0 \<or> rc ?x \<noteq> None" using Cons.prems(4) i by (auto simp: alive_all_def)
    have small: "length (elems s) + 1 < 2 ^ 31" using Cons.prems(3) by simp
    from set_add_result [OF Cons.prems(2) small, of ?x rc call] alive obtain s1 rc1 j where
      s1: "set_add call ?x (s, rc) = Inr (j, s1, rc1)" "set_wf s1"
      "elems s1 = place call (cmp_func s) ?x (elems s)" "cmp_func s1 = cmp_func s" "\<forall>xs. alive_all rc xs \<longrightarrow> alive_all rc1 xs"
      by auto
    have "length (elems s1) + length is < 2 ^ 31" using Cons.prems(3) by (simp add: s1(3) place_def)
    with Cons.IH [OF _ s1(2), of rc1] Cons.prems(1,4) s1(5) show ?thesis
      using k False i s1 by (auto simp: get_elem [OF assms(1)])
  qed
qed simp

lemma place_identity: "place call 0 x xs = (if x \<in> set xs then xs else xs @ [x])"
  by (auto simp: place_def same_def)

lemma fold_place_identity:
  "set (fold (place call 0) ys xs) = set xs \<union> set ys" "distinct xs \<Longrightarrow> distinct (fold (place call 0) ys xs)"
  by (induction ys arbitrary: xs) (auto simp: place_identity)

section \<open>Properties\<close>

lemma all_elems: "map ((!) xs) [0..<length xs] = xs"
  by (rule map_nth)

lemma all_indices: "set [0..<length xs] \<subseteq> {..<length xs}"
  by auto

lemma dup_result:
  assumes "set_wf s" "length (elems s) < 2 ^ 31" "alive_all rc (elems s)"
  shows "\<exists>s' rc'. set_dup call s rc = Inr (s', rc') \<and> set_wf s' \<and> cmp_func s' = cmp_func s \<and>
    elems s' = fold (place call (cmp_func s)) (elems s) []"
proof -
  have "length (elems (set_new (cmp_func s))) + length [0..<length (elems s)] < 2 ^ 31"
    using assms(2) by (simp add: set_new_wf)
  from add_from_result [OF assms(1) all_indices set_new_wf(1) this assms(3), of call]
  show ?thesis unfolding set_dup_def length_elems [OF assms(1), symmetric] all_elems set_new_wf by blast
qed

lemma union_result:
  assumes "set_wf s1" "set_wf s2" "cmp_func s1 = cmp_func s2" "length (elems s1) + length (elems s2) < 2 ^ 31"
    and "alive_all rc (elems s2)"
  shows "\<exists>s' rc'. set_union call s2 (s1, rc) = Inr (s', rc') \<and> set_wf s' \<and> cmp_func s' = cmp_func s1 \<and>
    elems s' = fold (place call (cmp_func s1)) (elems s2) (elems s1)"
proof -
  have len: "length (elems s1) + length [0..<length (elems s2)] < 2 ^ 31" using assms(4) by simp
  have "set_union call s2 (s1, rc) = add_from call s2 [0..<length (elems s2)] (s1, rc)"
    using assms(3) by (simp add: set_union_def length_elems [OF assms(2)])
  with add_from_result [OF assms(2) all_indices assms(1) len assms(5), of call]
  show ?thesis unfolding all_elems by auto
qed

lemma intersect_result:
  assumes "set_wf s1" "set_wf s2" "cmp_func s1 = cmp_func s2" "length (elems s1) < 2 ^ 31" "length (elems s2) < 2 ^ 31"
    and "alive_all rc (elems s1 @ elems s2)"
  shows "\<exists>s' rc'. set_intersect call s1 s2 rc = Inr (Some s', rc') \<and> set_wf s' \<and>
    elems s' = fold (place call (cmp_func s1))
      (if length (elems s1) > length (elems s2)
       then filter (\<lambda>x. \<exists>y \<in> set (elems s2). same call (cmp_func s1) x y) (elems s1)
       else filter (\<lambda>x. \<exists>y \<in> set (elems s1). same call (cmp_func s1) x y) (elems s2)) []"
proof -
  let ?c = "cmp_func s1"
  have common: "\<exists>s' rc'. common_from call a b [0..<length (elems a)] (set_new ?c, rc) = Inr (s', rc') \<and> set_wf s' \<and>
      elems s' = fold (place call ?c) (filter (\<lambda>x. \<exists>y \<in> set (elems b). same call ?c x y) (elems a)) []"
    if ab: "set_wf a" "set_wf b" "cmp_func b = ?c" "length (elems a) < 2 ^ 31" "alive_all rc (elems a)" for a b
  proof -
    have "length (elems (set_new ?c)) + length [0..<length (elems a)] < 2 ^ 31" using ab(4) by (simp add: set_new_wf)
    from common_from_result [OF ab(1,2) all_indices set_new_wf(1) this ab(5), of call]
    show ?thesis unfolding all_elems set_new_wf ab(3) by blast
  qed
  have al: "alive_all rc (elems s1)" "alive_all rc (elems s2)" using assms(6) by (auto simp: alive_all_def)
  note len = length_elems [OF assms(1), symmetric] length_elems [OF assms(2), symmetric]
  show ?thesis
  proof (cases "length (elems s1) > length (elems s2)")
    case True
    from common [OF assms(1,2) assms(3) [symmetric] assms(4) al(1)] obtain s' rc' where
      s': "common_from call s1 s2 [0..<length (elems s1)] (set_new ?c, rc) = Inr (s', rc')" "set_wf s'"
      "elems s' = fold (place call ?c) (filter (\<lambda>x. \<exists>y \<in> set (elems s2). same call ?c x y) (elems s1)) []" by blast
    have "set_intersect call s1 s2 rc = Inr (Some s', rc')"
      unfolding set_intersect_def len using True s'(1) assms(3) by simp
    with s' show ?thesis unfolding if_P [OF True] by blast
  next
    case False
    from common [OF assms(2,1) refl assms(5) al(2)] obtain s' rc' where
      s': "common_from call s2 s1 [0..<length (elems s2)] (set_new ?c, rc) = Inr (s', rc')" "set_wf s'"
      "elems s' = fold (place call ?c) (filter (\<lambda>x. \<exists>y \<in> set (elems s1). same call ?c x y) (elems s2)) []" by blast
    have "set_intersect call s1 s2 rc = Inr (Some s', rc')"
      unfolding set_intersect_def len using False s'(1) assms(3) by simp
    with s' show ?thesis unfolding if_not_P [OF False] by blast
  qed
qed

text \<open>With identity as the comparison (a null pointer), the operations on sets are those of sets:
  the union of two sets without duplicates has the elements of both, their intersection the
  common ones, each once, and a duplicate has the same elements in the same order.\<close>

theorem set_algebra:
  assumes "set_wf s1" "set_wf s2" "cmp_func s1 = 0" "cmp_func s2 = 0" "distinct (elems s1)" "distinct (elems s2)"
    and "length (elems s1) + length (elems s2) < 2 ^ 31" "alive_all rc (elems s1 @ elems s2)"
  shows "\<exists>u i d rc1 rc2 rc3. set_union call s2 (s1, rc) = Inr (u, rc1) \<and>
    set_intersect call s1 s2 rc = Inr (Some i, rc2) \<and> set_dup call s1 rc = Inr (d, rc3) \<and>
    distinct (elems u) \<and> set (elems u) = set (elems s1) \<union> set (elems s2) \<and>
    distinct (elems i) \<and> set (elems i) = set (elems s1) \<inter> set (elems s2) \<and> elems d = elems s1"
proof -
  have al: "alive_all rc (elems s1)" "alive_all rc (elems s2)" using assms(8) by (auto simp: alive_all_def)
  have len: "length (elems s1) < 2 ^ 31" "length (elems s2) < 2 ^ 31" using assms(7) by simp_all
  have eq: "cmp_func s1 = cmp_func s2" using assms(3,4) by simp
  have dup: "fold (place call 0) xs ys = ys @ xs" if "distinct (ys @ xs)" for xs ys
    using that by (induction xs arbitrary: ys) (auto simp: place_identity)
  from union_result [OF assms(1,2) eq assms(7) al(2), of call] obtain u rc1 where
    u: "set_union call s2 (s1, rc) = Inr (u, rc1)" "elems u = fold (place call 0) (elems s2) (elems s1)"
    using assms(3) by auto
  from intersect_result [OF assms(1,2) eq len assms(8), of call] obtain i rc2 where
    i: "set_intersect call s1 s2 rc = Inr (Some i, rc2)" "elems i = fold (place call 0)
      (if length (elems s1) > length (elems s2) then filter (\<lambda>x. x \<in> set (elems s2)) (elems s1)
       else filter (\<lambda>x. x \<in> set (elems s1)) (elems s2)) []"
    using assms(3) by (auto simp: same_def)
  from dup_result [OF assms(1) len(1) al(1), of call] obtain d rc3 where
    d: "set_dup call s1 rc = Inr (d, rc3)" "elems d = elems s1"
    using assms(3,5) dup [of "[]" "elems s1"] by auto
  have "distinct (elems u)" unfolding u(2) by (rule fold_place_identity(2) [OF assms(5)])
  moreover have "set (elems u) = set (elems s1) \<union> set (elems s2)" unfolding u(2) fold_place_identity(1) ..
  moreover have "distinct (elems i)" unfolding i(2) by (rule fold_place_identity(2)) simp
  moreover have "set (elems i) = set (elems s1) \<inter> set (elems s2)"
    unfolding i(2) fold_place_identity(1) by (cases "length (elems s1) > length (elems s2)") auto
  ultimately show ?thesis using u(1) i(1) d by blast
qed

definition set_of :: "u64 list \<Rightarrow> vec_set" where
  "set_of xs = \<lparr>set_parent = vec_of xs, cmp_func = 0\<rparr>"

lemma set_of_wf: "set_wf (set_of xs)" "elems (set_of xs) = xs" "cmp_func (set_of xs) = 0"
  by (simp_all add: set_of_def set_wf_def elems_def vec_of_wf)

lemma set_algebra_witness:
  "\<exists>u i d rc1 rc2 rc3. set_union (\<lambda>c x y. 1) (set_of [24, 8]) (set_of [8, 16], [8 \<mapsto> 1, 16 \<mapsto> 1, 24 \<mapsto> 0]) = Inr (u, rc1) \<and>
    set_intersect (\<lambda>c x y. 1) (set_of [8, 16]) (set_of [24, 8]) [8 \<mapsto> 1, 16 \<mapsto> 1, 24 \<mapsto> 0] = Inr (Some i, rc2) \<and>
    set_dup (\<lambda>c x y. 1) (set_of [8, 16]) [8 \<mapsto> 1, 16 \<mapsto> 1, 24 \<mapsto> 0] = Inr (d, rc3) \<and>
    distinct (elems u) \<and> set (elems u) = set (elems (set_of [8, 16])) \<union> set (elems (set_of [24, 8])) \<and>
    distinct (elems i) \<and> set (elems i) = set (elems (set_of [8, 16])) \<inter> set (elems (set_of [24, 8])) \<and>
    elems d = elems (set_of [8, 16])"
  by (rule set_algebra) (simp_all add: set_of_wf alive_all_def)

text \<open>
  No set can be freed, and \<^verbatim>\<open>set_collapse\<close> never returns: both end in the method \<^verbatim>\<open>free\<close> of a
  vector, which \<^verbatim>\<open>vector_new\<close> leaves uninitialised.
\<close>

lemma set_free_wild: "set_free s rc = Inl Uninitialised"
  by (simp add: set_free_def vector_object_free_def)

lemma set_collapse_never_returns: "set_collapse call merge_func s rc \<noteq> Inr x"
  by (auto simp: set_collapse_def set_free_wild)

end
