(* ===== verification/Small_Map.thy ===== *)
theory Small_Map
  imports Vectors
begin

text \<open>
  The association vector of \<^verbatim>\<open>hacksaw/small_map.c\<close>: a vector of key objects, each on a heap of
  its own with its string, its data pointer and its reference count. The count is never
  initialised: \<open>garbage\<close> is what the allocated memory held. A string that was freed is \<open>None\<close>.
\<close>

section \<open>Key objects\<close>

record small_map_key =
  sk_key :: "string option"
  sk_data_ptr :: u64
  sk_refs :: u64

type_synonym key_heap = "u64 \<rightharpoonup> small_map_key"
type_synonym key_state = "key_heap \<times> ref_counts"

definition load_key :: "u64 \<Rightarrow> key_heap \<Rightarrow> small_map_key result" where
  "load_key p kh = (if p = 0 then Inl Null_Deref else case kh p of None \<Rightarrow> Inl Use_After_Free | Some k \<Rightarrow> Inr k)"

text \<open>Reading the string of a key, and freeing it; both are errors once it is freed.\<close>

definition key_string :: "small_map_key \<Rightarrow> string result" where
  "key_string k = (case sk_key k of None \<Rightarrow> Inl Use_After_Free | Some s \<Rightarrow> Inr s)"

definition free_key_string :: "u64 \<Rightarrow> key_heap \<Rightarrow> key_heap result" where
  "free_key_string p kh =
     bindR (load_key p kh) (\<lambda>k. bindR (key_string k) (\<lambda>s. Inr (kh(p \<mapsto> k\<lparr>sk_key := None\<rparr>))))"

definition small_map_key_free :: "u64 \<Rightarrow> key_state \<Rightarrow> key_state result" where
  "small_map_key_free p st =
     (case st of (kh, rc) \<Rightarrow>
        bindR (free_key_string p kh) (\<lambda>kh.
        bindR (load_key p kh) (\<lambda>k.
        bindR (OBJECT_DECREF (sk_data_ptr k) rc) (\<lambda>rc. Inr (kh(p := None), rc)))))"

definition key_incref :: "u64 \<Rightarrow> key_state \<Rightarrow> key_state result" where
  "key_incref p st =
     (case st of (kh, rc) \<Rightarrow>
        if p = 0 then Inr st
        else bindR (load_key p kh) (\<lambda>k. Inr (kh(p \<mapsto> k\<lparr>sk_refs := sk_refs k + 1\<rparr>), rc)))"

definition key_decref :: "u64 \<Rightarrow> key_state \<Rightarrow> key_state result" where
  "key_decref p st =
     (case st of (kh, rc) \<Rightarrow>
        if p = 0 then Inr st
        else bindR (load_key p kh) (\<lambda>k.
          if sk_refs k = 0 then small_map_key_free p (kh, rc)
          else let kh = kh(p \<mapsto> k\<lparr>sk_refs := sk_refs k - 1\<rparr>)
               in if sk_refs k - 1 = 0 then small_map_key_free p (kh, rc) else Inr (kh, rc)))"

section \<open>Operations\<close>

type_synonym small_map = "vec \<times> key_state"

definition small_map_new :: "u32 \<Rightarrow> vec" where
  "small_map_new start_size = vector_allocate_to_size start_size (vector_new (VECTOR_REMOVE OR VECTOR_UNORDERED))"

definition small_map_insert :: "(key_heap \<Rightarrow> u64) \<Rightarrow> u64 \<Rightarrow> string \<Rightarrow> u64 \<Rightarrow> small_map \<Rightarrow> small_map result" where
  "small_map_insert alloc garbage key data st =
     (case st of (smap, kh, rc) \<Rightarrow>
        let ptr = alloc kh in
        if ptr = 0 then Inl Null_Deref
        else bindR (vector_add key_incref ptr
                      (smap, kh(ptr \<mapsto> \<lparr>sk_key = Some key, sk_data_ptr = data, sk_refs = garbage\<rparr>), rc))
               (\<lambda>(i, st). Inr st))"

text \<open>The search loops: the index and the object of the first key that satisfies \<open>P\<close>.\<close>

fun find_key :: "(small_map_key \<Rightarrow> bool result) \<Rightarrow> vec \<Rightarrow> key_heap \<Rightarrow> nat list \<Rightarrow> (nat \<times> u64) option result" where
  "find_key P smap kh [] = Inr None"
| "find_key P smap kh (i # is) =
     bindR (vector_get i smap) (\<lambda>p.
     bindR (load_key p kh) (\<lambda>k.
     bindR (P k) (\<lambda>found. if found then Inr (Some (i, p)) else find_key P smap kh is)))"

definition same_key :: "string \<Rightarrow> small_map_key \<Rightarrow> bool result" where
  "same_key key k = bindR (key_string k) (\<lambda>s. Inr (key = s))"

definition small_map_get :: "string \<Rightarrow> small_map \<Rightarrow> u64 result" where
  "small_map_get key st =
     (case st of (smap, kh, rc) \<Rightarrow>
        bindR (find_key (same_key key) smap kh [0..<vec_n smap]) (\<lambda>r.
          case r of None \<Rightarrow> Inr 0 | Some (i, p) \<Rightarrow> bindR (load_key p kh) (\<lambda>k. Inr (sk_data_ptr k))))"

text \<open>The key is freed by hand, then again with its object; then the object is read.\<close>

definition small_map_delete_at :: "nat \<Rightarrow> u64 \<Rightarrow> small_map \<Rightarrow> (u64 \<times> small_map) result" where
  "small_map_delete_at i p st =
     (case st of (smap, kh, rc) \<Rightarrow>
        bindR (free_key_string p kh) (\<lambda>kh.
        bindR (vector_remove key_decref (word_of_nat i) (smap, kh, rc)) (\<lambda>(out, smap, kh, rc).
        bindR (load_key p kh) (\<lambda>k. Inr (sk_data_ptr k, smap, kh, rc)))))"

definition small_map_delete :: "string \<Rightarrow> small_map \<Rightarrow> (u64 \<times> small_map) result" where
  "small_map_delete key st =
     (case st of (smap, kh, rc) \<Rightarrow>
        bindR (find_key (same_key key) smap kh [0..<vec_n smap]) (\<lambda>r.
          case r of None \<Rightarrow> Inr (0, st) | Some (i, p) \<Rightarrow> small_map_delete_at i p st))"

definition small_map_delete_index :: "u32 \<Rightarrow> small_map \<Rightarrow> (u64 \<times> small_map) result" where
  "small_map_delete_index index st =
     (case st of (smap, kh, rc) \<Rightarrow>
        if unat index \<ge> vec_n smap then Inr (0, st)
        else bindR (vector_get (unat index) smap) (\<lambda>p. small_map_delete_at (unat index) p st))"

definition small_map_get_key :: "u64 \<Rightarrow> small_map \<Rightarrow> string option result" where
  "small_map_get_key data st =
     (case st of (smap, kh, rc) \<Rightarrow>
        bindR (find_key (\<lambda>k. Inr (data = sk_data_ptr k)) smap kh [0..<vec_n smap]) (\<lambda>r.
          case r of None \<Rightarrow> Inr None
          | Some (i, p) \<Rightarrow> bindR (load_key p kh) (\<lambda>k. bindR (key_string k) (\<lambda>s. Inr (Some s)))))"

definition small_map_get_index :: "u32 \<Rightarrow> small_map \<Rightarrow> u64 result" where
  "small_map_get_index index st =
     (case st of (smap, kh, rc) \<Rightarrow>
        if unat index \<ge> vec_n smap then Inr 0
        else bindR (vector_get (unat index) smap) (\<lambda>p. bindR (load_key p kh) (\<lambda>k. Inr (sk_data_ptr k))))"

definition small_map_get_key_index :: "u32 \<Rightarrow> small_map \<Rightarrow> string result" where
  "small_map_get_key_index index st =
     (case st of (smap, kh, rc) \<Rightarrow>
        bindR (vector_get (unat index) smap) (\<lambda>p. bindR (load_key p kh) key_string))"

fun visit_data :: "(u64 \<Rightarrow> 's \<Rightarrow> 's result) \<Rightarrow> small_map \<Rightarrow> nat list \<Rightarrow> 's \<Rightarrow> 's result" where
  "visit_data f st [] s = Inr s"
| "visit_data f st (i # is) s =
     bindR (small_map_get_index (word_of_nat i) st) (\<lambda>x. bindR (f x s) (visit_data f st is))"

definition small_map_foreach :: "(u64 \<Rightarrow> 's \<Rightarrow> 's result) \<Rightarrow> small_map \<Rightarrow> 's \<Rightarrow> 's result" where
  "small_map_foreach f st s = visit_data f st [0..<vec_n (fst st)] s"

section \<open>The association list a map stands for\<close>

definition entry_of :: "key_heap \<Rightarrow> u64 \<Rightarrow> string \<times> u64" where
  "entry_of kh p = (case kh p of None \<Rightarrow> ([], 0) | Some k \<Rightarrow> (the (sk_key k), sk_data_ptr k))"

definition sm_wf :: "small_map \<Rightarrow> bool" where
  "sm_wf st \<longleftrightarrow> (case st of (smap, kh, rc) \<Rightarrow>
     vec_wf smap \<and> vec_opts smap = 0 \<and> vec_n smap < 2 ^ 31 \<and> distinct (vec_list smap) \<and>
     (\<forall>p \<in> set (vec_list smap). p \<noteq> 0 \<and> (\<exists>k. kh p = Some k \<and> sk_key k \<noteq> None)))"

definition sm_list :: "small_map \<Rightarrow> (string \<times> u64) list" where
  "sm_list st = (case st of (smap, kh, rc) \<Rightarrow> map (entry_of kh) (vec_list smap))"

lemma small_map_new_wf: "sm_wf (small_map_new n, kh, rc)" "sm_list (small_map_new n, kh, rc) = []"
proof -
  have "vec_wf (small_map_new n)"
    by (simp add: small_map_new_def vector_allocate_to_size_def vector_new_def resize_cells_def vec_wf_def)
  moreover have "vec_list (small_map_new n) = []" "vec_opts (small_map_new n) = 0" "vec_n (small_map_new n) = 0"
    by (simp_all add: small_map_new_def vector_allocate_to_size_def vector_new_def vec_list_def VECTOR_REMOVE_def
        VECTOR_UNORDERED_def)
  ultimately show "sm_wf (small_map_new n, kh, rc)" "sm_list (small_map_new n, kh, rc) = []"
    by (simp_all add: sm_wf_def sm_list_def)
qed

lemma insert_entry:
  assumes "sm_wf (smap, kh, rc)" "alloc kh \<noteq> 0" "kh (alloc kh) = None" "vec_n smap + 1 < 2 ^ 31"
  shows "\<exists>smap' kh'. small_map_insert alloc garbage key data (smap, kh, rc) = Inr (smap', kh', rc) \<and>
    sm_wf (smap', kh', rc) \<and> sm_list (smap', kh', rc) = sm_list (smap, kh, rc) @ [(key, data)] \<and>
    vec_n smap' = vec_n smap + 1 \<and> kh' = kh(alloc kh \<mapsto> \<lparr>sk_key = Some key, sk_data_ptr = data, sk_refs = garbage + 1\<rparr>)"
proof -
  let ?p = "alloc kh"
  let ?kh = "kh(?p \<mapsto> \<lparr>sk_key = Some key, sk_data_ptr = data, sk_refs = garbage\<rparr>)"
  let ?kh' = "kh(?p \<mapsto> \<lparr>sk_key = Some key, sk_data_ptr = data, sk_refs = garbage + 1\<rparr>)"
  have wf: "vec_wf smap" "vec_opts smap = 0" "distinct (vec_list smap)"
    "\<forall>p \<in> set (vec_list smap). p \<noteq> 0 \<and> (\<exists>k. kh p = Some k \<and> sk_key k \<noteq> None)"
    using assms(1) by (simp_all add: sm_wf_def)
  have inc: "key_incref ?p (?kh, rc) = Inr (?kh', rc)"
    using assms(2) by (simp add: key_incref_def load_key_def)
  from vector_add_result [where inc = key_incref and r = "(?kh, rc)", OF wf(1) assms(4) inc] obtain v where
    v: "vector_add key_incref ?p (smap, ?kh, rc) = Inr (word_of_nat (vec_n smap), v, ?kh', rc)" "vec_wf v"
      "vec_list v = vec_list smap @ [?p]" "vec_opts v = vec_opts smap" by blast
  have n: "vec_n v = vec_n smap + 1" using length_vec_list [OF v(2)] length_vec_list [OF wf(1)] v(3) by simp
  have fresh: "?p \<notin> set (vec_list smap)" using wf(4) assms(3) by auto
  have "small_map_insert alloc garbage key data (smap, kh, rc) = Inr (v, ?kh', rc)"
    using v(1) assms(2) by (simp add: small_map_insert_def Let_def)
  moreover have "sm_wf (v, ?kh', rc)"
    using wf v n fresh assms(2,4) by (auto simp: sm_wf_def)
  moreover have "sm_list (v, ?kh', rc) = sm_list (smap, kh, rc) @ [(key, data)]"
    using v(3) fresh by (auto simp: sm_list_def entry_of_def)
  ultimately show ?thesis using n by blast
qed

lemma find_key_result:
  assumes "sm_wf (smap, kh, rc)" "set is \<subseteq> {..<vec_n smap}"
    and "\<forall>p \<in> set (vec_list smap). \<forall>k. kh p = Some k \<longrightarrow> P k = Inr (Q (entry_of kh p))"
  shows "find_key P smap kh is =
    Inr (map_option (\<lambda>i. (i, vec_list smap ! i)) (find (\<lambda>i. Q (sm_list (smap, kh, rc) ! i)) is))"
  using assms(2)
proof (induction "is")
  case (Cons i "is")
  have wf: "vec_wf smap" using assms(1) by (simp add: sm_wf_def)
  let ?p = "vec_list smap ! i"
  have i: "i < vec_n smap" "?p \<in> set (vec_list smap)" using Cons.prems length_vec_list [OF wf] by auto
  then obtain k where k: "?p \<noteq> 0" "kh ?p = Some k" using assms(1) by (auto simp: sm_wf_def)
  have "P k = Inr (Q (entry_of kh ?p))" using assms(3) i(2) k(2) by blast
  then show ?case
    using Cons i k length_vec_list [OF wf]
    by (simp add: vector_get_def load_vec [OF wf] load_key_def sm_list_def)
qed simp

lemma same_key_result:
  assumes "sm_wf (smap, kh, rc)"
  shows "\<forall>p \<in> set (vec_list smap). \<forall>k. kh p = Some k \<longrightarrow> same_key key k = Inr (key = fst (entry_of kh p))"
  using assms by (auto simp: sm_wf_def same_key_def key_string_def entry_of_def split: option.split)

lemma find_index: "map_option ((!) xs) (find (\<lambda>i. Q (xs ! i)) [0..<length xs]) = find Q xs"
proof (induction xs)
  case (Cons x xs)
  have "[0..<length (x # xs)] = 0 # map Suc [0..<length xs]" by (simp add: upt_conv_Cons map_Suc_upt del: upt_Suc)
  moreover have "find R (map Suc is) = map_option Suc (find (\<lambda>i. R (Suc i)) is)" for R and "is" :: "nat list"
    by (induction "is") auto
  ultimately show ?case using Cons by (auto simp: option.map_comp comp_def simp del: upt_Suc)
qed simp

lemma small_map_get_result:
  assumes "sm_wf st"
  shows "small_map_get key st = Inr (case map_of (sm_list st) key of None \<Rightarrow> 0 | Some d \<Rightarrow> d)"
proof -
  obtain smap kh rc where st: "st = (smap, kh, rc)" by (cases st)
  have wf: "vec_wf smap" using assms by (simp add: sm_wf_def st)
  let ?f = "find (\<lambda>i. key = fst (sm_list st ! i)) [0..<vec_n smap]"
  have found: "find_key (same_key key) smap kh [0..<vec_n smap] = Inr (map_option (\<lambda>i. (i, vec_list smap ! i)) ?f)"
    using find_key_result [of smap kh rc "[0..<vec_n smap]" "same_key key" "\<lambda>e. key = fst e"] assms
      same_key_result [of smap kh rc key] by (auto simp: st lessThan_atLeast0)
  have len: "length (sm_list st) = vec_n smap" by (simp add: sm_list_def st length_vec_list [OF wf])
  have first: "map_option ((!) (sm_list st)) ?f = find (\<lambda>e. key = fst e) (sm_list st)"
    using find_index [of "sm_list st" "\<lambda>e. key = fst e"] len by simp
  have assoc: "map_of xs key = map_option snd (find (\<lambda>e. key = fst e) xs)" for xs :: "(string \<times> u64) list"
    by (induction xs) auto
  show ?thesis
  proof (cases ?f)
    case None
    then show ?thesis using found first by (simp add: small_map_get_def st assoc)
  next
    case (Some i)
    then have i: "i < vec_n smap" using find_SomeD [OF Some] by simp
    then have "vec_list smap ! i \<in> set (vec_list smap)" using length_vec_list [OF wf] by simp
    then obtain k where k: "vec_list smap ! i \<noteq> 0" "kh (vec_list smap ! i) = Some k"
      using assms by (auto simp: sm_wf_def st)
    have "sm_list st ! i = (the (sk_key k), sk_data_ptr k)"
      using i k length_vec_list [OF wf] by (simp add: sm_list_def st entry_of_def)
    then have "map_of (sm_list st) key = Some (sk_data_ptr k)" using first [symmetric] Some by (simp add: assoc)
    moreover have "small_map_get key st = Inr (sk_data_ptr k)"
      using found Some k by (simp add: small_map_get_def st load_key_def)
    ultimately show ?thesis by simp
  qed
qed

lemma delete_outcome:
  assumes "sm_wf (smap, kh, rc)" "map_of (sm_list (smap, kh, rc)) key = Some d"
  obtains i k where "i < vec_n smap" "kh (vec_list smap ! i) = Some k" "vec_list smap ! i \<noteq> 0" "sk_key k = Some key"
    "small_map_delete key (smap, kh, rc) = small_map_delete_at i (vec_list smap ! i) (smap, kh, rc)"
proof -
  let ?xs = "sm_list (smap, kh, rc)"
  have wf: "vec_wf smap" using assms(1) by (simp add: sm_wf_def)
  let ?f = "find (\<lambda>i. key = fst (?xs ! i)) [0..<vec_n smap]"
  have found: "find_key (same_key key) smap kh [0..<vec_n smap] = Inr (map_option (\<lambda>i. (i, vec_list smap ! i)) ?f)"
    using find_key_result [of smap kh rc "[0..<vec_n smap]" "same_key key" "\<lambda>e. key = fst e"] assms(1)
      same_key_result [of smap kh rc key] by (auto simp: lessThan_atLeast0)
  have len: "length ?xs = vec_n smap" by (simp add: sm_list_def length_vec_list [OF wf])
  from assms(2) have "key \<in> fst ` set ?xs" by (force dest: map_of_SomeD)
  then obtain j where "j < vec_n smap" "key = fst (?xs ! j)" using len by (auto simp: in_set_conv_nth image_iff)
  then have "?f \<noteq> None" by (auto simp: find_None_iff)
  then obtain i where f: "?f = Some i" by auto
  then have i: "i < vec_n smap" "key = fst (?xs ! i)" using find_SomeD [OF f] by simp_all
  then have "vec_list smap ! i \<in> set (vec_list smap)" using length_vec_list [OF wf] by simp
  then obtain k where k: "vec_list smap ! i \<noteq> 0" "kh (vec_list smap ! i) = Some k" "sk_key k \<noteq> None"
    using assms(1) by (auto simp: sm_wf_def)
  moreover have "sk_key k = Some key"
    using i k length_vec_list [OF wf] by (auto simp: sm_list_def entry_of_def)
  ultimately show ?thesis using that [of i k] i(1) found f by (simp add: small_map_delete_def)
qed

section \<open>Properties\<close>

text \<open>A small map is an association list that never overwrites: inserting a new key makes it
  readable and leaves every other key alone, while inserting a key that is there changes
  nothing that can be read, because lookups return the oldest entry.\<close>

theorem small_map_first_wins:
  assumes "sm_wf (smap, kh, rc)" "alloc kh \<noteq> 0" "kh (alloc kh) = None" "vec_n smap + 1 < 2 ^ 31"
  shows "\<exists>st'. small_map_insert alloc garbage key data (smap, kh, rc) = Inr st' \<and> sm_wf st' \<and>
    small_map_get k st' = (if k = key \<and> key \<notin> fst ` set (sm_list (smap, kh, rc)) then Inr data
      else small_map_get k (smap, kh, rc))"
proof -
  obtain st' where st': "small_map_insert alloc garbage key data (smap, kh, rc) = Inr st'" "sm_wf st'"
    "sm_list st' = sm_list (smap, kh, rc) @ [(key, data)]"
    using insert_entry [where alloc = alloc and kh = kh, OF assms, of garbage key data] by blast
  moreover have "key \<notin> fst ` set (sm_list (smap, kh, rc)) \<longleftrightarrow> map_of (sm_list (smap, kh, rc)) key = None"
    by (rule map_of_eq_None_iff [symmetric])
  ultimately show ?thesis
    using assms(1)
    by (cases "map_of (sm_list (smap, kh, rc)) key"; cases "map_of (sm_list (smap, kh, rc)) k")
      (auto simp: small_map_get_result map_add_def simp del: map_of_eq_None_iff)
qed

definition free_key :: "key_heap \<Rightarrow> u64" where
  "free_key kh = (if kh 1 = None then 1 else 2)"

lemma small_map_first_wins_witness:
  "\<exists>st'. small_map_insert free_key 5 ''amd64'' 16 (small_map_new 4, Map.empty, Map.empty) = Inr st' \<and> sm_wf st' \<and>
    small_map_get ''amd64'' st' =
      (if ''amd64'' = ''amd64'' \<and> ''amd64'' \<notin> fst ` set (sm_list (small_map_new 4, Map.empty, Map.empty)) then Inr 16
       else small_map_get ''amd64'' (small_map_new 4, Map.empty, Map.empty))"
  by (rule small_map_first_wins [OF small_map_new_wf(1)])
    (simp_all add: free_key_def small_map_new_def vector_allocate_to_size_def vector_new_def)

text \<open>Deleting a key that is there never works on a map whose counts started at 0: unless the
  removal itself copies overlapping ranges, the string of the key is freed twice.\<close>

theorem small_map_delete_fails:
  assumes "sm_wf (smap, kh, rc)" "map_of (sm_list (smap, kh, rc)) key = Some d"
    and "\<forall>p \<in> set (vec_list smap). \<forall>k. kh p = Some k \<longrightarrow> sk_refs k \<le> 1"
  shows "small_map_delete key (smap, kh, rc) \<in> {Inl Overlapping_Copy, Inl Use_After_Free}"
proof (rule delete_outcome [OF assms(1,2)])
  fix i k
  let ?p = "vec_list smap ! i" and ?kh = "kh(vec_list smap ! i \<mapsto> k\<lparr>sk_key := None\<rparr>)"
  assume i: "i < vec_n smap" "kh ?p = Some k" "?p \<noteq> 0" "sk_key k = Some key"
    and del: "small_map_delete key (smap, kh, rc) = small_map_delete_at i ?p (smap, kh, rc)"
  have wf: "vec_wf smap" "vec_opts smap = 0" "vec_n smap < 2 ^ 31" using assms(1) by (simp_all add: sm_wf_def)
  have ui: "unat (word_of_nat i :: u32) = i" using i(1) wf(3) by (simp add: unat_of_nat)
  have "sk_refs k \<le> 1" using assms(3) i(1,2) length_vec_list [OF wf(1)] by (metis nth_mem)
  then have "sk_refs k = 0 \<or> sk_refs k - 1 = 0"
    by (metis diff_self unat_eq_zero word_le_nat_alt le_Suc_eq One_nat_def le_zero_eq unat_1 word_unat_eq_iff)
  then have dec: "key_decref ?p (?kh, rc) = Inl Use_After_Free"
    using i(3) by (auto simp: key_decref_def load_key_def small_map_key_free_def free_key_string_def key_string_def Let_def)
  have load: "load_cell i (vec_ptr smap) = Inr ?p" using load_vec [OF wf(1) i(1)] .
  have "vector_remove key_decref (word_of_nat i) (smap, ?kh, rc) \<in> {Inl Overlapping_Copy, Inl Use_After_Free}"
  proof (cases "prv_vector_remove_ordered i (smap\<lparr>vec_n := vec_n smap - 1\<rparr>)")
    case (Inl e)
    have "e = Overlapping_Copy"
    proof -
      have "vec_n smap < length (vec_ptr smap)" using wf(1) by (simp add: vec_wf_def)
      then show ?thesis
        using Inl load i(1)
        by (auto simp: prv_vector_remove_ordered_def remove_ordered_def memcpy_cells_def memmove_cells_def split: if_splits)
    qed
    with Inl show ?thesis
      using i(1) wf(2) by (simp add: vector_remove_def ui Let_def VECTOR_UNORDERED_def)
  next
    case (Inr r)
    then obtain v where r: "r = (?p, v)"
      using load by (auto simp: prv_vector_remove_ordered_def remove_ordered_def split: if_splits)
    then show ?thesis
      using Inr i(1) wf(2) dec by (simp add: vector_remove_def ui Let_def VECTOR_UNORDERED_def)
  qed
  moreover have "free_key_string ?p kh = Inr ?kh"
    using i by (simp add: free_key_string_def load_key_def key_string_def)
  ultimately show "small_map_delete key (smap, kh, rc) \<in> {Inl Overlapping_Copy, Inl Use_After_Free}"
    unfolding del by (auto simp: small_map_delete_at_def)
qed

definition one_key :: small_map where
  "one_key = (vec_of [1]\<lparr>vec_opts := 0\<rparr>, [1 \<mapsto> \<lparr>sk_key = Some ''amd64'', sk_data_ptr = 8, sk_refs = 1\<rparr>], [8 \<mapsto> 1])"

lemma small_map_delete_fails_witness:
  "small_map_delete ''amd64'' (fst one_key, fst (snd one_key), snd (snd one_key)) \<in> {Inl Overlapping_Copy, Inl Use_After_Free}"
  by (rule small_map_delete_fails)
    (simp_all add: one_key_def sm_wf_def sm_list_def entry_of_def vec_of_def vec_wf_def vec_list_def)

end
