(* ===== verification/Utils.thy ===== *)
theory Utils
  imports CString
begin

text \<open>
  The string functions of \<^verbatim>\<open>hacksaw/util.c\<close>. The file functions of that file only pass
  bytes between system calls and are not modelled.
\<close>

section \<open>Functions\<close>

fun find_from :: "string list \<Rightarrow> string \<Rightarrow> int \<Rightarrow> int" where
  "find_from [] element i = - 1"
| "find_from (s # rest) element i = (if strcmp element s = 0 then i else find_from rest element (i + 1))"

definition string_find :: "string list \<Rightarrow> string \<Rightarrow> int" where
  "string_find array element = find_from array element 0"

text \<open>
  The loop of \<^verbatim>\<open>fix_path\<close> starts behind the first character and ends when its index meets the
  length, which an empty string's never does. \<^verbatim>\<open>strcpy\<close> is called with overlapping strings.
\<close>

definition fix_path_loop :: "string \<Rightarrow> string result" where
  "fix_path_loop ptr = fold (\<lambda>i r. bindR r (\<lambda>ptr.
     if char_at ptr i = CHR ''/'' \<and> char_at ptr (i - 1) = CHR ''/'' then Inl Overlapping_Copy else Inr ptr))
     [1..<length ptr] (Inr ptr)"

definition fix_path :: "string \<Rightarrow> string result" where
  "fix_path ptr = (if ptr = [] then Inl Out_Of_Bounds else fix_path_loop ptr)"

text \<open>
  \<open>i\<close> skips the leading spaces; \<open>j\<close> starts at the terminating zero, which is not a space.
\<close>

fun skip_spaces :: "string \<Rightarrow> nat" where
  "skip_spaces [] = 0"
| "skip_spaces (c # s) = (if c = CHR '' '' then Suc (skip_spaces s) else 0)"

fun back_spaces :: "string \<Rightarrow> nat \<Rightarrow> nat \<Rightarrow> nat" where
  "back_spaces str i 0 = 0"
| "back_spaces str i (Suc j) = (if i < Suc j \<and> char_at str (Suc j) = CHR '' '' then back_spaces str i j else Suc j)"

definition string_strip :: "string \<Rightarrow> string" where
  "string_strip str =
     (let i = skip_spaces str; j = back_spaces str i (length str)
      in take (j - i) (drop i str))"

section \<open>What they do\<close>

lemma find_from_result:
  "find_from xs s k = (case str_pos of None \<Rightarrow> - 1 | Some i \<Rightarrow> k + int i)"
  if "str_pos = (if s \<in> set xs then Some (length (takeWhile (\<lambda>t. t \<noteq> s) xs)) else None)"
  using that by (induction xs arbitrary: k str_pos) (auto simp: strcmp_eq_0)

lemma string_find_result:
  "string_find xs s = (if s \<in> set xs then int (length (takeWhile (\<lambda>t. t \<noteq> s) xs)) else - 1)"
  by (simp add: string_find_def find_from_result [OF refl])

text \<open>Trailing spaces stay.\<close>

lemma string_strip_result: "string_strip s = dropWhile (\<lambda>c. c = CHR '' '') s"
proof -
  have "back_spaces s i (length s) = length s" for i
    by (cases "length s") (auto simp: char_at_def)
  moreover have "drop (skip_spaces s) s = dropWhile (\<lambda>c. c = CHR '' '') s"
    by (induction s) auto
  ultimately show ?thesis by (simp add: string_strip_def Let_def)
qed

text \<open>\<^verbatim>\<open>fix_path\<close> has a defined result on paths without a double slash only, which it leaves alone.\<close>

definition double_slash :: "string \<Rightarrow> bool" where
  "double_slash s \<longleftrightarrow> (\<exists>i. Suc i < length s \<and> s ! i = CHR ''/'' \<and> s ! Suc i = CHR ''/'')"

lemma fix_path_fold:
  "fold (\<lambda>i r. bindR r (\<lambda>s. if P s i then Inl e else Inr s)) is (Inr s) =
    (if \<exists>i \<in> set is. P s i then Inl e else Inr s)"
  by (induction "is") auto

lemma fix_path_result:
  "fix_path s = (if s = [] then Inl Out_Of_Bounds else if double_slash s then Inl Overlapping_Copy else Inr s)"
proof -
  have "(\<exists>i \<in> set [1..<length s]. char_at s i = CHR ''/'' \<and> char_at s (i - 1) = CHR ''/'') \<longleftrightarrow> double_slash s"
    (is "?l \<longleftrightarrow> _")
  proof
    assume ?l
    then obtain i where "1 \<le> i" "i < length s" "s ! i = CHR ''/''" "s ! (i - 1) = CHR ''/''"
      by (auto simp: char_at_def split: if_splits)
    then show "double_slash s" unfolding double_slash_def by (intro exI [of _ "i - 1"]) auto
  next
    assume "double_slash s"
    then obtain i where "Suc i < length s" "s ! i = CHR ''/''" "s ! Suc i = CHR ''/''" by (auto simp: double_slash_def)
    then show ?l by (intro bexI [of _ "Suc i"]) (auto simp: char_at_def)
  qed
  then show ?thesis unfolding fix_path_def fix_path_loop_def fix_path_fold by simp
qed

end
