(* ===== verification/Iteration.thy ===== *)
theory Iteration
  imports Packages
begin

text \<open>
  Iteration from Python over the linked objects of \<^verbatim>\<open>cportage\<close>: lists of use flags, of
  dependencies and of required use expressions, whose head carries the position of the loop,
  and packages, whose iterator is their newest ebuild.
\<close>

section \<open>Python's loop\<close>

text \<open>
  A \<^verbatim>\<open>for\<close> statement calls the iterator's next function until it answers with a null
  pointer; both it and the body may change the state. A loop that does not end is \<open>None\<close>.
\<close>

partial_function (option) py_for :: "('s \<Rightarrow> ('x \<times> 's) option) \<Rightarrow> ('x \<Rightarrow> 's \<Rightarrow> 's option) \<Rightarrow> 's \<Rightarrow> 's option" where
  "py_for nxt body s = (case nxt s of None \<Rightarrow> Some s
     | Some (x, s) \<Rightarrow> Option.bind (body x s) (py_for nxt body))"

section \<open>Linked lists\<close>

text \<open>
  The members \<^verbatim>\<open>next\<close> and \<^verbatim>\<open>PyIterator_self__\<close> of the objects, which are numbered; \<open>None\<close> is
  a null pointer. The three types have functions of their own that do the same.
\<close>

record links =
  next_of :: "nat \<Rightarrow> nat option"
  iter_of :: "nat \<Rightarrow> nat option"

definition PyDependency_iter :: "nat \<Rightarrow> links \<Rightarrow> nat \<times> links" where
  "PyDependency_iter self h = (self, h\<lparr>iter_of := (iter_of h)(self := Some self)\<rparr>)"

definition PyDependency_next :: "nat \<Rightarrow> links \<Rightarrow> (nat \<times> links) option" where
  "PyDependency_next self h = (case iter_of h self of
     None \<Rightarrow> None
   | Some out \<Rightarrow> Some (out, h\<lparr>iter_of := (iter_of h)(self := next_of h out)\<rparr>))"

definition PyRequiredUse_iter :: "nat \<Rightarrow> links \<Rightarrow> nat \<times> links" where
  "PyRequiredUse_iter self h = (self, h\<lparr>iter_of := (iter_of h)(self := Some self)\<rparr>)"

definition PyRequiredUse_next :: "nat \<Rightarrow> links \<Rightarrow> (nat \<times> links) option" where
  "PyRequiredUse_next self h = (case iter_of h self of
     None \<Rightarrow> None
   | Some out \<Rightarrow> Some (out, h\<lparr>iter_of := (iter_of h)(self := next_of h out)\<rparr>))"

definition PyAtomFlag_iter :: "nat \<Rightarrow> links \<Rightarrow> nat \<times> links" where
  "PyAtomFlag_iter self h = (self, h\<lparr>iter_of := (iter_of h)(self := Some self)\<rparr>)"

definition PyAtomFlag_next :: "nat \<Rightarrow> links \<Rightarrow> (nat \<times> links) option" where
  "PyAtomFlag_next self h = (case iter_of h self of
     None \<Rightarrow> None
   | Some out \<Rightarrow> Some (out, h\<lparr>iter_of := (iter_of h)(self := next_of h out)\<rparr>))"

text \<open>A loop over a list with a state of its own beside the objects.\<close>

definition next_in :: "(nat \<Rightarrow> links \<Rightarrow> (nat \<times> links) option) \<Rightarrow> nat \<Rightarrow> links \<times> 'a \<Rightarrow> (nat \<times> links \<times> 'a) option" where
  "next_in nxt self s = map_option (\<lambda>(x, h). (x, h, snd s)) (nxt self (fst s))"

definition for_each :: "(nat \<Rightarrow> links \<Rightarrow> nat \<times> links) \<Rightarrow> (nat \<Rightarrow> links \<Rightarrow> (nat \<times> links) option) \<Rightarrow> nat \<Rightarrow>
    (nat \<Rightarrow> links \<times> 'a \<Rightarrow> (links \<times> 'a) option) \<Rightarrow> links \<times> 'a \<Rightarrow> (links \<times> 'a) option" where
  "for_each iter nxt x body s = (let (it, h) = iter x (fst s) in py_for (next_in nxt it) body (h, snd s))"

section \<open>The list an object is the head of\<close>

fun chain :: "(nat \<Rightarrow> nat option) \<Rightarrow> nat option \<Rightarrow> nat list \<Rightarrow> bool" where
  "chain nx p [] \<longleftrightarrow> p = None"
| "chain nx p (x # xs) \<longleftrightarrow> p = Some x \<and> chain nx (nx x) xs"

lemma loop_over_chain:
  assumes "chain (next_of h) p xs" "iter_of h self = p" "nxt = PyDependency_next"
    and "\<And>x h' a. x \<in> set xs \<Longrightarrow> next_of h' = next_of h \<Longrightarrow> body x (h', a) = Some (h', step x a)"
  shows "py_for (next_in nxt self) body (h, a) =
    Some (h\<lparr>iter_of := (iter_of h)(self := None)\<rparr>, fold step xs a)"
  using assms
proof (induction xs arbitrary: h p a)
  case Nil
  then have "iter_of h self = None" by simp
  then have "h\<lparr>iter_of := (iter_of h)(self := None)\<rparr> = h" by (simp add: fun_upd_idem)
  with Nil show ?case by (subst py_for.simps) (simp add: next_in_def PyDependency_next_def)
next
  case (Cons x xs)
  let ?h = "h\<lparr>iter_of := (iter_of h)(self := next_of h x)\<rparr>"
  have "py_for (next_in nxt self) body (?h, step x a) =
    Some (?h\<lparr>iter_of := (iter_of ?h)(self := None)\<rparr>, fold step xs (step x a))"
    by (rule Cons.IH) (use Cons.prems in simp_all)
  moreover have "body x (?h, a) = Some (?h, step x a)" using Cons.prems(4) by simp
  ultimately show ?case
    using Cons.prems by (subst py_for.simps) (simp add: next_in_def PyDependency_next_def)
qed

section \<open>Packages\<close>

text \<open>The \<^verbatim>\<open>older\<close> member of an ebuild; 0 is the null pointer.\<close>

fun older_in :: "u64 list \<Rightarrow> u64 \<Rightarrow> u64" where
  "older_in (x # y # xs) a = (if x = a then y else older_in (y # xs) a)"
| "older_in _ a = 0"

text \<open>The next function of an ebuild does not advance: it answers the same each time.\<close>

definition PyEbuild_next :: "world \<Rightarrow> u64 \<Rightarrow> u64 result" where
  "PyEbuild_next w self =
     bindR (the_ebuild w self) (\<lambda>e.
       if package e = 0 then Inr 0
       else bindR (the_package w (package e)) (\<lambda>p. Inr (older_in (ebuilds p) self)))"

definition PyPackage_iter :: "world \<Rightarrow> u64 \<Rightarrow> u64 result" where
  "PyPackage_iter w self =
     bindR (the_package w self) (\<lambda>p. Inr (case ebuilds p of [] \<Rightarrow> 0 | e # _ \<Rightarrow> e))"

text \<open>The body of such a loop may leave it with \<^verbatim>\<open>break\<close>; \<open>None\<close> is a body that does not end.\<close>

datatype 's round = Break 's | Continue 's

partial_function (option) for_ebuild :: "world \<Rightarrow> (u64 \<Rightarrow> 's \<Rightarrow> 's round option) \<Rightarrow> u64 \<Rightarrow> 's \<Rightarrow> 's result option" where
  "for_ebuild w body it s = (case PyEbuild_next w it of
     Inl e \<Rightarrow> Some (Inl e)
   | Inr x \<Rightarrow> if x = 0 then Some (Inr s)
       else Option.bind (body x s) (\<lambda>r. case r of Break s \<Rightarrow> Some (Inr s) | Continue s \<Rightarrow> for_ebuild w body it s))"

text \<open>An iterator that is a null pointer raises an error in Python.\<close>

definition for_package :: "world \<Rightarrow> (u64 \<Rightarrow> 's \<Rightarrow> 's round option) \<Rightarrow> u64 \<Rightarrow> 's \<Rightarrow> 's py result option" where
  "for_package w body self s = (case PyPackage_iter w self of
     Inl e \<Rightarrow> Some (Inl e)
   | Inr it \<Rightarrow> if it = 0 then Some (Inr (Raise SystemError))
       else map_option (\<lambda>r. bindR r (\<lambda>s. Inr (Return s))) (for_ebuild w body it s))"

section \<open>Properties\<close>

lemma same_functions:
  "PyRequiredUse_iter = PyDependency_iter" "PyRequiredUse_next = PyDependency_next"
  "PyAtomFlag_iter = PyDependency_iter" "PyAtomFlag_next = PyDependency_next"
  by (auto intro!: ext simp: PyRequiredUse_iter_def PyDependency_iter_def PyRequiredUse_next_def PyDependency_next_def
      PyAtomFlag_iter_def PyAtomFlag_next_def)

lemma fold_snoc [simp]: "fold (\<lambda>b out. out @ [f b]) xs out = out @ map f xs"
  by (induction xs arbitrary: out) simp_all

lemma for_each_chain:
  assumes "chain (next_of h) (Some x) xs"
    and "\<And>y h' a. y \<in> set xs \<Longrightarrow> next_of h' = next_of h \<Longrightarrow> body y (h', a) = Some (h', step y a)"
  shows "for_each PyDependency_iter PyDependency_next x body (h, a) =
    Some (h\<lparr>iter_of := (iter_of h)(x := None)\<rparr>, fold step xs a)"
proof -
  let ?h = "h\<lparr>iter_of := (iter_of h)(x := Some x)\<rparr>"
  have "py_for (next_in PyDependency_next x) body (?h, a) =
    Some (?h\<lparr>iter_of := (iter_of ?h)(x := None)\<rparr>, fold step xs a)"
    by (rule loop_over_chain [OF _ _ refl]) (use assms in simp_all)
  then show ?thesis by (simp add: for_each_def PyDependency_iter_def)
qed

text \<open>Iterating over a list of use flags, dependencies or required use expressions visits its objects
  in order and ends. The position is kept in the head, so a loop inside a loop over the same
  object ends the outer loop in its first round.\<close>

theorem linked_iteration:
  assumes "chain (next_of h) (Some x) xs"
    and "(iter, nxt) \<in> {(PyDependency_iter, PyDependency_next), (PyRequiredUse_iter, PyRequiredUse_next),
      (PyAtomFlag_iter, PyAtomFlag_next)}"
  shows "for_each iter nxt x (\<lambda>y (h, out). Some (h, out @ [y])) (h, []) =
      Some (h\<lparr>iter_of := (iter_of h)(x := None)\<rparr>, xs) \<and>
    for_each iter nxt x (\<lambda>y. for_each iter nxt x (\<lambda>z (h, out). Some (h, out @ [(y, z)]))) (h, []) =
      Some (h\<lparr>iter_of := (iter_of h)(x := None)\<rparr>, map (Pair x) xs)"
proof -
  have f: "iter = PyDependency_iter" "nxt = PyDependency_next" using assms(2) by (auto simp: same_functions)
  let ?it = "\<lambda>p. h\<lparr>iter_of := (iter_of h)(x := p)\<rparr>"
  let ?in = "\<lambda>y. for_each PyDependency_iter PyDependency_next x (\<lambda>z (h, out). Some (h, out @ [(y, z)]))"
  have "for_each PyDependency_iter PyDependency_next x (\<lambda>y (h, out). Some (h, out @ [y])) (h, []) =
    Some (?it None, fold (\<lambda>y out. out @ [y]) xs [])"
    by (rule for_each_chain [OF assms(1)]) simp
  moreover have inner: "?in x (?it p, []) = Some (?it None, map (Pair x) xs)" for p
    by (subst for_each_chain [where step = "\<lambda>z out. out @ [(x, z)]" and xs = xs]) (use assms(1) in simp_all)
  have ended: "py_for (next_in PyDependency_next x) ?in (?it None, out) = Some (?it None, out)" for out
    by (subst py_for.simps) (simp add: next_in_def PyDependency_next_def)
  have "py_for (next_in PyDependency_next x) ?in (?it (Some x), []) = Some (?it None, map (Pair x) xs)"
    using ended [of "map (Pair x) xs"]
    by (subst py_for.simps) (simp add: next_in_def PyDependency_next_def inner)
  then have "for_each PyDependency_iter PyDependency_next x ?in (h, []) = Some (?it None, map (Pair x) xs)"
    by (simp add: for_each_def PyDependency_iter_def)
  ultimately show ?thesis unfolding f by simp
qed

definition three :: links where
  "three = \<lparr>next_of = (\<lambda>i. if i < 2 then Some (Suc i) else None), iter_of = (\<lambda>_. None)\<rparr>"

lemma linked_iteration_witness:
  "for_each PyRequiredUse_iter PyRequiredUse_next 0 (\<lambda>y (h, out). Some (h, out @ [y])) (three, []) =
      Some (three\<lparr>iter_of := (iter_of three)(0 := None)\<rparr>, [0, 1, 2]) \<and>
    for_each PyRequiredUse_iter PyRequiredUse_next 0 (\<lambda>y. for_each PyRequiredUse_iter PyRequiredUse_next 0
        (\<lambda>z (h, out). Some (h, out @ [(y, z)]))) (three, []) =
      Some (three\<lparr>iter_of := (iter_of three)(0 := None)\<rparr>, map (Pair 0) [0, 1, 2])"
  by (rule linked_iteration) (simp_all add: three_def)

text \<open>One thing done over and over, until it breaks off.\<close>

partial_function (option) repeat_until_break :: "('s \<Rightarrow> 's round option) \<Rightarrow> 's \<Rightarrow> 's option" where
  "repeat_until_break f s =
     Option.bind (f s) (\<lambda>r. case r of Break s \<Rightarrow> Some s | Continue s \<Rightarrow> repeat_until_break f s)"

lemma repeat_diverges:
  assumes "\<And>s. \<exists>s'. f s = Some (Continue s')"
  shows "repeat_until_break f s = None"
proof -
  have "repeat_until_break f' s' = Some r \<Longrightarrow> f' \<noteq> f" for f' :: "'a \<Rightarrow> 'a round option" and s' r
  proof (induction rule: repeat_until_break.raw_induct [rotated, consumes 1])
    case (1 g f' s' r)
    show ?case
    proof
      assume "f' = f"
      with 1 assms [of s'] obtain s'' where "g f s'' = Some r" by auto
      with 1(1) show False by blast
    qed
  qed
  then show ?thesis by (cases "repeat_until_break f s") blast+
qed

lemma repeat_for_ebuild:
  "repeat_until_break f s = Some r \<Longrightarrow> PyEbuild_next w it = Inr x \<Longrightarrow> x \<noteq> 0 \<Longrightarrow> f = body x \<Longrightarrow>
    for_ebuild w body it s = Some (Inr r)"
proof (induction rule: repeat_until_break.raw_induct [rotated, consumes 1])
  case (1 g f s r)
  then obtain y where y: "f s = Some y" "(case y of Break s \<Rightarrow> Some s | Continue s \<Rightarrow> g f s) = Some r"
    by (auto simp: bind_eq_Some_conv)
  show ?case
  proof (cases y)
    case (Break s')
    with 1 y show ?thesis by (subst for_ebuild.simps) simp
  next
    case (Continue s')
    with 1(1) [of f s' r] 1 y show ?thesis by (subst for_ebuild.simps) simp
  qed
qed

lemma for_ebuild_repeat:
  "for_ebuild w body it s = Some r \<Longrightarrow> PyEbuild_next w it = Inr x \<Longrightarrow> x \<noteq> 0 \<Longrightarrow>
    \<exists>s'. r = Inr s' \<and> repeat_until_break (body x) s = Some s'"
proof (induction rule: for_ebuild.raw_induct [rotated, consumes 1])
  case (1 g w body it s r)
  then obtain y where y: "body x s = Some y" "(case y of Break s \<Rightarrow> Some (Inr s) | Continue s \<Rightarrow> g w body it s) = Some r"
    by (auto simp: bind_eq_Some_conv)
  show ?case
  proof (cases y)
    case (Break s')
    with y show ?thesis by (subst repeat_until_break.simps) simp
  next
    case (Continue s')
    with 1(1) [of w body it s' r] 1(3,4) y show ?thesis by (subst repeat_until_break.simps) simp
  qed
qed

lemma for_ebuild_same:
  assumes "PyEbuild_next w it = Inr x" "x \<noteq> 0"
  shows "for_ebuild w body it s = map_option Inr (repeat_until_break (body x) s)"
proof (cases "repeat_until_break (body x) s")
  case None
  with for_ebuild_repeat [OF _ assms, of body s] show ?thesis by (cases "for_ebuild w body it s") auto
next
  case (Some r)
  with repeat_for_ebuild [OF Some assms, of body] show ?thesis by simp
qed

text \<open>C36: What a loop over a package does: its iterator is the newest ebuild, whose next function
  answers with the second newest each time. So with two or more ebuilds the body runs with the
  second newest over and over, until it breaks the loop, which never ends if it does not; the newest
  ebuild and those after the second are never visited. With one ebuild the body does not run, and a
  package without ebuilds is refused with \<^verbatim>\<open>SystemError\<close>.\<close>

theorem package_iteration:
  assumes "the_package w self = Inr p" "self \<noteq> 0" "0 \<notin> set (ebuilds p)"
    and "\<forall>a \<in> set (ebuilds p). \<exists>e. the_ebuild w a = Inr e \<and> package e = self"
  shows "for_package w body self s = (case ebuilds p of
     [] \<Rightarrow> Some (Inr (Raise SystemError))
   | [newest] \<Rightarrow> Some (Inr (Return s))
   | newest # second # rest \<Rightarrow> map_option (\<lambda>s. Inr (Return s)) (repeat_until_break (body second) s)) \<and>
   ((\<forall>x s. \<exists>s'. body x s = Some (Continue s')) \<and> 2 \<le> length (ebuilds p) \<longrightarrow> for_package w body self s = None)"
proof (cases "ebuilds p")
  case Nil
  then show ?thesis by (simp add: for_package_def PyPackage_iter_def assms(1))
next
  case (Cons newest es)
  then have n: "newest \<noteq> 0" using assms(3) by auto
  obtain e where e: "the_ebuild w newest = Inr e" "package e = self" using assms(4) Cons by auto
  have nx: "PyEbuild_next w newest = Inr (older_in (ebuilds p) newest)"
    using assms(1,2) by (simp add: PyEbuild_next_def e)
  show ?thesis
  proof (cases es)
    case Nil
    then show ?thesis using Cons n nx
      by (simp add: for_package_def PyPackage_iter_def assms(1)) (subst for_ebuild.simps, simp)
  next
    case es: (Cons second rest)
    then have "second \<noteq> 0" using assms(3) Cons by auto
    moreover have "PyEbuild_next w newest = Inr second" using nx Cons es by simp
    ultimately have "for_ebuild w body newest s = map_option Inr (repeat_until_break (body second) s)"
      by (intro for_ebuild_same)
    then have "for_package w body self s = map_option (\<lambda>s. Inr (Return s)) (repeat_until_break (body second) s)"
      using Cons n by (simp add: for_package_def PyPackage_iter_def assms(1) option.map_comp comp_def)
    then show ?thesis using Cons es repeat_diverges [of "body second" s] by simp
  qed
qed

text \<open>A body that collects what it is given and leaves the loop in the third round, and one that does not.\<close>

definition third_round :: "u64 \<Rightarrow> u64 list \<Rightarrow> u64 list round option" where
  "third_round x out = Some (if length out = 2 then Break (out @ [x]) else Continue (out @ [x]))"

lemma package_iteration_witness:
  "for_package sample_world third_round 16 [] = Some (Inr (Return [1, 1, 1])) \<and>
   for_package sample_world (\<lambda>x out. Some (Continue (out @ [x]))) 16 [] = None"
proof -
  let ?p = "package_new\<lparr>pkg_key := Some ''a/b'', ebuilds := [2, 1]\<rparr>"
  have p: "the_package sample_world 16 = Inr ?p" by (simp add: the_package_def sample_world_def)
  have "\<forall>a \<in> set (ebuilds ?p). \<exists>e. the_ebuild sample_world a = Inr e \<and> package e = 16"
    by (simp add: the_ebuild_def sample_world_def sample_ebuild_def)
  note loop = package_iteration [OF p _ _ this]
  have "repeat_until_break (third_round 1) [] = Some [1, 1, 1]"
    by (subst repeat_until_break.simps, simp add: third_round_def)+
  then have "for_package sample_world third_round 16 [] = Some (Inr (Return [1, 1, 1]))"
    using loop [of third_round "[]"] by simp
  moreover have "for_package sample_world (\<lambda>x out. Some (Continue (out @ [x]))) 16 [] = None"
    by (rule mp [OF conjunct2 [OF loop]]) simp_all
  ultimately show ?thesis ..
qed

end
