(* ===== verification/Dealloc.thy ===== *)
theory Dealloc
  imports Prelude "HOL-Library.Multiset" "HOL-Library.Product_Lexorder"
begin

text \<open>
  Deallocation of the Python objects of \<^verbatim>\<open>cportage\<close>. Each object has a reference count; when
  it falls to zero the function of its type drops the references the object holds, which may
  deallocate further objects, and then frees it. What an object refers to is read off the struct
  declarations of the headers, what its function drops off the \<^verbatim>\<open>dealloc\<close> functions, and the
  two are compared. Strings belong to one object and are left out.
\<close>

section \<open>Objects\<close>

text \<open>
  A dictionary or another object of Python itself is \<open>Dict_Type n\<close> with \<open>n\<close> values; the members of
  an object are addresses, 0 is a null pointer.
\<close>

datatype py_type =
    Dependency_Type
  | RequiredUse_Type
  | AtomFlag_Type
  | AtomVersion_Type
  | Atom_Type
  | Ebuild_Type
  | Package_Type
  | Dict_Type nat

datatype member =
    M_atom | M_children | M_next | M_PyIterator_self
  | M_depend | M_bdepend | M_rdepend | M_pdepend | M_iuse | M_required_use | M_src_uri
  | M_version | M_useflags | M_package | M_older | M_ebuilds
  | M_value nat

type_synonym py_obj = "py_type \<times> (member \<Rightarrow> u64)"

text \<open>The members of the structs that point to Python objects, in the order of the declarations.\<close>

definition Dependency_prv :: "member list" where
  "Dependency_prv = [M_atom, M_children, M_next, M_PyIterator_self]"

definition RequiredUse_prv :: "member list" where
  "RequiredUse_prv = [M_depend, M_next, M_PyIterator_self]"

definition AtomFlag_prv :: "member list" where
  "AtomFlag_prv = [M_next, M_PyIterator_self]"

definition AtomVersion_prv :: "member list" where
  "AtomVersion_prv = [M_next]"

definition Atom_prv :: "member list" where
  "Atom_prv = [M_version, M_useflags]"

definition Ebuild_prv :: "member list" where
  "Ebuild_prv = [M_depend, M_bdepend, M_rdepend, M_pdepend, M_iuse, M_required_use, M_src_uri, M_version, M_package, M_older]"

definition Package_prv :: "member list" where
  "Package_prv = [M_ebuilds]"

fun struct_members :: "py_type \<Rightarrow> member list" where
  "struct_members Dependency_Type = Dependency_prv"
| "struct_members RequiredUse_Type = RequiredUse_prv"
| "struct_members AtomFlag_Type = AtomFlag_prv"
| "struct_members AtomVersion_Type = AtomVersion_prv"
| "struct_members Atom_Type = Atom_prv"
| "struct_members Ebuild_Type = Ebuild_prv"
| "struct_members Package_Type = Package_prv"
| "struct_members (Dict_Type n) = map M_value [0..<n]"

text \<open>
  Pointers that no reference is taken for: the position of an iteration, and the link of an
  ebuild back to its package.
\<close>

definition borrowed :: "member set" where
  "borrowed = {M_PyIterator_self, M_package}"

text \<open>The references an object holds: all other pointers in it.\<close>

definition references :: "py_obj \<Rightarrow> u64 list" where
  "references ob = map (snd ob) (filter (\<lambda>m. m \<notin> borrowed) (struct_members (fst ob)))"

section \<open>What the functions drop\<close>

definition PyDependency_dealloc :: "member list" where
  "PyDependency_dealloc = [M_atom, M_next, M_children]"

definition PyRequiredUse_dealloc :: "member list" where
  "PyRequiredUse_dealloc = [M_next, M_depend]"

definition PyAtomFlag_dealloc :: "member list" where
  "PyAtomFlag_dealloc = [M_next]"

definition PyAtomVersion_dealloc :: "member list" where
  "PyAtomVersion_dealloc = [M_next]"

definition PyAtom_dealloc :: "member list" where
  "PyAtom_dealloc = [M_useflags, M_version]"

definition PyEbuild_dealloc :: "member list" where
  "PyEbuild_dealloc =
     [M_older, M_depend, M_bdepend, M_rdepend, M_pdepend, M_iuse, M_required_use, M_src_uri, M_version]"

definition PyPackage_dealloc :: "member list" where
  "PyPackage_dealloc = [M_ebuilds]"

text \<open>The \<^verbatim>\<open>tp_dealloc\<close> of each type.\<close>

fun tp_dealloc :: "py_type \<Rightarrow> member list" where
  "tp_dealloc Dependency_Type = PyDependency_dealloc"
| "tp_dealloc RequiredUse_Type = PyRequiredUse_dealloc"
| "tp_dealloc AtomFlag_Type = PyAtomFlag_dealloc"
| "tp_dealloc AtomVersion_Type = PyAtomVersion_dealloc"
| "tp_dealloc Atom_Type = PyAtom_dealloc"
| "tp_dealloc Ebuild_Type = PyEbuild_dealloc"
| "tp_dealloc Package_Type = PyPackage_dealloc"
| "tp_dealloc (Dict_Type n) = map M_value [0..<n]"

definition drops :: "py_obj \<Rightarrow> u64 list" where
  "drops ob = map (snd ob) (tp_dealloc (fst ob))"

text \<open>Every function drops each reference of the object once, in an order of its own.\<close>

lemma dealloc_complete: "mset (tp_dealloc t) = mset (filter (\<lambda>m. m \<notin> borrowed) (struct_members t))"
  by (cases t) (simp_all add: borrowed_def PyDependency_dealloc_def PyRequiredUse_dealloc_def PyAtomFlag_dealloc_def
      PyAtomVersion_dealloc_def PyAtom_dealloc_def PyEbuild_dealloc_def PyPackage_dealloc_def Dependency_prv_def
      RequiredUse_prv_def AtomFlag_prv_def AtomVersion_prv_def Atom_prv_def Ebuild_prv_def Package_prv_def)

lemma drops_references: "mset (drops ob) = mset (references ob)"
  by (simp add: drops_def references_def dealloc_complete)

lemma drops_count: "count_list (drops ob) a = count_list (references ob) a"
  using drops_references [of ob] by (simp flip: count_mset)

section \<open>Dropping references\<close>

type_synonym py_heap = "u64 \<rightharpoonup> nat \<times> py_obj"

text \<open>
  \<^verbatim>\<open>Py_XDECREF\<close> on each of a list of objects. The references of an object that dies are
  dropped before the rest of the list, as the calls nest; it leaves the heap at once, so that
  a use of it during its own deallocation is an error.
\<close>

partial_function (option) Py_XDECREF :: "u64 list \<Rightarrow> py_heap \<Rightarrow> py_heap result option" where
  "Py_XDECREF obs h = (case obs of
     [] \<Rightarrow> Some (Inr h)
   | a # rest \<Rightarrow>
       if a = 0 then Py_XDECREF rest h
       else (case h a of
               None \<Rightarrow> Some (Inl Use_After_Free)
             | Some (n, ob) \<Rightarrow>
                 if 1 < n then Py_XDECREF rest (h(a \<mapsto> (n - 1, ob)))
                 else Py_XDECREF (drops ob @ rest) (h(a := None))))"

section \<open>Counts that match\<close>

definition refs_of :: "py_heap \<Rightarrow> u64 \<Rightarrow> u64 list" where
  "refs_of h b = (case h b of None \<Rightarrow> [] | Some (n, ob) \<Rightarrow> references ob)"

text \<open>The references to an object from the heap; the others, \<open>ext a\<close>, are held elsewhere.\<close>

definition held :: "py_heap \<Rightarrow> u64 \<Rightarrow> nat" where
  "held h a = (\<Sum>b \<in> dom h. count_list (refs_of h b) a)"

definition count_at :: "py_heap \<Rightarrow> u64 \<Rightarrow> nat" where
  "count_at h a = (case h a of None \<Rightarrow> 0 | Some (n, ob) \<Rightarrow> n)"

definition counted :: "(u64 \<Rightarrow> nat) \<Rightarrow> py_heap \<Rightarrow> bool" where
  "counted ext h \<longleftrightarrow> finite (dom h) \<and> h 0 = None \<and> (\<forall>a \<in> dom h. 0 < count_at h a) \<and>
     (\<forall>a. a \<noteq> 0 \<longrightarrow> count_at h a = held h a + ext a)"

lemma count_at_upd [simp]: "count_at (h(a \<mapsto> (n, ob))) b = (if b = a then n else count_at h b)"
  by (simp add: count_at_def)

lemma count_at_free [simp]: "count_at (h(a := None)) b = (if b = a then 0 else count_at h b)"
  by (simp add: count_at_def)

lemma held_count:
  assumes "h a = Some (m, ob)"
  shows "held (h(a \<mapsto> (n, ob))) b = held h b"
proof -
  have "dom (h(a \<mapsto> (n, ob))) = dom h" using assms by auto
  then show ?thesis
    unfolding held_def by (intro sum.cong) (auto simp: refs_of_def assms)
qed

lemma held_free:
  assumes "finite (dom h)" "h a = Some (n, ob)"
  shows "held h b = count_list (references ob) b + held (h(a := None)) b"
proof -
  have "held h b = count_list (refs_of h a) b + (\<Sum>c \<in> dom h - {a}. count_list (refs_of h c) b)"
    unfolding held_def using assms by (intro sum.remove) auto
  moreover have "(\<Sum>c \<in> dom h - {a}. count_list (refs_of h c) b) = held (h(a := None)) b"
    unfolding held_def by (rule sum.cong) (auto simp: refs_of_def)
  ultimately show ?thesis using assms(2) by (simp add: refs_of_def)
qed

lemma counted_drop:
  assumes "counted (\<lambda>b. ext b + count_list (a # rest) b) h" "h a = Some (n, ob)" "1 < n"
  shows "counted (\<lambda>b. ext b + count_list rest b) (h(a \<mapsto> (n - 1, ob)))"
proof -
  have "count_at h a = n" using assms(2) by (simp add: count_at_def)
  moreover have "dom (h(a \<mapsto> (n - 1, ob))) = dom h" using assms(2) by auto
  moreover have "a \<noteq> 0" using assms(1,2) by (auto simp: counted_def)
  ultimately show ?thesis
    using assms(1,3) by (auto simp: counted_def held_count [of h a n ob, OF assms(2)] simp del: dom_fun_upd)
qed

lemma counted_free:
  assumes "counted (\<lambda>b. ext b + count_list (a # rest) b) h" "h a = Some (n, ob)" "\<not> 1 < n"
  shows "counted (\<lambda>b. ext b + count_list (drops ob @ rest) b) (h(a := None))"
proof -
  let ?h = "h(a := None)"
  have fin: "finite (dom h)" and a: "a \<noteq> 0" and n: "count_at h a = n"
    using assms(1,2) by (auto simp: counted_def count_at_def)
  then have "n = held h a + (ext a + count_list (a # rest) a)" using assms(1) by (simp add: counted_def)
  then have z: "held h a = 0" "ext a = 0" "count_list rest a = 0" using assms(3) by auto
  have "count_at ?h b = held ?h b + (ext b + count_list (drops ob @ rest) b)" if "b \<noteq> 0" for b
  proof (cases "b = a")
    case True
    then show ?thesis using z held_free [OF fin assms(2), of a] by (simp add: drops_count)
  next
    case False
    then show ?thesis using assms(1) that held_free [OF fin assms(2), of b] by (simp add: counted_def drops_count)
  qed
  then show ?thesis using assms(1) by (simp add: counted_def)
qed

section \<open>Properties\<close>

lemma xdecref_result:
  assumes "counted (\<lambda>b. ext b + count_list obs b) h"
  shows "\<exists>h'. Py_XDECREF obs h = Some (Inr h') \<and> counted ext h' \<and> dom h' \<subseteq> dom h \<and>
    (\<forall>a \<in> dom h'. snd (the (h' a)) = snd (the (h a)))"
  using assms
proof (induction "(card (dom h), length obs)" arbitrary: h obs rule: less_induct)
  case less
  show ?case
  proof (cases obs)
    case Nil
    then show ?thesis using less.prems by (subst Py_XDECREF.simps) simp
  next
    case (Cons a rest)
    show ?thesis
    proof (cases "h a")
      case None
      then have "a = 0" using less.prems Cons by (auto simp: counted_def count_at_def)
      moreover have "counted (\<lambda>b. ext b + count_list rest b) h"
        using less.prems Cons \<open>a = 0\<close> by (auto simp: counted_def)
      ultimately show ?thesis using less.hyps [of h rest] Cons by (subst Py_XDECREF.simps) simp
    next
      case (Some q)
      then obtain n ob where q: "h a = Some (n, ob)" by (cases q) simp
      have a: "a \<noteq> 0" and fin: "finite (dom h)" using less.prems q by (auto simp: counted_def)
      show ?thesis
      proof (cases "1 < n")
        case True
        have d: "dom (h(a \<mapsto> (n - 1, ob))) = dom h" using q by auto
        obtain h' where "Py_XDECREF rest (h(a \<mapsto> (n - 1, ob))) = Some (Inr h')" "counted ext h'" "dom h' \<subseteq> dom h"
          "\<forall>b \<in> dom h'. snd (the (h' b)) = snd (the ((h(a \<mapsto> (n - 1, ob))) b))"
          using less.hyps [of "h(a \<mapsto> (n - 1, ob))" rest] counted_drop [OF less.prems [unfolded Cons] q True] Cons d by auto
        then show ?thesis using a q True Cons by (subst Py_XDECREF.simps) (auto split: if_splits)
      next
        case False
        have "card (dom (h(a := None))) < card (dom h)" using fin q card_Diff1_less [of "dom h" a] by (simp add: domI)
        then obtain h' where "Py_XDECREF (drops ob @ rest) (h(a := None)) = Some (Inr h')" "counted ext h'"
          "dom h' \<subseteq> dom (h(a := None))" "\<forall>b \<in> dom h'. snd (the (h' b)) = snd (the ((h(a := None)) b))"
          using less.hyps [of "h(a := None)" "drops ob @ rest"] counted_free [OF less.prems [unfolded Cons] q False] by auto
        then show ?thesis using a q False Cons by (subst Py_XDECREF.simps) (auto split: if_splits)
      qed
    qed
  qed
qed

text \<open>An object that is left is referred to from elsewhere, or from an object that is left.\<close>

lemma survivors_held:
  assumes "counted ext h" "a \<in> dom h" "ext a = 0"
  obtains b where "b \<in> dom h" "a \<in> set (refs_of h b)"
proof -
  have "a \<noteq> 0" using assms(1,2) by (auto simp: counted_def)
  then have "count_at h a = held h a" using assms(1,3) by (simp add: counted_def)
  then have "0 < held h a" using assms(1,2) by (force simp: counted_def)
  then obtain b where "b \<in> dom h" "0 < count_list (refs_of h b) a"
    unfolding held_def by (metis gr_zeroI sum.not_neutral_contains_not_neutral less_numeral_extra(3))
  then show thesis using that count_notin by fastforce
qed

definition ranked :: "(u64 \<Rightarrow> nat) \<Rightarrow> py_heap \<Rightarrow> bool" where
  "ranked rank h \<longleftrightarrow> (\<forall>a \<in> dom h. \<forall>b \<in> set (refs_of h a). b = 0 \<or> rank b < rank a)"

lemma ranked_empty:
  assumes "counted (\<lambda>_. 0) h" "ranked rank h"
  shows "h = Map.empty"
proof (rule ccontr)
  assume "h \<noteq> Map.empty"
  then have "dom h \<noteq> {}" by simp
  moreover have fin: "finite (dom h)" and z: "h 0 = None" using assms(1) by (auto simp: counted_def)
  ultimately obtain a where a: "a \<in> dom h" "rank a = Max (rank ` dom h)"
    by (metis (mono_tags, lifting) Max_in finite_imageI image_iff image_is_empty)
  obtain b where b: "b \<in> dom h" "a \<in> set (refs_of h b)" by (rule survivors_held [OF assms(1) a(1) refl])
  have "a \<noteq> 0" using a(1) z by auto
  with b have "rank a < rank b" using assms(2) unfolding ranked_def by blast
  moreover have "rank b \<le> Max (rank ` dom h)" using fin b(1) by simp
  ultimately show False using a(2) by simp
qed

text \<open>C38: Let every count be the number of pointers to the object that are in members of live objects
  (other than the borrowed ones), plus the references held from outside. Then dropping references held
  from outside ends, never uses a freed object, and leaves a heap whose counts are again these
  numbers: what is still referred to is kept unchanged.
  If nothing is held from outside any more and the objects form no cycle, all are freed.\<close>

theorem dealloc_keeps_counts:
  assumes "counted (\<lambda>b. ext b + count_list obs b) h"
  shows "\<exists>h'. Py_XDECREF obs h = Some (Inr h') \<and> counted ext h' \<and> dom h' \<subseteq> dom h \<and>
    (\<forall>a \<in> dom h'. snd (the (h' a)) = snd (the (h a))) \<and>
    (ext = (\<lambda>_. 0) \<and> (\<exists>rank. ranked rank h) \<longrightarrow> h' = Map.empty)"
proof -
  obtain h' where h': "Py_XDECREF obs h = Some (Inr h')" "counted ext h'" "dom h' \<subseteq> dom h"
    "\<forall>a \<in> dom h'. snd (the (h' a)) = snd (the (h a))"
    using xdecref_result [OF assms] by blast
  have refs: "refs_of g a = references (snd (the (g a)))" if "a \<in> dom g" for g a
    using that by (auto simp: refs_of_def)
  have same: "refs_of h' a = refs_of h a \<and> a \<in> dom h" if "a \<in> dom h'" for a
    using refs [OF that] refs [OF subsetD [OF h'(3) that]] bspec [OF h'(4) that] subsetD [OF h'(3) that] by simp
  have "ranked rank h'" if "ranked rank h" for rank
    using that unfolding ranked_def by (auto simp: same)
  then have "h' = Map.empty" if "ext = (\<lambda>_. 0)" "\<exists>rank. ranked rank h" using h'(2) ranked_empty that by blast
  with h' show ?thesis by blast
qed

text \<open>A package with two ebuilds, the older of which is also held from outside.\<close>

definition ebuild_obj :: "u64 \<Rightarrow> u64 \<Rightarrow> py_obj" where
  "ebuild_obj pkg old = (Ebuild_Type, (\<lambda>_. 0)(M_package := pkg, M_older := old))"

definition small_heap :: py_heap where
  "small_heap = [1 \<mapsto> (1, (Package_Type, (\<lambda>_. 0)(M_ebuilds := 2))), 2 \<mapsto> (1, ebuild_obj 1 3), 3 \<mapsto> (2, ebuild_obj 1 0)]"

definition outside :: "u64 \<Rightarrow> nat" where
  "outside a = (if a = 3 then 1 else 0)"

lemma ebuild_obj_lists:
  "references (ebuild_obj p a) = [0, 0, 0, 0, 0, 0, 0, 0, a]" "drops (ebuild_obj p a) = a # replicate 8 0"
  by (simp_all add: references_def drops_def ebuild_obj_def Ebuild_prv_def borrowed_def PyEbuild_dealloc_def eval_nat_numeral)

lemma small_heap_counted: "counted (\<lambda>b. outside b + count_list [1] b) small_heap"
proof -
  have d: "dom small_heap = {3, 2, 1}" by (simp add: small_heap_def)
  have pkg: "references (Package_Type, (\<lambda>_. 0)(M_ebuilds := 2)) = [2]"
    by (simp add: references_def Package_prv_def borrowed_def)
  have refs: "refs_of small_heap 1 = [2]" "refs_of small_heap 2 = [0, 0, 0, 0, 0, 0, 0, 0, 3]"
      "refs_of small_heap 3 = [0, 0, 0, 0, 0, 0, 0, 0, 0]"
    by (simp_all only: refs_of_def small_heap_def) (simp_all add: pkg ebuild_obj_lists)
  have held: "held small_heap a = (if a = 2 \<or> a = 3 then 1 else 0)" if "a \<noteq> 0" for a
    unfolding held_def d using that by (simp add: refs)
  have count: "count_at small_heap a = (if a = 1 \<or> a = 2 then 1 else if a = 3 then 2 else 0)" for a
    by (simp add: count_at_def small_heap_def)
  show ?thesis unfolding counted_def d
    by (intro conjI allI impI) (simp_all add: count held outside_def, simp add: small_heap_def)
qed

lemma dealloc_keeps_counts_witness: "\<exists>h'. Py_XDECREF [1] small_heap = Some (Inr h') \<and> counted outside h'"
  using dealloc_keeps_counts [OF small_heap_counted] by blast

text \<open>An ebuild that outlives its package still points to it: the member \<^verbatim>\<open>package\<close> is not counted.\<close>

lemma ebuild_package_dangles:
  "Py_XDECREF [1] small_heap = Some (Inr [3 \<mapsto> (1, ebuild_obj 1 0)]) \<and> snd (ebuild_obj 1 0) M_package = 1"
proof -
  have nulls: "Py_XDECREF (replicate n 0) h = Some (Inr h)" for n h
    by (induction n) (subst Py_XDECREF.simps, simp)+
  have "Py_XDECREF [1] small_heap = Py_XDECREF [2] (small_heap(1 := None))"
    by (subst Py_XDECREF.simps) (simp add: small_heap_def drops_def PyPackage_dealloc_def)
  also have "\<dots> = Py_XDECREF (3 # replicate 8 0) (small_heap(1 := None, 2 := None))"
    by (subst Py_XDECREF.simps) (simp add: small_heap_def ebuild_obj_lists)
  also have "\<dots> = Py_XDECREF (replicate 8 0) (small_heap(1 := None, 2 := None, 3 \<mapsto> (1, ebuild_obj 1 0)))"
    by (subst Py_XDECREF.simps) (simp add: small_heap_def)
  also have "small_heap(1 := None, 2 := None, 3 \<mapsto> (1, ebuild_obj 1 0)) = [3 \<mapsto> (1, ebuild_obj 1 0)]"
    by (rule ext) (simp add: small_heap_def)
  finally have "Py_XDECREF [1] small_heap = Some (Inr [3 \<mapsto> (1, ebuild_obj 1 0)])" by (simp only: nulls)
  moreover have "snd (ebuild_obj 1 0) M_package = 1" by (simp add: ebuild_obj_def)
  ultimately show ?thesis ..
qed

end
