(* ===== verification/Messages.thy ===== *)
theory Messages
  imports Prelude
begin

text \<open>
  The messages of \<^verbatim>\<open>network/message.c\<close>: a token and six 64-bit parameters, with a frame of
  data behind them, their Python form (a struct sequence of eight objects), and their bytes
  in memory, which are what goes over the wire.
\<close>

section \<open>Data\<close>

record message =
  msg_token :: u32
  val1 :: u64
  val2 :: u64
  val3 :: u64
  val4 :: u64
  val5 :: u64
  val6 :: u64

text \<open>\<open>None\<close> is the null pointer; a frame whose \<^verbatim>\<open>size\<close> is 0 has no data to read.\<close>

record message_frame =
  frame_msg :: message
  frame_size :: u64
  frame_data :: "u8 list option"

text \<open>The Python objects the code looks into; any other object is \<open>Py_Other\<close>.\<close>

datatype py_object = Py_None | Py_Long int | Py_Bytes "u8 list" | Py_Unicode string | Py_Tuple "py_object list" | Py_Other

section \<open>Integers in memory\<close>

fun le_word :: "u8 list \<Rightarrow> u64" where
  "le_word [] = 0"
| "le_word (b # bs) = ucast b OR push_bit 8 (le_word bs)"

lemma le_bytes_Suc: "le_bytes (Suc n) w = ucast w # le_bytes n (drop_bit 8 w)"
proof -
  have "[0..<Suc n] = 0 # map Suc [0..<n]" by (simp add: upt_conv_Cons map_Suc_upt del: upt_Suc)
  then show ?thesis by (simp add: le_bytes_def drop_bit_drop_bit ac_simps del: upt_Suc)
qed

lemma le_bytes_0 [simp]: "le_bytes 0 w = []"
  by (simp add: le_bytes_def)

lemma size_le_bytes [simp]: "length (le_bytes n w) = n"
  by (simp add: le_bytes_def)

lemma le_word_bytes: "le_word (le_bytes n w) = take_bit (8 * n) w"
proof (induction n arbitrary: w)
  case (Suc n)
  have "ucast (ucast w :: u8) OR push_bit 8 (take_bit (8 * n) (drop_bit 8 w)) = take_bit (8 * Suc n) w"
    by (rule bit_eqI) (auto simp: bit_simps)
  with Suc show ?case by (simp add: le_bytes_Suc)
qed simp

lemma le_word_bytes_8 [simp]: "le_word (le_bytes 8 w) = w"
  by (simp add: le_word_bytes take_bit_word_eq_self)

lemma le_word_bytes_4 [simp]: "ucast (le_word (le_bytes 4 (ucast w))) = w" for w :: u32
  by (rule bit_word_eqI) (simp add: le_word_bytes bit_simps)

lemma bit_le_word: "bit (le_word bs) i \<longleftrightarrow> i < 64 \<and> i div 8 < length bs \<and> bit (bs ! (i div 8)) (i mod 8)"
proof (induction bs arbitrary: i)
  case (Cons b bs)
  show ?case
  proof (cases "i < 8")
    case True
    then show ?thesis by (simp add: bit_simps)
  next
    case False
    then obtain j where "i = 8 + j" by (metis le_Suc_ex not_less)
    moreover have "(8 + j) div 8 = Suc (j div 8)" by simp
    ultimately show ?thesis using Cons [of j] bit_imp_le_length [of b] by (auto simp: bit_simps)
  qed
qed simp

lemma le_bytes_word:
  assumes "length bs = n" "n \<le> 8"
  shows "le_bytes n (le_word bs) = bs"
proof (rule nth_equalityI)
  fix i assume "i < length (le_bytes n (le_word bs))"
  then have i: "i < n" by simp
  show "le_bytes n (le_word bs) ! i = bs ! i"
  proof (rule bit_word_eqI)
    fix j assume "j < LENGTH(8)"
    then have "j < 8" "(8 * i + j) div 8 = i" "(8 * i + j) mod 8 = j" "8 * i + j < 64" using i assms by simp_all
    then show "bit (le_bytes n (le_word bs) ! i) j = bit (bs ! i) j"
      using i assms by (simp add: le_bytes_def bit_le_word bit_simps)
  qed
qed (use assms in simp)

section \<open>The Python form\<close>

text \<open>\<^verbatim>\<open>PyLong_AsLong\<close> answers -1 for what does not fit a \<^verbatim>\<open>long\<close>; its error is not looked at.\<close>

definition PyLong_AsLong :: "py_object \<Rightarrow> int" where
  "PyLong_AsLong ob = (case ob of Py_Long i \<Rightarrow> if - (2 ^ 63) \<le> i \<and> i < 2 ^ 63 then i else - 1 | _ \<Rightarrow> - 1)"

text \<open>The function of this name in \<^verbatim>\<open>message.c\<close>: anything but eight bytes is read as 0.\<close>

definition PyBytes_AsLong :: "py_object \<Rightarrow> u64" where
  "PyBytes_AsLong self = (case self of Py_Bytes bs \<Rightarrow> if length bs \<noteq> 8 then 0 else le_word bs | _ \<Rightarrow> 0)"

definition PyStructSequence_GetItem :: "py_object \<Rightarrow> nat \<Rightarrow> py_object result" where
  "PyStructSequence_GetItem self i =
     (case self of Py_Tuple obs \<Rightarrow> if i < length obs then Inr (obs ! i) else Inl Out_Of_Bounds | _ \<Rightarrow> Inl Wild_Pointer)"

text \<open>Given a null pointer, \<^verbatim>\<open>PyBytes_FromStringAndSize\<close> leaves the bytes it makes uninitialised.\<close>

definition PyMessage_FromMessageFrame :: "message_frame \<Rightarrow> py_object result" where
  "PyMessage_FromMessageFrame self =
     bindR (if frame_size self = 0 then Inr Py_None
            else case frame_data self of
                   None \<Rightarrow> Inl Uninitialised
                 | Some bs \<Rightarrow> if length bs < unat (frame_size self) then Inl Out_Of_Bounds
                             else Inr (Py_Bytes (take (unat (frame_size self)) bs))) (\<lambda>ob.
       let m = frame_msg self in
       Inr (Py_Tuple [Py_Long (uint (msg_token m)), Py_Bytes (le_bytes 8 (val1 m)), Py_Bytes (le_bytes 8 (val2 m)),
         Py_Bytes (le_bytes 8 (val3 m)), Py_Bytes (le_bytes 8 (val4 m)), Py_Bytes (le_bytes 8 (val5 m)),
         Py_Bytes (le_bytes 8 (val6 m)), ob]))"

text \<open>
  The data object is not checked: for one that is neither \<^verbatim>\<open>None\<close> nor \<^verbatim>\<open>bytes\<close>,
  \<^verbatim>\<open>PyBytes_AsString\<close> returns a null pointer, from which \<^verbatim>\<open>memcpy\<close> then reads.
\<close>

definition PyMessage_AsMessageFrame :: "py_object \<Rightarrow> message_frame result" where
  "PyMessage_AsMessageFrame self =
     bindR (PyStructSequence_GetItem self 0) (\<lambda>t.
     bindR (PyStructSequence_GetItem self 1) (\<lambda>o1.
     bindR (PyStructSequence_GetItem self 2) (\<lambda>o2.
     bindR (PyStructSequence_GetItem self 3) (\<lambda>o3.
     bindR (PyStructSequence_GetItem self 4) (\<lambda>o4.
     bindR (PyStructSequence_GetItem self 5) (\<lambda>o5.
     bindR (PyStructSequence_GetItem self 6) (\<lambda>o6.
     bindR (PyStructSequence_GetItem self 7) (\<lambda>data_ob.
       let m = \<lparr>msg_token = word_of_int (PyLong_AsLong t), val1 = PyBytes_AsLong o1, val2 = PyBytes_AsLong o2,
                val3 = PyBytes_AsLong o3, val4 = PyBytes_AsLong o4, val5 = PyBytes_AsLong o5, val6 = PyBytes_AsLong o6\<rparr>
       in case data_ob of
            Py_None \<Rightarrow> Inr \<lparr>frame_msg = m, frame_size = 0, frame_data = None\<rparr>
          | Py_Bytes bs \<Rightarrow> Inr \<lparr>frame_msg = m, frame_size = word_of_nat (length bs), frame_data = Some bs\<rparr>
          | _ \<Rightarrow> Inl Null_Deref))))))))"

section \<open>The bytes of a message\<close>

text \<open>\<^verbatim>\<open>sizeof(Message)\<close>: the token, four bytes of padding, the six parameters.\<close>

definition message_size :: nat where "message_size = 56"

definition message_bytes :: "u8 list \<Rightarrow> message \<Rightarrow> u8 list" where
  "message_bytes padding m = le_bytes 4 (ucast (msg_token m)) @ padding @
     concat (map (le_bytes 8) [val1 m, val2 m, val3 m, val4 m, val5 m, val6 m])"

definition bytes_message :: "u8 list \<Rightarrow> message" where
  "bytes_message bs =
     \<lparr>msg_token = ucast (le_word (take 4 bs)), val1 = le_word (take 8 (drop 8 bs)), val2 = le_word (take 8 (drop 16 bs)),
      val3 = le_word (take 8 (drop 24 bs)), val4 = le_word (take 8 (drop 32 bs)), val5 = le_word (take 8 (drop 40 bs)),
      val6 = le_word (take 8 (drop 48 bs))\<rparr>"

lemma length_message_bytes: "length padding = 4 \<Longrightarrow> length (message_bytes padding m) = message_size"
  by (simp add: message_bytes_def message_size_def)

lemma bytes_message_inverse: "length padding = 4 \<Longrightarrow> bytes_message (message_bytes padding m) = m"
  by (simp add: message_bytes_def bytes_message_def)

text \<open>A frame whose size says how much data it has.\<close>

definition frame_ok :: "message_frame \<Rightarrow> bool" where
  "frame_ok f \<longleftrightarrow> (if frame_size f = 0 then frame_data f = None
     else (\<exists>bs. frame_data f = Some bs \<and> length bs = unat (frame_size f)))"

section \<open>Properties\<close>

lemma from_frame_result:
  assumes "frame_ok f"
  shows "PyMessage_FromMessageFrame f = Inr (Py_Tuple [Py_Long (uint (msg_token (frame_msg f))),
    Py_Bytes (le_bytes 8 (val1 (frame_msg f))), Py_Bytes (le_bytes 8 (val2 (frame_msg f))),
    Py_Bytes (le_bytes 8 (val3 (frame_msg f))), Py_Bytes (le_bytes 8 (val4 (frame_msg f))),
    Py_Bytes (le_bytes 8 (val5 (frame_msg f))), Py_Bytes (le_bytes 8 (val6 (frame_msg f))),
    case frame_data f of None \<Rightarrow> Py_None | Some bs \<Rightarrow> Py_Bytes bs])"
  using assms by (auto simp: frame_ok_def PyMessage_FromMessageFrame_def Let_def split: if_splits)

lemma frame_py_round:
  assumes "frame_ok f"
  shows "bindR (PyMessage_FromMessageFrame f) PyMessage_AsMessageFrame = Inr f"
proof -
  have t: "PyLong_AsLong (Py_Long (uint x)) = uint x" for x :: u32
  proof -
    have "- (2 ^ 63) \<le> uint x" by (rule order_trans [of _ 0]) simp_all
    then show ?thesis using uint_bounded [of x] by (simp add: PyLong_AsLong_def)
  qed
  show ?thesis
    using assms
    by (cases f, cases "frame_msg f")
      (auto simp: from_frame_result t PyMessage_AsMessageFrame_def PyStructSequence_GetItem_def PyBytes_AsLong_def Let_def
        frame_ok_def split: option.split if_splits)
qed

text \<open>C35: A message survives the way into Python and back: converting a frame to its Python form and
  that back gives the frame. Conversely, a struct sequence of a token of 32 bits, six values
  of eight bytes and \<^verbatim>\<open>None\<close> or data is what the frame made of it is converted to.\<close>

theorem message_round_trip:
  assumes "frame_ok f" "0 \<le> t" "t < 2 ^ 32" "\<forall>v \<in> set [v1, v2, v3, v4, v5, v6]. length v = 8"
    and "data = Py_None \<or> (\<exists>bs. data = Py_Bytes bs \<and> bs \<noteq> [] \<and> length bs < 2 ^ 64)"
    and "py = Py_Tuple [Py_Long t, Py_Bytes v1, Py_Bytes v2, Py_Bytes v3, Py_Bytes v4, Py_Bytes v5, Py_Bytes v6, data]"
  shows "bindR (PyMessage_FromMessageFrame f) PyMessage_AsMessageFrame = Inr f \<and>
    bindR (PyMessage_AsMessageFrame py) PyMessage_FromMessageFrame = Inr py"
proof
  show "bindR (PyMessage_FromMessageFrame f) PyMessage_AsMessageFrame = Inr f" by (rule frame_py_round [OF assms(1)])
  have "uint (word_of_int t :: u32) = t" using assms(2,3) by (simp add: uint_word_of_int)
  moreover have "PyLong_AsLong (Py_Long t) = t" using assms(2,3) by (simp add: PyLong_AsLong_def)
  moreover have "le_bytes 8 (le_word v) = v" if "v \<in> set [v1, v2, v3, v4, v5, v6]" for v
    using assms(4) that by (intro le_bytes_word) auto
  moreover have "unat (word_of_nat (length bs) :: u64) = length bs" if "length bs < 2 ^ 64" for bs :: "u8 list"
    using that by (simp add: unat_of_nat)
  moreover from this have "(word_of_nat (length bs) :: u64) \<noteq> 0" if "bs \<noteq> []" "length bs < 2 ^ 64" for bs :: "u8 list"
    using that by (metis length_0_conv unat_0)
  ultimately show "bindR (PyMessage_AsMessageFrame py) PyMessage_FromMessageFrame = Inr py"
    using assms(4,5)
    by (auto simp: assms(6) PyMessage_AsMessageFrame_def PyStructSequence_GetItem_def PyBytes_AsLong_def Let_def
        PyMessage_FromMessageFrame_def)
qed

definition sample_frame :: message_frame where
  "sample_frame = \<lparr>frame_msg = \<lparr>msg_token = 7, val1 = 1, val2 = 0, val3 = 2 ^ 63, val4 = 4, val5 = 5, val6 = 6\<rparr>,
     frame_size = 2, frame_data = Some [1, 255]\<rparr>"

lemma message_round_trip_witness:
  "bindR (PyMessage_FromMessageFrame sample_frame) PyMessage_AsMessageFrame = Inr sample_frame \<and>
    bindR (PyMessage_AsMessageFrame (Py_Tuple [Py_Long 9, Py_Bytes [1, 2, 3, 4, 5, 6, 7, 8], Py_Bytes (replicate 8 0),
      Py_Bytes (replicate 8 1), Py_Bytes (replicate 8 2), Py_Bytes (replicate 8 3), Py_Bytes (replicate 8 4), Py_Bytes [5]]))
      PyMessage_FromMessageFrame =
    Inr (Py_Tuple [Py_Long 9, Py_Bytes [1, 2, 3, 4, 5, 6, 7, 8], Py_Bytes (replicate 8 0),
      Py_Bytes (replicate 8 1), Py_Bytes (replicate 8 2), Py_Bytes (replicate 8 3), Py_Bytes (replicate 8 4), Py_Bytes [5]])"
  by (rule message_round_trip [OF _ _ _ _ _ refl]) (simp_all add: sample_frame_def frame_ok_def)

text \<open>A parameter that is not eight bytes long is read as 0, without an error.\<close>

lemma short_parameter_lost: "length bs \<noteq> 8 \<Longrightarrow> PyBytes_AsLong (Py_Bytes bs) = 0"
  by (simp add: PyBytes_AsLong_def)

end
