(* ===== verification/Tcp_Client.thy ===== *)
theory Tcp_Client
  imports Messages
begin

text \<open>
  The client of \<^verbatim>\<open>network/tcp_client.c\<close> and the Python function \<^verbatim>\<open>send_message\<close> of
  \<^verbatim>\<open>network/module.c\<close>. The operating system is a parameter: whether the connection is made,
  how many bytes each \<^verbatim>\<open>write\<close> takes, and in which segments the answer arrives. The code
  looks at none of the counts that \<^verbatim>\<open>read\<close> and \<^verbatim>\<open>write\<close> return.
\<close>

section \<open>Addresses\<close>

datatype net_type_t = NETWORK_TYPE_NET | NETWORK_TYPE_UNIX

text \<open>A union: the member that was written last is the one that can be read.\<close>

datatype address = Net_Addr u16 u32 | Path string | No_Path

datatype sockaddr = Sockaddr_In "u8 list" "u8 list" | Sockaddr_Un "char list"

definition htons :: "u16 \<Rightarrow> u8 list" where
  "htons w = [ucast (drop_bit 8 w), ucast w]"

definition htonl :: "u32 \<Rightarrow> u8 list" where
  "htonl w = [ucast (drop_bit 24 w), ucast (drop_bit 16 w), ucast (drop_bit 8 w), ucast w]"

text \<open>
  \<^verbatim>\<open>strncpy\<close> into the 108 characters of \<^verbatim>\<open>sun_path\<close>: at most 107 are written, and the last
  one stays what it was on the stack.
\<close>

definition SUN_PATH :: nat where "SUN_PATH = 108"

definition sun_path :: "char \<Rightarrow> string \<Rightarrow> char list" where
  "sun_path garbage path =
     take (SUN_PATH - 1) (path @ replicate (SUN_PATH - 1) (char_of (0 :: nat))) @ [garbage]"

section \<open>Reading and writing\<close>

text \<open>
  A read returns what has arrived, at most what was asked for: the segments are what
  successive reads find. No segment left is the end of the stream, an empty one a read that
  fails. The bytes that were not read keep their old contents.
\<close>

fun sock_read :: "nat \<Rightarrow> u8 list list \<Rightarrow> u8 list \<times> u8 list list" where
  "sock_read n [] = ([], [])"
| "sock_read n (seg # segs) = (if length seg \<le> n then (seg, segs) else (take n seg, drop n seg # segs))"

definition read_into :: "nat \<Rightarrow> u8 list \<Rightarrow> u8 list list \<Rightarrow> u8 list \<times> u8 list list" where
  "read_into n buf segs = (let (bs, segs) = sock_read n segs in (bs @ drop (length bs) buf, segs))"

text \<open>Each write takes as many bytes as the next limit says, all of them where there is none.\<close>

fun sock_write :: "u8 list \<Rightarrow> nat list \<Rightarrow> u8 list \<times> nat list" where
  "sock_write bs [] = (bs, [])"
| "sock_write bs (l # ls) = (take l bs, ls)"

section \<open>Sending and receiving a frame\<close>

definition frame_payload :: "message_frame \<Rightarrow> u8 list result" where
  "frame_payload f = (case frame_data f of
     None \<Rightarrow> Inl Null_Deref
   | Some bs \<Rightarrow> if length bs < unat (frame_size f) then Inl Out_Of_Bounds else Inr (take (unat (frame_size f)) bs))"

definition send_frame :: "u8 list \<Rightarrow> message_frame \<Rightarrow> nat list \<Rightarrow> u8 list result" where
  "send_frame padding messsage limits =
     (let (w1, limits) = sock_write (message_bytes padding (frame_msg messsage)) limits;
          (w2, limits) = sock_write (le_bytes 8 (frame_size messsage)) limits
      in if frame_size messsage \<noteq> 0
         then bindR (frame_payload messsage) (\<lambda>bs. Inr (w1 @ w2 @ fst (sock_write bs limits)))
         else Inr (w1 @ w2))"

text \<open>
  The stack a frame is read into: the bytes its message and its size have before. The heap
  block for the data has contents of its own, or is a null pointer, which \<^verbatim>\<open>read\<close> refuses.
\<close>

record read_env =
  stack_msg :: "u8 list"
  stack_size :: "u8 list"
  heap_block :: "u64 \<Rightarrow> u8 list option"

definition recv_frame :: "read_env \<Rightarrow> u8 list list \<Rightarrow> message_frame \<times> u8 list list" where
  "recv_frame env segs =
     (let (mb, segs) = read_into message_size (stack_msg env) segs;
          (sb, segs) = read_into 8 (stack_size env) segs;
          size = le_word sb
      in if size \<noteq> 0
         then (case heap_block env size of
                 None \<Rightarrow> (\<lparr>frame_msg = bytes_message mb, frame_size = size, frame_data = None\<rparr>, segs)
               | Some block \<Rightarrow>
                   let (db, segs) = read_into (unat size) block segs
                   in (\<lparr>frame_msg = bytes_message mb, frame_size = size, frame_data = Some db\<rparr>, segs))
         else (\<lparr>frame_msg = bytes_message mb, frame_size = 0, frame_data = None\<rparr>, segs))"

section \<open>The client\<close>

text \<open>
  The outcome of a call: the code it returns, the bytes written, the reply it filled in and
  the sockets left open. The socket is never closed.
\<close>

record client_env =
  connects :: "sockaddr \<Rightarrow> bool"
  stack_char :: char
  padding :: "u8 list"
  limits :: "nat list"
  reading :: read_env
  arriving :: "u8 list list"

record client_result =
  code :: int
  written :: "u8 list"
  reply :: "message_frame option"
  left_open :: nat

definition client_exchange :: "client_env \<Rightarrow> message_frame \<Rightarrow> client_result result" where
  "client_exchange env messsage =
     bindR (send_frame (padding env) messsage (limits env)) (\<lambda>bs.
       Inr \<lparr>code = 0, written = bs, reply = Some (fst (recv_frame (reading env) (arriving env))), left_open = 1\<rparr>)"

text \<open>
  When a network address cannot be reached the log message prints \<^verbatim>\<open>address.path\<close>, which
  is not the member of the union that was set.
\<close>

definition tcp_client_send_message :: "client_env \<Rightarrow> address \<Rightarrow> net_type_t \<Rightarrow> message_frame \<Rightarrow> client_result result" where
  "tcp_client_send_message env address addr_type messsage =
     (case addr_type of
        NETWORK_TYPE_UNIX \<Rightarrow>
          (case address of
             Path path \<Rightarrow>
               if \<not> connects env (Sockaddr_Un (sun_path (stack_char env) path))
               then Inr \<lparr>code = - 1, written = [], reply = None, left_open = 1\<rparr>
               else client_exchange env messsage
           | _ \<Rightarrow> Inl Wild_Pointer)
      | NETWORK_TYPE_NET \<Rightarrow>
          (case address of
             Net_Addr port ip \<Rightarrow>
               if \<not> connects env (Sockaddr_In (htons port) (htonl ip)) then Inl Wild_Pointer
               else client_exchange env messsage
           | _ \<Rightarrow> Inl Wild_Pointer))"

text \<open>
  \<^verbatim>\<open>send_message\<close>: the value returned, or the exception raised, or both, which Python
  reports as a \<^verbatim>\<open>SystemError\<close>. The errors that \<^verbatim>\<open>PyLong_AsLong\<close> leaves behind are not modelled.
\<close>

datatype py_return = Returns py_object | Raises string | Returns_And_Raises py_object string

definition parse_address :: "py_object \<Rightarrow> (net_type_t \<times> address) + py_return" where
  "parse_address py_address = (case py_address of
     Py_Tuple obs \<Rightarrow>
       if length obs \<noteq> 2 then Inr (Raises ''TypeError'')
       else Inl (NETWORK_TYPE_NET, Net_Addr (word_of_int (PyLong_AsLong (obs ! 1))) (word_of_int (PyLong_AsLong (obs ! 0))))
   | Py_Unicode path \<Rightarrow> Inl (NETWORK_TYPE_UNIX, Path path)
   | _ \<Rightarrow> Inr (Returns_And_Raises Py_None ''TypeError''))"

definition Py_send_message :: "client_env \<Rightarrow> py_object \<Rightarrow> py_object \<Rightarrow> py_return result" where
  "Py_send_message env py_address py_message =
     (case py_message of
        Py_Tuple obs \<Rightarrow>
          (case parse_address py_address of
             Inr r \<Rightarrow> Inr r
           | Inl (type, address) \<Rightarrow>
               bindR (PyMessage_AsMessageFrame py_message) (\<lambda>message.
               bindR (tcp_client_send_message env address type message) (\<lambda>res.
                 if code res \<noteq> 0 then Inr (Returns Py_None)
                 else case reply res of
                        None \<Rightarrow> Inl Uninitialised
                      | Some f \<Rightarrow> bindR (PyMessage_FromMessageFrame f) (\<lambda>py_reply. Inr (Returns py_reply)))))
      | _ \<Rightarrow> Inr (Raises ''TypeError''))"

section \<open>The wire format\<close>

definition frame_bytes :: "u8 list \<Rightarrow> message_frame \<Rightarrow> u8 list" where
  "frame_bytes pad f = message_bytes pad (frame_msg f) @ le_bytes 8 (frame_size f) @
     (case frame_data f of None \<Rightarrow> [] | Some bs \<Rightarrow> bs)"

definition frame_reads :: "message_frame \<Rightarrow> nat list" where
  "frame_reads f = [message_size, 8] @ (if frame_size f = 0 then [] else [unat (frame_size f)])"

text \<open>Reads of the given sizes all get what they ask for.\<close>

fun no_short_read :: "nat list \<Rightarrow> u8 list list \<Rightarrow> bool" where
  "no_short_read [] segs \<longleftrightarrow> True"
| "no_short_read (n # ns) segs \<longleftrightarrow> length (fst (sock_read n segs)) = n \<and> no_short_read ns (snd (sock_read n segs))"

definition read_env_ok :: "read_env \<Rightarrow> u64 \<Rightarrow> bool" where
  "read_env_ok env n \<longleftrightarrow> length (stack_msg env) = message_size \<and> length (stack_size env) = 8 \<and>
     (\<exists>block. heap_block env n = Some block \<and> length block = unat n)"

lemma sock_read_full:
  assumes "length (fst (sock_read n segs)) = n" "concat segs = bs @ rest" "length bs = n"
  shows "fst (sock_read n segs) = bs \<and> concat (snd (sock_read n segs)) = rest"
proof (cases segs)
  case (Cons seg ss)
  then have "seg @ concat ss = bs @ rest" using assms(2) by simp
  then show ?thesis using assms(1,3) Cons by (auto simp: append_eq_append_conv_if split: if_splits)
qed (use assms in auto)

lemma read_into_full:
  assumes "length (fst (sock_read n segs)) = n" "concat segs = bs @ rest" "length bs = n" "length buf = n"
  shows "read_into n buf segs = (bs, snd (sock_read n segs)) \<and> concat (snd (sock_read n segs)) = rest"
  using sock_read_full [OF assms(1-3)] assms(3,4) by (simp add: read_into_def split_beta)

lemma send_frame_whole:
  assumes "frame_ok f"
  shows "send_frame pad f [] = Inr (frame_bytes pad f)"
  using assms by (auto simp: frame_ok_def send_frame_def frame_bytes_def frame_payload_def split: if_splits)

lemma recv_frame_whole:
  assumes "frame_ok f" "length pad = 4" "concat segs = frame_bytes pad f @ rest"
    and "no_short_read (frame_reads f) segs" "read_env_ok env (frame_size f)"
  obtains segs' where "recv_frame env segs = (f, segs')" "concat segs' = rest"
proof -
  let ?s1 = "snd (sock_read message_size segs)" and ?s2 = "snd (sock_read 8 (snd (sock_read message_size segs)))"
  let ?d = "case frame_data f of None \<Rightarrow> [] | Some bs \<Rightarrow> bs"
  have r: "length (fst (sock_read message_size segs)) = message_size" "length (fst (sock_read 8 ?s1)) = 8"
    using assms(4) by (simp_all add: frame_reads_def)
  have s: "length (stack_msg env) = message_size" "length (stack_size env) = 8"
    using assms(5) by (simp_all add: read_env_ok_def)
  have c1: "concat segs = message_bytes pad (frame_msg f) @ (le_bytes 8 (frame_size f) @ ?d @ rest)"
    using assms(3) by (simp add: frame_bytes_def)
  have 1: "read_into message_size (stack_msg env) segs = (message_bytes pad (frame_msg f), ?s1)"
    and c2: "concat ?s1 = le_bytes 8 (frame_size f) @ (?d @ rest)"
    using read_into_full [OF r(1) c1 length_message_bytes [OF assms(2)] s(1)] by simp_all
  have 2: "read_into 8 (stack_size env) ?s1 = (le_bytes 8 (frame_size f), ?s2)" and c3: "concat ?s2 = ?d @ rest"
    using read_into_full [OF r(2) c2 size_le_bytes s(2)] by simp_all
  have m: "bytes_message (message_bytes pad (frame_msg f)) = frame_msg f"
    by (rule bytes_message_inverse [OF assms(2)])
  show thesis
  proof (cases "frame_size f = 0")
    case True
    then have "frame_data f = None" using assms(1) by (simp add: frame_ok_def)
    moreover from this True have "recv_frame env segs = (f, ?s2)" by (simp add: recv_frame_def 1 2 m)
    ultimately show ?thesis using that c3 by simp
  next
    case False
    then obtain bs where d: "frame_data f = Some bs" "length bs = unat (frame_size f)"
      using assms(1) by (auto simp: frame_ok_def)
    obtain block where b: "heap_block env (frame_size f) = Some block" "length block = unat (frame_size f)"
      using assms(5) by (auto simp: read_env_ok_def)
    have r3: "length (fst (sock_read (unat (frame_size f)) ?s2)) = unat (frame_size f)"
      using assms(4) False by (simp add: frame_reads_def)
    have c4: "concat ?s2 = bs @ rest" using c3 d by simp
    note 3 = read_into_full [OF r3 c4 d(2) b(2)]
    have "\<lparr>frame_msg = frame_msg f, frame_size = frame_size f, frame_data = Some bs\<rparr> = f"
      by (rule message_frame.equality) (simp_all add: d)
    then have "recv_frame env segs = (f, snd (sock_read (unat (frame_size f)) ?s2))"
      using False 3 by (simp add: recv_frame_def 1 2 m b Let_def)
    with 3 that show ?thesis by blast
  qed
qed

lemma length_frame_bytes:
  "frame_ok f \<Longrightarrow> length pad = 4 \<Longrightarrow> length (frame_bytes pad f) = message_size + 8 + unat (frame_size f)"
  by (auto simp: frame_bytes_def length_message_bytes frame_ok_def split: if_splits)

text \<open>A frame that arrives in one segment.\<close>

lemma one_segment: "frame_ok f \<Longrightarrow> length pad = 4 \<Longrightarrow> no_short_read (frame_reads f) [frame_bytes pad f]"
  by (simp add: frame_reads_def message_size_def length_frame_bytes)

lemma recv_one_segment:
  assumes "frame_ok f" "length pad = 4" "read_env_ok env (frame_size f)"
  shows "fst (recv_frame env [frame_bytes pad f]) = f"
  using recv_frame_whole [OF assms(1,2) _ one_segment [OF assms(1,2)] assms(3), of "[]"] by fastforce

section \<open>Properties\<close>

text \<open>C32: What is sent is what is received. If the writes take all bytes, the frame goes out as the
  56 bytes of its message, eight of its size and its data; and if no read is short, however
  the stream is cut into segments, the receiver ends up with the frame that was sent and has
  read no further than its end.\<close>

theorem frame_transfer:
  assumes "frame_ok f" "length pad = 4" "send_frame pad f [] = Inr bs" "concat segs = bs @ rest"
    and "no_short_read (frame_reads f) segs" "read_env_ok env (frame_size f)"
  shows "length bs = message_size + 8 + unat (frame_size f) \<and>
    (\<exists>segs'. recv_frame env segs = (f, segs') \<and> concat segs' = rest)"
proof -
  have bs: "bs = frame_bytes pad f" using assms(3) by (simp add: send_frame_whole assms(1))
  then have "length bs = message_size + 8 + unat (frame_size f)"
    using assms(1,2) by (simp add: length_frame_bytes)
  moreover obtain segs' where "recv_frame env segs = (f, segs')" "concat segs' = rest"
    using recv_frame_whole [OF assms(1,2) assms(4) [unfolded bs] assms(5,6)] by blast
  ultimately show ?thesis by blast
qed

definition plain_read_env :: read_env where
  "plain_read_env = \<lparr>stack_msg = replicate 56 170, stack_size = replicate 8 187, heap_block = (\<lambda>n. Some (replicate (unat n) 204))\<rparr>"

lemma sample_frame_ok: "frame_ok sample_frame"
  by (simp add: sample_frame_def frame_ok_def)

lemma sample_frame_size [simp]: "frame_size sample_frame = 2"
  by (simp add: sample_frame_def)

lemma plain_read_env_ok: "read_env_ok plain_read_env n"
  by (simp add: read_env_ok_def plain_read_env_def message_size_def)

lemma frame_transfer_witness:
  defines "bs \<equiv> frame_bytes [0, 0, 0, 0] sample_frame"
  shows "length bs = message_size + 8 + unat (frame_size sample_frame) \<and>
    (\<exists>segs'. recv_frame plain_read_env [take 56 bs, drop 56 bs @ [9]] = (sample_frame, segs') \<and> concat segs' = [9])"
  unfolding bs_def
proof (rule frame_transfer [OF sample_frame_ok _ send_frame_whole [OF sample_frame_ok]])
  show "no_short_read (frame_reads sample_frame)
    [take 56 (frame_bytes [0, 0, 0, 0] sample_frame), drop 56 (frame_bytes [0, 0, 0, 0] sample_frame) @ [9]]"
    by (simp add: frame_reads_def message_size_def length_frame_bytes sample_frame_ok)
qed (simp_all add: plain_read_env_ok)

text \<open>A short read goes unnoticed: when only the first \<open>k\<close> bytes of the data have arrived, the
  client still answers 0, with the rest of the data whatever the heap block held before.\<close>

theorem short_read_unnoticed:
  assumes "frame_ok f" "frame_data f = Some bs" "bs \<noteq> []" "k < length bs" "length pad = 4"
    and "heap_block (reading env) (frame_size f) = Some block" "read_env_ok (reading env) (frame_size f)"
    and "arriving env = [message_bytes pad (frame_msg f), le_bytes 8 (frame_size f), take k bs, drop k bs]"
    and "send_frame (padding env) messsage (limits env) = Inr sent"
  shows "client_exchange env messsage =
    Inr \<lparr>code = 0, written = sent, reply = Some (f\<lparr>frame_data := Some (take k bs @ drop k block)\<rparr>), left_open = 1\<rparr>"
proof -
  have "frame_size f \<noteq> 0" and l: "length bs = unat (frame_size f)"
    using assms(1-3) by (auto simp: frame_ok_def split: if_splits)
  moreover have "read_into (unat (frame_size f)) block [take k bs, drop k bs] = (take k bs @ drop k block, [drop k bs])"
    using assms(4) l by (simp add: read_into_def)
  moreover have "f\<lparr>frame_data := d\<rparr> = \<lparr>frame_msg = frame_msg f, frame_size = frame_size f, frame_data = d\<rparr>" for d
    by simp
  ultimately show ?thesis
    using assms(5-9)
    by (simp add: client_exchange_def recv_frame_def read_into_def Let_def read_env_ok_def length_message_bytes
        bytes_message_inverse)
qed

definition plain_client :: "(sockaddr \<Rightarrow> bool) \<Rightarrow> u8 list list \<Rightarrow> client_env" where
  "plain_client c segs = \<lparr>connects = c, stack_char = CHR ''?'', padding = [0, 0, 0, 0], limits = [],
     reading = plain_read_env, arriving = segs\<rparr>"

lemma two_of: "replicate 2 x = [x, x]"
  by (simp add: numeral_2_eq_2)

lemma short_read_unnoticed_witness:
  "client_exchange (plain_client (\<lambda>_. True)
      [message_bytes [0, 0, 0, 0] (frame_msg sample_frame), le_bytes 8 2, take 1 [1, 255], drop 1 [1, 255]]) sample_frame =
    Inr \<lparr>code = 0, written = frame_bytes [0, 0, 0, 0] sample_frame,
      reply = Some (sample_frame\<lparr>frame_data := Some (take 1 [1, 255] @ drop 1 [204, 204])\<rparr>), left_open = 1\<rparr>"
  by (rule short_read_unnoticed [OF sample_frame_ok, where pad = "[0, 0, 0, 0]"])
    (simp_all add: plain_client_def plain_read_env_ok send_frame_whole sample_frame_ok,
     simp_all add: sample_frame_def plain_read_env_def two_of)

section \<open>Addresses that name the same socket\<close>

text \<open>Unix addresses whose paths agree in their first 107 characters are one address.\<close>

lemma long_paths_collide:
  "take 107 p = take 107 q \<Longrightarrow> length p \<ge> 107 \<Longrightarrow> length q \<ge> 107 \<Longrightarrow> sun_path g p = sun_path g q"
  by (simp add: sun_path_def SUN_PATH_def)

text \<open>An unreachable network address crashes the client in its log message.\<close>

lemma unreachable_network_address:
  "\<not> connects env (Sockaddr_In (htons port) (htonl ip)) \<Longrightarrow>
    tcp_client_send_message env (Net_Addr port ip) NETWORK_TYPE_NET messsage = Inl Wild_Pointer"
  by (simp add: tcp_client_send_message_def)

text \<open>Writes that take fewer bytes than they are given leave the code 0 as well.\<close>

lemma short_write_unnoticed:
  "client_exchange env messsage = Inr r \<Longrightarrow> code r = 0 \<and> left_open r = 1"
  by (auto simp: client_exchange_def)

end
