(* ===== verification/Tcp_Server.thy ===== *)
theory Tcp_Server
  imports Tcp_Client
begin

text \<open>
  The server of \<^verbatim>\<open>network/tcp_server.c\<close>, one operation at a time: the Python object and its
  methods, the sockets it opens, and what a worker does with one request. How the threads
  interleave is the subject of \<open>Server_Threads\<close>.
\<close>

section \<open>The server object\<close>

text \<open>The callback is \<^verbatim>\<open>None\<close>, or a function that answers with an object or raises.\<close>

datatype py_callback = No_Callback | Callback "py_object \<Rightarrow> py_object option"

text \<open>
  The request queue, the lock and the threads are in \<open>Server_Threads\<close>. \<open>threads\<close> counts the
  threads that \<^verbatim>\<open>start\<close> has created.
\<close>

record tcp_server =
  srv_socket :: int
  srv_type :: net_type_t
  srv_address :: address
  keep_alive :: bool
  is_alive :: bool
  worker_n :: u32
  threads :: nat
  srv_callback :: py_callback

definition TCP_WORKER_COUNT :: u32 where "TCP_WORKER_COUNT = 8"

text \<open>\<^verbatim>\<open>tp_alloc\<close> clears the object.\<close>

definition TCPServer_new :: tcp_server where
  "TCPServer_new = \<lparr>srv_socket = 0, srv_type = NETWORK_TYPE_NET, srv_address = No_Path, keep_alive = False, is_alive = False,
     worker_n = TCP_WORKER_COUNT, threads = 0, srv_callback = No_Callback\<rparr>"

definition TCPServer_init :: "py_object \<Rightarrow> tcp_server \<Rightarrow> (string \<times> tcp_server) + tcp_server" where
  "TCPServer_init py_address self = (case py_address of
     Py_Unicode path \<Rightarrow> Inr (self\<lparr>srv_type := NETWORK_TYPE_UNIX, srv_address := Path path\<rparr>)
   | Py_Long port \<Rightarrow> Inr (self\<lparr>srv_type := NETWORK_TYPE_NET, srv_address := Net_Addr (word_of_int (PyLong_AsLong (Py_Long port))) 0\<rparr>)
   | _ \<Rightarrow> Inl (''TypeError'', self))"

definition TCPServer_set_request_callback :: "py_callback \<Rightarrow> tcp_server \<Rightarrow> tcp_server" where
  "TCPServer_set_request_callback cb self = self\<lparr>srv_callback := cb\<rparr>"

section \<open>Opening the socket\<close>

text \<open>
  The system calls answer as the environment says; the trace records those that were made.
  The socket stays open when \<^verbatim>\<open>bind\<close> or \<^verbatim>\<open>listen\<close> fails.
\<close>

datatype syscall = Socket | Set_Reuse | Unlink string | Bind sockaddr | Listen nat

record system =
  socket_fd :: int
  bind_ok :: "sockaddr \<Rightarrow> bool"
  listen_ok :: bool
  sys_char :: char

definition INADDR_ANY :: u32 where "INADDR_ANY = 0"

definition TCPServer_init_network_socket :: "system \<Rightarrow> u16 \<Rightarrow> int \<times> syscall list" where
  "TCPServer_init_network_socket sys port =
     (let addr = Sockaddr_In (htons port) (htonl INADDR_ANY) in
      if socket_fd sys = - 1 then (- 1, [Socket])
      else if \<not> bind_ok sys addr then (- 1, [Socket, Set_Reuse, Bind addr])
      else if \<not> listen_ok sys then (- 1, [Socket, Set_Reuse, Bind addr, Listen 64])
      else (socket_fd sys, [Socket, Set_Reuse, Bind addr, Listen 64]))"

definition TCPServer_init_unix_socket :: "system \<Rightarrow> string \<Rightarrow> int \<times> syscall list" where
  "TCPServer_init_unix_socket sys path =
     (let addr = Sockaddr_Un (sun_path (sys_char sys) path) in
      if socket_fd sys = - 1 then (- 1, [Socket])
      else if \<not> bind_ok sys addr then (- 1, [Socket, Unlink path, Bind addr])
      else if \<not> listen_ok sys then (- 1, [Socket, Unlink path, Bind addr, Listen 32])
      else (socket_fd sys, [Socket, Unlink path, Bind addr, Listen 32]))"

text \<open>\<^verbatim>\<open>start\<close>: the workers, then the socket, then the thread that accepts connections.\<close>

definition TCPServer_start :: "system \<Rightarrow> tcp_server \<Rightarrow> (tcp_server \<times> syscall list) result" where
  "TCPServer_start sys self =
     (let self = self\<lparr>keep_alive := True, threads := threads self + unat (worker_n self)\<rparr> in
      case srv_type self of
        NETWORK_TYPE_NET \<Rightarrow>
          (case srv_address self of
             Net_Addr port ip \<Rightarrow>
               let (fd, calls) = TCPServer_init_network_socket sys port
               in Inr (self\<lparr>srv_socket := fd, threads := threads self + 1\<rparr>, calls)
           | No_Path \<Rightarrow>
               let (fd, calls) = TCPServer_init_network_socket sys 0
               in Inr (self\<lparr>srv_socket := fd, threads := threads self + 1\<rparr>, calls)
           | _ \<Rightarrow> Inl Wild_Pointer)
      | NETWORK_TYPE_UNIX \<Rightarrow>
          (case srv_address self of
             Path path \<Rightarrow>
               let (fd, calls) = TCPServer_init_unix_socket sys path
               in Inr (self\<lparr>srv_socket := fd, threads := threads self + 1\<rparr>, calls)
           | _ \<Rightarrow> Inl Wild_Pointer))"

section \<open>The end of a server, and its name\<close>

text \<open>
  What \<^verbatim>\<open>TCPServer_dealloc\<close> does, in order. \<^verbatim>\<open>is_alive\<close> is set by the accepting thread when it
  runs, not by \<^verbatim>\<open>start\<close>.
\<close>

datatype teardown = Stop_Server | Free_Path | Destroy_Lock | Free_Threads | Drop_Callback | Free_Queue | Free_Server

definition TCPServer_dealloc :: "tcp_server \<Rightarrow> teardown list" where
  "TCPServer_dealloc self =
     (if is_alive self then [Stop_Server] else []) @
     (if srv_type self = NETWORK_TYPE_UNIX then [Free_Path] else []) @
     [Destroy_Lock, Free_Threads, Drop_Callback, Free_Queue, Free_Server]"

fun decimal :: "nat \<Rightarrow> string" where
  "decimal n = (if n < 10 then [char_of (48 + n)] else decimal (n div 10) @ [char_of (48 + n mod 10)])"

declare decimal.simps [simp del]

definition TCPServer_repr :: "tcp_server \<Rightarrow> string result" where
  "TCPServer_repr self = (case srv_type self of
     NETWORK_TYPE_UNIX \<Rightarrow>
       (case srv_address self of
          Path path \<Rightarrow> Inr (''TCPServer<path='' @ path @ '', workers='' @ decimal (unat (worker_n self)) @ ''>'')
        | _ \<Rightarrow> Inl Wild_Pointer)
   | NETWORK_TYPE_NET \<Rightarrow>
       (case srv_address self of
          Path path \<Rightarrow> Inl Wild_Pointer
        | Net_Addr port ip \<Rightarrow> Inr (''TCPServer<port='' @ decimal (unat port) @ '', workers='' @ decimal (unat (worker_n self)) @ ''>'')
        | No_Path \<Rightarrow> Inr (''TCPServer<port=0, workers='' @ decimal (unat (worker_n self)) @ ''>'')))"

text \<open>A server that was just started is torn down without being stopped: its threads go on with freed memory.\<close>

lemma dealloc_without_stop:
  assumes "TCPServer_start sys self = Inr (self', calls)" "\<not> is_alive self"
  shows "keep_alive self' \<and> 0 < threads self' \<and> Stop_Server \<notin> set (TCPServer_dealloc self')"
  using assms
  by (auto simp: TCPServer_start_def TCPServer_dealloc_def Let_def split: net_type_t.splits address.splits prod.splits)

section \<open>One request\<close>

definition read_request :: "read_env \<Rightarrow> u8 list list \<Rightarrow> message_frame \<times> u8 list list" where
  "read_request env segs =
     (let (mb, segs) = read_into message_size (stack_msg env) segs;
          (sb, segs) = read_into 8 (stack_size env) segs;
          size = le_word sb
      in if size \<noteq> 0
         then (case heap_block env size of
                 None \<Rightarrow> (\<lparr>frame_msg = bytes_message mb, frame_size = size, frame_data = None\<rparr>, segs)
               | Some block \<Rightarrow>
                   let (db, segs) = read_into (unat size) block segs
                   in (\<lparr>frame_msg = bytes_message mb, frame_size = size, frame_data = Some db\<rparr>, segs))
         else (\<lparr>frame_msg = bytes_message mb, frame_size = 0, frame_data = None\<rparr>, segs))"

lemma read_request_is_recv: "read_request = recv_frame"
  by (rule ext)+ (simp add: read_request_def recv_frame_def)

text \<open>
  The response structure: what the callback's answer is converted to; without an answer it
  is never written, and its size is what the stack held. Blocks of the heap are numbered: 0 is
  the data of the request, 1 that of the response.
\<close>

definition run_callback :: "py_callback \<Rightarrow> message_frame \<Rightarrow> message_frame option result" where
  "run_callback callback message = (case callback of
     No_Callback \<Rightarrow> Inr None
   | Callback f \<Rightarrow> bindR (PyMessage_FromMessageFrame message) (\<lambda>py_message.
       case f py_message of
         None \<Rightarrow> Inr None
       | Some py_response \<Rightarrow> bindR (PyMessage_AsMessageFrame py_response) (\<lambda>response. Inr (Some response))))"

definition reply_bytes :: "u8 list \<Rightarrow> message_frame option \<Rightarrow> nat list \<Rightarrow> u8 list result" where
  "reply_bytes pad response lims = (case response of
     None \<Rightarrow> Inr (fst (sock_write (replicate (message_size + 8) 0) lims))
   | Some response \<Rightarrow>
      let (w1, lims) = sock_write (message_bytes pad (frame_msg response)) lims;
          (w2, lims) = sock_write (le_bytes 8 (frame_size response)) lims
      in if frame_size response \<noteq> 0
         then bindR (frame_payload response) (\<lambda>bs. Inr (w1 @ w2 @ fst (sock_write bs lims)))
         else Inr (w1 @ w2))"

definition free_block :: "nat option \<Rightarrow> nat list \<Rightarrow> nat list result" where
  "free_block p blocks = (case p of
     None \<Rightarrow> Inr blocks
   | Some b \<Rightarrow> if b \<in> set blocks then Inr (remove1 b blocks) else Inl Use_After_Free)"

definition free_frames :: "u64 \<Rightarrow> message_frame \<Rightarrow> message_frame option \<Rightarrow> nat list result" where
  "free_frames stack message response =
     (let data = (if frame_data message = None then None else Some 0);
          response_size = (case response of None \<Rightarrow> stack | Some f \<Rightarrow> frame_size f);
          blocks = (if frame_data message = None then [] else [0]) @
            (case response of None \<Rightarrow> [] | Some f \<Rightarrow> if frame_data f = None then [] else [1])
      in bindR (if frame_size message \<noteq> 0 then free_block data blocks else Inr blocks) (\<lambda>blocks.
         if response_size \<noteq> 0 then free_block data blocks else Inr blocks))"

record worker_env =
  w_reading :: read_env
  w_stack_size :: u64
  w_padding :: "u8 list"
  w_limits :: "nat list"

text \<open>What a served request leaves: the bytes sent to the client and the blocks that leak.\<close>

definition TCPServer_serve :: "worker_env \<Rightarrow> py_callback \<Rightarrow> u8 list list \<Rightarrow> (u8 list \<times> nat list) result" where
  "TCPServer_serve env callback segs =
     (let message = fst (read_request (w_reading env) segs) in
      bindR (run_callback callback message) (\<lambda>response.
      bindR (reply_bytes (w_padding env) response (w_limits env)) (\<lambda>bs.
      bindR (free_frames (w_stack_size env) message response) (\<lambda>leaked.
        Inr (bs, leaked)))))"

section \<open>Types\<close>

text \<open>The member of the union that was written is the one the type says.\<close>

definition address_typed :: "tcp_server \<Rightarrow> bool" where
  "address_typed self \<longleftrightarrow> (case srv_type self of
     NETWORK_TYPE_NET \<Rightarrow> srv_address self = No_Path \<or> (\<exists>port. srv_address self = Net_Addr port 0)
   | NETWORK_TYPE_UNIX \<Rightarrow> (\<exists>path. srv_address self = Path path))"

datatype server_call = Init py_object | Set_Callback py_callback | Start system

fun call_server :: "server_call \<Rightarrow> tcp_server \<Rightarrow> tcp_server result" where
  "call_server (Init ob) self = Inr (case TCPServer_init ob self of Inl (e, self) \<Rightarrow> self | Inr self \<Rightarrow> self)"
| "call_server (Set_Callback cb) self = Inr (TCPServer_set_request_callback cb self)"
| "call_server (Start sys) self = bindR (TCPServer_start sys self) (\<lambda>(self, calls). Inr self)"

fun call_all :: "server_call list \<Rightarrow> tcp_server \<Rightarrow> tcp_server result" where
  "call_all [] self = Inr self"
| "call_all (c # cs) self = bindR (call_server c self) (call_all cs)"

lemma new_typed: "address_typed TCPServer_new"
  by (simp add: address_typed_def TCPServer_new_def)

lemma init_typed [keeps]: "address_typed self \<Longrightarrow> address_typed (case TCPServer_init ob self of Inl (e, s) \<Rightarrow> s | Inr s \<Rightarrow> s)"
  by (cases ob) (simp_all add: TCPServer_init_def address_typed_def)

lemma callback_typed [keeps]: "address_typed self \<Longrightarrow> address_typed (TCPServer_set_request_callback cb self)"
  by (simp add: TCPServer_set_request_callback_def address_typed_def split: net_type_t.splits)

lemma start_typed:
  assumes "address_typed self"
  shows "\<exists>self' calls. TCPServer_start sys self = Inr (self', calls) \<and> address_typed self'"
  using assms
  by (auto simp: TCPServer_start_def address_typed_def Let_def split_beta split: net_type_t.splits)

lemma call_typed: "address_typed self \<Longrightarrow> \<exists>self'. call_server c self = Inr self' \<and> address_typed self'"
  using start_typed [of self] by (cases c) (auto simp: keeps)

section \<open>Properties\<close>

text \<open>Whatever is called on a server object, in whatever order, the type of its address says
  which member of the address is set, and no call reads the other one.\<close>

theorem server_calls_typed: "\<exists>self. call_all cs TCPServer_new = Inr self \<and> address_typed self"
proof -
  have "\<exists>self'. call_all cs self = Inr self' \<and> address_typed self'" if "address_typed self" for self
    using that
  proof (induction cs arbitrary: self)
    case (Cons c cs)
    then obtain s where "call_server c self = Inr s" "address_typed s" using call_typed by blast
    with Cons.IH [of s] show ?case by simp
  qed simp
  from this [OF new_typed] show ?thesis .
qed

text \<open>\<^verbatim>\<open>start\<close> reports success whether or not there is a socket: it has created all the
  threads, tells them to go on, and the accepting thread is left with the descriptor -1.\<close>

theorem start_without_socket:
  assumes "address_typed self" "socket_fd sys = - 1 \<or> (\<forall>addr. \<not> bind_ok sys addr) \<or> \<not> listen_ok sys"
  shows "\<exists>self' calls. TCPServer_start sys self = Inr (self', calls) \<and> srv_socket self' = - 1 \<and> keep_alive self' \<and>
    threads self' = threads self + unat (worker_n self) + 1"
  using assms
  by (auto simp: TCPServer_start_def address_typed_def Let_def TCPServer_init_network_socket_def
      TCPServer_init_unix_socket_def split: net_type_t.splits)

lemma start_without_socket_witness:
  "\<exists>self' calls. TCPServer_start \<lparr>socket_fd = 5, bind_ok = (\<lambda>_. False), listen_ok = True, sys_char = CHR ''?''\<rparr> TCPServer_new =
      Inr (self', calls) \<and> srv_socket self' = - 1 \<and> keep_alive self' \<and>
    threads self' = threads TCPServer_new + unat (worker_n TCPServer_new) + 1"
  by (rule start_without_socket [OF new_typed]) simp

text \<open>
  What serving a request comes to when the callback's answer is a message: its frame is
  sent back, but if request and response both have data, the data of the request is freed
  twice, and otherwise the data of the response is never freed.
\<close>

lemma serve_answered:
  assumes "frame_ok f" "frame_ok r" "frame_size f = 0 \<or> frame_size r = 0" "fst (read_request (w_reading env) segs) = f"
    and "run_callback callback f = Inr (Some r)" "w_limits env = []"
  shows "TCPServer_serve env callback segs =
    Inr (frame_bytes (w_padding env) r, if frame_size r = 0 then [] else [1])"
  using assms
  by (auto simp: TCPServer_serve_def reply_bytes_def frame_payload_def frame_bytes_def free_frames_def free_block_def
      frame_ok_def split: if_splits)

lemma serve_double_free:
  assumes "frame_ok f" "frame_ok r" "frame_size f \<noteq> 0" "frame_size r \<noteq> 0" "fst (read_request (w_reading env) segs) = f"
    and "run_callback callback f = Inr (Some r)"
  shows "TCPServer_serve env callback segs = Inl Use_After_Free"
  using assms
  by (auto simp: TCPServer_serve_def reply_bytes_def frame_payload_def free_frames_def free_block_def split_beta
      frame_ok_def split: if_splits)

lemma serve_unanswered:
  assumes "frame_ok f" "fst (read_request (w_reading env) segs) = f" "run_callback callback f = Inr None" "w_limits env = []"
  shows "TCPServer_serve env callback segs =
    (if frame_size f \<noteq> 0 \<and> w_stack_size env \<noteq> 0 then Inl Use_After_Free else Inr (replicate 64 0, []))"
  using assms
  by (auto simp: TCPServer_serve_def reply_bytes_def free_frames_def free_block_def message_size_def frame_ok_def
      split: if_splits)

lemma from_frame_succeeds:
  assumes "frame_ok f"
  obtains py where "PyMessage_FromMessageFrame f = Inr py"
  using from_frame_result [OF assms] by blast

text \<open>C23: A worker answers a request with the bytes of the message its callback returns, when not both
  have data: the data of the response then leaks. When both have data the worker frees the
  data of the request twice. A callback that raises, and a server without one, are answered
  with 64 zero bytes, and the free is repeated too if the stack held a size that is not 0.\<close>

theorem worker_serves:
  assumes "frame_ok f" "length pad = 4" "concat segs = frame_bytes pad f" "no_short_read (frame_reads f) segs"
    and "read_env_ok (w_reading env) (frame_size f)" "w_limits env = []"
    and "run_callback callback f = Inr response" "case response of None \<Rightarrow> True | Some r \<Rightarrow> frame_ok r"
  shows "TCPServer_serve env callback segs = (case response of
     None \<Rightarrow> if frame_size f \<noteq> 0 \<and> w_stack_size env \<noteq> 0 then Inl Use_After_Free else Inr (replicate 64 0, [])
   | Some r \<Rightarrow> if frame_size f \<noteq> 0 \<and> frame_size r \<noteq> 0 then Inl Use_After_Free
       else Inr (frame_bytes (w_padding env) r, if frame_size r = 0 then [] else [1]))"
proof -
  obtain segs' where "recv_frame (w_reading env) segs = (f, segs')"
    using recv_frame_whole [OF assms(1,2) _ assms(4,5), of "[]"] assms(3) by auto
  then have r: "fst (read_request (w_reading env) segs) = f" by (simp add: read_request_is_recv)
  show ?thesis
  proof (cases response)
    case None
    then show ?thesis using serve_unanswered [OF assms(1) r _ assms(6)] assms(7) by simp
  next
    case (Some x)
    then have x: "frame_ok x" "run_callback callback f = Inr (Some x)" using assms(7,8) by simp_all
    show ?thesis
      using serve_answered [OF assms(1) x(1) _ r x(2) assms(6)] serve_double_free [OF assms(1) x(1) _ _ r x(2)] Some
      by auto
  qed
qed

definition plain_worker :: worker_env where
  "plain_worker = \<lparr>w_reading = plain_read_env, w_stack_size = 0, w_padding = [1, 2, 3, 4], w_limits = []\<rparr>"

definition empty_frame :: message_frame where
  "empty_frame = sample_frame\<lparr>frame_size := 0, frame_data := None\<rparr>"

lemma empty_frame_size [simp]: "frame_size empty_frame = 0"
  by (simp add: empty_frame_def)

lemma empty_frame_ok: "frame_ok empty_frame"
  by (simp add: empty_frame_def frame_ok_def)

definition echo :: py_callback where
  "echo = Callback Some"

lemma echo_answers: "frame_ok f \<Longrightarrow> run_callback echo f = Inr (Some f)"
  using frame_py_round [of f] by (auto simp: run_callback_def echo_def elim!: from_frame_succeeds)

lemma worker_serves_witness:
  "TCPServer_serve plain_worker echo [frame_bytes [0, 0, 0, 0] sample_frame] = (case Some sample_frame of
     None \<Rightarrow> if frame_size sample_frame \<noteq> 0 \<and> w_stack_size plain_worker \<noteq> 0 then Inl Use_After_Free else Inr (replicate 64 0, [])
   | Some r \<Rightarrow> if frame_size sample_frame \<noteq> 0 \<and> frame_size r \<noteq> 0 then Inl Use_After_Free
       else Inr (frame_bytes (w_padding plain_worker) r, if frame_size r = 0 then [] else [1]))"
  by (rule worker_serves [where pad = "[0, 0, 0, 0]"])
    (simp_all add: sample_frame_ok echo_answers plain_worker_def plain_read_env_ok one_segment)

text \<open>The connection the client asks for is made.\<close>

definition reaches :: "client_env \<Rightarrow> py_object \<Rightarrow> bool" where
  "reaches env py_address = (case parse_address py_address of
     Inl (NETWORK_TYPE_UNIX, Path path) \<Rightarrow> connects env (Sockaddr_Un (sun_path (stack_char env) path))
   | Inl (NETWORK_TYPE_NET, Net_Addr port ip) \<Rightarrow> connects env (Sockaddr_In (htons port) (htonl ip))
   | _ \<Rightarrow> False)"

lemma reaches_exchange:
  assumes "reaches env py_address" "PyMessage_AsMessageFrame py_message = Inr f"
  shows "Py_send_message env py_address py_message =
    bindR (client_exchange env f) (\<lambda>res. bindR (PyMessage_FromMessageFrame (the (reply res))) (\<lambda>py. Inr (Returns py)))"
proof -
  obtain obs where "py_message = Py_Tuple obs"
    using assms(2) by (cases py_message) (auto simp: PyMessage_AsMessageFrame_def PyStructSequence_GetItem_def)
  with assms show ?thesis
    by (auto simp: Py_send_message_def reaches_def tcp_client_send_message_def client_exchange_def bindR_assoc
        split: sum.splits prod.splits net_type_t.splits address.splits intro!: bindR_cong)
qed

text \<open>C12: From Python to Python: the message given to \<^verbatim>\<open>send_message\<close> goes over the wire, a worker
  hands it to the callback, and the message the callback returns is what \<^verbatim>\<open>send_message\<close>
  returns, provided the worker survives the request and no read is short. Both streams may
  be cut into segments in any other way.\<close>

theorem send_message_returns_answer:
  assumes "reaches env py_address" "PyMessage_AsMessageFrame py_message = Inr f" "frame_ok f"
    and "run_callback callback f = Inr (Some r)" "frame_ok r"
    and "send_frame (padding env) f [] = Inr sent" "concat req = sent" "no_short_read (frame_reads f) req"
    and "TCPServer_serve wenv callback req = Inr (answer, leaked)" "concat (arriving env) = answer"
    and "no_short_read (frame_reads r) (arriving env)"
    and "length (padding env) = 4" "limits env = []" "read_env_ok (reading env) (frame_size r)"
    and "length (w_padding wenv) = 4" "w_limits wenv = []" "read_env_ok (w_reading wenv) (frame_size f)"
  shows "\<exists>py. PyMessage_FromMessageFrame r = Inr py \<and> Py_send_message env py_address py_message = Inr (Returns py)"
proof -
  have "sent = frame_bytes (padding env) f" using assms(6) by (simp add: send_frame_whole assms(3))
  with assms(7) have req: "concat req = frame_bytes (padding env) f @ []" by simp
  obtain segs where "recv_frame (w_reading wenv) req = (f, segs)"
    using recv_frame_whole [OF assms(3,12) req assms(8,17)] by blast
  then have rd: "fst (read_request (w_reading wenv) req) = f" by (simp add: read_request_is_recv)
  have small: "frame_size f = 0 \<or> frame_size r = 0"
    using serve_double_free [OF assms(3,5) _ _ rd assms(4)] assms(9) by fastforce
  have "answer = frame_bytes (w_padding wenv) r"
    using serve_answered [OF assms(3,5) small rd assms(4,16)] assms(9) by simp
  with assms(10) have ans: "concat (arriving env) = frame_bytes (w_padding wenv) r @ []" by simp
  obtain segs' where "recv_frame (reading env) (arriving env) = (r, segs')"
    using recv_frame_whole [OF assms(5,15) ans assms(11,14)] by blast
  then show ?thesis
    using from_frame_succeeds [OF assms(5)] assms(6,13)
    by (auto simp: reaches_exchange [OF assms(1,2)] client_exchange_def)
qed

definition sample_py :: py_object where
  "sample_py = Py_Tuple [Py_Long 7, Py_Bytes (le_bytes 8 1), Py_Bytes (le_bytes 8 0), Py_Bytes (le_bytes 8 (2 ^ 63)),
     Py_Bytes (le_bytes 8 4), Py_Bytes (le_bytes 8 5), Py_Bytes (le_bytes 8 6), Py_None]"

lemma sample_py_frame: "PyMessage_FromMessageFrame empty_frame = Inr sample_py"
  by (simp add: PyMessage_FromMessageFrame_def empty_frame_def sample_frame_def sample_py_def)

lemma send_message_returns_answer_witness:
  "\<exists>py. PyMessage_FromMessageFrame sample_frame = Inr py \<and>
    Py_send_message (plain_client (\<lambda>_. True) [frame_bytes [1, 2, 3, 4] sample_frame]) (Py_Tuple [Py_Long 0, Py_Long 9490])
      sample_py = Inr (Returns py)"
proof (rule send_message_returns_answer
    [where f = empty_frame and callback = "Callback (\<lambda>_. Some (projr (PyMessage_FromMessageFrame sample_frame)))"
      and wenv = plain_worker and req = "[frame_bytes [0, 0, 0, 0] empty_frame]" and leaked = "[1]"
      and sent = "frame_bytes [0, 0, 0, 0] empty_frame" and answer = "frame_bytes [1, 2, 3, 4] sample_frame"])
  let ?cb = "Callback (\<lambda>_. Some (projr (PyMessage_FromMessageFrame sample_frame)))"
  obtain py where py: "PyMessage_FromMessageFrame sample_frame = Inr py"
    by (rule from_frame_succeeds [OF sample_frame_ok])
  show cb: "run_callback ?cb empty_frame = Inr (Some sample_frame)"
    using frame_py_round [OF sample_frame_ok] by (simp add: run_callback_def sample_py_frame py)
  have rd: "fst (read_request (w_reading plain_worker) [frame_bytes [0, 0, 0, 0] empty_frame]) = empty_frame"
    using recv_one_segment [OF empty_frame_ok] by (simp add: read_request_is_recv plain_worker_def plain_read_env_ok)
  show "TCPServer_serve plain_worker ?cb [frame_bytes [0, 0, 0, 0] empty_frame] = Inr (frame_bytes [1, 2, 3, 4] sample_frame, [1])"
    using serve_answered [OF empty_frame_ok sample_frame_ok _ rd cb] by (simp add: plain_worker_def)
  show "PyMessage_AsMessageFrame sample_py = Inr empty_frame"
    using frame_py_round [OF empty_frame_ok] by (simp add: sample_py_frame)
qed (simp_all add: reaches_def plain_client_def parse_address_def send_frame_whole empty_frame_ok sample_frame_ok
    plain_worker_def plain_read_env_ok one_segment)

end
