(* ===== verification/Server_Threads.thy ===== *)
theory Server_Threads
  imports Prelude "HOL-Library.Multiset"
begin

text \<open>
  The threads of \<^verbatim>\<open>network/tcp_server.c\<close>: \<open>n\<close> workers, the thread that accepts
  connections, and the Python thread that calls \<^verbatim>\<open>stop\<close>, over the mutex, the condition
  variable, the request queue and Python's global lock. A step is one thread moving from one
  synchronisation point to the next, or something the threads do not decide: a client connects,
  an accept fails, the condition variable wakes a waiter for no reason, Python switches
  threads. The queue is the list it represents (\<open>Queues\<close>); a request is the number of its
  connection.
\<close>

section \<open>State\<close>

datatype thread = Worker nat | Acceptor | Stopper

datatype worker_pc =
    W_Check | W_Lock | W_Peek | W_Wait | W_Woken | W_Relocked
  | W_Unlock nat | W_Gil nat | W_Call nat | W_Reply nat | W_Done

datatype acceptor_pc = A_Start | A_Check | A_Accept | A_Lock nat | A_Add nat | A_Unlock | A_Broadcast | A_Leave | A_Done

datatype stopper_pc =
    S_Idle | S_Lock | S_Clear | S_Unlock | S_Broadcast | S_Join nat | S_Shutdown | S_Join_Run | S_Done

text \<open>The last three fields are the history: connections accepted, requests taken, requests answered.\<close>

record server =
  keep_going :: bool
  alive :: bool
  mutex :: "thread option"
  gil :: "thread option"
  listening :: bool
  backlog :: "nat list"
  queue :: "nat list"
  workers :: "nat \<Rightarrow> worker_pc"
  acceptor :: acceptor_pc
  stopper :: stopper_pc
  accepted :: "nat list"
  taken :: "nat list"
  answered :: "nat list"

text \<open>The state in which \<^verbatim>\<open>start\<close> leaves the server, with or without a socket.\<close>

definition started :: "nat \<Rightarrow> bool \<Rightarrow> server" where
  "started n socket = \<lparr>keep_going = True, alive = False, mutex = None, gil = None, listening = socket, backlog = [],
     queue = [], workers = (\<lambda>i. if i < n then W_Check else W_Done), acceptor = A_Start, stopper = S_Idle,
     accepted = [], taken = [], answered = []\<rparr>"

definition move :: "nat \<Rightarrow> worker_pc \<Rightarrow> server \<Rightarrow> server" where
  "move i pc s = s\<lparr>workers := (workers s)(i := pc)\<rparr>"

text \<open>\<^verbatim>\<open>pthread_cond_broadcast\<close>\<close>

definition broadcast :: "server \<Rightarrow> server" where
  "broadcast s = s\<lparr>workers := (\<lambda>i. if workers s i = W_Wait then W_Woken else workers s i)\<rparr>"

section \<open>Steps\<close>

datatype event = Run thread | Connect nat | Accept_Fails | Spurious nat | Switch nat | Call_Stop

text \<open>\<^verbatim>\<open>TCPServer_worker_run\<close>. A worker reads its request on the way from \<open>W_Unlock\<close> to \<open>W_Gil\<close>.\<close>

inductive worker_step :: "nat \<Rightarrow> server \<Rightarrow> server \<Rightarrow> bool" where
  w_loop: "workers s i = W_Check \<Longrightarrow> worker_step i s (move i (if keep_going s then W_Lock else W_Done) s)"
| w_lock: "workers s i = W_Lock \<Longrightarrow> mutex s = None \<Longrightarrow> worker_step i s (move i W_Peek (s\<lparr>mutex := Some (Worker i)\<rparr>))"
| w_sleep: "workers s i = W_Peek \<Longrightarrow> queue s = [] \<Longrightarrow> worker_step i s (move i W_Wait (s\<lparr>mutex := None\<rparr>))"
| w_relock: "workers s i = W_Woken \<Longrightarrow> mutex s = None \<Longrightarrow> worker_step i s (move i W_Relocked (s\<lparr>mutex := Some (Worker i)\<rparr>))"
| w_continue: "workers s i = W_Relocked \<Longrightarrow> worker_step i s (move i W_Check (s\<lparr>mutex := None\<rparr>))"
| w_pop: "workers s i = W_Peek \<Longrightarrow> queue s = c # q \<Longrightarrow>
    worker_step i s (move i (W_Unlock c) (s\<lparr>queue := q, taken := taken s @ [c]\<rparr>))"
| w_unlock: "workers s i = W_Unlock c \<Longrightarrow> worker_step i s (move i (W_Gil c) (s\<lparr>mutex := None\<rparr>))"
| w_ensure: "workers s i = W_Gil c \<Longrightarrow> gil s = None \<Longrightarrow> worker_step i s (move i (W_Call c) (s\<lparr>gil := Some (Worker i)\<rparr>))"
| w_release: "workers s i = W_Call c \<Longrightarrow> worker_step i s (move i (W_Reply c) (s\<lparr>gil := None\<rparr>))"
| w_reply: "workers s i = W_Reply c \<Longrightarrow> worker_step i s (move i W_Check (s\<lparr>answered := answered s @ [c]\<rparr>))"

text \<open>\<^verbatim>\<open>TCPServer_run\<close>\<close>

inductive acceptor_step :: "server \<Rightarrow> server \<Rightarrow> bool" where
  a_start: "acceptor s = A_Start \<Longrightarrow> acceptor_step s (s\<lparr>alive := True, acceptor := A_Check\<rparr>)"
| a_loop: "acceptor s = A_Check \<Longrightarrow> acceptor_step s (s\<lparr>acceptor := if keep_going s then A_Accept else A_Leave\<rparr>)"
| a_accept: "acceptor s = A_Accept \<Longrightarrow> listening s \<Longrightarrow> backlog s = c # b \<Longrightarrow>
    acceptor_step s (s\<lparr>backlog := b, acceptor := A_Lock c, accepted := accepted s @ [c]\<rparr>)"
| a_closed: "acceptor s = A_Accept \<Longrightarrow> \<not> listening s \<Longrightarrow> acceptor_step s (s\<lparr>acceptor := A_Check\<rparr>)"
| a_lock: "acceptor s = A_Lock c \<Longrightarrow> mutex s = None \<Longrightarrow>
    acceptor_step s (s\<lparr>mutex := Some Acceptor, acceptor := A_Add c\<rparr>)"
| a_add: "acceptor s = A_Add c \<Longrightarrow> acceptor_step s (s\<lparr>queue := queue s @ [c], acceptor := A_Unlock\<rparr>)"
| a_unlock: "acceptor s = A_Unlock \<Longrightarrow> acceptor_step s (s\<lparr>mutex := None, acceptor := A_Broadcast\<rparr>)"
| a_broadcast: "acceptor s = A_Broadcast \<Longrightarrow> acceptor_step s (broadcast (s\<lparr>acceptor := A_Check\<rparr>))"
| a_leave: "acceptor s = A_Leave \<Longrightarrow> acceptor_step s (s\<lparr>alive := False, acceptor := A_Done\<rparr>)"

text \<open>\<^verbatim>\<open>TCPServer_stop\<close>, called with the global lock held, which it keeps until it returns.\<close>

inductive stopper_step :: "nat \<Rightarrow> server \<Rightarrow> server \<Rightarrow> bool" for n where
  s_lock: "stopper s = S_Lock \<Longrightarrow> mutex s = None \<Longrightarrow> stopper_step n s (s\<lparr>mutex := Some Stopper, stopper := S_Clear\<rparr>)"
| s_clear: "stopper s = S_Clear \<Longrightarrow> stopper_step n s (s\<lparr>keep_going := False, stopper := S_Unlock\<rparr>)"
| s_unlock: "stopper s = S_Unlock \<Longrightarrow> stopper_step n s (s\<lparr>mutex := None, stopper := S_Broadcast\<rparr>)"
| s_broadcast: "stopper s = S_Broadcast \<Longrightarrow> stopper_step n s (broadcast (s\<lparr>stopper := S_Join 0\<rparr>))"
| s_join: "stopper s = S_Join i \<Longrightarrow> i < n \<Longrightarrow> workers s i = W_Done \<Longrightarrow> stopper_step n s (s\<lparr>stopper := S_Join (Suc i)\<rparr>)"
| s_joined: "stopper s = S_Join i \<Longrightarrow> i \<ge> n \<Longrightarrow> stopper_step n s (s\<lparr>stopper := S_Shutdown\<rparr>)"
| s_shutdown: "stopper s = S_Shutdown \<Longrightarrow> stopper_step n s (s\<lparr>listening := False, stopper := S_Join_Run\<rparr>)"
| s_join_run: "stopper s = S_Join_Run \<Longrightarrow> acceptor s = A_Done \<Longrightarrow> stopper_step n s (s\<lparr>gil := None, stopper := S_Done\<rparr>)"

text \<open>
  A thread that waits for the mutex, for the global lock, for a connection or for another
  thread to end has no step of its own until it can go on.
\<close>

inductive server_step :: "nat \<Rightarrow> event \<Rightarrow> server \<Rightarrow> server \<Rightarrow> bool" for n where
  run_worker: "i < n \<Longrightarrow> worker_step i s t \<Longrightarrow> server_step n (Run (Worker i)) s t"
| run_acceptor: "acceptor_step s t \<Longrightarrow> server_step n (Run Acceptor) s t"
| run_stopper: "stopper_step n s t \<Longrightarrow> server_step n (Run Stopper) s t"
| connect: "server_step n (Connect c) s (s\<lparr>backlog := backlog s @ [c]\<rparr>)"
| accept_fails: "acceptor s = A_Accept \<Longrightarrow> server_step n Accept_Fails s (s\<lparr>acceptor := A_Check\<rparr>)"
| spurious: "workers s i = W_Wait \<Longrightarrow> server_step n (Spurious i) s (move i W_Woken s)"
| switch: "workers s i = W_Call c \<Longrightarrow> server_step n (Switch i) s (move i (W_Gil c) (s\<lparr>gil := None\<rparr>))"
| call_stop: "stopper s = S_Idle \<Longrightarrow> gil s = None \<Longrightarrow>
    server_step n Call_Stop s (s\<lparr>gil := Some Stopper, stopper := S_Lock\<rparr>)"

inductive runs :: "nat \<Rightarrow> server \<Rightarrow> event list \<Rightarrow> server \<Rightarrow> bool" for n where
  runs_nil: "runs n s [] s"
| runs_cons: "server_step n e s t \<Longrightarrow> runs n t es u \<Longrightarrow> runs n s (e # es) u"

definition reachable :: "nat \<Rightarrow> server \<Rightarrow> bool" where
  "reachable n s \<longleftrightarrow> (\<exists>socket es. runs n (started n socket) es s)"

lemma runs_invariant:
  assumes "runs n s es t" "P s" "\<And>e s t. server_step n e s t \<Longrightarrow> e \<in> set es \<Longrightarrow> P s \<Longrightarrow> P t"
  shows "P t"
  using assms
proof (induction rule: runs.induct)
  case (runs_cons e s t es u)
  have "P t" using runs_cons.hyps(1) runs_cons.prems by simp
  then show ?case using runs_cons.prems(2) by (intro runs_cons.IH) simp_all
qed

lemma reachable_invariant:
  assumes "reachable n s" "\<And>socket. P (started n socket)" "\<And>e s t. server_step n e s t \<Longrightarrow> P s \<Longrightarrow> P t"
  shows "P s"
  using assms runs_invariant [of n _ _ s P] unfolding reachable_def by blast

section \<open>Locks\<close>

fun worker_locks :: "worker_pc \<Rightarrow> bool" where
  "worker_locks W_Peek = True"
| "worker_locks W_Relocked = True"
| "worker_locks (W_Unlock c) = True"
| "worker_locks _ = False"

fun in_lock :: "server \<Rightarrow> thread \<Rightarrow> bool" where
  "in_lock s (Worker i) \<longleftrightarrow> worker_locks (workers s i)"
| "in_lock s Acceptor \<longleftrightarrow> (\<exists>c. acceptor s = A_Add c) \<or> acceptor s = A_Unlock"
| "in_lock s Stopper \<longleftrightarrow> stopper s = S_Clear \<or> stopper s = S_Unlock"

fun in_python :: "server \<Rightarrow> thread \<Rightarrow> bool" where
  "in_python s (Worker i) \<longleftrightarrow> (\<exists>c. workers s i = W_Call c)"
| "in_python s Acceptor \<longleftrightarrow> False"
| "in_python s Stopper \<longleftrightarrow> stopper s \<noteq> S_Idle \<and> stopper s \<noteq> S_Done"

definition locks_ok :: "server \<Rightarrow> bool" where
  "locks_ok s \<longleftrightarrow> (\<forall>t. in_lock s t \<longleftrightarrow> mutex s = Some t) \<and> (\<forall>t. in_python s t \<longleftrightarrow> gil s = Some t)"

lemma all_threads: "(\<forall>t. P t) \<longleftrightarrow> (\<forall>i. P (Worker i)) \<and> P Acceptor \<and> P Stopper"
  by (metis thread.exhaust)

text \<open>Where a thread stands depends on its own program counter only.\<close>

lemma move_simps [simp]:
  "keep_going (move i pc s) = keep_going s" "alive (move i pc s) = alive s" "mutex (move i pc s) = mutex s"
  "gil (move i pc s) = gil s" "listening (move i pc s) = listening s" "backlog (move i pc s) = backlog s"
  "queue (move i pc s) = queue s" "workers (move i pc s) = (workers s)(i := pc)" "acceptor (move i pc s) = acceptor s"
  "stopper (move i pc s) = stopper s" "accepted (move i pc s) = accepted s" "taken (move i pc s) = taken s"
  "answered (move i pc s) = answered s"
  by (simp_all add: move_def)

lemma broadcast_simps [simp]:
  "keep_going (broadcast s) = keep_going s" "alive (broadcast s) = alive s" "mutex (broadcast s) = mutex s"
  "gil (broadcast s) = gil s" "listening (broadcast s) = listening s" "backlog (broadcast s) = backlog s"
  "queue (broadcast s) = queue s" "acceptor (broadcast s) = acceptor s" "stopper (broadcast s) = stopper s"
  "accepted (broadcast s) = accepted s" "taken (broadcast s) = taken s" "answered (broadcast s) = answered s"
  "workers (broadcast s) i = (if workers s i = W_Wait then W_Woken else workers s i)"
  by (simp_all add: broadcast_def)

lemma in_lock_move [simp]: "in_lock (move i pc s) t \<longleftrightarrow> (if t = Worker i then worker_locks pc else in_lock s t)"
  by (cases t) simp_all

lemma in_python_move [simp]: "in_python (move i pc s) t \<longleftrightarrow> (if t = Worker i then \<exists>c. pc = W_Call c else in_python s t)"
  by (cases t) simp_all

lemma in_lock_cong: "workers t = workers s \<Longrightarrow> acceptor t = acceptor s \<Longrightarrow> stopper t = stopper s \<Longrightarrow> in_lock t = in_lock s"
  by (rule ext, case_tac x) simp_all

lemma in_python_cong: "workers t = workers s \<Longrightarrow> stopper t = stopper s \<Longrightarrow> in_python t = in_python s"
  by (rule ext, case_tac x) simp_all

lemma in_lock_fields [simp]:
  "in_lock (s\<lparr>mutex := m\<rparr>) = in_lock s" "in_lock (s\<lparr>gil := m\<rparr>) = in_lock s" "in_lock (s\<lparr>keep_going := b\<rparr>) = in_lock s"
  "in_lock (s\<lparr>alive := b\<rparr>) = in_lock s" "in_lock (s\<lparr>listening := b\<rparr>) = in_lock s" "in_lock (s\<lparr>backlog := q\<rparr>) = in_lock s"
  "in_lock (s\<lparr>queue := q\<rparr>) = in_lock s" "in_lock (s\<lparr>accepted := q\<rparr>) = in_lock s" "in_lock (s\<lparr>taken := q\<rparr>) = in_lock s"
  "in_lock (s\<lparr>answered := q\<rparr>) = in_lock s"
  by (rule in_lock_cong; simp)+

lemma in_python_fields [simp]:
  "in_python (s\<lparr>mutex := m\<rparr>) = in_python s" "in_python (s\<lparr>gil := m\<rparr>) = in_python s"
  "in_python (s\<lparr>keep_going := b\<rparr>) = in_python s" "in_python (s\<lparr>alive := b\<rparr>) = in_python s"
  "in_python (s\<lparr>listening := b\<rparr>) = in_python s" "in_python (s\<lparr>backlog := q\<rparr>) = in_python s"
  "in_python (s\<lparr>queue := q\<rparr>) = in_python s" "in_python (s\<lparr>accepted := q\<rparr>) = in_python s"
  "in_python (s\<lparr>taken := q\<rparr>) = in_python s" "in_python (s\<lparr>answered := q\<rparr>) = in_python s"
  "in_python (s\<lparr>acceptor := a\<rparr>) = in_python s"
  by (rule in_python_cong; simp)+

lemma in_lock_acceptor [simp]:
  "in_lock (s\<lparr>acceptor := a\<rparr>) t \<longleftrightarrow> (if t = Acceptor then (\<exists>c. a = A_Add c) \<or> a = A_Unlock else in_lock s t)"
  by (cases t) simp_all

lemma in_lock_stopper [simp]:
  "in_lock (s\<lparr>stopper := a\<rparr>) t \<longleftrightarrow> (if t = Stopper then a = S_Clear \<or> a = S_Unlock else in_lock s t)"
  by (cases t) simp_all

lemma in_python_stopper [simp]:
  "in_python (s\<lparr>stopper := a\<rparr>) t \<longleftrightarrow> (if t = Stopper then a \<noteq> S_Idle \<and> a \<noteq> S_Done else in_python s t)"
  by (cases t) simp_all

lemma worker_locks_woken [simp]: "worker_locks (if pc = W_Wait then W_Woken else pc) = worker_locks pc"
  by simp

lemma in_lock_broadcast [simp]: "in_lock (broadcast s) t = in_lock s t"
  by (cases t) simp_all

lemma in_python_broadcast [simp]: "in_python (broadcast s) t = in_python s t"
  by (cases t) simp_all

lemma lock_owner:
  assumes "locks_ok s"
  shows "in_lock s t \<longleftrightarrow> mutex s = Some t" "in_python s t \<longleftrightarrow> gil s = Some t"
  using assms by (simp_all add: locks_ok_def)

lemma worker_step_locks:
  assumes "worker_step i s t" "locks_ok s"
  shows "locks_ok t"
proof -
  have "worker_locks (workers s i) \<longleftrightarrow> mutex s = Some (Worker i)" "(\<exists>c. workers s i = W_Call c) \<longleftrightarrow> gil s = Some (Worker i)"
    using assms(2) lock_owner [of s "Worker i"] by simp_all
  with assms(1) assms(2) [unfolded locks_ok_def] show ?thesis
    by (cases rule: worker_step.cases) (auto simp: locks_ok_def)
qed

lemma acceptor_step_locks:
  assumes "acceptor_step s t" "locks_ok s"
  shows "locks_ok t"
proof -
  have "(\<exists>c. acceptor s = A_Add c) \<or> acceptor s = A_Unlock \<longleftrightarrow> mutex s = Some Acceptor"
    using assms(2) lock_owner [of s Acceptor] by simp
  with assms(1) assms(2) [unfolded locks_ok_def] show ?thesis
    by (cases rule: acceptor_step.cases) (auto simp: locks_ok_def)
qed

lemma stopper_step_locks:
  assumes "stopper_step n s t" "locks_ok s"
  shows "locks_ok t"
proof -
  have "stopper s = S_Clear \<or> stopper s = S_Unlock \<longleftrightarrow> mutex s = Some Stopper"
    "stopper s \<noteq> S_Idle \<and> stopper s \<noteq> S_Done \<longleftrightarrow> gil s = Some Stopper"
    using assms(2) lock_owner [of s Stopper] by simp_all
  with assms(1) assms(2) [unfolded locks_ok_def] show ?thesis
    by (cases rule: stopper_step.cases) (auto simp: locks_ok_def)
qed

lemma server_step_locks:
  assumes "server_step n e s t" "locks_ok s"
  shows "locks_ok t"
  using assms
proof (cases rule: server_step.cases)
  case (run_worker i)
  with assms(2) show ?thesis by (simp add: worker_step_locks)
next
  case run_acceptor
  with assms(2) show ?thesis by (simp add: acceptor_step_locks)
next
  case run_stopper
  with assms(2) show ?thesis by (simp add: stopper_step_locks)
next
  case accept_fails
  then have "mutex s \<noteq> Some Acceptor" using lock_owner(1) [OF assms(2), of Acceptor] by auto
  with accept_fails assms(2) show ?thesis by (auto simp: locks_ok_def)
next
  case (spurious i)
  then have "mutex s \<noteq> Some (Worker i)" "gil s \<noteq> Some (Worker i)" using lock_owner [OF assms(2), of "Worker i"] by auto
  with spurious assms(2) show ?thesis by (auto simp: locks_ok_def)
next
  case (switch i c)
  then have "mutex s \<noteq> Some (Worker i)" "gil s = Some (Worker i)" using lock_owner [OF assms(2), of "Worker i"] by auto
  with switch assms(2) show ?thesis by (auto simp: locks_ok_def)
next
  case call_stop
  then have "mutex s \<noteq> Some Stopper" using lock_owner(1) [OF assms(2), of Stopper] by auto
  with call_stop assms(2) show ?thesis by (auto simp: locks_ok_def)
qed (use assms(2) in \<open>auto simp: locks_ok_def\<close>)

lemma started_locks: "locks_ok (started n socket)"
  by (simp add: locks_ok_def all_threads started_def)

lemma reachable_locks: "reachable n s \<Longrightarrow> locks_ok s"
  by (rule reachable_invariant) (blast intro: started_locks server_step_locks)+

section \<open>Requests\<close>

fun in_hand :: "worker_pc \<Rightarrow> nat multiset" where
  "in_hand (W_Unlock c) = {#c#}"
| "in_hand (W_Gil c) = {#c#}"
| "in_hand (W_Call c) = {#c#}"
| "in_hand (W_Reply c) = {#c#}"
| "in_hand _ = {#}"

fun at_door :: "acceptor_pc \<Rightarrow> nat list" where
  "at_door (A_Lock c) = [c]"
| "at_door (A_Add c) = [c]"
| "at_door _ = []"

definition being_served :: "nat \<Rightarrow> server \<Rightarrow> nat multiset" where
  "being_served n s = (\<Sum>i<n. in_hand (workers s i))"

definition requests_ok :: "nat \<Rightarrow> server \<Rightarrow> bool" where
  "requests_ok n s \<longleftrightarrow> accepted s = taken s @ queue s @ at_door (acceptor s) \<and>
     mset (taken s) = mset (answered s) + being_served n s"

lemma being_served_fields [simp]:
  "being_served n (s\<lparr>mutex := m\<rparr>) = being_served n s" "being_served n (s\<lparr>gil := m\<rparr>) = being_served n s"
  "being_served n (s\<lparr>keep_going := b\<rparr>) = being_served n s" "being_served n (s\<lparr>alive := b\<rparr>) = being_served n s"
  "being_served n (s\<lparr>listening := b\<rparr>) = being_served n s" "being_served n (s\<lparr>backlog := q\<rparr>) = being_served n s"
  "being_served n (s\<lparr>queue := q\<rparr>) = being_served n s" "being_served n (s\<lparr>accepted := q\<rparr>) = being_served n s"
  "being_served n (s\<lparr>taken := q\<rparr>) = being_served n s" "being_served n (s\<lparr>answered := q\<rparr>) = being_served n s"
  "being_served n (s\<lparr>acceptor := a\<rparr>) = being_served n s" "being_served n (s\<lparr>stopper := t\<rparr>) = being_served n s"
  by (simp_all add: being_served_def)

lemma being_served_broadcast [simp]: "being_served n (broadcast s) = being_served n s"
  unfolding being_served_def by (rule sum.cong) auto

lemma being_served_move:
  assumes "i < n"
  shows "being_served n (move i pc s) + in_hand (workers s i) = being_served n s + in_hand pc"
proof -
  have "{..<n} = insert i ({..<n} - {i})" using assms by auto
  then have sum: "(\<Sum>j<n. f j) = f i + (\<Sum>j\<in>{..<n} - {i}. f j)" for f :: "nat \<Rightarrow> nat multiset"
    by (metis finite_Diff finite_lessThan insert_Diff_single sum.insert_remove)
  have "(\<Sum>j\<in>{..<n} - {i}. in_hand (((workers s)(i := pc)) j)) = (\<Sum>j\<in>{..<n} - {i}. in_hand (workers s j))"
    by (rule sum.cong) auto
  then show ?thesis by (simp add: being_served_def sum)
qed

lemma being_served_same:
  "in_hand pc = in_hand (workers s i) \<Longrightarrow> being_served n (move i pc s) = being_served n s"
  unfolding being_served_def by (rule sum.cong) auto

lemma worker_step_requests:
  assumes "worker_step i s t" "i < n" "requests_ok n s"
  shows "requests_ok n t"
  using assms(1)
proof (cases rule: worker_step.cases)
  case (w_pop c q)
  then show ?thesis
    using assms(3) being_served_move [OF assms(2), of "W_Unlock c" "s\<lparr>queue := q, taken := taken s @ [c]\<rparr>"]
    by (simp add: requests_ok_def)
next
  case (w_reply c)
  have "being_served n (move i W_Check (s\<lparr>answered := answered s @ [c]\<rparr>)) + {#c#} = being_served n s"
    using being_served_move [OF assms(2), of W_Check "s\<lparr>answered := answered s @ [c]\<rparr>"] w_reply by simp
  then have "add_mset c (being_served n t) = being_served n s" using w_reply by simp
  then show ?thesis using assms(3) w_reply by (simp add: requests_ok_def)
qed (use assms(3) in \<open>auto simp: requests_ok_def being_served_same\<close>)

lemma server_step_requests:
  assumes "server_step n e s t" "requests_ok n s"
  shows "requests_ok n t"
  using assms(1)
proof (cases rule: server_step.cases)
  case run_acceptor
  from run_acceptor(2) assms(2) show ?thesis
    by (cases rule: acceptor_step.cases) (auto simp: requests_ok_def)
next
  case run_stopper
  from run_stopper(2) assms(2) show ?thesis
    by (cases rule: stopper_step.cases) (auto simp: requests_ok_def)
qed (use assms(2) worker_step_requests in \<open>auto simp: requests_ok_def being_served_same\<close>)

lemma started_requests: "requests_ok n (started n socket)"
  by (simp add: requests_ok_def being_served_def started_def)

lemma reachable_requests: "reachable n s \<Longrightarrow> requests_ok n s"
  by (rule reachable_invariant) (blast intro: started_requests server_step_requests)+

section \<open>Progress\<close>

text \<open>While the server is not being stopped, a waiting request has a worker that is awake, or will be woken.\<close>

definition awake_ok :: "nat \<Rightarrow> server \<Rightarrow> bool" where
  "awake_ok n s \<longleftrightarrow> (keep_going s \<longleftrightarrow> stopper s \<in> {S_Idle, S_Lock, S_Clear}) \<and>
     (keep_going s \<longrightarrow> (\<forall>i<n. workers s i \<noteq> W_Done)) \<and>
     (0 < n \<and> keep_going s \<and> queue s \<noteq> [] \<longrightarrow>
       acceptor s \<in> {A_Unlock, A_Broadcast} \<or> (\<exists>i<n. workers s i \<noteq> W_Wait))"

lemma started_awake: "awake_ok n (started n socket)"
  by (auto simp: awake_ok_def started_def)

lemma move_awake:
  assumes "awake_ok n s" "pc \<noteq> W_Wait" "pc \<noteq> W_Done"
  shows "awake_ok n (move i pc s)"
proof -
  have "(\<exists>j<n. workers s j \<noteq> W_Wait) \<Longrightarrow> (\<exists>j<n. ((workers s)(i := pc)) j \<noteq> W_Wait)"
    using assms(2) by (metis fun_upd_apply)
  moreover have "keep_going s \<longrightarrow> (\<forall>j<n. ((workers s)(i := pc)) j \<noteq> W_Done)"
    using assms(1,3) by (simp add: awake_ok_def)
  ultimately show ?thesis using assms(1) unfolding awake_ok_def move_simps by argo
qed

lemma worker_step_awake:
  assumes "worker_step i s t" "i < n" "awake_ok n s"
  shows "awake_ok n t"
  using assms by (cases rule: worker_step.cases) (auto simp: awake_ok_def)

lemma server_step_awake:
  assumes "server_step n e s t" "awake_ok n s"
  shows "awake_ok n t"
  using assms(1)
proof (cases rule: server_step.cases)
  case (run_worker i)
  with assms(2) show ?thesis by (simp add: worker_step_awake)
next
  case run_acceptor
  from run_acceptor(2) assms(2) show ?thesis
    by (cases rule: acceptor_step.cases) (auto simp: awake_ok_def)
next
  case run_stopper
  from run_stopper(2) assms(2) show ?thesis
    by (cases rule: stopper_step.cases) (auto simp: awake_ok_def)
next
  case (spurious i)
  with assms(2) show ?thesis by (simp add: move_awake)
next
  case (switch i c)
  moreover have "awake_ok n (s\<lparr>gil := None\<rparr>)" using assms(2) by (simp add: awake_ok_def)
  ultimately show ?thesis by (simp add: move_awake)
qed (use assms(2) in \<open>auto simp: awake_ok_def\<close>)

lemma reachable_awake: "reachable n s \<Longrightarrow> awake_ok n s"
  by (rule reachable_invariant) (blast intro: started_awake server_step_awake)+

section \<open>Joining\<close>

fun joined :: "nat \<Rightarrow> stopper_pc \<Rightarrow> nat" where
  "joined n (S_Join i) = i"
| "joined n S_Shutdown = n"
| "joined n S_Join_Run = n"
| "joined n S_Done = n"
| "joined n _ = 0"

definition joins_ok :: "nat \<Rightarrow> server \<Rightarrow> bool" where
  "joins_ok n s \<longleftrightarrow> (\<forall>i\<ge>n. workers s i = W_Done) \<and> joined n (stopper s) \<le> n \<and> (\<forall>i < joined n (stopper s). workers s i = W_Done) \<and>
     (stopper s = S_Done \<longrightarrow> acceptor s = A_Done) \<and> (acceptor s = A_Done \<longrightarrow> \<not> alive s)"

lemma started_joins: "joins_ok n (started n socket)"
  by (simp add: joins_ok_def started_def)

lemma server_step_joins:
  assumes "server_step n e s t" "joins_ok n s"
  shows "joins_ok n t"
  using assms(1)
proof (cases rule: server_step.cases)
  case (run_worker i)
  from run_worker(3) assms(2) show ?thesis
    by (cases rule: worker_step.cases) (auto simp: joins_ok_def)
next
  case run_acceptor
  from run_acceptor(2) assms(2) show ?thesis
    by (cases rule: acceptor_step.cases) (auto simp: joins_ok_def)
next
  case run_stopper
  from run_stopper(2) assms(2) show ?thesis
    by (cases rule: stopper_step.cases) (auto simp: joins_ok_def less_Suc_eq)
qed (use assms(2) in \<open>auto simp: joins_ok_def\<close>)

lemma reachable_joins: "reachable n s \<Longrightarrow> joins_ok n s"
  by (rule reachable_invariant) (blast intro: started_joins server_step_joins)+

section \<open>Who can move\<close>

lemma locker_moves: "worker_locks (workers s i) \<Longrightarrow> \<exists>t. worker_step i s t"
proof (cases "workers s i")
  case W_Peek
  then show ?thesis by (cases "queue s") (blast intro: worker_step.intros)+
qed (auto intro: worker_step.intros)

lemma free_worker_moves:
  assumes "workers s i \<noteq> W_Wait" "workers s i \<noteq> W_Done" "\<nexists>c. workers s i = W_Gil c" "mutex s = None"
  shows "\<exists>t. worker_step i s t"
  using assms locker_moves [of s i] by (cases "workers s i") (auto intro: worker_step.intros)

lemma acceptor_moves:
  "acceptor s = A_Add c \<or> acceptor s = A_Unlock \<or> acceptor s = A_Broadcast \<Longrightarrow> \<exists>s'. server_step n (Run Acceptor) s s'"
  by (blast intro: run_acceptor acceptor_step.intros)

lemma stopper_moves:
  "stopper s = S_Clear \<or> stopper s = S_Unlock \<or> stopper s = S_Lock \<and> mutex s = None \<Longrightarrow>
    \<exists>s'. server_step n (Run Stopper) s s'"
  by (blast intro: run_stopper stopper_step.intros)

lemma workers_only: "joins_ok n s \<Longrightarrow> workers s i \<noteq> W_Done \<Longrightarrow> i < n"
  by (meson joins_ok_def not_le)

text \<open>The owner of the mutex can always go on, and so can the owner of the global lock while the
  mutex is free and nobody joins.\<close>

lemma owner_moves:
  assumes "in_lock s t" "joins_ok n s"
  shows "\<exists>t s'. server_step n (Run t) s s'"
proof (cases t)
  case (Worker i)
  then have "worker_locks (workers s i)" using assms(1) by simp
  moreover from this have "workers s i \<noteq> W_Done" by auto
  ultimately show ?thesis using locker_moves workers_only [OF assms(2)] by (blast intro: run_worker)
next
  case Acceptor
  then show ?thesis using assms(1) acceptor_moves [of s _ n] by auto
next
  case Stopper
  then show ?thesis using assms(1) stopper_moves [of s n] by auto
qed

lemma waits_for_python:
  assumes "in_python s t" "mutex s = None" "joins_ok n s" "stopper s \<in> {S_Idle, S_Lock, S_Clear}"
  shows "\<exists>t s'. server_step n (Run t) s s'"
proof (cases t)
  case (Worker i)
  then obtain c where "workers s i = W_Call c" using assms(1) by auto
  moreover from this have "i < n" by (intro workers_only [OF assms(3)]) simp
  ultimately show ?thesis by (blast intro: worker_step.intros run_worker)
next
  case Stopper
  then show ?thesis using assms(1,2,4) stopper_moves [of s n] by auto
qed (use assms(1) in simp)

section \<open>Some reachable states\<close>

lemma reachable_start: "reachable n (started n socket)"
  unfolding reachable_def by (blast intro: runs_nil)

lemma runs_snoc: "runs n s es t \<Longrightarrow> server_step n e t u \<Longrightarrow> runs n s (es @ [e]) u"
  by (induction rule: runs.induct) (auto intro: runs.intros)

lemma reachable_to: "reachable n s \<Longrightarrow> server_step n e s t' \<Longrightarrow> t' = t \<Longrightarrow> reachable n t"
  unfolding reachable_def by (blast intro: runs_snoc)

lemma started_fields [simp]:
  "keep_going (started n b) = True" "mutex (started n b) = None" "gil (started n b) = None" "listening (started n b) = b"
  "backlog (started n b) = []" "queue (started n b) = []" "workers (started n b) i = (if i < n then W_Check else W_Done)"
  "acceptor (started n b) = A_Start" "stopper (started n b) = S_Idle" "accepted (started n b) = []"
  "taken (started n b) = []" "answered (started n b) = []"
  by (simp_all add: started_def)

lemma broadcast_none: "(\<And>i. workers s i \<noteq> W_Wait) \<Longrightarrow> broadcast s = s"
  by (rule server.equality) (simp_all add: broadcast_def)

text \<open>The accepting thread has queued a connection.\<close>

definition queued :: "nat \<Rightarrow> nat \<Rightarrow> server" where
  "queued n c = (started n True)\<lparr>alive := True, acceptor := A_Unlock, mutex := Some Acceptor, queue := [c], accepted := [c]\<rparr>"

lemma reachable_queued: "reachable n (queued n c)"
proof -
  let ?s = "started n True"
  have 1: "reachable n (?s\<lparr>alive := True, acceptor := A_Check\<rparr>)"
    by (rule reachable_to [OF reachable_start run_acceptor [OF a_start]]) (simp_all, (rule server.equality; simp)?)
  have 2: "reachable n (?s\<lparr>alive := True, acceptor := A_Accept\<rparr>)"
    by (rule reachable_to [OF 1 run_acceptor [OF a_loop]]) (simp_all, (rule server.equality; simp)?)
  have 3: "reachable n (?s\<lparr>alive := True, acceptor := A_Accept, backlog := [c]\<rparr>)"
    by (rule reachable_to [OF 2 connect]) (simp_all, (rule server.equality; simp)?)
  have 4: "reachable n (?s\<lparr>alive := True, acceptor := A_Lock c, backlog := [], accepted := [c]\<rparr>)"
    by (rule reachable_to [OF 3 run_acceptor [OF a_accept]]) (simp_all, (rule server.equality; simp)?)
  have 5: "reachable n (?s\<lparr>alive := True, acceptor := A_Add c, backlog := [], accepted := [c], mutex := Some Acceptor\<rparr>)"
    by (rule reachable_to [OF 4 run_acceptor [OF a_lock]]) (simp_all, (rule server.equality; simp)?)
  show ?thesis
    by (rule reachable_to [OF 5 run_acceptor [OF a_add]]) (simp, simp add: queued_def, (rule server.equality; simp)?)
qed

text \<open>A worker has taken the request when \<^verbatim>\<open>stop\<close> is called.\<close>

definition caught :: "nat \<Rightarrow> nat \<Rightarrow> server" where
  "caught n c = (queued n c)\<lparr>acceptor := A_Check, mutex := Some (Worker 0), queue := [], taken := [c],
     workers := (workers (started n True))(0 := W_Unlock c), gil := Some Stopper, stopper := S_Lock\<rparr>"

lemma reachable_caught:
  assumes "0 < n"
  shows "reachable n (caught n c)"
proof -
  let ?s = "queued n c" and ?w = "workers (started n True)"
  have q [simp]: "queue ?s = [c]" "workers ?s = ?w" "mutex ?s = Some Acceptor" "acceptor ?s = A_Unlock" "taken ?s = []"
    "keep_going ?s = True" "gil ?s = None" "stopper ?s = S_Idle"
    by (simp_all add: queued_def fun_eq_iff)
  have 1: "reachable n (?s\<lparr>acceptor := A_Broadcast, mutex := None\<rparr>)"
    by (rule reachable_to [OF reachable_queued [of n c] run_acceptor [OF a_unlock]]) (simp_all, (rule server.equality; simp)?)
  have 2: "reachable n (?s\<lparr>acceptor := A_Check, mutex := None\<rparr>)"
    by (rule reachable_to [OF 1 run_acceptor [OF a_broadcast]]) (simp_all add: broadcast_none, (rule server.equality; simp)?)
  have 3: "reachable n (?s\<lparr>acceptor := A_Check, mutex := None, workers := ?w(0 := W_Lock)\<rparr>)"
    by (rule reachable_to [OF 2 run_worker [OF assms w_loop]]) (simp_all add: move_def assms, (rule server.equality; simp)?)
  have 4: "reachable n (?s\<lparr>acceptor := A_Check, mutex := Some (Worker 0), workers := ?w(0 := W_Peek)\<rparr>)"
    by (rule reachable_to [OF 3 run_worker [OF assms w_lock]]) (simp_all add: move_def, (rule server.equality; simp)?)
  have 5: "reachable n (?s\<lparr>acceptor := A_Check, mutex := Some (Worker 0), workers := ?w(0 := W_Unlock c), queue := [],
      taken := [c]\<rparr>)"
    by (rule reachable_to [OF 4 run_worker [OF assms w_pop]]) (simp_all add: move_def, (rule server.equality; simp)?)
  show ?thesis
    by (rule reachable_to [OF 5 call_stop]) (simp_all add: caught_def, (rule server.equality; simp)?)
qed

text \<open>A worker has gone to sleep after \<^verbatim>\<open>stop\<close> has woken the others.\<close>

definition asleep :: "nat \<Rightarrow> server" where
  "asleep n = (started n True)\<lparr>keep_going := False, gil := Some Stopper, stopper := S_Join 0,
     workers := (workers (started n True))(0 := W_Wait), alive := True, acceptor := A_Accept\<rparr>"

lemma reachable_asleep:
  assumes "0 < n"
  shows "reachable n (asleep n)"
proof -
  let ?s = "started n True" and ?w = "workers (started n True)"
  have 1: "reachable n (?s\<lparr>alive := True, acceptor := A_Check\<rparr>)"
    by (rule reachable_to [OF reachable_start run_acceptor [OF a_start]]) simp_all
  have 2: "reachable n (?s\<lparr>alive := True, acceptor := A_Accept\<rparr>)"
    by (rule reachable_to [OF 1 run_acceptor [OF a_loop]]) simp_all
  have 3: "reachable n (?s\<lparr>alive := True, acceptor := A_Accept, workers := ?w(0 := W_Lock)\<rparr>)"
    by (rule reachable_to [OF 2 run_worker [OF assms w_loop]]) (simp_all add: move_def assms)
  let ?s3 = "?s\<lparr>alive := True, acceptor := A_Accept, workers := ?w(0 := W_Lock)\<rparr>"
  have 4: "reachable n (?s3\<lparr>gil := Some Stopper, stopper := S_Lock\<rparr>)"
    by (rule reachable_to [OF 3 call_stop]) simp_all
  have 5: "reachable n (?s3\<lparr>gil := Some Stopper, mutex := Some Stopper, stopper := S_Clear\<rparr>)"
    by (rule reachable_to [OF 4 run_stopper [OF s_lock]]) (simp_all, (rule server.equality; simp)?)
  have 6: "reachable n (?s3\<lparr>gil := Some Stopper, mutex := Some Stopper, keep_going := False, stopper := S_Unlock\<rparr>)"
    by (rule reachable_to [OF 5 run_stopper [OF s_clear]]) (simp_all, (rule server.equality; simp)?)
  have 7: "reachable n (?s3\<lparr>gil := Some Stopper, mutex := None, keep_going := False, stopper := S_Broadcast\<rparr>)"
    by (rule reachable_to [OF 6 run_stopper [OF s_unlock]]) (simp_all, (rule server.equality; simp)?)
  have 8: "reachable n (?s3\<lparr>gil := Some Stopper, mutex := None, keep_going := False, stopper := S_Join 0\<rparr>)"
    by (rule reachable_to [OF 7 run_stopper [OF s_broadcast]]) (simp_all add: broadcast_none, (rule server.equality; simp)?)
  let ?s8 = "?s\<lparr>alive := True, acceptor := A_Accept, gil := Some Stopper, keep_going := False, stopper := S_Join 0\<rparr>"
  have 9: "reachable n (?s8\<lparr>workers := ?w(0 := W_Peek), mutex := Some (Worker 0)\<rparr>)"
    by (rule reachable_to [OF 8 run_worker [OF assms w_lock]]) (simp_all add: move_def, (rule server.equality; simp)?)
  show ?thesis
    by (rule reachable_to [OF 9 run_worker [OF assms w_sleep]])
      (simp_all add: move_def asleep_def, (rule server.equality; simp)?)
qed

section \<open>Ways to hang\<close>

text \<open>
  A worker that sleeps while \<^verbatim>\<open>stop\<close> waits for it: only a connection or a spurious wake-up
  could wake it, because nothing else broadcasts any more.
\<close>

definition sleeping :: "nat \<Rightarrow> nat \<Rightarrow> server \<Rightarrow> bool" where
  "sleeping n i s \<longleftrightarrow> i < n \<and> \<not> keep_going s \<and> workers s i = W_Wait \<and> stopper s = S_Join i \<and> backlog s = [] \<and>
     acceptor s \<in> {A_Check, A_Accept, A_Leave, A_Done}"

lemma sleeping_step:
  assumes "server_step n e s t" "\<nexists>c. e = Connect c" "e \<noteq> Spurious i" "sleeping n i s"
  shows "sleeping n i t"
  using assms(1)
proof (cases rule: server_step.cases)
  case (run_worker j)
  from run_worker(3) assms(4) show ?thesis
    by (cases rule: worker_step.cases) (auto simp: sleeping_def)
next
  case run_acceptor
  from run_acceptor(2) assms(4) show ?thesis
    by (cases rule: acceptor_step.cases) (auto simp: sleeping_def)
next
  case run_stopper
  from run_stopper(2) assms(4) show ?thesis
    by (cases rule: stopper_step.cases) (auto simp: sleeping_def)
qed (use assms(2-4) in \<open>auto simp: sleeping_def\<close>)

text \<open>
  A worker that has taken a request and needs the global lock to call back, while \<^verbatim>\<open>stop\<close>
  holds that lock and waits for the worker.
\<close>

definition starved :: "nat \<Rightarrow> nat \<Rightarrow> nat \<Rightarrow> server \<Rightarrow> bool" where
  "starved n i c s \<longleftrightarrow> i < n \<and> locks_ok s \<and> joins_ok n s \<and> workers s i \<in> {W_Unlock c, W_Gil c} \<and> gil s = Some Stopper"

lemma starved_not_joined:
  assumes "starved n i c s"
  shows "stopper s \<notin> {S_Idle, S_Shutdown, S_Join_Run, S_Done}"
proof -
  have "in_python s Stopper" using assms lock_owner(2) [of s Stopper] by (simp add: starved_def)
  then show ?thesis using assms by (auto simp: starved_def joins_ok_def)
qed

lemma starved_step:
  assumes "server_step n e s t" "starved n i c s"
  shows "starved n i c t"
proof -
  have inv: "locks_ok t" "joins_ok n t"
    using assms server_step_locks server_step_joins unfolding starved_def by blast+
  have py: "workers s j \<noteq> W_Call d" for j d
    using assms(2) lock_owner(2) [of s "Worker j"] by (auto simp: starved_def)
  have "workers t i \<in> {W_Unlock c, W_Gil c} \<and> gil t = Some Stopper"
    using assms(1)
  proof (cases rule: server_step.cases)
    case (run_worker j)
    from run_worker(3) assms(2) py show ?thesis
      by (cases rule: worker_step.cases) (auto simp: starved_def)
  next
    case run_acceptor
    from run_acceptor(2) assms(2) show ?thesis
      by (cases rule: acceptor_step.cases) (auto simp: starved_def)
  next
    case run_stopper
    from run_stopper(2) assms(2) starved_not_joined [OF assms(2)] show ?thesis
      by (cases rule: stopper_step.cases) (auto simp: starved_def)
  qed (use assms(2) py in \<open>auto simp: starved_def\<close>)
  with inv assms(2) show ?thesis by (simp add: starved_def)
qed

lemma starved_runs: "runs n s es t \<Longrightarrow> starved n i c s \<Longrightarrow> starved n i c t"
  by (erule runs_invariant) (auto intro: starved_step)

section \<open>Properties\<close>

text \<open>C28: In every reachable state at most one thread is between locking and unlocking the mutex, and at
  most one runs Python code.\<close>

theorem server_mutual_exclusion:
  assumes "reachable n s"
  shows "(in_lock s t \<and> in_lock s u \<longrightarrow> t = u) \<and> (in_python s t \<and> in_python s u \<longrightarrow> t = u)"
  using lock_owner [OF reachable_locks [OF assms]] by auto

text \<open>C11: No request is lost or answered twice: what was accepted is, in this order, what workers took,
  what is queued and what the accepting thread is about to queue, and every request taken is
  either answered or in the hands of a worker. Once \<^verbatim>\<open>stop\<close> has returned, every thread has
  ended and every request that was taken is answered; those still queued never are.\<close>

theorem server_requests_accounted:
  assumes "reachable n s"
  shows "accepted s = taken s @ queue s @ at_door (acceptor s) \<and>
    mset (taken s) = mset (answered s) + being_served n s \<and>
    (stopper s = S_Done \<longrightarrow> (\<forall>i<n. workers s i = W_Done) \<and> acceptor s = A_Done \<and> \<not> alive s \<and>
      accepted s = taken s @ queue s \<and> mset (taken s) = mset (answered s))"
proof -
  note r = reachable_requests [OF assms, unfolded requests_ok_def]
  note j = reachable_joins [OF assms, unfolded joins_ok_def]
  have "being_served n s = {#}" if "\<forall>i<n. workers s i = W_Done"
    using that by (simp add: being_served_def)
  with r j show ?thesis by auto
qed

text \<open>C29: The server does not deadlock while requests wait and nobody has begun to stop it: either the
  accepting thread is about to wake the workers, or one of them is awake; and some thread can
  take a step.\<close>

theorem server_progress:
  assumes "reachable n s" "0 < n" "keep_going s" "queue s \<noteq> []"
  shows "(acceptor s \<in> {A_Unlock, A_Broadcast} \<or> (\<exists>i<n. workers s i \<noteq> W_Wait \<and> workers s i \<noteq> W_Done)) \<and>
    (\<exists>t s'. server_step n (Run t) s s')"
proof
  note l = lock_owner [OF reachable_locks [OF assms(1)]] and a = reachable_awake [OF assms(1), unfolded awake_ok_def]
  show w: "acceptor s \<in> {A_Unlock, A_Broadcast} \<or> (\<exists>i<n. workers s i \<noteq> W_Wait \<and> workers s i \<noteq> W_Done)"
    using a assms(2-4) by auto
  show "\<exists>t s'. server_step n (Run t) s s'"
  proof (cases "mutex s")
    case None
    show ?thesis using w
    proof (elim disjE exE conjE)
      fix i assume i: "i < n" "workers s i \<noteq> W_Wait" "workers s i \<noteq> W_Done"
      show ?thesis
      proof (cases "\<exists>c. workers s i = W_Gil c")
        case True
        show ?thesis
        proof (cases "gil s")
          case (Some t)
          then have "in_python s t" by (simp add: l(2))
          then show ?thesis using waits_for_python [OF _ None, of t n] reachable_joins [OF assms(1)] a assms(3) by blast
        qed (use True i in \<open>blast intro: worker_step.intros run_worker\<close>)
      qed (use i None free_worker_moves in \<open>blast intro: run_worker\<close>)
    qed (use acceptor_moves [of s _ n] in auto)
  next
    case (Some t)
    then show ?thesis using owner_moves [of s t n] l(1) [of t] reachable_joins [OF assms(1)] by blast
  qed
qed

text \<open>C31: \<^verbatim>\<open>stop\<close> can hang: the flag is checked before the mutex is taken, so a worker may go to sleep
  after \<^verbatim>\<open>stop\<close> has woken everyone. From that reachable state on, unless a client connects
  or the worker wakes up for no reason, \<^verbatim>\<open>stop\<close> never returns.\<close>

theorem stop_loses_wakeup:
  assumes "0 < n"
  shows "\<exists>s. reachable n s \<and> workers s 0 = W_Wait \<and> stopper s = S_Join 0 \<and>
    (\<forall>es t. runs n s es t \<and> (\<forall>e\<in>set es. (\<nexists>c. e = Connect c) \<and> e \<noteq> Spurious 0) \<longrightarrow>
      workers t 0 = W_Wait \<and> stopper t = S_Join 0)"
proof (intro exI conjI allI impI)
  show "reachable n (asleep n)" by (rule reachable_asleep [OF assms])
  have s: "sleeping n 0 (asleep n)" using assms by (simp add: sleeping_def asleep_def)
  then show "workers (asleep n) 0 = W_Wait" "stopper (asleep n) = S_Join 0" by (simp_all add: sleeping_def)
  fix es t assume r: "runs n (asleep n) es t \<and> (\<forall>e\<in>set es. (\<nexists>c. e = Connect c) \<and> e \<noteq> Spurious 0)"
  have "sleeping n 0 t"
  proof (rule runs_invariant [where P = "sleeping n 0", OF conjunct1 [OF r] s])
    fix e u w assume "server_step n e u w" "e \<in> set es" "sleeping n 0 u"
    with r show "sleeping n 0 w" by (intro sleeping_step [of n e u w 0]) simp_all
  qed
  then show "workers t 0 = W_Wait" "stopper t = S_Join 0" by (simp_all add: sleeping_def)
qed

lemma stop_loses_wakeup_witness: "\<exists>s. reachable 8 s \<and> workers s 0 = W_Wait \<and> stopper s = S_Join 0"
  using stop_loses_wakeup [of 8] by auto

text \<open>C10: \<^verbatim>\<open>stop\<close> deadlocks with a request in progress: it keeps Python's global lock while it waits
  for the workers, so if it is called when a worker has taken a request and has not reached
  its callback, then whatever happens the request is never answered and \<^verbatim>\<open>stop\<close> never returns.\<close>

theorem stop_deadlocks_with_request:
  assumes "reachable n s" "in_python s Stopper" "i < n" "workers s i \<in> {W_Unlock c, W_Gil c}" "runs n s es t"
  shows "stopper t \<noteq> S_Done \<and> workers t i \<in> {W_Unlock c, W_Gil c}"
proof -
  have l: "locks_ok s" by (rule reachable_locks [OF assms(1)])
  then have "gil s = Some Stopper" using assms(2) lock_owner(2) by blast
  with l assms(3,4) reachable_joins [OF assms(1)] have "starved n i c s" by (simp add: starved_def)
  from starved_runs [OF assms(5) this] have "starved n i c t" .
  with starved_not_joined [OF this] show ?thesis by (auto simp: starved_def)
qed

lemma stop_deadlocks_with_request_witness:
  "stopper ((caught 8 7)\<lparr>backlog := backlog (caught 8 7) @ [3]\<rparr>) \<noteq> S_Done \<and>
    workers ((caught 8 7)\<lparr>backlog := backlog (caught 8 7) @ [3]\<rparr>) 0 \<in> {W_Unlock 7, W_Gil 7}"
proof (rule stop_deadlocks_with_request [OF reachable_caught])
  show "runs 8 (caught 8 7) [Connect 3] ((caught 8 7)\<lparr>backlog := backlog (caught 8 7) @ [3]\<rparr>)"
    by (rule runs_cons [OF connect runs_nil])
qed (simp_all add: caught_def)

lemma server_mutual_exclusion_witness:
  "in_lock (caught 8 7) (Worker 0) \<and> \<not> in_lock (caught 8 7) (Worker 1) \<and>
    in_python (caught 8 7) Stopper \<and> \<not> in_python (caught 8 7) (Worker 0)"
  using server_mutual_exclusion [OF reachable_caught [of 8 7], of "Worker 0" "Worker 1"]
    server_mutual_exclusion [OF reachable_caught [of 8 7], of Stopper "Worker 0"]
  by (simp add: caught_def)

lemma server_requests_accounted_witness:
  "accepted (caught 8 7) = taken (caught 8 7) @ queue (caught 8 7) @ at_door (acceptor (caught 8 7)) \<and>
    mset (taken (caught 8 7)) = mset (answered (caught 8 7)) + being_served 8 (caught 8 7)"
  using server_requests_accounted [OF reachable_caught [of 8 7]] by simp

lemma server_progress_witness:
  "(acceptor (queued 8 7) \<in> {A_Unlock, A_Broadcast} \<or>
      (\<exists>i<8. workers (queued 8 7) i \<noteq> W_Wait \<and> workers (queued 8 7) i \<noteq> W_Done)) \<and>
    (\<exists>t s'. server_step 8 (Run t) (queued 8 7) s')"
  by (rule server_progress [OF reachable_queued]) (simp_all add: queued_def)

end
