(* ===== verification/Regular.thy ===== *)
theory Regular
  imports Prelude
begin

text \<open>
  Regular expressions as the lexical macros of \<^verbatim>\<open>depend.y\<close> and \<^verbatim>\<open>requireduse.y\<close> use them:
  character classes, sequences, alternatives, repetition. \<open>lang\<close> is their meaning,
  \<open>matches\<close> the test by derivatives, and the two agree.
\<close>

datatype regex =
    Nothing
  | Empty
  | Class string
  | Then regex regex
  | Or regex regex
  | Star regex

abbreviation Opt :: "regex \<Rightarrow> regex" where "Opt r \<equiv> Or Empty r"
abbreviation Plus :: "regex \<Rightarrow> regex" where "Plus r \<equiv> Then r (Star r)"
abbreviation Lit :: "char \<Rightarrow> regex" where "Lit c \<equiv> Class [c]"

definition Str :: "string \<Rightarrow> regex" where
  "Str s = foldr (\<lambda>c r. Then (Lit c) r) s Empty"

text \<open>The meaning of an expression; repetitions are lists of words.\<close>

fun lang :: "regex \<Rightarrow> string set" where
  "lang Nothing = {}"
| "lang Empty = {[]}"
| "lang (Class cs) = (\<lambda>c. [c]) ` set cs"
| "lang (Then r s) = {u @ v | u v. u \<in> lang r \<and> v \<in> lang s}"
| "lang (Or r s) = lang r \<union> lang s"
| "lang (Star r) = {concat us | us. set us \<subseteq> lang r}"

text \<open>The test: the derivative by every character, then whether the empty word is left.\<close>

fun nullable :: "regex \<Rightarrow> bool" where
  "nullable Nothing \<longleftrightarrow> False"
| "nullable Empty \<longleftrightarrow> True"
| "nullable (Class cs) \<longleftrightarrow> False"
| "nullable (Then r s) \<longleftrightarrow> nullable r \<and> nullable s"
| "nullable (Or r s) \<longleftrightarrow> nullable r \<or> nullable s"
| "nullable (Star r) \<longleftrightarrow> True"

fun deriv :: "char \<Rightarrow> regex \<Rightarrow> regex" where
  "deriv c Nothing = Nothing"
| "deriv c Empty = Nothing"
| "deriv c (Class cs) = (if c \<in> set cs then Empty else Nothing)"
| "deriv c (Then r s) = (if nullable r then Or (Then (deriv c r) s) (deriv c s) else Then (deriv c r) s)"
| "deriv c (Or r s) = Or (deriv c r) (deriv c s)"
| "deriv c (Star r) = Then (deriv c r) (Star r)"

definition matches :: "regex \<Rightarrow> string \<Rightarrow> bool" where
  "matches r s = nullable (fold deriv s r)"

lemma nullable_lang: "nullable r \<longleftrightarrow> [] \<in> lang r"
  by (induction r) (auto intro: exI [of _ "[]"])

lemma star_Cons:
  "c # u \<in> lang (Star r) \<longleftrightarrow> (\<exists>v w. u = v @ w \<and> c # v \<in> lang r \<and> w \<in> lang (Star r))" (is "?l \<longleftrightarrow> ?r")
proof
  assume ?l
  then obtain us where us: "set us \<subseteq> lang r" "c # u = concat us" by auto
  then show ?r
  proof (induction us)
    case (Cons x us)
    show ?case
    proof (cases x)
      case Nil
      with Cons show ?thesis by simp
    next
      case (Cons d v)
      with Cons.prems have "u = v @ concat us" "c # v \<in> lang r" "set us \<subseteq> lang r" by auto
      then show ?thesis by auto
    qed
  qed simp
next
  assume ?r
  then obtain v us where "u = v @ concat us" "c # v \<in> lang r" "set us \<subseteq> lang r" by auto
  then show ?l by (auto intro!: exI [of _ "(c # v) # us"])
qed

lemma deriv_lang: "u \<in> lang (deriv c r) \<longleftrightarrow> c # u \<in> lang r"
proof (induction r arbitrary: u)
  case (Then r s)
  have split: "c # u \<in> lang (Then r s) \<longleftrightarrow>
      (\<exists>v w. u = v @ w \<and> c # v \<in> lang r \<and> w \<in> lang s) \<or> ([] \<in> lang r \<and> c # u \<in> lang s)"
    by (auto simp: Cons_eq_append_conv)
  show ?case unfolding split using Then by (auto simp: nullable_lang)
next
  case (Star r)
  have "u \<in> lang (deriv c (Star r)) \<longleftrightarrow> (\<exists>v w. u = v @ w \<and> c # v \<in> lang r \<and> w \<in> lang (Star r))"
    using Star by auto
  then show ?case unfolding star_Cons .
qed auto

lemma matches_lang: "matches r s \<longleftrightarrow> s \<in> lang r"
proof -
  have "nullable (fold deriv s r) \<longleftrightarrow> s \<in> lang r" for r
    by (induction s arbitrary: r) (simp_all add: nullable_lang deriv_lang)
  then show ?thesis by (simp add: matches_def)
qed

lemma lang_Str [simp]: "lang (Str s) = {s}"
  by (induction s) (auto simp: Str_def)

lemma lang_Star_Class: "lang (Star (Class cs)) = {s. set s \<subseteq> set cs}"
proof (intro set_eqI iffI)
  fix s assume "s \<in> lang (Star (Class cs))"
  then show "s \<in> {s. set s \<subseteq> set cs}" by fastforce
next
  fix s assume "s \<in> {s. set s \<subseteq> set cs}"
  then have "set (map (\<lambda>c. [c]) s) \<subseteq> lang (Class cs)" "s = concat (map (\<lambda>c. [c]) s)" by auto
  then show "s \<in> lang (Star (Class cs))" unfolding lang.simps by blast
qed

text \<open>Taking a word apart along the expression it matches.\<close>

lemma lang_ThenE:
  assumes "s \<in> lang (Then r q)"
  obtains u v where "s = u @ v" "u \<in> lang r" "v \<in> lang q"
  using assms by auto

lemma lang_Then_iff: "s \<in> lang (Then r q) \<longleftrightarrow> (\<exists>u v. s = u @ v \<and> u \<in> lang r \<and> v \<in> lang q)"
  by simp

lemma lang_StarE:
  assumes "s \<in> lang (Star r)"
  obtains us where "s = concat us" "set us \<subseteq> lang r"
  using assms by auto

lemma lang_LitD: "s \<in> lang (Lit c) \<Longrightarrow> s = [c]"
  by simp

lemma lang_OptD: "s \<in> lang (Opt r) \<Longrightarrow> s \<noteq> [] \<Longrightarrow> s \<in> lang r"
  by simp

text \<open>The characters that occur in the words of an expression.\<close>

fun alphabet :: "regex \<Rightarrow> char set" where
  "alphabet Nothing = {}"
| "alphabet Empty = {}"
| "alphabet (Class cs) = set cs"
| "alphabet (Then r s) = alphabet r \<union> alphabet s"
| "alphabet (Or r s) = alphabet r \<union> alphabet s"
| "alphabet (Star r) = alphabet r"

lemma lang_alphabet: "s \<in> lang r \<Longrightarrow> set s \<subseteq> alphabet r"
  by (induction r arbitrary: s) fastforce+

end
