(* ===== verification/Depend_Lexer.thy ===== *)
theory Depend_Lexer
  imports Portage_Db Regular
begin

text \<open>
  The lexical rules of \<^verbatim>\<open>cportage/depend.y\<close>: the expressions of its macros and the actions
  that turn a lexeme into a token. The lexer itself is generated; the model takes from it
  only that a lexeme matches the expression of its rule. The text \<^verbatim>\<open>yytext\<close> of a lexeme
  ends in a zero, \<^verbatim>\<open>yylen\<close> is its length.
\<close>

section \<open>Macros\<close>

definition upper :: string where "upper = ''ABCDEFGHIJKLMNOPQRSTUVWXYZ''"
definition lower :: string where "lower = ''abcdefghijklmnopqrstuvwxyz''"
definition decimal :: string where "decimal = ''0123456789''"
definition letter :: string where "letter = upper @ lower"

definition version_suf :: regex where
  "version_suf =
     Then (foldr Or (map Str [''_alpha'', ''_beta'', ''_pre'', ''_rc'', ''_p'']) Nothing) (Star (Class decimal))"

definition revision_rx :: regex where
  "revision_rx = Then (Str ''-r'') (Plus (Class decimal))"

definition version_rx :: regex where
  "version_rx =
     Then (Plus (Class decimal))
       (Then (Star (Then (Lit (CHR ''.'')) (Plus (Class decimal))))
         (Then (Opt (Class letter)) (Then (Star version_suf) (Opt revision_rx))))"

definition ident_word :: regex where
  "ident_word = Then (Class (letter @ ''_'' @ decimal)) (Star (Class (letter @ decimal @ ''+_'')))"

definition identifier_rx :: regex where
  "identifier_rx = Then ident_word (Star (Then (Lit (CHR ''-'')) ident_word))"

definition atom_rx :: regex where
  "atom_rx =
     Then identifier_rx (Then (Lit (CHR ''/'')) (Then identifier_rx
       (Then (Opt (Then (Opt (Class ''-.'')) version_rx)) (Opt (Lit (CHR ''*''))))))"

definition slotname :: regex where
  "slotname = Then (Class (letter @ decimal)) (Star (Class (letter @ decimal @ ''+_.-'')))"

definition slot_rx :: regex where
  "slot_rx =
     Then (Lit (CHR '':'')) (Then (Opt (Then slotname (Opt (Then (Lit (CHR ''/'')) slotname)))) (Opt (Class ''*|='')))"

definition repo_rx :: regex where
  "repo_rx = Then (Str ''::'') identifier_rx"

definition atomflag_rx :: regex where
  "atomflag_rx =
     Then (Opt (Class ''!-'')) (Then identifier_rx
       (Then (Opt (Then (Lit (CHR ''('')) (Then (Class ''+|-'') (Lit (CHR '')''))))) (Opt (Class ''?|=''))))"

definition atomflags_rx :: regex where
  "atomflags_rx =
     Then (Lit (CHR ''['')) (Then (Star (Lit (CHR '' ''))) (Then atomflag_rx
       (Then (Star (Then (Star (Lit (CHR '' ''))) (Then (Lit (CHR '','')) (Then (Star (Lit (CHR '' ''))) atomflag_rx))))
         (Then (Star (Lit (CHR '' ''))) (Lit (CHR '']''))))))"

definition use_select_rx :: regex where
  "use_select_rx = Then (Opt (Lit (CHR ''!''))) (Then (Plus (Class (letter @ decimal @ ''_-''))) (Lit (CHR ''?'')))"

section \<open>Tokens and rules\<close>

datatype depend_token =
    Chr char
  | REPOSITORY string
  | ATOM atom
  | ATOM_FLAGS "atom_flag list"
  | SLOT "string option" "string option" atom_slot_t
  | USESELECT "string option" use_operator_t

datatype depend_rule =
    R_newline | R_blank | R_repo | R_slot | R_atomflags | R_use_select
  | R_most_one | R_least_one | R_exact_one | R_chr char | R_atom

definition depend_chars :: string where "depend_chars = ''-<>=![]?()^|,~''"

fun rule_rx :: "depend_rule \<Rightarrow> regex" where
  "rule_rx R_newline = Lit (CHR 0x0A)"
| "rule_rx R_blank = Plus (Class [CHR '' '', CHR 0x09, CHR 0x0D, CHR 0x5C])"
| "rule_rx R_repo = repo_rx"
| "rule_rx R_slot = slot_rx"
| "rule_rx R_atomflags = atomflags_rx"
| "rule_rx R_use_select = use_select_rx"
| "rule_rx R_most_one = Str ''??''"
| "rule_rx R_least_one = Str ''||''"
| "rule_rx R_exact_one = Str ''^^''"
| "rule_rx (R_chr c) = (if c \<in> set depend_chars then Lit c else Nothing)"
| "rule_rx R_atom = atom_rx"

definition lexeme :: "depend_rule \<times> string \<Rightarrow> bool" where
  "lexeme l = matches (rule_rx (fst l)) (snd l)"

section \<open>Actions\<close>

definition slot_action :: "string \<Rightarrow> depend_token" where
  "slot_action yytext =
     (let yylen = length yytext; last = char_at yytext (yylen - 1);
          (opts, len) = (if last = CHR ''*'' then (ATOM_SLOT_IGNORE, yylen - 1)
                         else if last = CHR ''='' then (ATOM_SLOT_REBUILD, yylen - 1)
                         else (ATOM_SLOT_IGNORE, yylen));
          name_splt = (case strchr (drop 1 yytext) (CHR ''/'') of None \<Rightarrow> len | Some i \<Rightarrow> 1 + i)
      in if len \<le> 1 \<or> char_at yytext 1 = CHR 0x00 then SLOT None None opts
         else SLOT (Some (take (name_splt - 1) (drop 1 yytext)))
                (if char_at yytext name_splt \<noteq> CHR 0x00 then Some (drop (name_splt + 1) yytext) else None) opts)"

text \<open>One word of \<^verbatim>\<open>[...]\<close>: the first test that holds decides.\<close>

definition atomflag_action :: "string \<Rightarrow> atom_flag" where
  "atomflag_action tok =
     (let first = char_at tok 0; last = char_at tok (length tok - 1);
          (tok, opt) =
            (if first = CHR ''!'' \<and> last = CHR ''?'' then (drop 1 (butlast tok), ATOM_USE_DISABLE_IF_OFF)
             else if first = CHR ''!'' \<and> last = CHR ''='' then (drop 1 (butlast tok), ATOM_USE_OPPOSITE)
             else if last = CHR ''?'' then (butlast tok, ATOM_USE_ENABLE_IF_ON)
             else if last = CHR ''='' then (butlast tok, ATOM_USE_EQUAL)
             else if first = CHR ''-'' then (drop 1 tok, ATOM_USE_DISABLE)
             else (tok, ATOM_USE_ENABLE))
      in (atomflag_build tok)\<lparr>flag_option := opt\<rparr>)"

definition atomflags_action :: "string \<Rightarrow> depend_token" where
  "atomflags_action yytext = ATOM_FLAGS (map atomflag_action (strtok_all '' ,]'' (drop 1 yytext)))"

text \<open>\<^verbatim>\<open>yytext++\<close> moves the start of the text, \<^verbatim>\<open>yylen\<close> stays.\<close>

definition use_select_action :: "string \<Rightarrow> depend_token" where
  "use_select_action yytext =
     (let yylen = length yytext
      in if char_at yytext 0 = CHR ''!''
         then USESELECT (Some (take (yylen - 1) (drop 1 yytext))) USE_OP_DISABLE
         else USESELECT (Some (take (yylen - 1) yytext)) USE_OP_ENABLE)"

text \<open>The result of \<^verbatim>\<open>atom_init\<close> is not looked at.\<close>

definition atom_action :: "lut option \<Rightarrow> string \<Rightarrow> depend_token result" where
  "atom_action pkgs yytext = bindR (atom_init pkgs atom_new yytext) (\<lambda>(_, a). Inr (ATOM a))"

fun depend_action :: "lut option \<Rightarrow> depend_rule \<Rightarrow> string \<Rightarrow> depend_token option result" where
  "depend_action pkgs R_newline yytext = Inr None"
| "depend_action pkgs R_blank yytext = Inr None"
| "depend_action pkgs R_repo yytext = Inr (Some (REPOSITORY (drop 2 yytext)))"
| "depend_action pkgs R_slot yytext = Inr (Some (slot_action yytext))"
| "depend_action pkgs R_atomflags yytext = Inr (Some (atomflags_action yytext))"
| "depend_action pkgs R_use_select yytext = Inr (Some (use_select_action yytext))"
| "depend_action pkgs R_most_one yytext = Inr (Some (USESELECT None USE_OP_MOST_ONE))"
| "depend_action pkgs R_least_one yytext = Inr (Some (USESELECT None USE_OP_LEAST_ONE))"
| "depend_action pkgs R_exact_one yytext = Inr (Some (USESELECT None USE_OP_EXACT_ONE))"
| "depend_action pkgs (R_chr c) yytext = Inr (Some (Chr c))"
| "depend_action pkgs R_atom yytext = map_sum id Some (atom_action pkgs yytext)"

fun depend_tokens :: "lut option \<Rightarrow> (depend_rule \<times> string) list \<Rightarrow> depend_token list result" where
  "depend_tokens pkgs [] = Inr []"
| "depend_tokens pkgs ((r, yytext) # ls) =
     bindR (depend_action pkgs r yytext) (\<lambda>t. bindR (depend_tokens pkgs ls) (\<lambda>ts.
       Inr (case t of None \<Rightarrow> ts | Some t \<Rightarrow> t # ts)))"

section \<open>What the actions make of the lexemes of their rules\<close>

lemmas macro_defs = upper_def lower_def decimal_def letter_def

text \<open>Identifiers: not empty, no dash in front, only letters, digits, underscores, dashes and plus.\<close>

definition ident_chars :: "char set" where "ident_chars = set (letter @ decimal @ ''_+-'')"

lemma identifier_facts:
  assumes "s \<in> lang identifier_rx"
  shows "\<exists>c u. s = c # u \<and> c \<in> set (letter @ ''_'' @ decimal)" and "set s \<subseteq> ident_chars"
proof -
  show "\<exists>c u. s = c # u \<and> c \<in> set (letter @ ''_'' @ decimal)"
    using assms by (fastforce simp: identifier_rx_def ident_word_def)
  have "set s \<subseteq> alphabet identifier_rx" by (rule lang_alphabet [OF assms])
  also have "\<dots> \<subseteq> ident_chars" by (auto simp: identifier_rx_def ident_word_def ident_chars_def)
  finally show "set s \<subseteq> ident_chars" .
qed

lemma ident_chars_others:
  "\<forall>c \<in> set '' ,[]?=!|/:*'' . c \<notin> ident_chars"
  by (simp add: ident_chars_def macro_defs)

lemma char_at_last: "u \<noteq> [] \<Longrightarrow> char_at u (length u - 1) = last u"
  by (simp add: char_at_def last_conv_nth)

lemma char_at_hd: "u \<noteq> [] \<Longrightarrow> char_at u 0 = hd u"
  by (cases u) simp_all

lemma lang_Lits: "lang (Then (Lit c) (Then (Class cs) (Lit d))) = (\<lambda>x. [c, x, d]) ` set cs"
  by auto

text \<open>A word of the list is an optional sign, a name, an optional default and an optional suffix.\<close>

lemma atomflag_lexeme:
  assumes "s \<in> lang atomflag_rx"
  shows "\<exists>pre name dflt suf. s = pre @ name @ dflt @ suf \<and> pre \<in> {[], ''!'', ''-''} \<and> name \<in> lang identifier_rx \<and>
    dflt \<in> {[], ''(+)'', ''(|)'', ''(-)''} \<and> suf \<in> {[], ''?'', ''|'', ''=''}"
proof -
  from assms obtain pre name dflt suf where "s = pre @ name @ dflt @ suf" "pre \<in> lang (Opt (Class ''!-''))"
    "name \<in> lang identifier_rx" "dflt \<in> lang (Opt (Then (Lit (CHR ''('')) (Then (Class ''+|-'') (Lit (CHR '')'')))))"
    "suf \<in> lang (Opt (Class ''?|=''))"
    unfolding atomflag_rx_def lang.simps(4) by blast
  moreover from this have "pre \<in> {[], ''!'', ''-''}" "dflt \<in> {[], ''(+)'', ''(|)'', ''(-)''}"
    "suf \<in> {[], ''?'', ''|'', ''=''}"
    by (auto simp del: lang.simps(4) simp add: lang_Lits)
  ultimately show ?thesis by blast
qed

definition flag_choice :: "string \<Rightarrow> string \<Rightarrow> atom_use_t" where
  "flag_choice pre suf =
     (if suf = ''?'' then if pre = ''!'' then ATOM_USE_DISABLE_IF_OFF else ATOM_USE_ENABLE_IF_ON
      else if suf = ''='' then if pre = ''!'' then ATOM_USE_OPPOSITE else ATOM_USE_EQUAL
      else if pre = ''-'' then ATOM_USE_DISABLE else ATOM_USE_ENABLE)"

lemma atomflag_action_parts:
  assumes name: "name \<in> lang identifier_rx" and pre: "pre \<in> {[], ''!'', ''-''}"
    and dflt: "dflt \<in> {[], ''(+)'', ''(|)'', ''(-)''}" and suf: "suf \<in> {[], ''?'', ''|'', ''=''}"
  shows "atomflag_action (pre @ name @ dflt @ suf) =
    \<lparr>flag_name = (if pre = ''!'' \<and> suf \<notin> {''?'', ''=''} then ''!'' else []) @ name @ dflt @
        (if suf = ''|'' then suf else []),
     flag_option = flag_choice pre suf, flag_def = ATOM_DEFAULT_NONE\<rparr>"
proof -
  obtain c u where name': "name = c # u" and c: "c \<in> set (letter @ ''_'' @ decimal)"
    using identifier_facts(1) [OF name] by blast
  have c': "c \<noteq> CHR ''-''" "c \<noteq> CHR ''!''" using c by (auto simp: macro_defs)
  have "last (name @ dflt) \<in> ident_chars \<union> {CHR '')''}"
    using identifier_facts(2) [OF name] dflt name' last_in_set [of name] by auto
  then have l: "last (name @ dflt) \<notin> {CHR ''?'', CHR ''=''}"
    using ident_chars_others by auto
  define m where "m = name @ dflt"
  have m: "m \<noteq> []" "hd m \<noteq> CHR ''-''" "hd m \<noteq> CHR ''!''" "last m \<noteq> CHR ''?''" "last m \<noteq> CHR ''=''"
    using l c' by (simp_all add: m_def name')
  have "atomflag_action (pre @ m @ suf) =
    \<lparr>flag_name = (if pre = ''!'' \<and> suf \<notin> {''?'', ''=''} then ''!'' else []) @ m @ (if suf = ''|'' then suf else []),
     flag_option = flag_choice pre suf, flag_def = ATOM_DEFAULT_NONE\<rparr>"
  proof -
    define t where "t = pre @ m @ suf"
    have "t \<noteq> []" using m(1) by (simp add: t_def)
    note at = char_at_hd [OF this] char_at_last [OF this]
    have hd: "hd t = (if pre = [] then hd m else hd pre)" using m(1) by (simp add: t_def)
    have last: "last t = (if suf = [] then last m else last suf)" using m(1) by (simp add: t_def)
    have ends: "suf \<noteq> [] \<Longrightarrow> butlast t = pre @ m @ butlast suf" using m(1) by (simp add: t_def butlast_append)
    have build: "atomflag_build (x # n) = (if x = CHR ''-'' then
        \<lparr>flag_name = n, flag_option = ATOM_USE_DISABLE, flag_def = ATOM_DEFAULT_NONE\<rparr>
        else \<lparr>flag_name = x # n, flag_option = ATOM_USE_ENABLE, flag_def = ATOM_DEFAULT_NONE\<rparr>)"
      "atomflag_build (m @ v) = \<lparr>flag_name = m @ v, flag_option = ATOM_USE_ENABLE, flag_def = ATOM_DEFAULT_NONE\<rparr>"
      "atomflag_build m = \<lparr>flag_name = m, flag_option = ATOM_USE_ENABLE, flag_def = ATOM_DEFAULT_NONE\<rparr>"
      for x n v using m(1,2) by (simp_all add: atomflag_build_def char_at_hd)
    consider "pre = []" | "pre = ''!''" | "pre = ''-''" using pre by blast
    then show ?thesis
    proof cases
      case 1
      with suf m hd last ends build show ?thesis unfolding t_def [symmetric] atomflag_action_def at Let_def
        by (auto simp: flag_choice_def t_def)
    next
      case 2
      with suf m hd last ends build show ?thesis unfolding t_def [symmetric] atomflag_action_def at Let_def
        by (auto simp: flag_choice_def t_def)
    next
      case 3
      with suf m hd last ends build show ?thesis unfolding t_def [symmetric] atomflag_action_def at Let_def
        by (auto simp: flag_choice_def t_def)
    qed
  qed
  then show ?thesis by (simp add: m_def)
qed

text \<open>The words of a list in brackets.\<close>

lemma atomflag_chars: "s \<in> lang atomflag_rx \<Longrightarrow> set s \<inter> set '' ,[]'' = {}"
proof -
  assume "s \<in> lang atomflag_rx"
  then have "set s \<subseteq> alphabet atomflag_rx" by (rule lang_alphabet)
  also have "\<dots> = ident_chars \<union> set ''!()|?=''"
    by (auto simp: atomflag_rx_def identifier_rx_def ident_word_def ident_chars_def)
  finally show ?thesis using ident_chars_others by auto
qed

lemma atomflag_token:
  assumes "s \<in> lang atomflag_rx"
  shows "token '' ,]'' s"
proof -
  have "s \<noteq> []" using atomflag_lexeme [OF assms] identifier_facts(1) by fastforce
  with atomflag_chars [OF assms] show ?thesis by (auto simp: token_def)
qed

lemma strtok_all_skips: "set u \<subseteq> set delim \<Longrightarrow> strtok_all delim (u @ s) = strtok_all delim s"
  by (induction u) (auto simp: strtok_all_skip)

lemma strtok_all_words:
  assumes "\<forall>(u, w) \<in> set uws. u \<noteq> [] \<and> set u \<subseteq> set delim \<and> token delim w" "set e \<subseteq> set delim"
    "token delim w0"
  shows "strtok_all delim (w0 @ concat (map (\<lambda>(u, w). u @ w) uws) @ e) = w0 # map snd uws"
  using assms
proof (induction uws arbitrary: w0)
  case Nil
  then show ?case using strtok_all_token [of delim w0 e] strtok_all_skips [of e delim "[]"] by (cases e) auto
next
  case (Cons uw uws)
  obtain u w where uw: "uw = (u, w)" by (cases uw)
  with Cons.prems(1) obtain c v where u: "u = c # v" "c \<in> set delim" by (cases u) auto
  let ?rest = "w @ concat (map (\<lambda>(u, w). u @ w) uws) @ e"
  have "strtok_all delim (w0 @ u @ ?rest) = w0 # strtok_all delim (u @ ?rest)"
    by (rule strtok_all_token) (use Cons.prems u in auto)
  also have "strtok_all delim (u @ ?rest) = strtok_all delim ?rest"
    by (rule strtok_all_skips) (use Cons.prems uw in auto)
  also have "\<dots> = w # map snd uws" using Cons.prems uw by (intro Cons.IH) auto
  finally show ?case by (simp add: uw)
qed

lemma spaces_rx: "s \<in> lang (Star (Lit (CHR '' ''))) \<Longrightarrow> set s \<subseteq> {CHR '' ''}"
  unfolding lang_Star_Class by simp

lemma separator_rx:
  assumes "s \<in> lang (Then (Star (Lit (CHR '' ''))) (Then (Lit (CHR '','')) (Then (Star (Lit (CHR '' ''))) atomflag_rx)))"
  shows "\<exists>u w. s = u @ w \<and> u \<noteq> [] \<and> set u \<subseteq> set '' ,'' \<and> w \<in> lang atomflag_rx"
proof -
  from assms obtain a k b w where "s = a @ k @ b @ w" "a \<in> lang (Star (Lit (CHR '' '')))"
    "k \<in> lang (Lit (CHR '',''))" "b \<in> lang (Star (Lit (CHR '' '')))" "w \<in> lang atomflag_rx"
    by (elim lang_ThenE) blast
  then have "s = a @ '','' @ b @ w" "set a \<subseteq> {CHR '' ''}" "set b \<subseteq> {CHR '' ''}" "w \<in> lang atomflag_rx"
    using spaces_rx lang_LitD by blast+
  then show ?thesis by (intro exI [of _ "a @ '','' @ b"] exI [of _ w]) auto
qed

lemma separators_rx:
  assumes "set ss \<subseteq> lang (Then (Star (Lit (CHR '' ''))) (Then (Lit (CHR '','')) (Then (Star (Lit (CHR '' ''))) atomflag_rx)))"
  shows "\<exists>uws. concat ss = concat (map (\<lambda>(u, w). u @ w) uws) \<and>
    (\<forall>(u, w) \<in> set uws. u \<noteq> [] \<and> set u \<subseteq> set '' ,'' \<and> w \<in> lang atomflag_rx)"
  using assms
proof (induction ss)
  case (Cons s ss)
  from Cons.prems have "s \<in> lang (Then (Star (Lit (CHR '' ''))) (Then (Lit (CHR '','')) (Then (Star (Lit (CHR '' ''))) atomflag_rx)))"
    by (simp only: set_simps insert_subset)
  from separator_rx [OF this] obtain u w where "s = u @ w" "u \<noteq> []" "set u \<subseteq> set '' ,''" "w \<in> lang atomflag_rx"
    by blast
  moreover from Cons obtain uws where "concat ss = concat (map (\<lambda>(u, w). u @ w) uws)"
    "\<forall>(u, w) \<in> set uws. u \<noteq> [] \<and> set u \<subseteq> set '' ,'' \<and> w \<in> lang atomflag_rx"
    by (auto simp del: lang.simps)
  ultimately show ?case by (intro exI [of _ "(u, w) # uws"]) auto
qed (intro exI [of _ "[]"], simp)

lemma atomflags_lexeme:
  assumes "lexeme (R_atomflags, s)"
  shows "\<exists>ws. ws \<noteq> [] \<and> set ws \<subseteq> lang atomflag_rx \<and> atomflags_action s = ATOM_FLAGS (map atomflag_action ws) \<and>
    filter (\<lambda>c. c \<notin> set '' ,[]'') s = concat ws"
proof -
  have "s \<in> lang atomflags_rx" using assms by (simp add: lexeme_def matches_lang)
  then obtain l a w0 sp e r where s: "s = l @ a @ w0 @ sp @ e @ r" and "l \<in> lang (Lit (CHR ''[''))"
    and a: "a \<in> lang (Star (Lit (CHR '' '')))" and w0: "w0 \<in> lang atomflag_rx"
    and sp: "sp \<in> lang (Star (Then (Star (Lit (CHR '' ''))) (Then (Lit (CHR '','')) (Then (Star (Lit (CHR '' ''))) atomflag_rx))))"
    and e: "e \<in> lang (Star (Lit (CHR '' '')))" and "r \<in> lang (Lit (CHR '']''))"
    unfolding atomflags_rx_def by (elim lang_ThenE) blast
  then have ends: "l = ''[''" "r = '']''" using lang_LitD by blast+
  from sp obtain ss where "sp = concat ss"
    "set ss \<subseteq> lang (Then (Star (Lit (CHR '' ''))) (Then (Lit (CHR '','')) (Then (Star (Lit (CHR '' ''))) atomflag_rx)))"
    by (rule lang_StarE)
  with separators_rx [of ss] obtain uws where sp': "sp = concat (map (\<lambda>(u, w). u @ w) uws)"
    and uws: "\<forall>(u, w) \<in> set uws. u \<noteq> [] \<and> set u \<subseteq> set '' ,'' \<and> w \<in> lang atomflag_rx"
    by blast
  let ?ws = "w0 # map snd uws"
  have words: "set ?ws \<subseteq> lang atomflag_rx" using w0 uws by auto
  have "strtok_all '' ,]'' (a @ w0 @ sp @ e @ r) = strtok_all '' ,]'' (w0 @ sp @ e @ r)"
    by (rule strtok_all_skips) (use spaces_rx [OF a] in auto)
  also have "\<dots> = ?ws" unfolding sp'
    by (rule strtok_all_words) (use uws spaces_rx [OF e] ends(2) atomflag_token [OF w0] in \<open>auto intro!: atomflag_token\<close>)
  finally have "atomflags_action s = ATOM_FLAGS (map atomflag_action ?ws)"
    by (simp add: atomflags_action_def s ends(1))
  moreover have "filter (\<lambda>c. c \<notin> set '' ,[]'') s = concat ?ws"
  proof -
    let ?f = "filter (\<lambda>c. c \<notin> set '' ,[]'')"
    have keep: "?f w = w" if "w \<in> lang atomflag_rx" for w
      using atomflag_chars [OF that] unfolding filter_id_conv by blast
    have drop: "?f u = []" if "set u \<subseteq> set '' ,[]''" for u
      using that unfolding filter_empty_conv by blast
    have "?f sp = concat (map snd uws)" using uws unfolding sp'
    proof (induction uws)
      case (Cons uw uws)
      obtain u w where uw: "uw = (u, w)" by (cases uw)
      with Cons.prems have "set u \<subseteq> set '' ,[]''" "w \<in> lang atomflag_rx" by auto
      then have "?f u = []" "?f w = w" using drop keep by blast+
      moreover have "?f (concat (map (\<lambda>(u, w). u @ w) uws)) = concat (map snd uws)"
        using Cons by simp
      ultimately show ?case using uw by (simp del: set_simps)
    qed simp
    moreover have "?f a = []" "?f e = []" "?f l = []" "?f r = []"
      by (rule drop; use spaces_rx [OF a] spaces_rx [OF e] ends in auto)+
    ultimately show ?thesis using keep [OF w0] by (simp add: s del: set_simps)
  qed
  ultimately show ?thesis using words by blast
qed

text \<open>Conditions.\<close>

lemma use_select_lexeme:
  assumes "lexeme (R_use_select, s)"
  shows "\<exists>neg name. s = (if neg then ''!'' else []) @ name @ ''?'' \<and> name \<noteq> [] \<and>
    set name \<subseteq> set (letter @ decimal @ ''_-'')"
proof -
  have "s \<in> lang use_select_rx" using assms by (simp add: lexeme_def matches_lang)
  then obtain n name q where s: "s = n @ name @ q" "n \<in> lang (Opt (Lit (CHR ''!'')))"
    "name \<in> lang (Plus (Class (letter @ decimal @ ''_-'')))" "q \<in> lang (Lit (CHR ''?''))"
    unfolding use_select_rx_def lang_Then_iff by blast
  from s(3) obtain c u where "name = c @ u" "c \<in> lang (Class (letter @ decimal @ ''_-''))"
    "u \<in> lang (Star (Class (letter @ decimal @ ''_-'')))" by (rule lang_ThenE)
  then have "name \<noteq> []" "set name \<subseteq> set (letter @ decimal @ ''_-'')"
    unfolding lang_Star_Class by auto
  moreover have "n = [] \<or> n = ''!''" using s(2) by auto
  ultimately show ?thesis using s(1) lang_LitD [OF s(4)]
    by (intro exI [of _ "n \<noteq> []"] exI [of _ name]) auto
qed

lemma use_select_action_result:
  assumes "CHR ''!'' \<notin> set name" "name \<noteq> []"
  shows "use_select_action (name @ ''?'') = USESELECT (Some name) USE_OP_ENABLE"
    and "use_select_action (''!'' @ name @ ''?'') = USESELECT (Some (name @ ''?'')) USE_OP_DISABLE"
proof -
  have "hd name \<noteq> CHR ''!''" using assms by (metis hd_in_set)
  then show "use_select_action (name @ ''?'') = USESELECT (Some name) USE_OP_ENABLE"
    using assms(2) by (simp add: use_select_action_def char_at_hd)
  show "use_select_action (''!'' @ name @ ''?'') = USESELECT (Some (name @ ''?'')) USE_OP_DISABLE"
    by (simp add: use_select_action_def)
qed

text \<open>Slots.\<close>

lemma slot_action_result:
  assumes n: "n \<noteq> []" "set n \<inter> set ''/*='' = {}" "CHR 0x00 \<notin> set n"
    and m: "m \<noteq> []" "set m \<inter> set ''/*='' = {}"
  shows "slot_action '':'' = SLOT None None ATOM_SLOT_IGNORE"
    and "slot_action '':*'' = SLOT None None ATOM_SLOT_IGNORE"
    and "slot_action '':='' = SLOT None None ATOM_SLOT_REBUILD"
    and "slot_action ('':'' @ n) = SLOT (Some n) None ATOM_SLOT_IGNORE"
    and "slot_action ('':'' @ n @ ''/'' @ m) = SLOT (Some n) (Some m) ATOM_SLOT_IGNORE"
    and "slot_action ('':'' @ n @ ''*'') = SLOT (Some n) (Some []) ATOM_SLOT_IGNORE"
    and "slot_action ('':'' @ n @ ''='') = SLOT (Some n) (Some []) ATOM_SLOT_REBUILD"
    and "slot_action ('':'' @ n @ ''/'' @ m @ ''*'') = SLOT (Some n) (Some (m @ ''*'')) ATOM_SLOT_IGNORE"
    and "slot_action ('':'' @ n @ ''/'' @ m @ ''='') = SLOT (Some n) (Some (m @ ''='')) ATOM_SLOT_REBUILD"
proof -
  show "slot_action '':'' = SLOT None None ATOM_SLOT_IGNORE" "slot_action '':*'' = SLOT None None ATOM_SLOT_IGNORE"
    "slot_action '':='' = SLOT None None ATOM_SLOT_REBUILD"
    by (simp_all add: slot_action_def)
  have chr: "strchr (n @ ''/'' @ w) (CHR ''/'') = Some (length n)" for w
    using n(2) by (simp add: strchr_append)
  have no: "strchr (n @ w) (CHR ''/'') = None" if "CHR ''/'' \<notin> set w" for w
    using that n(2) by (simp add: strchr_None)
  have l: "last n \<notin> set ''/*=''" "last m \<notin> set ''/*=''" using n m last_in_set by blast+
  have z: "n ! 0 \<noteq> CHR 0x00" using n(1,3) by (metis length_greater_0_conv nth_mem)
  show "slot_action ('':'' @ n) = SLOT (Some n) None ATOM_SLOT_IGNORE"
    "slot_action ('':'' @ n @ ''/'' @ m) = SLOT (Some n) (Some m) ATOM_SLOT_IGNORE"
    "slot_action ('':'' @ n @ ''*'') = SLOT (Some n) (Some []) ATOM_SLOT_IGNORE"
    "slot_action ('':'' @ n @ ''='') = SLOT (Some n) (Some []) ATOM_SLOT_REBUILD"
    "slot_action ('':'' @ n @ ''/'' @ m @ ''*'') = SLOT (Some n) (Some (m @ ''*'')) ATOM_SLOT_IGNORE"
    "slot_action ('':'' @ n @ ''/'' @ m @ ''='') = SLOT (Some n) (Some (m @ ''='')) ATOM_SLOT_REBUILD"
    using n(1) m(1) l no [of "[]"] no [of "''*''"] no [of "''=''"] chr [of m] chr [of "m @ ''*''"] chr [of "m @ ''=''"] z
    by (simp_all add: slot_action_def char_at_def last_conv_nth nth_append nth_Cons')
qed

section \<open>Properties\<close>

text \<open>The flag of a word with the given sign, name, default and suffix.\<close>

definition parsed_flag :: "string \<times> string \<times> string \<times> string \<Rightarrow> atom_flag" where
  "parsed_flag = (\<lambda>(pre, name, dflt, suf).
     \<lparr>flag_name = (if pre = ''!'' \<and> suf \<notin> {''?'', ''=''} then ''!'' else []) @ name @ dflt @
        (if suf = ''|'' then suf else []),
      flag_option = flag_choice pre suf, flag_def = ATOM_DEFAULT_NONE\<rparr>)"

definition flag_parts :: "string \<times> string \<times> string \<times> string \<Rightarrow> bool" where
  "flag_parts = (\<lambda>(pre, name, dflt, suf). pre \<in> {[], ''!'', ''-''} \<and> name \<in> lang identifier_rx \<and>
     dflt \<in> {[], ''(+)'', ''(|)'', ''(-)''} \<and> suf \<in> {[], ''?'', ''|'', ''=''})"

lemma atomflag_actions_parts:
  assumes "set ws \<subseteq> lang atomflag_rx"
  shows "\<exists>ps. list_all flag_parts ps \<and> ws = map (\<lambda>(pre, name, dflt, suf). pre @ name @ dflt @ suf) ps \<and>
    map atomflag_action ws = map parsed_flag ps"
  using assms
proof (induction ws)
  case (Cons w ws)
  then have "w \<in> lang atomflag_rx" by simp
  from atomflag_lexeme [OF this] obtain pre name dflt suf where w: "w = pre @ name @ dflt @ suf"
    and p: "pre \<in> {[], ''!'', ''-''}" "name \<in> lang identifier_rx" "dflt \<in> {[], ''(+)'', ''(|)'', ''(-)''}"
    "suf \<in> {[], ''?'', ''|'', ''=''}" by blast
  have "atomflag_action w = parsed_flag (pre, name, dflt, suf)"
    unfolding w parsed_flag_def using atomflag_action_parts [OF p(2,1,3,4)] by simp
  moreover have "flag_parts (pre, name, dflt, suf)" using p by (simp add: flag_parts_def)
  moreover from Cons obtain ps where "list_all flag_parts ps"
    "ws = map (\<lambda>(pre, name, dflt, suf). pre @ name @ dflt @ suf) ps" "map atomflag_action ws = map parsed_flag ps"
    by auto
  ultimately show ?case using w by (intro exI [of _ "(pre, name, dflt, suf) # ps"]) simp
qed simp

text \<open>
  C27: the use flags of an atom. Every lexeme \<open>[...]\<close> the lexer can hand over is a list of words, each
  an optional sign, a name, an optional default and an optional suffix; the token holds one
  flag for every word, in order. A default stays part of the flag's name instead of
  setting its default value, a lone \<open>!\<close> stays part of the name and enables it, and \<open>-\<close> with a
  question mark means the same as no sign.
\<close>

theorem atomflags_parsed:
  assumes "lexeme (R_atomflags, s)"
  shows "\<exists>ps. ps \<noteq> [] \<and> list_all flag_parts ps \<and>
    filter (\<lambda>c. c \<notin> set '' ,[]'') s = concat (map (\<lambda>(pre, name, dflt, suf). pre @ name @ dflt @ suf) ps) \<and>
    depend_action pkgs R_atomflags s = Inr (Some (ATOM_FLAGS (map parsed_flag ps)))"
proof -
  from atomflags_lexeme [OF assms] obtain ws where ws: "ws \<noteq> []" "set ws \<subseteq> lang atomflag_rx"
    "atomflags_action s = ATOM_FLAGS (map atomflag_action ws)" "filter (\<lambda>c. c \<notin> set '' ,[]'') s = concat ws"
    by blast
  from atomflag_actions_parts [OF ws(2)] obtain ps where "list_all flag_parts ps"
    "ws = map (\<lambda>(pre, name, dflt, suf). pre @ name @ dflt @ suf) ps" "map atomflag_action ws = map parsed_flag ps"
    by blast
  with ws show ?thesis by (intro exI [of _ ps]) auto
qed

theorem atomflags_parsed_witness:
  "\<exists>ps. list_all flag_parts ps \<and>
     depend_action None R_atomflags ''[ssl, -x]'' = Inr (Some (ATOM_FLAGS (map parsed_flag ps)))"
proof -
  have "lexeme (R_atomflags, ''[ssl, -x]'')" by code_simp
  then show ?thesis using atomflags_parsed [of "''[ssl, -x]''" None] by blast
qed

text \<open>
  The flag of a condition. A lexeme \<open>flag?\<close> names its flag, but a lexeme \<open>!flag?\<close> names
  \<open>flag?\<close>, with the question mark: a flag no other lexeme can name.
\<close>

theorem use_condition_flag:
  assumes "lexeme (R_use_select, s)"
  shows "\<exists>neg name. s = (if neg then ''!'' else []) @ name @ ''?'' \<and> CHR ''?'' \<notin> set name \<and>
    depend_action pkgs R_use_select s =
      Inr (Some (if neg then USESELECT (Some (name @ ''?'')) USE_OP_DISABLE else USESELECT (Some name) USE_OP_ENABLE))"
proof -
  from use_select_lexeme [OF assms] obtain neg name where s: "s = (if neg then ''!'' else []) @ name @ ''?''"
    "name \<noteq> []" "set name \<subseteq> set (letter @ decimal @ ''_-'')" by blast
  have "CHR ''!'' \<notin> set (letter @ decimal @ ''_-'')" "CHR ''?'' \<notin> set (letter @ decimal @ ''_-'')"
    by (simp_all add: macro_defs)
  with s(3) have n: "CHR ''!'' \<notin> set name" "CHR ''?'' \<notin> set name" by blast+
  show ?thesis using s(1) n use_select_action_result [OF n(1) s(2)]
    by (intro exI [of _ neg] exI [of _ name]) auto
qed

theorem use_condition_flag_witness:
  "\<exists>neg name. ''!ssl?'' = (if neg then ''!'' else []) @ name @ ''?'' \<and> CHR ''?'' \<notin> set name \<and>
    depend_action None R_use_select ''!ssl?'' =
      Inr (Some (if neg then USESELECT (Some (name @ ''?'')) USE_OP_DISABLE else USESELECT (Some name) USE_OP_ENABLE))"
  by (rule use_condition_flag) code_simp

end
