(* ===== verification/Depend_Grammar.thy ===== *)
theory Depend_Grammar
  imports Depend_Lexer
begin

text \<open>
  The grammar of dependencies (\<^verbatim>\<open>cportage/depend.y\<close>). Every nonterminal is an inductive
  predicate on token lists with one rule per production; the nonterminals of an atom carry
  the atom that their actions change, the others the syntax tree. A recursive descent
  parser is proved to accept exactly the sentences of the grammar, each with one tree: so
  whatever parser is generated from the grammar reduces the same productions, and the
  actions of a tree, bottom up and from left to right, are what it runs.
\<close>

type_synonym tokens = "depend_token list"

section \<open>Atoms\<close>

inductive atom_version_rule :: "tokens \<Rightarrow> atom \<Rightarrow> bool" where
  av_ge: "atom_version_rule [Chr (CHR ''>''), Chr (CHR ''=''), ATOM a] (a\<lparr>version_range := ATOM_VERSION_GE\<rparr>)"
| av_le: "atom_version_rule [Chr (CHR ''<''), Chr (CHR ''=''), ATOM a] (a\<lparr>version_range := ATOM_VERSION_LE\<rparr>)"
| av_e: "atom_version_rule [Chr (CHR ''=''), ATOM a] (a\<lparr>version_range := ATOM_VERSION_E\<rparr>)"
| av_g: "atom_version_rule [Chr (CHR ''>''), ATOM a] (a\<lparr>version_range := ATOM_VERSION_G\<rparr>)"
| av_rev: "atom_version_rule [Chr (CHR ''~''), ATOM a] (a\<lparr>version_range := ATOM_VERSION_REV\<rparr>)"
| av_l: "atom_version_rule [Chr (CHR ''<''), ATOM a] (a\<lparr>version_range := ATOM_VERSION_L\<rparr>)"
| av_all: "atom_version_rule [ATOM a] (a\<lparr>version_range := ATOM_VERSION_ALL\<rparr>)"

inductive atom_block_rule :: "tokens \<Rightarrow> atom \<Rightarrow> bool" where
  ab_hard: "atom_version_rule ts a \<Longrightarrow>
     atom_block_rule (Chr (CHR ''!'') # Chr (CHR ''!'') # ts) (a\<lparr>blocks := ATOM_BLOCK_HARD\<rparr>)"
| ab_soft: "atom_version_rule ts a \<Longrightarrow> atom_block_rule (Chr (CHR ''!'') # ts) (a\<lparr>blocks := ATOM_BLOCK_SOFT\<rparr>)"
| ab_none: "atom_version_rule ts a \<Longrightarrow> atom_block_rule ts (a\<lparr>blocks := ATOM_BLOCK_NONE\<rparr>)"

inductive atom_slot_rule :: "tokens \<Rightarrow> atom \<Rightarrow> bool" where
  as_slot: "atom_block_rule ts a \<Longrightarrow> atom_slot_rule (ts @ [SLOT name sub_name opts])
     (a\<lparr>atom_slot := name, atom_sub_slot := sub_name, slot_opts := opts\<rparr>)"
| as_none: "atom_block_rule ts a \<Longrightarrow> atom_slot_rule ts
     (a\<lparr>atom_slot := None, atom_sub_slot := None, slot_opts := ATOM_SLOT_IGNORE\<rparr>)"

inductive atom_repo_rule :: "tokens \<Rightarrow> atom \<Rightarrow> bool" where
  ar_repo: "atom_slot_rule ts a \<Longrightarrow> atom_repo_rule (ts @ [REPOSITORY r]) (a\<lparr>repository := Some r\<rparr>)"
| ar_none: "atom_slot_rule ts a \<Longrightarrow> atom_repo_rule ts (a\<lparr>repository := None\<rparr>)"

inductive atom_rule :: "tokens \<Rightarrow> atom \<Rightarrow> bool" where
  a_flags: "atom_repo_rule ts a \<Longrightarrow> atom_rule (ts @ [ATOM_FLAGS fs]) (a\<lparr>useflags := fs\<rparr>)"
| a_none: "atom_repo_rule ts a \<Longrightarrow> atom_rule ts (a\<lparr>useflags := []\<rparr>)"

section \<open>Expressions\<close>

datatype depend_tree =
    Leaf atom
  | Select "string option" use_operator_t "depend_tree list"
  | Group "depend_tree list"

inductive depend_expr :: "tokens \<Rightarrow> depend_tree list \<Rightarrow> bool"
  and depend_expr_single :: "tokens \<Rightarrow> depend_tree \<Rightarrow> bool" where
  de_one: "depend_expr_single ts t \<Longrightarrow> depend_expr ts [t]"
| de_more: "depend_expr_single ts t \<Longrightarrow> depend_expr us k \<Longrightarrow> depend_expr (ts @ us) (t # k)"
| ds_atom: "atom_rule ts a \<Longrightarrow> depend_expr_single ts (Leaf a)"
| ds_use: "depend_expr ts k \<Longrightarrow>
     depend_expr_single (USESELECT target opt # Chr (CHR ''('') # ts @ [Chr (CHR '')'')]) (Select target opt k)"
| ds_group: "depend_expr ts k \<Longrightarrow> depend_expr_single (Chr (CHR ''('') # ts @ [Chr (CHR '')'')]) (Group k)"

text \<open>The start symbol; the empty list is the NULL of the empty production.\<close>

inductive program_depend :: "tokens \<Rightarrow> depend_tree list \<Rightarrow> bool" where
  pd_expr: "depend_expr ts k \<Longrightarrow> program_depend ts k"
| pd_empty: "program_depend [] []"

section \<open>Parser\<close>

fun p_version :: "tokens \<Rightarrow> (atom \<times> tokens) option" where
  "p_version (ATOM a # ts) = Some (a\<lparr>version_range := ATOM_VERSION_ALL\<rparr>, ts)"
| "p_version (Chr c # ATOM a # ts) =
     (if c = CHR ''='' then Some (a\<lparr>version_range := ATOM_VERSION_E\<rparr>, ts)
      else if c = CHR ''>'' then Some (a\<lparr>version_range := ATOM_VERSION_G\<rparr>, ts)
      else if c = CHR ''~'' then Some (a\<lparr>version_range := ATOM_VERSION_REV\<rparr>, ts)
      else if c = CHR ''<'' then Some (a\<lparr>version_range := ATOM_VERSION_L\<rparr>, ts)
      else None)"
| "p_version (Chr c # Chr d # ATOM a # ts) =
     (if d \<noteq> CHR ''='' then None
      else if c = CHR ''>'' then Some (a\<lparr>version_range := ATOM_VERSION_GE\<rparr>, ts)
      else if c = CHR ''<'' then Some (a\<lparr>version_range := ATOM_VERSION_LE\<rparr>, ts)
      else None)"
| "p_version _ = None"

definition with_block :: "atom_block_t \<Rightarrow> atom \<times> tokens \<Rightarrow> atom \<times> tokens" where
  "with_block b = (\<lambda>(a, ts). (a\<lparr>blocks := b\<rparr>, ts))"

fun p_block :: "tokens \<Rightarrow> (atom \<times> tokens) option" where
  "p_block (Chr c # ts) =
     (if c \<noteq> CHR ''!'' then map_option (with_block ATOM_BLOCK_NONE) (p_version (Chr c # ts))
      else case ts of
        Chr d # us \<Rightarrow>
          if d = CHR ''!'' then map_option (with_block ATOM_BLOCK_HARD) (p_version us)
          else map_option (with_block ATOM_BLOCK_SOFT) (p_version ts)
      | _ \<Rightarrow> map_option (with_block ATOM_BLOCK_SOFT) (p_version ts))"
| "p_block ts = map_option (with_block ATOM_BLOCK_NONE) (p_version ts)"

definition p_slot :: "tokens \<Rightarrow> (atom \<times> tokens) option" where
  "p_slot ts = map_option (\<lambda>(a, us). case us of
       SLOT name sub_name opts # vs \<Rightarrow> (a\<lparr>atom_slot := name, atom_sub_slot := sub_name, slot_opts := opts\<rparr>, vs)
     | _ \<Rightarrow> (a\<lparr>atom_slot := None, atom_sub_slot := None, slot_opts := ATOM_SLOT_IGNORE\<rparr>, us)) (p_block ts)"

definition p_repo :: "tokens \<Rightarrow> (atom \<times> tokens) option" where
  "p_repo ts = map_option (\<lambda>(a, us). case us of
       REPOSITORY r # vs \<Rightarrow> (a\<lparr>repository := Some r\<rparr>, vs)
     | _ \<Rightarrow> (a\<lparr>repository := None\<rparr>, us)) (p_slot ts)"

definition p_atom :: "tokens \<Rightarrow> (atom \<times> tokens) option" where
  "p_atom ts = map_option (\<lambda>(a, us). case us of
       ATOM_FLAGS fs # vs \<Rightarrow> (a\<lparr>useflags := fs\<rparr>, vs)
     | _ \<Rightarrow> (a\<lparr>useflags := []\<rparr>, us)) (p_repo ts)"

text \<open>The tokens an expression can start with.\<close>

fun starts :: "tokens \<Rightarrow> bool" where
  "starts (Chr c # ts) \<longleftrightarrow> c \<in> set ''<>=!~(''"
| "starts (ATOM a # ts) \<longleftrightarrow> True"
| "starts (USESELECT f opt # ts) \<longleftrightarrow> True"
| "starts _ \<longleftrightarrow> False"

definition p_close :: "('a \<Rightarrow> 'b) \<Rightarrow> ('a \<times> tokens) option \<Rightarrow> ('b \<times> tokens) option" where
  "p_close f r = (case r of
       Some (k, Chr c # ts) \<Rightarrow> if c = CHR '')'' then Some (f k, ts) else None
     | _ \<Rightarrow> None)"

fun p_expr :: "nat \<Rightarrow> tokens \<Rightarrow> (depend_tree list \<times> tokens) option"
  and p_single :: "nat \<Rightarrow> tokens \<Rightarrow> (depend_tree \<times> tokens) option" where
  "p_expr 0 ts = None"
| "p_expr (Suc n) ts =
     (case p_single n ts of
        None \<Rightarrow> None
      | Some (t, us) \<Rightarrow> if starts us then map_option (\<lambda>(k, vs). (t # k, vs)) (p_expr n us) else Some ([t], us))"
| "p_single 0 ts = None"
| "p_single (Suc n) ts =
     (case ts of
        USESELECT target opt # us \<Rightarrow>
          (case us of
             Chr c # vs \<Rightarrow> if c = CHR ''('' then p_close (Select target opt) (p_expr n vs) else None
           | _ \<Rightarrow> None)
      | Chr c # us \<Rightarrow> if c = CHR ''('' then p_close Group (p_expr n us) else map_option (apfst Leaf) (p_atom ts)
      | _ \<Rightarrow> map_option (apfst Leaf) (p_atom ts))"

definition p_program :: "tokens \<Rightarrow> depend_tree list option" where
  "p_program ts =
     (if ts = [] then Some []
      else case p_expr (2 * length ts) ts of Some (k, []) \<Rightarrow> Some k | _ \<Rightarrow> None)"

section \<open>The parser decides the grammar\<close>

lemma p_version_sound:
  assumes "p_version ts = Some (a, us)"
  shows "\<exists>vs. ts = vs @ us \<and> atom_version_rule vs a"
  using assms
  by (induction ts rule: p_version.induct)
    (auto split: if_splits, (metis append_Cons append_Nil atom_version_rule.intros)+)

lemma p_version_complete: "atom_version_rule ts a \<Longrightarrow> p_version (ts @ us) = Some (a, us)"
  by (induction rule: atom_version_rule.induct) simp_all

lemma version_no_block: "atom_version_rule ts a \<Longrightarrow> ts \<noteq> [] \<and> hd ts \<noteq> Chr (CHR ''!'')"
  by (induction rule: atom_version_rule.induct) simp_all

lemma p_block_cases:
  "p_block ts = map_option (with_block ATOM_BLOCK_NONE) (p_version ts) \<or>
   (\<exists>us. ts = Chr (CHR ''!'') # us \<and> p_block ts = map_option (with_block ATOM_BLOCK_SOFT) (p_version us)) \<or>
   (\<exists>us. ts = Chr (CHR ''!'') # Chr (CHR ''!'') # us \<and>
      p_block ts = map_option (with_block ATOM_BLOCK_HARD) (p_version us))"
  by (cases ts rule: p_block.cases) (auto split: list.splits depend_token.splits simp del: p_version.simps)

lemma p_block_sound:
  assumes "p_block ts = Some (a, us)"
  shows "\<exists>vs. ts = vs @ us \<and> atom_block_rule vs a"
proof -
  have none: ?thesis if "map_option (with_block ATOM_BLOCK_NONE) (p_version ts) = Some (a, us)"
  proof -
    from that obtain b where "p_version ts = Some (b, us)" "a = b\<lparr>blocks := ATOM_BLOCK_NONE\<rparr>"
      by (auto simp: with_block_def)
    with p_version_sound ab_none show ?thesis by blast
  qed
  have soft: ?thesis if "map_option (with_block ATOM_BLOCK_SOFT) (p_version ts') = Some (a, us)"
    "ts = Chr (CHR ''!'') # ts'" for ts'
  proof -
    from that(1) obtain b where "p_version ts' = Some (b, us)" "a = b\<lparr>blocks := ATOM_BLOCK_SOFT\<rparr>"
      by (auto simp: with_block_def)
    with p_version_sound obtain vs where "ts' = vs @ us" "atom_version_rule vs b" by blast
    with \<open>a = _\<close> that(2) ab_soft [of vs b] show ?thesis by (intro exI [of _ "Chr (CHR ''!'') # vs"]) simp
  qed
  have hard: ?thesis if "map_option (with_block ATOM_BLOCK_HARD) (p_version ts') = Some (a, us)"
    "ts = Chr (CHR ''!'') # Chr (CHR ''!'') # ts'" for ts'
  proof -
    from that(1) obtain b where "p_version ts' = Some (b, us)" "a = b\<lparr>blocks := ATOM_BLOCK_HARD\<rparr>"
      by (auto simp: with_block_def)
    with p_version_sound obtain vs where "ts' = vs @ us" "atom_version_rule vs b" by blast
    with \<open>a = _\<close> that(2) ab_hard [of vs b] show ?thesis
      by (intro exI [of _ "Chr (CHR ''!'') # Chr (CHR ''!'') # vs"]) simp
  qed
  from assms p_block_cases [of ts] none soft hard show ?thesis by metis
qed

lemma p_block_complete: "atom_block_rule ts a \<Longrightarrow> p_block (ts @ us) = Some (a, us)"
proof (induction rule: atom_block_rule.cases)
  case (ab_hard vs b)
  then show ?case using p_version_complete [of vs b us] by (simp add: with_block_def)
next
  case (ab_soft vs b)
  have "p_block (Chr (CHR ''!'') # vs @ us) = map_option (with_block ATOM_BLOCK_SOFT) (p_version (vs @ us))"
    using version_no_block [OF ab_soft(3)] by (cases vs) (auto split: depend_token.splits)
  then show ?case using ab_soft p_version_complete [of vs b us] by (simp add: with_block_def)
next
  case (ab_none vs b)
  have "p_block (vs @ us) = map_option (with_block ATOM_BLOCK_NONE) (p_version (vs @ us))"
    using ab_none(3) by (induction rule: atom_version_rule.induct) simp_all
  then show ?case using ab_none p_version_complete [of vs b us] by (simp add: with_block_def)
qed

text \<open>The optional parts: a part that is there is taken.\<close>

definition no_part :: "tokens \<Rightarrow> bool" where
  "no_part ts \<longleftrightarrow> (case ts of
       SLOT _ _ _ # _ \<Rightarrow> False | REPOSITORY _ # _ \<Rightarrow> False | ATOM_FLAGS _ # _ \<Rightarrow> False | _ \<Rightarrow> True)"

lemma no_part_Nil [simp]: "no_part []" by (simp add: no_part_def)

lemma p_slot_sound:
  assumes "p_slot ts = Some (a, us)"
  shows "\<exists>vs. ts = vs @ us \<and> atom_slot_rule vs a"
proof -
  from assms obtain b ws where b: "p_block ts = Some (b, ws)" by (auto simp: p_slot_def)
  with p_block_sound obtain vs where vs: "ts = vs @ ws" "atom_block_rule vs b" by blast
  show ?thesis
  proof (cases "\<exists>n m opts xs. ws = SLOT n m opts # xs")
    case True
    then obtain n m opts where "ws = SLOT n m opts # us" using assms b by (auto simp: p_slot_def)
    with assms b vs as_slot [OF vs(2), of n m opts] show ?thesis
      by (intro exI [of _ "vs @ [SLOT n m opts]"]) (simp add: p_slot_def)
  next
    case False
    then have "a = b\<lparr>atom_slot := None, atom_sub_slot := None, slot_opts := ATOM_SLOT_IGNORE\<rparr>" "us = ws"
      using assms b by (auto simp: p_slot_def split: list.splits depend_token.splits)
    with vs as_none [OF vs(2)] show ?thesis by blast
  qed
qed

lemma p_repo_sound:
  assumes "p_repo ts = Some (a, us)"
  shows "\<exists>vs. ts = vs @ us \<and> atom_repo_rule vs a"
proof -
  from assms obtain b ws where b: "p_slot ts = Some (b, ws)" by (auto simp: p_repo_def)
  with p_slot_sound obtain vs where vs: "ts = vs @ ws" "atom_slot_rule vs b" by blast
  show ?thesis
  proof (cases "\<exists>r xs. ws = REPOSITORY r # xs")
    case True
    then obtain r where "ws = REPOSITORY r # us" using assms b by (auto simp: p_repo_def)
    with assms b vs ar_repo [OF vs(2), of r] show ?thesis
      by (intro exI [of _ "vs @ [REPOSITORY r]"]) (simp add: p_repo_def)
  next
    case False
    then have "a = b\<lparr>repository := None\<rparr>" "us = ws"
      using assms b by (auto simp: p_repo_def split: list.splits depend_token.splits)
    with vs ar_none [OF vs(2)] show ?thesis by blast
  qed
qed

lemma p_atom_sound:
  assumes "p_atom ts = Some (a, us)"
  shows "\<exists>vs. ts = vs @ us \<and> atom_rule vs a"
proof -
  from assms obtain b ws where b: "p_repo ts = Some (b, ws)" by (auto simp: p_atom_def)
  with p_repo_sound obtain vs where vs: "ts = vs @ ws" "atom_repo_rule vs b" by blast
  show ?thesis
  proof (cases "\<exists>fs xs. ws = ATOM_FLAGS fs # xs")
    case True
    then obtain fs where "ws = ATOM_FLAGS fs # us" using assms b by (auto simp: p_atom_def)
    with assms b vs a_flags [OF vs(2), of fs] show ?thesis
      by (intro exI [of _ "vs @ [ATOM_FLAGS fs]"]) (simp add: p_atom_def)
  next
    case False
    then have "a = b\<lparr>useflags := []\<rparr>" "us = ws"
      using assms b by (auto simp: p_atom_def split: list.splits depend_token.splits)
    with vs a_none [OF vs(2)] show ?thesis by blast
  qed
qed

text \<open>What may follow: nothing that could still be a part of the atom.\<close>

lemma p_slot_complete:
  assumes "atom_slot_rule ts a" "\<forall>n m opts xs. us \<noteq> SLOT n m opts # xs"
  shows "p_slot (ts @ us) = Some (a, us)"
  using assms
proof (induction rule: atom_slot_rule.induct)
  case (as_slot vs b)
  then show ?case by (simp add: p_slot_def p_block_complete)
next
  case (as_none vs b)
  then show ?case
    by (simp add: p_slot_def p_block_complete split: list.split depend_token.split)
qed

lemma p_repo_complete:
  assumes "atom_repo_rule ts a" "no_part us"
  shows "p_repo (ts @ us) = Some (a, us)"
  using assms
proof (induction rule: atom_repo_rule.induct)
  case (ar_repo vs b)
  then show ?case by (simp add: p_repo_def p_slot_complete)
next
  case (ar_none vs b)
  then have "p_slot (vs @ us) = Some (b, us)" by (intro p_slot_complete) (auto simp: no_part_def)
  with ar_none(2) show ?case
    by (auto simp: p_repo_def no_part_def split: list.splits depend_token.splits)
qed

lemma p_repo_complete_flags:
  "atom_repo_rule ts a \<Longrightarrow> p_repo (ts @ ATOM_FLAGS fs # us) = Some (a, ATOM_FLAGS fs # us)"
  by (induction rule: atom_repo_rule.induct) (simp_all add: p_repo_def p_slot_complete)

lemma p_atom_complete:
  assumes "atom_rule ts a" "no_part us"
  shows "p_atom (ts @ us) = Some (a, us)"
  using assms
proof (induction rule: atom_rule.induct)
  case (a_flags vs b)
  then show ?case by (simp add: p_atom_def p_repo_complete_flags)
next
  case (a_none vs b)
  then have "p_repo (vs @ us) = Some (b, us)" by (intro p_repo_complete)
  with a_none(2) show ?case
    by (auto simp: p_atom_def no_part_def split: list.splits depend_token.splits)
qed

text \<open>What an atom starts with.\<close>

definition atom_start :: "depend_token \<Rightarrow> bool" where
  "atom_start t \<longleftrightarrow> (case t of Chr c \<Rightarrow> c \<in> set ''<>=~!'' | ATOM _ \<Rightarrow> True | _ \<Rightarrow> False)"

lemma version_start: "atom_version_rule ts a \<Longrightarrow> ts \<noteq> [] \<and> atom_start (hd ts)"
  by (induction rule: atom_version_rule.induct) (simp_all add: atom_start_def)

lemma block_start: "atom_block_rule ts a \<Longrightarrow> ts \<noteq> [] \<and> atom_start (hd ts)"
  by (induction rule: atom_block_rule.induct) (simp_all add: version_start, simp_all add: atom_start_def)

lemma slot_start: "atom_slot_rule ts a \<Longrightarrow> ts \<noteq> [] \<and> atom_start (hd ts)"
  by (induction rule: atom_slot_rule.induct) (use block_start in auto)

lemma repo_start: "atom_repo_rule ts a \<Longrightarrow> ts \<noteq> [] \<and> atom_start (hd ts)"
  by (induction rule: atom_repo_rule.induct) (use slot_start in auto)

lemma atom_rule_start: "atom_rule ts a \<Longrightarrow> ts \<noteq> [] \<and> atom_start (hd ts)"
  by (induction rule: atom_rule.induct) (use repo_start in auto)

lemma starts_no_part: "starts ts \<Longrightarrow> no_part ts"
  by (cases ts rule: starts.cases) (auto simp: no_part_def)

lemma atom_start_starts: "atom_start t \<Longrightarrow> starts (t # ts)"
  by (cases t) (auto simp: atom_start_def)

lemma atom_rule_starts: "atom_rule ts a \<Longrightarrow> ts \<noteq> [] \<and> starts (ts @ us)"
  using atom_rule_start [of ts a] atom_start_starts by (cases ts) auto

lemma single_start: "depend_expr_single ts t \<Longrightarrow> ts \<noteq> [] \<and> starts (ts @ us)"
  by (cases rule: depend_expr_single.cases, assumption) (use atom_rule_starts in auto)

lemma expr_start: "depend_expr ts k \<Longrightarrow> ts \<noteq> [] \<and> k \<noteq> [] \<and> starts (ts @ us)"
  by (cases rule: depend_expr.cases, assumption) (use single_start in auto)

lemma p_single_cases:
  "p_single (Suc n) ts = None \<or> p_single (Suc n) ts = map_option (apfst Leaf) (p_atom ts) \<or>
   (\<exists>target opt us. ts = USESELECT target opt # Chr (CHR ''('') # us \<and>
      p_single (Suc n) ts = p_close (Select target opt) (p_expr n us)) \<or>
   (\<exists>us. ts = Chr (CHR ''('') # us \<and> p_single (Suc n) ts = p_close Group (p_expr n us))"
  by (simp split: list.split depend_token.split)

lemma p_single_sound_step:
  assumes IH: "\<And>ts k us. p_expr n ts = Some (k, us) \<Longrightarrow> \<exists>vs. ts = vs @ us \<and> depend_expr vs k"
    and p: "p_single (Suc n) ts = Some (t, us)"
  shows "\<exists>vs. ts = vs @ us \<and> depend_expr_single vs t"
proof -
  have atom: ?thesis if "map_option (apfst Leaf) (p_atom ts) = Some (t, us)"
  proof -
    from that obtain a where "p_atom ts = Some (a, us)" "t = Leaf a" by auto
    with p_atom_sound ds_atom show ?thesis by blast
  qed
  have close: "\<exists>vs k. ts' = vs @ Chr (CHR '')'') # us \<and> depend_expr vs k \<and> t = f k"
    if "p_close f (p_expr n ts') = Some (t, us)" for f ts'
  proof -
    from that obtain k where k: "p_expr n ts' = Some (k, Chr (CHR '')'') # us)" "t = f k"
      by (auto simp: p_close_def split: option.splits list.splits depend_token.splits if_splits)
    from IH [OF k(1)] k(2) show ?thesis by blast
  qed
  have use: ?thesis if "p_close (Select target opt) (p_expr n vs) = Some (t, us)"
      "ts = USESELECT target opt # Chr (CHR ''('') # vs" for target opt vs
  proof -
    from close [OF that(1)] obtain ws k where "vs = ws @ Chr (CHR '')'') # us" "depend_expr ws k" "t = Select target opt k"
      by blast
    with that(2) ds_use [of ws k target opt] show ?thesis
      by (intro exI [of _ "USESELECT target opt # Chr (CHR ''('') # ws @ [Chr (CHR '')'')]"]) simp
  qed
  have group: ?thesis if "p_close Group (p_expr n vs) = Some (t, us)" "ts = Chr (CHR ''('') # vs" for vs
  proof -
    from close [OF that(1)] obtain ws k where "vs = ws @ Chr (CHR '')'') # us" "depend_expr ws k" "t = Group k"
      by blast
    with that(2) ds_group [of ws k] show ?thesis
      by (intro exI [of _ "Chr (CHR ''('') # ws @ [Chr (CHR '')'')]"]) simp
  qed
  from p p_single_cases [of n ts] atom use group show ?thesis by (metis option.distinct(1))
qed

lemma p_expr_sound: "p_expr n ts = Some (k, us) \<Longrightarrow> \<exists>vs. ts = vs @ us \<and> depend_expr vs k"
  and p_single_sound: "p_single n ts = Some (t, us) \<Longrightarrow> \<exists>vs. ts = vs @ us \<and> depend_expr_single vs t"
proof (induction n arbitrary: ts k us t)
  case (Suc n)
  {
    case 1
    then obtain t vs where t: "p_single n ts = Some (t, vs)"
      and k: "(if starts vs then map_option (\<lambda>(k, vs). (t # k, vs)) (p_expr n vs) else Some ([t], vs)) = Some (k, us)"
      by (auto split: option.splits)
    from Suc(2) [OF t] obtain ws where ws: "ts = ws @ vs" "depend_expr_single ws t" by blast
    show ?case
    proof (cases "starts vs")
      case True
      with k obtain k' where k': "p_expr n vs = Some (k', us)" "k = t # k'" by auto
      from Suc(1) [OF k'(1)] obtain xs where "vs = xs @ us" "depend_expr xs k'" by blast
      with ws k'(2) de_more [OF ws(2)] show ?thesis by (intro exI [of _ "ws @ xs"]) simp
    next
      case False
      with k ws de_one [OF ws(2)] show ?thesis by auto
    qed
  next
    case 2
    show ?case using p_single_sound_step [OF Suc(1) 2] by blast
  }
qed simp_all

lemma p_expr_complete: "depend_expr ts k \<Longrightarrow> 2 * length ts \<le> n \<Longrightarrow> no_part us \<Longrightarrow> \<not> starts us \<Longrightarrow>
    p_expr n (ts @ us) = Some (k, us)"
  and p_single_complete: "depend_expr_single ts t \<Longrightarrow> 2 * length ts \<le> Suc n \<Longrightarrow> no_part us \<Longrightarrow>
    p_single n (ts @ us) = Some (t, us)"
proof (induction arbitrary: n us and n us rule: depend_expr_depend_expr_single.inducts)
  case (de_one ts t)
  then obtain m where m: "n = Suc m" using single_start [of ts t] by (cases n) auto
  have "p_single m (ts @ us) = Some (t, us)" using de_one m by (intro de_one.IH) auto
  with m de_one.prems show ?case by simp
next
  case (de_more ts t vs k)
  have ne: "ts \<noteq> []" "vs \<noteq> []" "starts (vs @ us)"
    using single_start [OF de_more.hyps(1)] expr_start [OF de_more.hyps(2)] by auto
  then have len: "1 \<le> length ts" "1 \<le> length vs" by (simp_all add: Suc_le_eq)
  with de_more.prems(1) obtain m where m: "n = Suc m" by (cases n) auto
  have "p_single m (ts @ vs @ us) = Some (t, vs @ us)"
    using de_more.prems(1) len m ne(3) by (intro de_more.IH(1)) (auto intro: starts_no_part)
  moreover have "p_expr m (vs @ us) = Some (k, us)"
    using de_more.prems len m by (intro de_more.IH(2)) auto
  ultimately show ?case using m ne(3) by simp
next
  case (ds_atom ts a)
  have ts: "ts \<noteq> []" "atom_start (hd ts)" using atom_rule_start [OF ds_atom.hyps] by auto
  then have "1 \<le> length ts" by (simp add: Suc_le_eq)
  with ds_atom.prems(1) obtain m where m: "n = Suc m" by (cases n) auto
  have "p_single n (ts @ us) = map_option (apfst Leaf) (p_atom (ts @ us))"
    using ts m by (cases "hd ts"; cases ts) (auto simp: atom_start_def)
  with p_atom_complete [OF ds_atom.hyps ds_atom.prems(2)] show ?case by simp
next
  case (ds_use ts k target opt)
  then obtain m where m: "n = Suc m" by (cases n) auto
  have "p_expr m (ts @ Chr (CHR '')'') # us) = Some (k, Chr (CHR '')'') # us)"
    using ds_use.prems m by (intro ds_use.IH) (auto simp: no_part_def)
  with m show ?case by (simp add: p_close_def)
next
  case (ds_group ts k)
  then obtain m where m: "n = Suc m" by (cases n) auto
  have "p_expr m (ts @ Chr (CHR '')'') # us) = Some (k, Chr (CHR '')'') # us)"
    using ds_group.prems m by (intro ds_group.IH) (auto simp: no_part_def)
  with m show ?case by (simp add: p_close_def)
qed

lemma p_program_iff: "p_program ts = Some k \<longleftrightarrow> program_depend ts k"
proof
  assume "p_program ts = Some k"
  then show "program_depend ts k"
    using p_expr_sound [of "2 * length ts" ts k "[]"] pd_expr pd_empty
    by (auto simp: p_program_def split: if_splits option.splits prod.splits list.splits)
next
  assume "program_depend ts k"
  then show "p_program ts = Some k"
  proof cases
    case pd_expr
    with p_expr_complete [OF pd_expr, of "2 * length ts" "[]"] expr_start [OF pd_expr] show ?thesis
      by (simp add: p_program_def)
  next
    case pd_empty
    then show ?thesis by (simp add: p_program_def)
  qed
qed

section \<open>Properties\<close>

text \<open>
  C16: the grammar of dependencies is decided by recursive descent: the parser accepts a list
  of tokens exactly if the productions derive it, and the tree it returns is the only one.
  Every parser generated from the grammar therefore performs the same actions.
\<close>

theorem depend_grammar_decided:
  "(p_program ts = Some k \<longleftrightarrow> program_depend ts k) \<and>
   (p_program ts = None \<longleftrightarrow> (\<nexists>k. program_depend ts k)) \<and>
   (\<forall>k k'. \<not> (program_depend ts k \<and> program_depend ts k' \<and> k \<noteq> k'))"
proof -
  have "(p_program ts = None) = (\<nexists>k. program_depend ts k)"
    by (cases "p_program ts") (simp_all flip: p_program_iff)
  moreover have "k = k'" if "program_depend ts k" "program_depend ts k'" for k k'
    using that by (simp flip: p_program_iff)
  ultimately show ?thesis using p_program_iff by blast
qed

end
