(* ===== verification/Use_Flags.thy ===== *)
theory Use_Flags
  imports Portage_Db
begin

text \<open>
  The table of global use flags as a whole: \<open>flags_ok m\<close> says that every entry is a flag
  object of that name and that \<open>m\<close> more flags fit. Looking up a flag keeps it, and
  what an id named before it still names.
\<close>

definition names_flag :: "world \<Rightarrow> lut_id \<Rightarrow> string \<Rightarrow> bool" where
  "names_flag w i name \<longleftrightarrow> (\<exists>a fl u. lut_entries (global_flags w) i = Some (name, a, fl) \<and>
     use_objs w a = Some u \<and> use_name u = name)"

definition flags_ok :: "nat \<Rightarrow> world \<Rightarrow> bool" where
  "flags_ok m w \<longleftrightarrow> lut_cap m (global_flags w) \<and> card (Collect (in_use w)) + m < 2 ^ 64 - 1 \<and>
     (\<forall>i name a fl. lut_entries (global_flags w) i = Some (name, a, fl) \<longrightarrow> names_flag w i name)"

text \<open>Ids name at most one flag, and at most one id names a flag.\<close>

lemma names_flag_key: "names_flag w i name \<Longrightarrow> lut_get_key (global_flags w) i = Some name"
  by (auto simp: names_flag_def lut_get_key_entries)

lemma names_flag_unique: "names_flag w i name \<Longrightarrow> names_flag w i name' \<Longrightarrow> name = name'"
  unfolding names_flag_def by (elim exE conjE) simp

lemma names_flag_id:
  assumes "lut_wf (global_flags w)" "names_flag w i name"
  shows "lut_get_id (global_flags w) name = (i, LUT_FLAG_EXISTS)"
  using assms lut_entries_iff unfolding names_flag_def by blast

text \<open>What is the same before and after, up to the objects of flags.\<close>

definition same_db :: "world \<Rightarrow> world \<Rightarrow> bool" where
  "same_db w w' \<longleftrightarrow> packages w' = packages w \<and> pkg_objs w' = pkg_objs w \<and> ebuild_objs w' = ebuild_objs w \<and>
     (\<forall>i name. names_flag w i name \<longrightarrow> names_flag w' i name)"

lemma same_db_refl [simp]: "same_db w w" by (simp add: same_db_def)

lemma same_db_trans: "same_db w w' \<Longrightarrow> same_db w' w'' \<Longrightarrow> same_db w w''"
  by (simp add: same_db_def)

lemma use_get_global_ok:
  assumes ok: "flags_ok (Suc m) w" and alloc: "good_alloc alloc"
  shows "\<exists>i w'. use_get_global alloc (Some name) w = Inr (i, w') \<and> names_flag w' i name \<and>
    flags_ok m w' \<and> same_db w w' \<and> card (Collect (in_use w')) \<le> Suc (card (Collect (in_use w)))"
proof -
  have cap: "lut_cap (Suc m) (global_flags w)" and wf: "lut_wf (global_flags w)"
    and space: "card (Collect (in_use w)) + Suc m < 2 ^ 64 - 1"
    and entries: "\<And>i name a fl. lut_entries (global_flags w) i = Some (name, a, fl) \<Longrightarrow> names_flag w i name"
    using ok by (auto simp: flags_ok_def lut_cap_def)
  show ?thesis
  proof (rule id_flag_cases [of "global_flags w" name])
    fix i assume i: "lut_get_id (global_flags w) name = (i, LUT_FLAG_EXISTS)"
    then have "use_get_global alloc (Some name) w = Inr (i, w)"
      by (simp add: use_get_global_def flag_set_def lut_flag_defs)
    moreover have "names_flag w i name" using lut_entries_iff [OF wf] i entries by blast
    moreover have "flags_ok m w" using ok cap_mono [OF cap, of m] by (simp add: flags_ok_def)
    ultimately show ?thesis by auto
  next
    fix i assume i: "lut_get_id (global_flags w) name = (i, LUT_FLAG_NOT_FOUND)"
    define a where "a = alloc w"
    have a: "a \<noteq> 0" "\<not> in_use w a"
      using space_free [OF alloc, of w] space by (simp_all add: fresh_alloc_def a_def)
    define w1 where "w1 = new_count a (w\<lparr>use_objs := (use_objs w)(a \<mapsto> \<lparr>use_name = name, use_state = False\<rparr>)\<rparr>)"
    have py: "user_flags LUT_FLAG_PYTHON" by (rule user_flags_python)
    from cap_insert [OF cap py i, of a "counts w1"] obtain l r where
      l: "lut_insert_id name a i (LUT_FLAG_NOT_FOUND OR LUT_FLAG_PYTHON) (global_flags w, counts w1) = Inr (l, r)"
        "lut_cap m l" "lut_entries l = (lut_entries (global_flags w))(i \<mapsto> (name, a, LUT_FLAG_NOT_FOUND OR LUT_FLAG_PYTHON))"
      by blast
    define w' where "w' = add_count (- 1) a (w1\<lparr>global_flags := l, counts := r\<rparr>)"
    have run: "use_get_global alloc (Some name) w = Inr (i, w')"
      using l(1) i by (simp add: use_get_global_def flag_set_def lut_flag_defs Let_def w'_def w1_def a_def)
    have fresh: "lut_entries (global_flags w) i = None"
      using lut_fresh_id [OF wf cap_room [OF cap] i] .
    have w': "global_flags w' = l" "packages w' = packages w" "pkg_objs w' = pkg_objs w"
      "ebuild_objs w' = ebuild_objs w" "use_objs w' = (use_objs w)(a \<mapsto> \<lparr>use_name = name, use_state = False\<rparr>)"
      by (simp_all add: w'_def w1_def)
    have "use_objs w a = None" using a(2) by (simp add: in_use_def)
    then have keep: "names_flag w' j k" if "names_flag w j k" for j k
      using that fresh unfolding names_flag_def w' l(3) by fastforce
    have new: "names_flag w' i name" unfolding names_flag_def w' l(3) by simp
    have "card (Collect (in_use w')) \<le> Suc (card (Collect (in_use w)))"
      by (rule in_use_insert [of w' a]) (auto simp: in_use_def w' split: if_splits)
    moreover from this have "flags_ok m w'"
      using l(2) space entries keep new unfolding flags_ok_def w'(1) l(3) by (auto split: if_splits)
    moreover have "same_db w w'" using keep by (simp add: same_db_def w')
    ultimately show ?thesis using run new by blast
  qed
qed

text \<open>The packages stay in order.\<close>

lemma same_db_ok:
  assumes "db_ok (m + k) w" "same_db w w'" "card (Collect (in_use w')) \<le> k + card (Collect (in_use w))"
  shows "db_ok m w'"
proof -
  have same: "packages w' = packages w" "pkg_objs w' = pkg_objs w" "ebuild_objs w' = ebuild_objs w"
    using assms(2) by (simp_all add: same_db_def)
  have "packages_ok w'"
    unfolding packages_ok_def same
  proof (intro allI impI)
    fix d p assume p: "pkg_objs w d = Some p"
    then have "package_ok w d p" using assms(1) by (simp add: db_ok_def packages_ok_def)
    then show "package_ok w' d p" by (rule package_ok_frame) (simp add: same)
  qed
  moreover have "entries_ok w'" "keys_ok w'" "lut_cap m (packages w')" "space m w'"
    using assms(1,3) cap_mono [of "m + k" "packages w" m]
    by (auto simp: db_ok_def entries_ok_def keys_ok_def space_def same)
  ultimately show ?thesis by (simp add: db_ok_def)
qed

text \<open>The state after looking up \<open>n\<close> flags at most.\<close>

definition grown :: "nat \<Rightarrow> nat \<Rightarrow> world \<Rightarrow> world \<Rightarrow> bool" where
  "grown m n w w' \<longleftrightarrow> flags_ok m w' \<and> same_db w w' \<and> card (Collect (in_use w')) \<le> n + card (Collect (in_use w))"

lemma grown_refl: "flags_ok m w \<Longrightarrow> grown m 0 w w" by (simp add: grown_def)

lemma grown_trans: "grown (m + k) n w w1 \<Longrightarrow> grown m k w1 w2 \<Longrightarrow> grown m (n + k) w w2"
  by (auto simp: grown_def intro: same_db_trans)

lemma empty_flags_ok: "flags_ok 65536 empty_world"
proof -
  have "Collect (in_use empty_world) = {}" by (simp add: in_use_def empty_world_def)
  then have card: "card (Collect (in_use empty_world)) = 0" by (simp only: card.empty)
  have "lut_cap 65536 (global_flags empty_world)" by (simp add: empty_world_def cap_new)
  moreover have "lut_entries (global_flags empty_world) i = None" for i
    by (simp add: empty_world_def lut_entries_new)
  ultimately show ?thesis unfolding flags_ok_def card by simp
qed

end
