(* ===== verification/Depend_Parse.thy ===== *)
theory Depend_Parse
  imports Depend_Grammar Use_Flags
begin

text \<open>
  The actions of the dependency grammar on the state, and the functions that call the
  generated parser: \<^verbatim>\<open>atom_parse\<close> (\<^verbatim>\<open>depend.y\<close>), \<^verbatim>\<open>PyAtom_init\<close> (\<^verbatim>\<open>atom.c\<close>) and
  \<^verbatim>\<open>PyDependency_init\<close> (\<^verbatim>\<open>dependency.c\<close>). The generated lexer is the argument \<open>lexer\<close>: the
  lexemes of a text with their rules, \<open>None\<close> when it cannot go on. What a run leaves behind
  that ends in a syntax error is the argument \<open>failed\<close>, since it depends on how far the
  generated parser reduces before it notices.
\<close>

section \<open>Actions\<close>

text \<open>
  The children of a condition are reduced before its own flag is looked up. The links
  \<^verbatim>\<open>next\<close> are lists.
\<close>

fun depend_node :: "(world \<Rightarrow> u64) \<Rightarrow> depend_tree \<Rightarrow> world \<Rightarrow> (dependency \<times> world) result"
  and depend_nodes :: "(world \<Rightarrow> u64) \<Rightarrow> depend_tree list \<Rightarrow> world \<Rightarrow> (dependency list \<times> world) result" where
  "depend_node alloc (Leaf a) w = Inr (dependency_build_atom a, w)"
| "depend_node alloc (Select target opt k) w =
     bindR (depend_nodes alloc k w) (\<lambda>(kids, w). dependency_build_use alloc target opt kids w)"
| "depend_node alloc (Group k) w =
     bindR (depend_nodes alloc k w) (\<lambda>(kids, w). Inr (dependency_build_grouping kids, w))"
| "depend_nodes alloc [] w = Inr ([], w)"
| "depend_nodes alloc (t # k) w =
     bindR (depend_node alloc t w) (\<lambda>(d, w). bindR (depend_nodes alloc k w) (\<lambda>(ds, w). Inr (d # ds, w)))"

definition depend_parse ::
  "(string \<Rightarrow> (depend_rule \<times> string) list option) \<Rightarrow> (string \<Rightarrow> world \<Rightarrow> world) \<Rightarrow> (world \<Rightarrow> u64)
    \<Rightarrow> depend_parser" where
  "depend_parse lexer failed alloc input w =
     (case lexer input of
        None \<Rightarrow> Inr ([], failed input w)
      | Some lexemes \<Rightarrow>
          bindR (depend_tokens (Some (packages w)) lexemes) (\<lambda>ts.
            case p_program ts of
              None \<Rightarrow> Inr ([], failed input w)
            | Some k \<Rightarrow> depend_nodes alloc k w))"

text \<open>The atom of the first dependency; \<^verbatim>\<open>Py_INCREF\<close> of a group's NULL fails.\<close>

definition atom_parse ::
  "(string \<Rightarrow> (depend_rule \<times> string) list option) \<Rightarrow> (string \<Rightarrow> world \<Rightarrow> world) \<Rightarrow> (world \<Rightarrow> u64)
    \<Rightarrow> string \<Rightarrow> world \<Rightarrow> (atom option \<times> world) result" where
  "atom_parse lexer failed alloc input w =
     bindR (depend_parse lexer failed alloc input w) (\<lambda>(out, w).
       case out of
         [] \<Rightarrow> Inr (None, w)
       | d # _ \<Rightarrow> (case dep_atom d of None \<Rightarrow> Inl Null_Deref | Some a \<Rightarrow> Inr (Some a, w)))"

text \<open>A NULL result returns an error without an exception, which Python reports itself.\<close>

definition PyAtom_init ::
  "(string \<Rightarrow> (depend_rule \<times> string) list option) \<Rightarrow> (string \<Rightarrow> world \<Rightarrow> world) \<Rightarrow> (world \<Rightarrow> u64)
    \<Rightarrow> string \<Rightarrow> world \<Rightarrow> (atom \<times> world) py result" where
  "PyAtom_init lexer failed alloc atom_string w =
     bindR (atom_parse lexer failed alloc atom_string w) (\<lambda>(duped, w).
       Inr (case duped of None \<Rightarrow> Raise SystemError | Some a \<Rightarrow> Return (a, w)))"

definition PyDependency_init ::
  "(string \<Rightarrow> (depend_rule \<times> string) list option) \<Rightarrow> (string \<Rightarrow> world \<Rightarrow> world) \<Rightarrow> (world \<Rightarrow> u64)
    \<Rightarrow> string \<Rightarrow> world \<Rightarrow> (dependency list \<times> world) py result" where
  "PyDependency_init lexer failed alloc depend_string w =
     bindR (depend_parse lexer failed alloc depend_string w) (\<lambda>(duped, w).
       Inr (if duped = [] then Raise SystemError else Return (duped, w)))"

section \<open>What the actions build\<close>

text \<open>A built node has the shape of its tree, and its condition is the id of the tree's flag.\<close>

fun built :: "world \<Rightarrow> depend_tree \<Rightarrow> dependency \<Rightarrow> bool" where
  "built w (Leaf a) d \<longleftrightarrow> d = Dependency USE_OP_DISABLE 0 (Some a) []"
| "built w (Select target opt k) d \<longleftrightarrow>
     use_operator d = opt \<and> dep_atom d = None \<and> list_all2 (built w) k (children d) \<and>
     (case target of None \<Rightarrow> use_condition d = 0 | Some name \<Rightarrow> names_flag w (use_condition d) name)"
| "built w (Group k) d \<longleftrightarrow>
     use_operator d = USE_OP_DISABLE \<and> use_condition d = 0 \<and> dep_atom d = None \<and> list_all2 (built w) k (children d)"

text \<open>The number of conditions, which bounds the number of new flags.\<close>

fun conditions :: "depend_tree \<Rightarrow> nat" where
  "conditions (Leaf a) = 0"
| "conditions (Select target opt k) = (case target of None \<Rightarrow> 0 | Some _ \<Rightarrow> 1) + sum_list (map conditions k)"
| "conditions (Group k) = sum_list (map conditions k)"

lemma built_mono: "built w t d \<Longrightarrow> same_db w w' \<Longrightarrow> built w' t d"
proof (induction t arbitrary: d)
  case (Select target opt k)
  then show ?case
    by (auto simp: same_db_def split: option.splits elim!: list.rel_mono_strong)
next
  case (Group k)
  then show ?case by (auto elim!: list.rel_mono_strong)
qed simp

lemma builts_mono: "list_all2 (built w) k ds \<Longrightarrow> same_db w w' \<Longrightarrow> list_all2 (built w') k ds"
  using built_mono by (blast intro: list_all2_mono)

lemma depend_node_ok:
  "good_alloc alloc \<Longrightarrow> flags_ok (m + conditions t) w \<Longrightarrow>
    \<exists>d w'. depend_node alloc t w = Inr (d, w') \<and> built w' t d \<and> grown m (conditions t) w w'"
  and depend_nodes_ok:
  "good_alloc alloc \<Longrightarrow> flags_ok (m + sum_list (map conditions k)) w \<Longrightarrow>
    \<exists>ds w'. depend_nodes alloc k w = Inr (ds, w') \<and> list_all2 (built w') k ds \<and>
      grown m (sum_list (map conditions k)) w w'"
proof (induction alloc t w and alloc k w arbitrary: m and m rule: depend_node_depend_nodes.induct)
  case (1 alloc a w)
  then show ?case by (simp add: dependency_build_atom_def grown_refl)
next
  case (2 alloc target opt k w)
  let ?c = "(case target of None \<Rightarrow> 0 | Some _ \<Rightarrow> 1) :: nat"
  have "flags_ok (m + ?c + sum_list (map conditions k)) w" using 2(3) by (simp add: ac_simps)
  from 2(1) [OF 2(2) this] obtain ds w1 where k: "depend_nodes alloc k w = Inr (ds, w1)"
    "list_all2 (built w1) k ds" "grown (m + ?c) (sum_list (map conditions k)) w w1" by blast
  show ?case
  proof (cases target)
    case None
    with k show ?thesis by (simp add: dependency_build_use_def)
  next
    case (Some name)
    with k(3) have "flags_ok (Suc m) w1" by (simp add: grown_def)
    from use_get_global_ok [OF this 2(2), of name] obtain i w2 where
      g: "use_get_global alloc (Some name) w1 = Inr (i, w2)" "names_flag w2 i name" "grown m 1 w1 w2" "same_db w1 w2"
      by (auto simp: grown_def)
    have "grown m (conditions (Select target opt k)) w w2"
      using grown_trans [of m 1 "sum_list (map conditions k)" w w1 w2] k(3) g(3) Some by (simp add: ac_simps)
    with k g(1,2) builts_mono [OF k(2) g(4)] Some show ?thesis
      by (simp add: dependency_build_use_def)
  qed
next
  case (3 alloc k w)
  then show ?case by (fastforce simp: dependency_build_grouping_def)
next
  case (4 alloc w)
  then show ?case by (simp add: grown_refl)
next
  case (5 alloc t k w)
  let ?n = "sum_list (map conditions k)"
  have "flags_ok ((m + ?n) + conditions t) w" using 5(4) by (simp add: ac_simps)
  from 5(1) [OF 5(3) this] obtain d w1 where d: "depend_node alloc t w = Inr (d, w1)" "built w1 t d"
    "grown (m + ?n) (conditions t) w w1" by blast
  then have "flags_ok (m + ?n) w1" by (simp add: grown_def)
  from 5(2) [OF d(1) refl 5(3) this] obtain ds w2 where ds: "depend_nodes alloc k w1 = Inr (ds, w2)"
    "list_all2 (built w2) k ds" "grown m ?n w1 w2" by blast
  then have "built w2 t d" using built_mono [OF d(2)] by (simp add: grown_def)
  with d ds grown_trans [OF d(3) ds(3)] show ?case by simp
qed

section \<open>Atoms as they are written\<close>

definition operator_lexemes :: "string \<Rightarrow> (depend_rule \<times> string) list" where
  "operator_lexemes s = map (\<lambda>c. (R_chr c, [c])) s"

fun operator_range :: "string \<Rightarrow> atom_version_t" where
  "operator_range s =
     (if s = ''>='' then ATOM_VERSION_GE else if s = ''<='' then ATOM_VERSION_LE
      else if s = ''='' then ATOM_VERSION_E else if s = ''>'' then ATOM_VERSION_G
      else if s = ''~'' then ATOM_VERSION_REV else if s = ''<'' then ATOM_VERSION_L
      else ATOM_VERSION_ALL)"

definition operators :: "string set" where
  "operators = {''>='', ''<='', ''='', ''>'', ''~'', ''<'', []}"

lemma operator_tokens:
  "depend_tokens pkgs (operator_lexemes s @ ls) = map_sum id (append (map Chr s)) (depend_tokens pkgs ls)"
  unfolding operator_lexemes_def
  by (induction s) (cases "depend_tokens pkgs ls"; simp)+

lemma operator_parse:
  assumes "s \<in> operators"
  shows "p_program (map Chr s @ [ATOM a]) =
    Some [Leaf (a\<lparr>version_range := operator_range s, blocks := ATOM_BLOCK_NONE, atom_slot := None,
      atom_sub_slot := None, slot_opts := ATOM_SLOT_IGNORE, repository := None, useflags := []\<rparr>)]"
  using assms unfolding operators_def
  by (elim insertE emptyE; simp add: p_program_def p_atom_def p_repo_def p_slot_def with_block_def numeral_eq_Suc)

lemma written_atom:
  assumes "s \<in> operators" "lexer input = Some (operator_lexemes s @ [(R_atom, wd)])"
    and "atom_init (Some (packages w)) atom_new wd = Inr (0, parsed_atom t cat name h ver)"
  shows "PyAtom_init lexer failed alloc input w =
    Inr (Return ((parsed_atom t cat name h ver)\<lparr>version_range := operator_range s\<rparr>, w))"
proof -
  have "depend_tokens (Some (packages w)) (operator_lexemes s @ [(R_atom, wd)]) =
      Inr (map Chr s @ [ATOM (parsed_atom t cat name h ver)])"
    using assms(3) by (simp add: operator_tokens atom_action_def)
  with assms(1,2) show ?thesis
    by (simp add: PyAtom_init_def atom_parse_def depend_parse_def operator_parse
        dependency_build_atom_def parsed_atom_def del: operator_range.simps)
qed

section \<open>Properties\<close>

text \<open>
  C7: what a parsed dependency expression means. If the lexer's tokens derive a tree, the parser
  returns nodes of exactly its shape, in order, and every condition holds the id of its
  own flag, which is in the table of flags afterwards; ids that named a flag before name
  the same flag still, and packages and ebuilds are untouched.
\<close>

theorem dependencies_built:
  assumes "good_alloc alloc" and "lexer input = Some lexemes"
    and "depend_tokens (Some (packages w)) lexemes = Inr ts" and "program_depend ts k"
    and "flags_ok (m + sum_list (map conditions k)) w" and "db_ok (j + sum_list (map conditions k)) w"
  shows "\<exists>ds w'. depend_parse lexer failed alloc input w = Inr (ds, w') \<and> list_all2 (built w') k ds \<and>
    flags_ok m w' \<and> db_ok j w' \<and> packages w' = packages w \<and> pkg_objs w' = pkg_objs w \<and>
    ebuild_objs w' = ebuild_objs w \<and> (\<forall>i name. names_flag w i name \<longrightarrow> names_flag w' i name)"
proof -
  from depend_nodes_ok [OF assms(1,5)] obtain ds w' where run: "depend_nodes alloc k w = Inr (ds, w')"
    "list_all2 (built w') k ds" and g: "grown m (sum_list (map conditions k)) w w'" by blast
  have "p_program ts = Some k" using assms(4) by (simp add: p_program_iff)
  with assms(2,3) run have "depend_parse lexer failed alloc input w = Inr (ds, w')" by (simp add: depend_parse_def)
  moreover have "db_ok j w'" using same_db_ok [OF assms(6)] g by (simp add: grown_def)
  ultimately show ?thesis using run(2) g by (auto simp: grown_def same_db_def)
qed

text \<open>An example: the text \<open>ssl? ( a/b ) a/c\<close> in an empty database.\<close>

definition sample_lexemes :: "(depend_rule \<times> string) list" where
  "sample_lexemes =
     [(R_use_select, ''ssl?''), (R_blank, '' ''), (R_chr (CHR ''(''), ''(''), (R_blank, '' ''), (R_atom, ''a/b''),
      (R_blank, '' ''), (R_chr (CHR '')''), '')''), (R_blank, '' ''), (R_atom, ''a/c'')]"

definition sample_lexer :: "string \<Rightarrow> (depend_rule \<times> string) list option" where
  "sample_lexer s = (if s = concat (map snd sample_lexemes) then Some sample_lexemes else None)"

lemma version_split_letter: "version_split [c] = None"
  by (rule version_split_none) (simp add: char_at_def isdigit_def)

lemma sample_tokens:
  "\<exists>a b. depend_tokens (Some t) sample_lexemes =
     Inr [USESELECT (Some ''ssl'') USE_OP_ENABLE, Chr (CHR ''(''), ATOM a, Chr (CHR '')''), ATOM b] \<and>
   p_program [USESELECT (Some ''ssl'') USE_OP_ENABLE, Chr (CHR ''(''), ATOM a, Chr (CHR '')''), ATOM b] =
     Some [Select (Some ''ssl'') USE_OP_ENABLE [Leaf a], Leaf b]"
proof -
  have cat: "CHR ''/'' \<notin> set ''a''" by simp
  obtain h where h: "atom_init (Some t) atom_new ''a/b'' = Inr (0, parsed_atom t ''a'' ''b'' h None)"
    using atom_init_unversioned [OF cat version_split_letter, of t atom_new] by auto
  obtain g where g: "atom_init (Some t) atom_new ''a/c'' = Inr (0, parsed_atom t ''a'' ''c'' g None)"
    using atom_init_unversioned [OF cat version_split_letter, of t atom_new] by auto
  show ?thesis
    by (intro exI [of _ "parsed_atom t ''a'' ''b'' h None"] exI [of _ "parsed_atom t ''a'' ''c'' g None"])
      (simp add: sample_lexemes_def use_select_action_def atom_action_def h g p_program_def p_atom_def p_repo_def
        p_slot_def with_block_def p_close_def parsed_atom_def ATOM_VERSION_ALL_def numeral_eq_Suc char_at_def)
qed

theorem dependencies_built_witness:
  "\<exists>ds w'. depend_parse sample_lexer (\<lambda>_ w. w) lowest_free ''ssl? ( a/b ) a/c'' empty_world = Inr (ds, w') \<and>
     length ds = 2 \<and> names_flag w' (use_condition (hd ds)) ''ssl'' \<and> db_ok 65535 w'"
proof -
  from sample_tokens [of "packages empty_world"] obtain a b where
    ts: "depend_tokens (Some (packages empty_world)) sample_lexemes =
      Inr [USESELECT (Some ''ssl'') USE_OP_ENABLE, Chr (CHR ''(''), ATOM a, Chr (CHR '')''), ATOM b]"
    and p: "p_program [USESELECT (Some ''ssl'') USE_OP_ENABLE, Chr (CHR ''(''), ATOM a, Chr (CHR '')''), ATOM b] =
      Some [Select (Some ''ssl'') USE_OP_ENABLE [Leaf a], Leaf b]" by blast
  let ?k = "[Select (Some ''ssl'') USE_OP_ENABLE [Leaf a], Leaf b]"
  have lexer: "sample_lexer ''ssl? ( a/b ) a/c'' = Some sample_lexemes"
    by (simp add: sample_lexer_def sample_lexemes_def)
  have room: "flags_ok (65535 + sum_list (map conditions ?k)) empty_world"
    "db_ok (65535 + sum_list (map conditions ?k)) empty_world"
    using empty_flags_ok empty_world_ok by simp_all
  from dependencies_built [where lexer = sample_lexer and input = "''ssl? ( a/b ) a/c''" and failed = "\<lambda>_ w. w",
      OF lowest_free_good lexer ts p [unfolded p_program_iff] room]
  show ?thesis by (auto simp: list_all2_Cons1)
qed

end
