(* ===== verification/Repository_Query.thy ===== *)
theory Repository_Query
  imports Depend_Parse
begin

text \<open>
  The package manager end to end: the files of a metadata cache are read, the text of an
  atom is parsed, and the atom is looked up. The operator of the atom is an order on the
  keys of versions.
\<close>

section \<open>The search for a written atom\<close>

text \<open>
  What an operator asks of a version, as an order of keys. A revision belongs to the key, and the
  code reads \<open>~\<close> as it reads \<open>=\<close>.
\<close>

definition exact :: "string set" where
  "exact = {''='', ''~''}"

fun meets :: "string \<Rightarrow> 'k::linorder \<Rightarrow> 'k \<Rightarrow> bool" where
  "meets s x y =
     (if s = ''>='' then y \<le> x else if s = ''<='' then x \<le> y
      else if s = ''>'' then y < x else if s = ''<'' then x < y else if s \<in> exact then x = y else s = [])"

text \<open>
  The answer to an atom from the ebuilds of its package: an ebuild in the range, newest among
  those in the range. With an exact operator it is moreover the newest of the package, and
  None is also the answer when there is a newer ebuild than those in the range.
\<close>

definition answers :: "string \<Rightarrow> world \<Rightarrow> u64 list \<Rightarrow> (atom_version_pre_t \<times> nat) list \<times> int \<Rightarrow> u64 \<Rightarrow> bool" where
  "answers s w cs k c \<longleftrightarrow>
     (c \<noteq> 0 \<longrightarrow> c \<in> set cs \<and> meets s (key_at w c) k \<and> (s \<in> exact \<longrightarrow> (\<forall>d \<in> set cs. key_at w d \<le> key_at w c))) \<and>
     (\<forall>d \<in> set cs. meets s (key_at w d) k \<longrightarrow>
        c \<noteq> 0 \<and> key_at w d \<le> key_at w c \<or> s \<in> exact \<and> c = 0 \<and> (\<exists>e \<in> set cs. key_at w d < key_at w e))"

lemma operator_ranges:
  assumes "s \<in> operators" "version_range a = operator_range s"
  shows "s \<in> exact \<Longrightarrow> \<not> range_has a ATOM_VERSION_L \<and> \<not> range_has a ATOM_VERSION_G \<and> range_has a ATOM_VERSION_E"
    and "s \<notin> exact \<Longrightarrow> range_has a ATOM_VERSION_L \<or> range_has a ATOM_VERSION_G"
  using assms by (auto simp: operators_def exact_def range_has_def atom_version_t_defs)

lemma accepts_meets:
  assumes "s \<in> operators" "version_range a = operator_range s" and "atom_version a = Some ver"
  shows "accepts w a c \<longleftrightarrow> meets s (key_at w c) (version_key ver)"
  using assms unfolding operators_def
  by (elim insertE emptyE) (auto simp: accepts_def range_has_def atom_version_t_defs exact_def Let_def)

lemma find_answers:
  assumes "package_ok w pkg p" "\<And>d. accepts w a d \<longleftrightarrow> meets s (key_at w d) k" "s \<notin> exact"
  shows "answers s w (ebuilds p) k (case find (accepts w a) (ebuilds p) of None \<Rightarrow> 0 | Some c \<Rightarrow> c)"
proof (cases "find (accepts w a) (ebuilds p)")
  case None
  with assms(2) have "\<forall>d \<in> set (ebuilds p). \<not> meets s (key_at w d) k" by (simp add: find_None_iff del: meets.simps)
  with None show ?thesis by (simp add: answers_def del: meets.simps)
next
  case (Some c)
  have c: "c \<in> set (ebuilds p)" "meets s (key_at w c) k" using find_SomeD [OF Some] unfolding assms(2) by fast+
  have "key_at w d \<le> key_at w c" if "d \<in> set (ebuilds p)" "meets s (key_at w d) k" for d
    using find_first_newest [OF _ Some that(1)] that(2) assms(1) unfolding assms(2) by (simp add: package_ok_def del: meets.simps)
  moreover have "c \<noteq> 0" using c(1) assms(1) by (auto simp: package_ok_def ebuild_ok_def)
  ultimately show ?thesis using Some c assms(3) by (simp add: answers_def del: meets.simps)
qed

lemma head_answers:
  assumes "package_ok w pkg p" "s \<in> exact"
  shows "answers s w (ebuilds p) k (case ebuilds p of [] \<Rightarrow> 0 | c # _ \<Rightarrow> if key_at w c = k then c else 0)"
proof (cases "ebuilds p")
  case Nil
  then show ?thesis by (simp add: answers_def)
next
  case (Cons c cs)
  have m: "meets s x y \<longleftrightarrow> x = y" for x y :: "(atom_version_pre_t \<times> nat) list \<times> int" using assms(2) by (auto simp: exact_def)
  have newest: "key_at w d \<le> key_at w c" if "d \<in> set (ebuilds p)" for d
    using that assms(1) Cons by (auto simp: package_ok_def)
  have "c \<noteq> 0" using Cons assms(1) by (auto simp: package_ok_def ebuild_ok_def)
  show ?thesis
  proof (cases "key_at w c = k")
    case True
    with \<open>c \<noteq> 0\<close> Cons newest show ?thesis by (simp add: answers_def m del: meets.simps)
  next
    case False
    then have "key_at w d < key_at w c" if "d \<in> set (ebuilds p)" "key_at w d = k" for d using newest [OF that(1)] that(2) by auto
    with False Cons assms(2) show ?thesis by (simp add: answers_def m del: meets.simps)
  qed
qed

lemma portage_match_answers:
  assumes "db_ok m w" and "lut_get_id (packages w) k = (atom_id a, LUT_FLAG_EXISTS)"
    and "atom_key a = Some k" and "atom_version a = Some ver" and "plain ver"
    and "s \<in> operators" "version_range a = operator_range s"
  shows "\<exists>pkg p c w' f. lut_entries (packages w) (atom_id a) = Some (k, pkg, f) \<and> pkg_objs w pkg = Some p \<and>
    PyPortage_match_atom a w = Inr (Return (c, w')) \<and> answers s w (ebuilds p) (version_key ver) c"
proof -
  have ok: "packages_ok w" "entries_ok w" "keys_ok w" "lut_wf (packages w)"
    using assms(1) by (simp_all add: db_ok_def lut_cap_def)
  from lut_entries_iff [OF ok(4)] assms(2) obtain pkg f
    where entry: "lut_entries (packages w) (atom_id a) = Some (k, pkg, f)" by blast
  with ok(2) obtain p where p: "pkg \<noteq> 0" "pkg_objs w pkg = Some p" "pkg_key p = Some k"
    unfolding entries_ok_def by blast
  have pok: "package_ok w pkg p" using ok(1) p(2) by (simp add: packages_ok_def)
  then have eb: "\<forall>c \<in> set (ebuilds p). ebuild_ok w c" and sorted: "sorted_wrt (\<lambda>x y. key_at w y \<le> key_at w x) (ebuilds p)"
    by (auto simp: package_ok_def)
  note range = operator_ranges [OF assms(6,7)]
  have "\<exists>c. match_ebuilds w a (ebuilds p) = Inr c \<and> answers s w (ebuilds p) (version_key ver) c"
  proof (cases "s \<in> exact")
    case True
    with match_ebuilds_exact [OF eb assms(4,5) sorted] range(1) head_answers [OF pok True] show ?thesis by blast
  next
    case False
    with match_ebuilds_find [OF eb assms(4,5) range(2)] find_answers [OF pok accepts_meets [OF assms(6,7,4)] False] show ?thesis by blast
  qed
  then obtain c where c: "match_ebuilds w a (ebuilds p) = Inr c" "answers s w (ebuilds p) (version_key ver) c" by blast
  have "PyPortage_match_atom a w = Inr (Return (c, if c = 0 then w else add_count 1 c w))"
    using entry p(1,2) c(1) by (simp add: PyPortage_match_atom_def lut_get_entries PyPackage_match_atom_def the_package_def)
  with entry p(2) c(2) show ?thesis by blast
qed

lemma written_atom_answers:
  assumes db: "db_ok m w" and key: "lut_get_id (packages w) (cat @ ''/'' @ name) = (i, LUT_FLAG_EXISTS)"
    and cat: "CHR ''/'' \<notin> set cat"
    and ps: "ps \<noteq> []" "\<forall>pd \<in> set ps. digits (snd pd) \<and> length (snd pd) \<le> 9" "fst (hd ps) = ATOM_PREFIX_NONE"
    and r: "\<forall>d. r = Some d \<longrightarrow> digits d \<and> length d \<le> 9"
    and s: "s \<in> operators"
    and lexer: "lexer input = Some (operator_lexemes s @ [(R_atom, cat @ ''/'' @ name @ ''-'' @ print_version ps r)])"
  shows "\<exists>a pkg p c w' f. PyAtom_init lexer failed alloc input w = Inr (Return (a, w)) \<and>
    lut_entries (packages w) i = Some (cat @ ''/'' @ name, pkg, f) \<and> pkg_objs w pkg = Some p \<and>
    PyPortage_match_atom a w = Inr (Return (c, w')) \<and>
    answers s w (ebuilds p) (version_key (atom_version_init atom_version_new (print_version ps r))) c"
proof -
  define ver where "ver = \<lparr>full_version = Some (print_version ps r), nodes = map parsed_node ps,
       revision = (case r of None \<Rightarrow> 0 | Some d \<Rightarrow> int (dec_val d))\<rparr>"
  have dig: "\<forall>pd \<in> set ps. digits (snd pd)" using ps(2) by blast
  have init: "atom_version_init atom_version_new (print_version ps r) = ver"
    using parse_print_aux [OF ps(1) dig] r by (simp add: ver_def)
  have plain: "plain ver" using parsed_plain(1) [OF ps(1,2) r] init by simp
  obtain h where h: "atom_init (Some (packages w)) atom_new (cat @ ''/'' @ name @ ''-'' @ print_version ps r) =
      Inr (0, parsed_atom (packages w) cat name h (Some ver))"
    using atom_init_versioned [OF cat ps(1) dig ps(3) r, of "packages w" atom_new name] unfolding ver_def by blast
  let ?a = "(parsed_atom (packages w) cat name h (Some ver))\<lparr>version_range := operator_range s\<rparr>"
  have run: "PyAtom_init lexer failed alloc input w = Inr (Return (?a, w))"
    using written_atom [where wd = "cat @ ''/'' @ name @ ''-'' @ print_version ps r" and s = s] s lexer h by blast
  have a: "atom_version ?a = Some ver" "atom_key ?a = Some (cat @ ''/'' @ name)" "version_range ?a = operator_range s"
    "lut_get_id (packages w) (cat @ ''/'' @ name) = (atom_id ?a, LUT_FLAG_EXISTS)" "atom_id ?a = i"
    using key by (simp_all add: parsed_atom_def)
  from portage_match_answers [OF db a(4,2,1) plain s a(3)] run show ?thesis unfolding init a(5) by blast
qed

section \<open>The files of a package\<close>

lemma cache_name_split:
  assumes "cache_name realpath cache cat name f"
  shows "version_split f = Some (length name)" "take (length name) f = name"
proof -
  from assms obtain ps r where f: "f = name @ ''-'' @ print_version ps r" and "ps \<noteq> []"
    "\<forall>pd \<in> set ps. digits (snd pd)" "fst (hd ps) = ATOM_PREFIX_NONE" "\<forall>d. r = Some d \<longrightarrow> digits d"
    unfolding cache_name_def by blast
  then show "version_split f = Some (length name)" using version_split_print [of ps r name] by simp
  show "take (length name) f = name" by (simp add: f)
qed

lemma cache_name_unique:
  assumes "cache_name realpath cache cat name f" "cache_name realpath cache cat name' f"
  shows "name' = name"
  using cache_name_split [OF assms(1)] cache_name_split [OF assms(2)] by simp

text \<open>The key of the version in a file name.\<close>

definition file_key :: "string \<Rightarrow> string \<Rightarrow> (atom_version_pre_t \<times> nat) list \<times> int" where
  "file_key name f = version_key (atom_version_init atom_version_new (drop (Suc (length name)) f))"

lemma indexed_file_key:
  assumes "indexed w (cat @ ''/'' @ name) (cat @ ''/'' @ f)"
  shows "\<exists>i d fl p c. lut_entries (packages w) i = Some (cat @ ''/'' @ name, d, fl) \<and> pkg_objs w d = Some p \<and>
    c \<in> set (ebuilds p) \<and> key_at w c = file_key name f"
  using assms unfolding indexed_def of_file_def file_key_def key_at_def version_at_def by fastforce

lemma package_ebuilds:
  assumes "db_ok m w" "lut_entries (packages w) i = Some (k, pkg, fl)" "pkg_objs w pkg = Some p" "c \<in> set (ebuilds p)"
  shows "\<exists>e. ebuild_objs w c = Some e \<and> package_key e = Some k"
proof -
  have "\<exists>p. pkg_objs w pkg = Some p \<and> pkg_key p = Some k" using assms(1,2) unfolding db_ok_def entries_ok_def by blast
  then have "pkg_key p = Some k" using assms(3) by simp
  moreover have "ebuild_ok w c" using assms(1,3,4) by (auto simp: db_ok_def packages_ok_def package_ok_def)
  then obtain e where "ebuild_objs w c = Some e" by (auto simp: ebuild_ok_def)
  moreover have "package_key (the (ebuild_objs w c)) = pkg_key p" using assms(1,3,4) by (auto simp: db_ok_def keys_ok_def)
  ultimately show ?thesis by simp
qed

lemma exact_meets: "s \<in> exact \<Longrightarrow> meets s x y \<longleftrightarrow> x = y"
  by (auto simp: exact_def)

section \<open>Properties\<close>

text \<open>
  C1: from files to an answer. After the cache of a repository has been read (up to 65536
  files with versions of numbers), the text of an atom, one of the operators or none, followed by
  \<open>category/name-version\<close>, is parsed and looked up without failing if a file of that package is in the
  cache. The ebuild that is returned belongs to the package, its version is in the range of the
  operator, and no file of the package in the cache has a newer version that is. For the operators
  \<open>>=\<close>, \<open><=\<close>, \<open>>\<close>, \<open><\<close> and none, None is returned only if no file has a version in the range. For \<open>=\<close> and
  \<open>~\<close>, which both ask for the version with its revision, it is the newest ebuild of the package or None: a
  file with the version asked for is not found if there is a newer one.
\<close>

theorem repository_query:
  assumes alloc: "good_alloc alloc" and entries: "\<forall>entry \<in> set entries. entry_ok realpath cache entry"
    and db: "db_ok (m + length (repo_files entries)) w0"
    and listed: "(cat, f0) \<in> set (repo_files entries)" "cache_name realpath cache cat name f0"
    and ps: "ps \<noteq> []" "\<forall>pd \<in> set ps. digits (snd pd) \<and> length (snd pd) \<le> 9" "fst (hd ps) = ATOM_PREFIX_NONE"
    and r: "\<forall>d. r = Some d \<longrightarrow> digits d \<and> length d \<le> 9"
    and s: "s \<in> operators"
    and lexer: "lexer input = Some (operator_lexemes s @ [(R_atom, cat @ ''/'' @ name @ ''-'' @ print_version ps r)])"
  shows "\<exists>w a c w'. PyPortage_initialize_repository alloc realpath None cache (Some entries) w0 =
      Inr (Return (word_of_nat (length (repo_files entries)), w)) \<and>
    PyAtom_init lexer failed alloc input w = Inr (Return (a, w)) \<and>
    PyPortage_match_atom a w = Inr (Return (c, w')) \<and>
    (let k = version_key (atom_version_init atom_version_new (print_version ps r));
         of_package = (\<lambda>f. (cat, f) \<in> set (repo_files entries) \<and> cache_name realpath cache cat name f) in
      (c \<noteq> 0 \<longrightarrow> meets s (key_at w c) k \<and> package_key (the (ebuild_objs w c)) = Some (cat @ ''/'' @ name)) \<and>
      (\<forall>f. of_package f \<and> meets s (file_key name f) k \<longrightarrow>
         c \<noteq> 0 \<and> file_key name f \<le> key_at w c \<or>
         s \<in> exact \<and> c = 0 \<and> (\<exists>d e. ebuild_objs w d = Some e \<and> package_key e = Some (cat @ ''/'' @ name) \<and> k < key_at w d)) \<and>
      (s \<in> exact \<and> c \<noteq> 0 \<longrightarrow> (\<forall>f. of_package f \<longrightarrow> file_key name f \<le> key_at w c)))"
proof -
  let ?key = "cat @ ''/'' @ name" and ?k = "version_key (atom_version_init atom_version_new (print_version ps r))"
  from scan_dirs_result [OF alloc entries db, of 0] obtain w where
    scan: "PyPortage_initialize_repository alloc realpath None cache (Some entries) w0 =
      Inr (Return (word_of_nat (length (repo_files entries)), w))"
    and w: "db_ok m w" "all_indexed realpath cache (repo_files entries) w"
    by (auto simp: PyPortage_initialize_repository_def)
  have idx: "indexed w ?key (cat @ ''/'' @ f)"
    if "(cat, f) \<in> set (repo_files entries)" "cache_name realpath cache cat name f" for f
    using w(2) that cache_name_unique [OF that(2)] unfolding all_indexed_def by fastforce
  have wf: "lut_wf (packages w)" using w(1) by (simp add: db_ok_def lut_cap_def)
  from indexed_file_key [OF idx [OF listed]] obtain i where key: "lut_get_id (packages w) ?key = (i, LUT_FLAG_EXISTS)"
    using lut_entries_iff [OF wf] by blast
  have cat: "CHR ''/'' \<notin> set cat" using listed(2) by (simp add: cache_name_def)
  from written_atom_answers [where lexer = lexer and input = input and alloc = alloc and failed = failed and s = s,
      OF w(1) key cat ps r s lexer]
  obtain a pkg p c w' fl where q: "PyAtom_init lexer failed alloc input w = Inr (Return (a, w))"
      "lut_entries (packages w) i = Some (?key, pkg, fl)" "pkg_objs w pkg = Some p"
      "PyPortage_match_atom a w = Inr (Return (c, w'))" "answers s w (ebuilds p) ?k c" by blast
  note own = package_ebuilds [OF w(1) q(2,3)]
  have cached: "\<exists>d \<in> set (ebuilds p). key_at w d = file_key name f"
    if "(cat, f) \<in> set (repo_files entries)" "cache_name realpath cache cat name f" for f
  proof -
    from indexed_file_key [OF idx [OF that]] obtain j d fl' p' c' where
      "lut_entries (packages w) j = Some (?key, d, fl')" "pkg_objs w d = Some p'" "c' \<in> set (ebuilds p')"
      "key_at w c' = file_key name f" by blast
    moreover from this have "j = i" using lut_entries_iff [OF wf] q(2) by (metis Pair_inject)
    ultimately show ?thesis using q(2,3) by auto
  qed
  have "c \<noteq> 0 \<and> file_key name f \<le> key_at w c \<or>
      s \<in> exact \<and> c = 0 \<and> (\<exists>d e. ebuild_objs w d = Some e \<and> package_key e = Some ?key \<and> ?k < key_at w d)"
    if "(cat, f) \<in> set (repo_files entries)" "cache_name realpath cache cat name f" "meets s (file_key name f) ?k" for f
    using cached [OF that(1,2)] that(3) q(5) own unfolding answers_def by (elim bexE) (metis exact_meets)
  moreover have "file_key name f \<le> key_at w c"
    if "(cat, f) \<in> set (repo_files entries)" "cache_name realpath cache cat name f" "s \<in> exact" "c \<noteq> 0" for f
    using cached [OF that(1,2)] that(3,4) q(5) unfolding answers_def by metis
  moreover have "meets s (key_at w c) ?k \<and> package_key (the (ebuild_objs w c)) = Some ?key" if "c \<noteq> 0"
    using that q(5) own unfolding answers_def by (metis option.sel)
  ultimately show ?thesis using scan q(1,4) unfolding Let_def by blast
qed

text \<open>A cache with two versions of a package: \<open>>=a/b-1.3\<close> finds the newer one, \<open>=a/b-1.2\<close> nothing.\<close>

definition sample_entries :: "(string \<times> (bool \<times> string list option) option) list" where
  "sample_entries = [(''metadata'', Some (False, None)), (''a'', Some (True, Some [''b-1.2'', ''b-1.10'']))]"

abbreviation plain_parts :: "string list \<Rightarrow> (atom_version_pre_t \<times> string) list" where
  "plain_parts \<equiv> map (Pair ATOM_PREFIX_NONE)"

lemma sample_versions:
  "print_version (plain_parts [''1'', ''2'']) None = ''1.2''" "print_version (plain_parts [''1'', ''3'']) None = ''1.3''"
  "print_version (plain_parts [''1'', ''10'']) None = ''1.10''"
  by (simp_all add: print_version_def print_part_def separator_def)

lemma sample_keys:
  "file_key ''b'' ''b-1.2'' = version_key (atom_version_init atom_version_new ''1.2'')"
  "version_key (atom_version_init atom_version_new ''1.2'') < file_key ''b'' ''b-1.10''"
  "meets ''>='' (file_key ''b'' ''b-1.10'') (version_key (atom_version_init atom_version_new ''1.3''))"
proof -
  have key: "version_key (atom_version_init atom_version_new (print_version (plain_parts ds) None)) =
      (map (node_key \<circ> parsed_node \<circ> Pair ATOM_PREFIX_NONE) ds, 0)" if "ds \<noteq> []" "list_all digits ds" for ds
    using that parse_print_aux [of "plain_parts ds" None]
    by (simp add: version_key_def list_all_iff)
  have d: "list_all digits [''1'', ''10'']" "list_all digits [''1'', ''3'']" "list_all digits [''1'', ''2'']"
    by (simp_all add: digits_def isdigit_def)
  note keys = key [of "[''1'', ''10'']", unfolded sample_versions] key [of "[''1'', ''3'']", unfolded sample_versions]
    key [of "[''1'', ''2'']", unfolded sample_versions]
  show "file_key ''b'' ''b-1.2'' = version_key (atom_version_init atom_version_new ''1.2'')" by (simp add: file_key_def)
  show "version_key (atom_version_init atom_version_new ''1.2'') < file_key ''b'' ''b-1.10''"
    "meets ''>='' (file_key ''b'' ''b-1.10'') (version_key (atom_version_init atom_version_new ''1.3''))"
    using keys d by (simp_all add: file_key_def node_key_def parsed_node_def rank_values dec_val_def digit_val_def)
qed

lemma sample_repository:
  "repo_files sample_entries = [(''a'', ''b-1.2''), (''a'', ''b-1.10'')]"
  "cache_name Some ''/c'' ''a'' ''b'' ''b-1.2''" "cache_name Some ''/c'' ''a'' ''b'' ''b-1.10''"
  "\<forall>entry \<in> set sample_entries. entry_ok Some ''/c'' entry"
proof -
  show files: "repo_files sample_entries = [(''a'', ''b-1.2''), (''a'', ''b-1.10'')]"
    by (simp add: sample_entries_def repo_files_def skipped_def char_at_def)
  show names: "cache_name Some ''/c'' ''a'' ''b'' ''b-1.2''" "cache_name Some ''/c'' ''a'' ''b'' ''b-1.10''"
    unfolding cache_name_def
    by (simp, intro exI [of _ "plain_parts [''1'', ''2'']"] exI [of _ None],
        simp add: print_version_def print_part_def separator_def digits_def isdigit_def)
      (simp, intro exI [of _ "plain_parts [''1'', ''10'']"] exI [of _ None],
        simp add: print_version_def print_part_def separator_def digits_def isdigit_def)
  then show "\<forall>entry \<in> set sample_entries. entry_ok Some ''/c'' entry"
    by (auto simp: sample_entries_def entry_ok_def PATH_MAX_def skipped_def char_at_def)
qed

theorem repository_query_witness:
  "(\<exists>w a c w'. PyPortage_initialize_repository lowest_free Some None ''/c'' (Some sample_entries) empty_world = Inr (Return (2, w)) \<and>
     PyAtom_init (\<lambda>_. Some (operator_lexemes ''>='' @ [(R_atom, ''a/b-1.3'')])) (\<lambda>_ w. w) lowest_free ''>=a/b-1.3'' w = Inr (Return (a, w)) \<and>
     PyPortage_match_atom a w = Inr (Return (c, w')) \<and> c \<noteq> 0 \<and> file_key ''b'' ''b-1.10'' \<le> key_at w c) \<and>
   (\<exists>w a w'. PyPortage_initialize_repository lowest_free Some None ''/c'' (Some sample_entries) empty_world = Inr (Return (2, w)) \<and>
     PyAtom_init (\<lambda>_. Some (operator_lexemes ''='' @ [(R_atom, ''a/b-1.2'')])) (\<lambda>_ w. w) lowest_free ''=a/b-1.2'' w = Inr (Return (a, w)) \<and>
     PyPortage_match_atom a w = Inr (Return (0, w')))"
proof -
  have listed: "(''a'', ''b-1.2'') \<in> set (repo_files sample_entries)" "(''a'', ''b-1.10'') \<in> set (repo_files sample_entries)"
    by (simp_all add: sample_repository(1))
  have db: "db_ok (65534 + length (repo_files sample_entries)) empty_world" using empty_world_ok by (simp add: sample_repository(1))
  have ps2: "plain_parts [''1'', ''2''] \<noteq> []" "\<forall>pd \<in> set (plain_parts [''1'', ''2'']). digits (snd pd) \<and> length (snd pd) \<le> 9"
      "fst (hd (plain_parts [''1'', ''2''])) = ATOM_PREFIX_NONE"
    and ps3: "plain_parts [''1'', ''3''] \<noteq> []" "\<forall>pd \<in> set (plain_parts [''1'', ''3'']). digits (snd pd) \<and> length (snd pd) \<le> 9"
      "fst (hd (plain_parts [''1'', ''3''])) = ATOM_PREFIX_NONE"
    by (simp_all add: digits_def isdigit_def)
  have r: "\<forall>d. None = Some d \<longrightarrow> digits d \<and> length d \<le> 9" by simp
  have s: "''>='' \<in> operators" "''='' \<in> operators" by (simp_all add: operators_def)
  note query = repository_query [OF lowest_free_good sample_repository(4) db listed(1) sample_repository(2)]
  let ?least = "\<lambda>_ :: string. Some (operator_lexemes ''>='' @ [(R_atom, ''a/b-1.3'')])"
  have "?least ''>=a/b-1.3'' = Some (operator_lexemes ''>='' @ [(R_atom, ''a'' @ ''/'' @ ''b'' @ ''-'' @ print_version (plain_parts [''1'', ''3'']) None)])"
    unfolding sample_versions by simp
  from query [where lexer = ?least and input = "''>=a/b-1.3''" and failed = "\<lambda>_ w. w", OF ps3 r s(1) this] listed(2) sample_repository(3) sample_keys(3)
  have least: "\<exists>w a c w'. PyPortage_initialize_repository lowest_free Some None ''/c'' (Some sample_entries) empty_world = Inr (Return (2, w)) \<and>
     PyAtom_init ?least (\<lambda>_ w. w) lowest_free ''>=a/b-1.3'' w = Inr (Return (a, w)) \<and>
     PyPortage_match_atom a w = Inr (Return (c, w')) \<and> c \<noteq> 0 \<and> file_key ''b'' ''b-1.10'' \<le> key_at w c"
    unfolding Let_def sample_versions sample_repository(1) by (simp add: exact_def) blast
  let ?exact = "\<lambda>_ :: string. Some (operator_lexemes ''='' @ [(R_atom, ''a/b-1.2'')])"
  have "?exact ''=a/b-1.2'' = Some (operator_lexemes ''='' @ [(R_atom, ''a'' @ ''/'' @ ''b'' @ ''-'' @ print_version (plain_parts [''1'', ''2'']) None)])"
    unfolding sample_versions by simp
  from query [where lexer = ?exact and input = "''=a/b-1.2''" and failed = "\<lambda>_ w. w", OF ps2 r s(2) this] obtain w a c w' where
    q: "PyPortage_initialize_repository lowest_free Some None ''/c'' (Some sample_entries) empty_world =
        Inr (Return (word_of_nat (length (repo_files sample_entries)), w))"
      "PyAtom_init ?exact (\<lambda>_ w. w) lowest_free ''=a/b-1.2'' w = Inr (Return (a, w))" "PyPortage_match_atom a w = Inr (Return (c, w'))"
    and found: "c \<noteq> 0 \<Longrightarrow> meets ''='' (key_at w c) (version_key (atom_version_init atom_version_new ''1.2''))"
      "''='' \<in> exact \<Longrightarrow> c \<noteq> 0 \<Longrightarrow> file_key ''b'' ''b-1.10'' \<le> key_at w c"
    using listed(2) sample_repository(3) unfolding Let_def sample_versions by blast
  have "c = 0"
  proof (rule ccontr)
    assume c: "c \<noteq> 0"
    have eq: "''='' \<in> exact" by (simp add: exact_def)
    have "key_at w c = version_key (atom_version_init atom_version_new ''1.2'')" using found(1) [OF c] unfolding exact_meets [OF eq] .
    with found(2) [OF eq c] sample_keys(2) show False by (metis leD)
  qed
  moreover have "PyPortage_initialize_repository lowest_free Some None ''/c'' (Some sample_entries) empty_world = Inr (Return (2, w))"
    using q(1) by (simp add: sample_repository(1))
  ultimately show ?thesis using q(2,3) least by blast
qed

end
