(* ===== verification/Required_Use.thy ===== *)
theory Required_Use
  imports Depend_Lexer Use_Flags
begin

text \<open>
  The grammar of required use, \<^verbatim>\<open>cportage/requireduse.y\<close>: lexical rules, productions as
  inductive predicates with a parser that decides them, the actions on the state, and
  \<^verbatim>\<open>PyRequiredUse_init\<close> of \<^verbatim>\<open>use.c\<close>. As for dependencies, the generated lexer and what a
  syntax error leaves behind are arguments.
\<close>

section \<open>Lexical rules\<close>

definition ru_identifier_rx :: regex where
  "ru_identifier_rx = Then (Class (letter @ ''_'' @ decimal)) (Star (Class (letter @ ''_'' @ decimal @ ''-+'')))"

datatype ru_token =
    RChr char
  | IDENTIFIER string
  | USE_DEFAULT atom_use_default_t
  | RU_USESELECT "string option" use_operator_t

datatype ru_rule =
    U_newline | U_blank | U_most_one | U_least_one | U_exact_one | U_default_on | U_default_off | U_chr char
  | U_identifier

fun ru_rx :: "ru_rule \<Rightarrow> regex" where
  "ru_rx U_newline = Lit (CHR 0x0A)"
| "ru_rx U_blank = Plus (Class [CHR '' '', CHR 0x09, CHR 0x0D, CHR 0x5C])"
| "ru_rx U_most_one = Str ''??''"
| "ru_rx U_least_one = Str ''||''"
| "ru_rx U_exact_one = Str ''^^''"
| "ru_rx U_default_on = Str ''(+)''"
| "ru_rx U_default_off = Str ''(-)''"
| "ru_rx (U_chr c) = (if c \<in> set ''!?()'' then Lit c else Nothing)"
| "ru_rx U_identifier = ru_identifier_rx"

fun ru_action :: "ru_rule \<Rightarrow> string \<Rightarrow> ru_token option" where
  "ru_action U_newline yytext = None"
| "ru_action U_blank yytext = None"
| "ru_action U_most_one yytext = Some (RU_USESELECT None USE_OP_MOST_ONE)"
| "ru_action U_least_one yytext = Some (RU_USESELECT None USE_OP_LEAST_ONE)"
| "ru_action U_exact_one yytext = Some (RU_USESELECT None USE_OP_EXACT_ONE)"
| "ru_action U_default_on yytext = Some (USE_DEFAULT ATOM_DEFAULT_ON)"
| "ru_action U_default_off yytext = Some (USE_DEFAULT ATOM_DEFAULT_OFF)"
| "ru_action (U_chr c) yytext = Some (RChr c)"
| "ru_action U_identifier yytext = Some (IDENTIFIER yytext)"

definition ru_tokens :: "(ru_rule \<times> string) list \<Rightarrow> ru_token list" where
  "ru_tokens ls = List.map_filter (\<lambda>(r, yytext). ru_action r yytext) ls"

section \<open>Productions\<close>

type_synonym use_select = "string option \<times> use_operator_t"

inductive use_expr :: "ru_token list \<Rightarrow> use_select \<Rightarrow> bool" where
  ue_not: "use_expr [RChr (CHR ''!''), IDENTIFIER i] (Some i, USE_OP_DISABLE)"
| ue_plain: "use_expr [IDENTIFIER i] (Some i, USE_OP_ENABLE)"

inductive depend_expr_sel :: "ru_token list \<Rightarrow> use_select \<Rightarrow> bool" where
  sel_use: "use_expr ts s \<Longrightarrow> depend_expr_sel (ts @ [RChr (CHR ''?'')]) s"
| sel_op: "depend_expr_sel [RU_USESELECT target opt] (target, opt)"

datatype ru_tree =
    RLeaf use_select
  | RNode use_select "ru_tree list"
  | RGroup "ru_tree list"

inductive required_use_expr :: "ru_token list \<Rightarrow> ru_tree list \<Rightarrow> bool"
  and required_use_single :: "ru_token list \<Rightarrow> ru_tree \<Rightarrow> bool" where
  re_one: "required_use_single ts t \<Longrightarrow> required_use_expr ts [t]"
| re_more: "required_use_single ts t \<Longrightarrow> required_use_expr us k \<Longrightarrow> required_use_expr (ts @ us) (t # k)"
| rs_use: "use_expr ts s \<Longrightarrow> required_use_single ts (RLeaf s)"
| rs_sel: "depend_expr_sel ts s \<Longrightarrow> required_use_expr us k \<Longrightarrow>
     required_use_single (ts @ RChr (CHR ''('') # us @ [RChr (CHR '')'')]) (RNode s k)"
| rs_group: "required_use_expr us k \<Longrightarrow> required_use_single (RChr (CHR ''('') # us @ [RChr (CHR '')'')]) (RGroup k)"

inductive program_required_use :: "ru_token list \<Rightarrow> ru_tree list \<Rightarrow> bool" where
  pr_expr: "required_use_expr ts k \<Longrightarrow> program_required_use ts k"
| pr_empty: "program_required_use [] []"

section \<open>Parser\<close>

text \<open>A selector; the flag tells whether a question mark or an operator makes it a condition.\<close>

fun p_sel :: "ru_token list \<Rightarrow> (bool \<times> use_select \<times> ru_token list) option" where
  "p_sel (IDENTIFIER i # RChr c # ts) =
     (if c = CHR ''?'' then Some (True, (Some i, USE_OP_ENABLE), ts)
      else Some (False, (Some i, USE_OP_ENABLE), RChr c # ts))"
| "p_sel (IDENTIFIER i # ts) = Some (False, (Some i, USE_OP_ENABLE), ts)"
| "p_sel (RChr d # IDENTIFIER i # RChr c # ts) =
     (if d \<noteq> CHR ''!'' then None
      else if c = CHR ''?'' then Some (True, (Some i, USE_OP_DISABLE), ts)
      else Some (False, (Some i, USE_OP_DISABLE), RChr c # ts))"
| "p_sel (RChr d # IDENTIFIER i # ts) =
     (if d \<noteq> CHR ''!'' then None else Some (False, (Some i, USE_OP_DISABLE), ts))"
| "p_sel (RU_USESELECT target opt # ts) = Some (True, (target, opt), ts)"
| "p_sel _ = None"

fun ru_starts :: "ru_token list \<Rightarrow> bool" where
  "ru_starts (RChr c # ts) \<longleftrightarrow> c = CHR ''!'' \<or> c = CHR ''(''"
| "ru_starts (IDENTIFIER i # ts) \<longleftrightarrow> True"
| "ru_starts (RU_USESELECT target opt # ts) \<longleftrightarrow> True"
| "ru_starts _ \<longleftrightarrow> False"

fun p_paren :: "(ru_token list \<Rightarrow> ('a \<times> ru_token list) option) \<Rightarrow> ru_token list \<Rightarrow> ('a \<times> ru_token list) option" where
  "p_paren p (RChr c # ts) =
     (if c \<noteq> CHR ''('' then None
      else case p ts of
        Some (k, RChr d # us) \<Rightarrow> if d = CHR '')'' then Some (k, us) else None
      | _ \<Rightarrow> None)"
| "p_paren p _ = None"

fun p_ru_expr :: "nat \<Rightarrow> ru_token list \<Rightarrow> (ru_tree list \<times> ru_token list) option"
  and p_ru_single :: "nat \<Rightarrow> ru_token list \<Rightarrow> (ru_tree \<times> ru_token list) option" where
  "p_ru_expr 0 ts = None"
| "p_ru_expr (Suc n) ts =
     (case p_ru_single n ts of
        None \<Rightarrow> None
      | Some (t, us) \<Rightarrow>
          if ru_starts us then map_option (\<lambda>(k, vs). (t # k, vs)) (p_ru_expr n us) else Some ([t], us))"
| "p_ru_single 0 ts = None"
| "p_ru_single (Suc n) ts =
     (case p_sel ts of
        None \<Rightarrow> map_option (apfst RGroup) (p_paren (p_ru_expr n) ts)
      | Some (cond, s, us) \<Rightarrow>
          if cond then map_option (apfst (RNode s)) (p_paren (p_ru_expr n) us) else Some (RLeaf s, us))"

definition p_required_use :: "ru_token list \<Rightarrow> ru_tree list option" where
  "p_required_use ts =
     (if ts = [] then Some []
      else case p_ru_expr (2 * length ts) ts of Some (k, []) \<Rightarrow> Some k | _ \<Rightarrow> None)"

section \<open>The parser decides the grammar\<close>

definition no_question :: "ru_token list \<Rightarrow> bool" where
  "no_question ts \<longleftrightarrow> (case ts of RChr c # _ \<Rightarrow> c \<noteq> CHR ''?'' | _ \<Rightarrow> True)"

lemma p_sel_sound:
  assumes "p_sel ts = Some (cond, s, us)"
  shows "\<exists>vs. ts = vs @ us \<and> (if cond then depend_expr_sel vs s else use_expr vs s)"
proof -
  have plain: "\<exists>vs. IDENTIFIER i # us = vs @ us \<and> use_expr vs (Some i, USE_OP_ENABLE)" for i
    using ue_plain by (intro exI [of _ "[IDENTIFIER i]"]) simp
  have neg: "\<exists>vs. RChr (CHR ''!'') # IDENTIFIER i # us = vs @ us \<and> use_expr vs (Some i, USE_OP_DISABLE)" for i
    using ue_not by (intro exI [of _ "[RChr (CHR ''!''), IDENTIFIER i]"]) simp
  have q: "\<exists>vs. IDENTIFIER i # RChr (CHR ''?'') # us = vs @ us \<and> depend_expr_sel vs (Some i, USE_OP_ENABLE)" for i
    using sel_use [OF ue_plain] by (intro exI [of _ "[IDENTIFIER i, RChr (CHR ''?'')]"]) simp
  have nq: "\<exists>vs. RChr (CHR ''!'') # IDENTIFIER i # RChr (CHR ''?'') # us = vs @ us \<and>
      depend_expr_sel vs (Some i, USE_OP_DISABLE)" for i
    using sel_use [OF ue_not] by (intro exI [of _ "[RChr (CHR ''!''), IDENTIFIER i, RChr (CHR ''?'')]"]) simp
  have op: "\<exists>vs. RU_USESELECT target opt # us = vs @ us \<and> depend_expr_sel vs (target, opt)" for target opt
    using sel_op by (intro exI [of _ "[RU_USESELECT target opt]"]) simp
  from assms show ?thesis
    using plain neg q nq op by (cases ts rule: p_sel.cases) (auto split: if_splits)
qed

lemma p_sel_cond: "depend_expr_sel vs s \<Longrightarrow> p_sel (vs @ us) = Some (True, s, us)"
  by (induction rule: depend_expr_sel.induct) (auto elim: use_expr.cases)

lemma p_sel_use: "use_expr vs s \<Longrightarrow> no_question us \<Longrightarrow> p_sel (vs @ us) = Some (False, s, us)"
proof (induction rule: use_expr.induct)
  case (ue_not i)
  then show ?case by (cases us; cases "hd us") (auto simp: no_question_def)
next
  case (ue_plain i)
  then show ?case by (cases us; cases "hd us") (auto simp: no_question_def)
qed

lemma p_paren_iff:
  "p_paren p ts = Some (k, us) \<longleftrightarrow> (\<exists>vs. ts = RChr (CHR ''('') # vs \<and> p vs = Some (k, RChr (CHR '')'') # us))"
  by (cases "(p, ts)" rule: p_paren.cases) (auto split: option.splits list.splits ru_token.splits if_splits)

lemma sel_start: "depend_expr_sel ts s \<Longrightarrow> ts \<noteq> [] \<and> ru_starts (ts @ us)"
  by (induction rule: depend_expr_sel.induct) (auto elim: use_expr.cases)

lemma ru_single_start: "required_use_single ts t \<Longrightarrow> ts \<noteq> [] \<and> ru_starts (ts @ us)"
proof (cases rule: required_use_single.cases, assumption)
  fix s assume "use_expr ts s"
  then show "ts \<noteq> [] \<and> ru_starts (ts @ us)" by (cases rule: use_expr.cases) auto
next
  fix vs s ws k assume "ts = vs @ RChr (CHR ''('') # ws @ [RChr (CHR '')'')]" "depend_expr_sel vs s"
  then show "ts \<noteq> [] \<and> ru_starts (ts @ us)" using sel_start by simp
qed simp

lemma ru_expr_start: "required_use_expr ts k \<Longrightarrow> ts \<noteq> [] \<and> k \<noteq> [] \<and> ru_starts (ts @ us)"
  by (cases rule: required_use_expr.cases, assumption) (use ru_single_start in auto)

lemma p_ru_single_sound_step:
  assumes IH: "\<And>ts k us. p_ru_expr n ts = Some (k, us) \<Longrightarrow> \<exists>vs. ts = vs @ us \<and> required_use_expr vs k"
    and p: "p_ru_single (Suc n) ts = Some (t, us)"
  shows "\<exists>vs. ts = vs @ us \<and> required_use_single vs t"
proof -
  have paren: "\<exists>ws. ts' = RChr (CHR ''('') # ws @ RChr (CHR '')'') # us \<and> required_use_expr ws k"
    if "p_paren (p_ru_expr n) ts' = Some (k, us)" for ts' k
    using that IH unfolding p_paren_iff by blast
  show ?thesis
  proof (cases "p_sel ts")
    case None
    with p obtain k where "p_paren (p_ru_expr n) ts = Some (k, us)" "t = RGroup k" by auto
    with paren [of ts k] rs_group show ?thesis
      by (metis append.assoc append_Cons append_Nil)
  next
    case (Some x)
    obtain cond s vs where x: "x = (cond, s, vs)" by (cases x)
    from p_sel_sound [OF Some [unfolded x]] obtain ws where ws: "ts = ws @ vs"
      "if cond then depend_expr_sel ws s else use_expr ws s" by blast
    show ?thesis
    proof (cases cond)
      case True
      with p Some x obtain k where "p_paren (p_ru_expr n) vs = Some (k, us)" "t = RNode s k" by auto
      with paren [of vs k] obtain xs where "vs = RChr (CHR ''('') # xs @ RChr (CHR '')'') # us" "required_use_expr xs k"
        by blast
      with True ws rs_sel [of ws s xs k] \<open>t = _\<close> show ?thesis
        by (intro exI [of _ "ws @ RChr (CHR ''('') # xs @ [RChr (CHR '')'')]"]) simp
    next
      case False
      with p Some x ws(1) rs_use [of ws s] ws(2) show ?thesis by auto
    qed
  qed
qed

lemma p_ru_expr_sound: "p_ru_expr n ts = Some (k, us) \<Longrightarrow> \<exists>vs. ts = vs @ us \<and> required_use_expr vs k"
  and p_ru_single_sound: "p_ru_single n ts = Some (t, us) \<Longrightarrow> \<exists>vs. ts = vs @ us \<and> required_use_single vs t"
proof (induction n arbitrary: ts k us t)
  case (Suc n)
  {
    case 1
    then obtain t vs where t: "p_ru_single n ts = Some (t, vs)"
      and k: "(if ru_starts vs then map_option (\<lambda>(k, vs). (t # k, vs)) (p_ru_expr n vs) else Some ([t], vs)) = Some (k, us)"
      by (auto split: option.splits)
    from Suc(2) [OF t] obtain ws where ws: "ts = ws @ vs" "required_use_single ws t" by blast
    show ?case
    proof (cases "ru_starts vs")
      case True
      with k obtain k' where k': "p_ru_expr n vs = Some (k', us)" "k = t # k'" by auto
      from Suc(1) [OF k'(1)] obtain xs where "vs = xs @ us" "required_use_expr xs k'" by blast
      with ws k'(2) re_more [OF ws(2)] show ?thesis by (intro exI [of _ "ws @ xs"]) simp
    next
      case False
      with k ws re_one [OF ws(2)] show ?thesis by auto
    qed
  next
    case 2
    show ?case using p_ru_single_sound_step [OF Suc(1) 2] by blast
  }
qed simp_all

lemma p_sel_paren: "p_sel (RChr (CHR ''('') # ts) = None"
  by (cases "RChr (CHR ''('') # ts" rule: p_sel.cases) auto

lemma starts_no_question: "ru_starts ts \<Longrightarrow> no_question ts"
  by (cases ts rule: ru_starts.cases) (auto simp: no_question_def)

lemma p_ru_expr_complete: "required_use_expr ts k \<Longrightarrow> 2 * length ts \<le> n \<Longrightarrow> no_question us \<Longrightarrow> \<not> ru_starts us \<Longrightarrow>
    p_ru_expr n (ts @ us) = Some (k, us)"
  and p_ru_single_complete: "required_use_single ts t \<Longrightarrow> 2 * length ts \<le> Suc n \<Longrightarrow> no_question us \<Longrightarrow>
    p_ru_single n (ts @ us) = Some (t, us)"
proof (induction arbitrary: n us and n us rule: required_use_expr_required_use_single.inducts)
  case (re_one ts t)
  then obtain m where m: "n = Suc m" using ru_single_start [of ts t] by (cases n) auto
  have "p_ru_single m (ts @ us) = Some (t, us)" using re_one m by (intro re_one.IH) auto
  with m re_one.prems show ?case by simp
next
  case (re_more ts t vs k)
  have ne: "ts \<noteq> []" "vs \<noteq> []" "ru_starts (vs @ us)"
    using ru_single_start [OF re_more.hyps(1)] ru_expr_start [OF re_more.hyps(2)] by auto
  then have len: "1 \<le> length ts" "1 \<le> length vs" by (simp_all add: Suc_le_eq)
  with re_more.prems(1) obtain m where m: "n = Suc m" by (cases n) auto
  have "p_ru_single m (ts @ vs @ us) = Some (t, vs @ us)"
    using re_more.prems(1) len m ne(3) by (intro re_more.IH(1)) (auto intro: starts_no_question)
  moreover have "p_ru_expr m (vs @ us) = Some (k, us)"
    using re_more.prems len m by (intro re_more.IH(2)) auto
  ultimately show ?case using m ne(3) by simp
next
  case (rs_use ts s)
  then obtain m where m: "n = Suc m" by (cases n) (auto elim: use_expr.cases)
  with p_sel_use [OF rs_use.hyps rs_use.prems(2)] show ?case by simp
next
  case (rs_sel ts s vs k)
  then obtain m where m: "n = Suc m" by (cases n) auto
  have "p_ru_expr m (vs @ RChr (CHR '')'') # us) = Some (k, RChr (CHR '')'') # us)"
    using rs_sel.prems m by (intro rs_sel.IH) (auto simp: no_question_def)
  with m p_sel_cond [OF rs_sel.hyps(1)] show ?case by simp
next
  case (rs_group vs k)
  then obtain m where m: "n = Suc m" by (cases n) auto
  have "p_ru_expr m (vs @ RChr (CHR '')'') # us) = Some (k, RChr (CHR '')'') # us)"
    using rs_group.prems m by (intro rs_group.IH) (auto simp: no_question_def)
  with m show ?case by (simp add: p_sel_paren)
qed

lemma p_required_use_iff: "p_required_use ts = Some k \<longleftrightarrow> program_required_use ts k"
proof
  assume "p_required_use ts = Some k"
  then show "program_required_use ts k"
    using p_ru_expr_sound [of "2 * length ts" ts k "[]"] pr_expr pr_empty
    by (auto simp: p_required_use_def split: if_splits option.splits prod.splits list.splits)
next
  assume "program_required_use ts k"
  then show "p_required_use ts = Some k"
  proof cases
    case pr_expr
    with p_ru_expr_complete [OF pr_expr, of "2 * length ts" "[]"] ru_expr_start [OF pr_expr] show ?thesis
      by (simp add: p_required_use_def no_question_def)
  next
    case pr_empty
    then show ?thesis by (simp add: p_required_use_def)
  qed
qed

section \<open>Actions\<close>

text \<open>
  A node is a list, the chain of its \<^verbatim>\<open>next\<close> links: parentheses alone return the chain of
  their content. Linking the following nodes to a node overwrites the link of its head.
\<close>

definition set_next :: "required_use list \<Rightarrow> required_use list \<Rightarrow> required_use list result" where
  "set_next xs ys = (case xs of [] \<Rightarrow> Inl Null_Deref | x # _ \<Rightarrow> Inr (x # ys))"

definition set_depend :: "required_use list \<Rightarrow> required_use \<Rightarrow> required_use" where
  "set_depend kids r = RequiredUse (ru_name r) (global_flag r) (ru_operator r) kids"

fun ru_node :: "(world \<Rightarrow> u64) \<Rightarrow> ru_tree \<Rightarrow> world \<Rightarrow> (required_use list \<times> world) result"
  and ru_nodes :: "(world \<Rightarrow> u64) \<Rightarrow> ru_tree list \<Rightarrow> world \<Rightarrow> (required_use list \<times> world) result" where
  "ru_node alloc (RLeaf (target, opt)) w =
     bindR (use_build_required_use alloc target opt w) (\<lambda>(r, w). Inr ([r], w))"
| "ru_node alloc (RNode (target, opt) k) w =
     bindR (ru_nodes alloc k w) (\<lambda>(kids, w).
     bindR (use_build_required_use alloc target opt w) (\<lambda>(r, w). Inr ([set_depend kids r], w)))"
| "ru_node alloc (RGroup k) w = ru_nodes alloc k w"
| "ru_nodes alloc [] w = Inr ([], w)"
| "ru_nodes alloc [t] w = ru_node alloc t w"
| "ru_nodes alloc (t # u # k) w =
     bindR (ru_node alloc t w) (\<lambda>(xs, w). bindR (ru_nodes alloc (u # k) w) (\<lambda>(ys, w).
       bindR (set_next xs ys) (\<lambda>zs. Inr (zs, w))))"

definition required_use_parse ::
  "(string \<Rightarrow> (ru_rule \<times> string) list option) \<Rightarrow> (string \<Rightarrow> world \<Rightarrow> world) \<Rightarrow> (world \<Rightarrow> u64)
    \<Rightarrow> required_use_parser" where
  "required_use_parse lexer failed alloc input w =
     (case map_option (p_required_use \<circ> ru_tokens) (lexer input) of
        Some (Some k) \<Rightarrow> ru_nodes alloc k w
      | _ \<Rightarrow> Inr ([], failed input w))"

text \<open>The copy of the parsed node leaves out only the iterator.\<close>

definition PyRequiredUse_init ::
  "(string \<Rightarrow> (ru_rule \<times> string) list option) \<Rightarrow> (string \<Rightarrow> world \<Rightarrow> world) \<Rightarrow> (world \<Rightarrow> u64)
    \<Rightarrow> string \<Rightarrow> world \<Rightarrow> (required_use list \<times> world) py result" where
  "PyRequiredUse_init lexer failed alloc required_use_string w =
     bindR (required_use_parse lexer failed alloc required_use_string w) (\<lambda>(duped, w).
       Inr (if duped = [] then Raise RuntimeError else Return (duped, w)))"

section \<open>What the actions build\<close>

text \<open>
  The nodes that survive: parentheses disappear, and of a group that something follows only
  the first node is kept.
\<close>

fun survivors :: "ru_tree \<Rightarrow> ru_tree list" and surviving :: "ru_tree list \<Rightarrow> ru_tree list" where
  "survivors (RLeaf s) = [RLeaf s]"
| "survivors (RNode s k) = [RNode s (surviving k)]"
| "survivors (RGroup k) = surviving k"
| "surviving [] = []"
| "surviving [t] = survivors t"
| "surviving (t # u # k) = take 1 (survivors t) @ surviving (u # k)"

fun ru_built :: "world \<Rightarrow> ru_tree \<Rightarrow> required_use \<Rightarrow> bool" where
  "ru_built w (RLeaf (target, opt)) r \<longleftrightarrow>
     ru_name r = target \<and> ru_operator r = opt \<and> ru_depend r = [] \<and>
     (case target of None \<Rightarrow> global_flag r = 0 | Some name \<Rightarrow> names_flag w (global_flag r) name)"
| "ru_built w (RNode (target, opt) k) r \<longleftrightarrow>
     ru_name r = target \<and> ru_operator r = opt \<and> list_all2 (ru_built w) k (ru_depend r) \<and>
     (case target of None \<Rightarrow> global_flag r = 0 | Some name \<Rightarrow> names_flag w (global_flag r) name)"
| "ru_built w (RGroup k) r \<longleftrightarrow> False"

text \<open>The number of flags that are looked up.\<close>

fun lookups :: "ru_tree \<Rightarrow> nat" where
  "lookups (RLeaf s) = (if fst s = None then 0 else 1)"
| "lookups (RNode s k) = (if fst s = None then 0 else 1) + sum_list (map lookups k)"
| "lookups (RGroup k) = sum_list (map lookups k)"

text \<open>Parentheses in the trees of the grammar are not empty.\<close>

fun no_empty :: "ru_tree \<Rightarrow> bool" where
  "no_empty (RLeaf s) \<longleftrightarrow> True"
| "no_empty (RNode s k) \<longleftrightarrow> k \<noteq> [] \<and> list_all no_empty k"
| "no_empty (RGroup k) \<longleftrightarrow> k \<noteq> [] \<and> list_all no_empty k"

lemma grammar_no_empty:
  "required_use_expr ts k \<Longrightarrow> k \<noteq> [] \<and> list_all no_empty k" "required_use_single ts t \<Longrightarrow> no_empty t"
  by (induction rule: required_use_expr_required_use_single.inducts) simp_all

lemma survivors_nonempty:
  "no_empty t \<Longrightarrow> survivors t \<noteq> []" "k \<noteq> [] \<Longrightarrow> list_all no_empty k \<Longrightarrow> surviving k \<noteq> []"
  by (induction t and k rule: survivors_surviving.induct) simp_all

lemma ru_built_mono: "ru_built w t r \<Longrightarrow> same_db w w' \<Longrightarrow> ru_built w' t r"
proof (induction t arbitrary: r)
  case (RLeaf s)
  then show ?case by (cases s) (auto simp: same_db_def split: option.splits)
next
  case (RNode s k)
  then show ?case
    by (cases s) (auto simp: same_db_def split: option.splits elim!: list.rel_mono_strong)
qed simp

lemma ru_builts_mono: "list_all2 (ru_built w) k rs \<Longrightarrow> same_db w w' \<Longrightarrow> list_all2 (ru_built w') k rs"
  using ru_built_mono by (blast intro: list_all2_mono)

lemma build_flag:
  assumes "good_alloc alloc" "flags_ok (m + (if target = None then 0 else 1)) w"
  shows "\<exists>i w'. use_build_required_use alloc target opt w = Inr (RequiredUse target i opt [], w') \<and>
    grown m (if target = None then 0 else 1) w w' \<and>
    (case target of None \<Rightarrow> i = 0 | Some name \<Rightarrow> names_flag w' i name)"
proof (cases target)
  case None
  with assms show ?thesis
    by (simp add: use_build_required_use_def use_get_global_def grown_refl)
next
  case (Some name)
  with assms have "flags_ok (Suc m) w" by simp
  from use_get_global_ok [OF this assms(1), of name] Some show ?thesis
    by (auto simp: use_build_required_use_def grown_def)
qed

lemma ru_node_ok:
  "good_alloc alloc \<Longrightarrow> no_empty t \<Longrightarrow> flags_ok (m + lookups t) w \<Longrightarrow>
    \<exists>rs w'. ru_node alloc t w = Inr (rs, w') \<and> list_all2 (ru_built w') (survivors t) rs \<and> grown m (lookups t) w w'"
  and ru_nodes_ok:
  "good_alloc alloc \<Longrightarrow> list_all no_empty k \<Longrightarrow> flags_ok (m + sum_list (map lookups k)) w \<Longrightarrow>
    \<exists>rs w'. ru_nodes alloc k w = Inr (rs, w') \<and> list_all2 (ru_built w') (surviving k) rs \<and>
      grown m (sum_list (map lookups k)) w w'"
proof (induction alloc t w and alloc k w arbitrary: m and m rule: ru_node_ru_nodes.induct)
  case (1 alloc target opt w)
  then have "flags_ok (m + (if target = None then 0 else 1)) w" by simp
  from build_flag [OF 1(1) this, of opt] show ?case by auto
next
  case (2 alloc target opt k w)
  let ?c = "(if target = None then 0 else 1) :: nat"
  have "flags_ok (m + ?c + sum_list (map lookups k)) w" "list_all no_empty k"
    using 2(3,4) by (simp_all add: ac_simps)
  from 2(1) [OF 2(2) this(2,1)] obtain rs w1 where k: "ru_nodes alloc k w = Inr (rs, w1)"
    "list_all2 (ru_built w1) (surviving k) rs" "grown (m + ?c) (sum_list (map lookups k)) w w1" by blast
  then have "flags_ok (m + ?c) w1" by (simp add: grown_def)
  from build_flag [OF 2(2) this, of opt] obtain i w2 where
    b: "use_build_required_use alloc target opt w1 = Inr (RequiredUse target i opt [], w2)" "grown m ?c w1 w2"
      "case target of None \<Rightarrow> i = 0 | Some name \<Rightarrow> names_flag w2 i name" by blast
  have "same_db w1 w2" using b(2) by (simp add: grown_def)
  moreover have "grown m (lookups (RNode (target, opt) k)) w w2"
    using grown_trans [OF k(3) b(2)] by (simp add: ac_simps)
  ultimately show ?case using k(1) b(1,3) ru_builts_mono [OF k(2)]
    by (cases target) (simp_all add: set_depend_def)
next
  case (3 alloc k w)
  then show ?case by simp
next
  case (4 alloc w)
  then show ?case by (simp add: grown_refl)
next
  case (5 alloc t w)
  then show ?case by simp
next
  case (6 alloc t u k w)
  let ?n = "sum_list (map lookups (u # k))"
  have f: "flags_ok ((m + ?n) + lookups t) w" and t: "no_empty t" "list_all no_empty (u # k)"
    using 6(4,5) by (simp_all add: ac_simps)
  from 6(1) [OF 6(3) t(1) f] obtain xs w1 where x: "ru_node alloc t w = Inr (xs, w1)"
    "list_all2 (ru_built w1) (survivors t) xs" "grown (m + ?n) (lookups t) w w1" by blast
  then have "flags_ok (m + ?n) w1" by (simp add: grown_def)
  from 6(2) [OF x(1) refl 6(3) t(2) this] obtain ys w2 where y: "ru_nodes alloc (u # k) w1 = Inr (ys, w2)"
    "list_all2 (ru_built w2) (surviving (u # k)) ys" "grown m ?n w1 w2" by blast
  obtain x' xs' s' ss where xs: "xs = x' # xs'" "survivors t = s' # ss" "ru_built w1 s' x'"
    using x(2) survivors_nonempty(1) [OF t(1)] by (cases xs; cases "survivors t") auto
  have "ru_built w2 s' x'" using ru_built_mono [OF xs(3)] y(3) by (simp add: grown_def)
  then have "ru_nodes alloc (t # u # k) w = Inr (x' # ys, w2)"
    "list_all2 (ru_built w2) (surviving (t # u # k)) (x' # ys)"
    using x(1) y(1,2) xs by (simp_all add: set_next_def)
  moreover have "grown m (sum_list (map lookups (t # u # k))) w w2"
    using grown_trans [OF x(3) y(3)] by simp
  ultimately show ?case by blast
qed

text \<open>The tokens for defaults are read but occur in no production.\<close>

lemma no_use_default:
  "required_use_expr ts k \<Longrightarrow> USE_DEFAULT d \<notin> set ts" "required_use_single ts t \<Longrightarrow> USE_DEFAULT d \<notin> set ts"
  by (induction rule: required_use_expr_required_use_single.inducts)
    (auto elim!: use_expr.cases depend_expr_sel.cases)

section \<open>Properties\<close>

text \<open>
  C17: what a parsed required-use expression means. If the tokens derive a tree, the parser
  returns nodes for the tree's flags and conditions, in order, each with the id of its own flag,
  parentheses removed; but of a parenthesised group that something follows only the first
  node is kept, the rest is lost. Ids that named a flag before still do, and packages and
  ebuilds are untouched.
\<close>

theorem required_use_built:
  assumes "good_alloc alloc" and "lexer input = Some lexemes"
    and "program_required_use (ru_tokens lexemes) k"
    and "flags_ok (m + sum_list (map lookups k)) w" and "db_ok (j + sum_list (map lookups k)) w"
  shows "\<exists>rs w'. required_use_parse lexer failed alloc input w = Inr (rs, w') \<and>
    list_all2 (ru_built w') (surviving k) rs \<and> flags_ok m w' \<and> db_ok j w' \<and> packages w' = packages w \<and>
    pkg_objs w' = pkg_objs w \<and> ebuild_objs w' = ebuild_objs w \<and>
    (\<forall>i name. names_flag w i name \<longrightarrow> names_flag w' i name)"
proof -
  have "list_all no_empty k"
    using assms(3) by (cases rule: program_required_use.cases) (auto simp: grammar_no_empty(1))
  from ru_nodes_ok [OF assms(1) this assms(4)] obtain rs w' where run: "ru_nodes alloc k w = Inr (rs, w')"
    "list_all2 (ru_built w') (surviving k) rs" and g: "grown m (sum_list (map lookups k)) w w'" by blast
  have "p_required_use (ru_tokens lexemes) = Some k" using assms(3) by (simp add: p_required_use_iff)
  with assms(2) run have "required_use_parse lexer failed alloc input w = Inr (rs, w')"
    by (simp add: required_use_parse_def)
  moreover have "db_ok j w'" using same_db_ok [OF assms(5)] g by (simp add: grown_def)
  ultimately show ?thesis using run(2) g by (auto simp: grown_def same_db_def)
qed

text \<open>The text \<open>( a b ) c\<close>: the flag \<open>b\<close> is lost.\<close>

definition lossy_lexemes :: "(ru_rule \<times> string) list" where
  "lossy_lexemes =
     [(U_chr (CHR ''(''), ''(''), (U_blank, '' ''), (U_identifier, ''a''), (U_blank, '' ''), (U_identifier, ''b''),
      (U_blank, '' ''), (U_chr (CHR '')''), '')''), (U_blank, '' ''), (U_identifier, ''c'')]"

theorem required_use_built_witness:
  "\<exists>rs w'. required_use_parse (\<lambda>_. Some lossy_lexemes) (\<lambda>_ w. w) lowest_free ''( a b ) c'' empty_world = Inr (rs, w') \<and>
     map ru_name rs = [Some ''a'', Some ''c''] \<and> db_ok 65533 w'"
proof -
  let ?k = "[RGroup [RLeaf (Some ''a'', USE_OP_ENABLE), RLeaf (Some ''b'', USE_OP_ENABLE)], RLeaf (Some ''c'', USE_OP_ENABLE)]"
  have "p_required_use (ru_tokens lossy_lexemes) = Some ?k"
    by (simp add: ru_tokens_def lossy_lexemes_def List.map_filter_def p_required_use_def numeral_eq_Suc)
  then have p: "program_required_use (ru_tokens lossy_lexemes) ?k" by (simp add: p_required_use_iff)
  have l: "(\<lambda>_ :: string. Some lossy_lexemes) ''( a b ) c'' = Some lossy_lexemes" by simp
  have room: "flags_ok (65533 + sum_list (map lookups ?k)) empty_world"
    "db_ok (65533 + sum_list (map lookups ?k)) empty_world"
    using empty_flags_ok empty_world_ok by simp_all
  from required_use_built [where lexer = "\<lambda>_. Some lossy_lexemes" and input = "''( a b ) c''" and failed = "\<lambda>_ w. w",
      OF lowest_free_good l p room]
  show ?thesis by (auto simp: list_all2_Cons1)
qed

end
