(* ===== verification/Ebuild_Metadata.thy ===== *)
theory Ebuild_Metadata
  imports Depend_Parse Required_Use
begin

text \<open>
  Reading the metadata of an ebuild with the parsers of its dependencies and its required use.
  What the loop over the lines of a cache file (\<open>Ebuilds\<close>) relies on is the locale
  \<open>flag_parser\<close>: a text that has trees is parsed into objects that stand for them, the table of
  use flags only grows, and what objects stand for survives that. Both parsers are instances.
\<close>

section \<open>What a parser promises\<close>

text \<open>The argument \<open>l\<close> is what is left open of a generated parser.\<close>

locale flag_parser =
  fixes parse :: "'l \<Rightarrow> (world \<Rightarrow> u64) \<Rightarrow> string \<Rightarrow> world \<Rightarrow> ('n list \<times> world) result"
    and trees :: "'l \<Rightarrow> lut \<Rightarrow> string \<Rightarrow> 't list option"
    and cost :: "'t \<Rightarrow> nat"
    and holds :: "world \<Rightarrow> 't list \<Rightarrow> 'n list \<Rightarrow> bool"
  assumes parse_ok: "good_alloc alloc \<Longrightarrow> trees l (packages w) s = Some k \<Longrightarrow>
      flags_ok (m + sum_list (map cost k)) w \<Longrightarrow>
      \<exists>ns w'. parse l alloc s w = Inr (ns, w') \<and> holds w' k ns \<and> grown m (sum_list (map cost k)) w w'"
    and holds_mono: "holds w k ns \<Longrightarrow> same_db w w' \<Longrightarrow> holds w' k ns"
    and holds_nonempty: "holds w k ns \<Longrightarrow> k \<noteq> [] \<Longrightarrow> ns \<noteq> []"

type_synonym depend_lexer = "string \<Rightarrow> (depend_rule \<times> string) list option"
type_synonym ru_lexer = "string \<Rightarrow> (ru_rule \<times> string) list option"
type_synonym leftover = "string \<Rightarrow> world \<Rightarrow> world"

definition depend_trees :: "depend_lexer \<times> leftover \<Rightarrow> lut \<Rightarrow> string \<Rightarrow> depend_tree list option" where
  "depend_trees l pkgs s =
     (case fst l s of
        None \<Rightarrow> None
      | Some lexemes \<Rightarrow> (case depend_tokens (Some pkgs) lexemes of Inl e \<Rightarrow> None | Inr ts \<Rightarrow> p_program ts))"

definition required_use_trees :: "ru_lexer \<times> leftover \<Rightarrow> lut \<Rightarrow> string \<Rightarrow> ru_tree list option" where
  "required_use_trees l pkgs s =
     (case fst l s of None \<Rightarrow> None | Some lexemes \<Rightarrow> p_required_use (ru_tokens lexemes))"

definition required_use_holds :: "world \<Rightarrow> ru_tree list \<Rightarrow> required_use list \<Rightarrow> bool" where
  "required_use_holds w k rs \<longleftrightarrow> list_all no_empty k \<and> list_all2 (ru_built w) (surviving k) rs"

interpretation dep: flag_parser
  "\<lambda>l alloc. depend_parse (fst l) (snd l) alloc" depend_trees conditions "\<lambda>w. list_all2 (built w)"
proof unfold_locales
  fix alloc l w s k m
  assume a: "good_alloc alloc" and t: "depend_trees l (packages w) s = Some k"
    and f: "flags_ok (m + sum_list (map conditions k)) w"
  from t have "depend_parse (fst l) (snd l) alloc s w = depend_nodes alloc k w"
    by (auto simp: depend_trees_def depend_parse_def split: option.splits sum.splits)
  with depend_nodes_ok [OF a f]
  show "\<exists>ns w'. depend_parse (fst l) (snd l) alloc s w = Inr (ns, w') \<and> list_all2 (built w') k ns \<and>
      grown m (sum_list (map conditions k)) w w'" by simp
qed (auto intro: builts_mono)

lemma no_empty_trees: "p_required_use ts = Some k \<Longrightarrow> list_all no_empty k"
  unfolding p_required_use_iff by (cases rule: program_required_use.cases) (auto simp: grammar_no_empty(1))

interpretation ru: flag_parser
  "\<lambda>l alloc. required_use_parse (fst l) (snd l) alloc" required_use_trees lookups required_use_holds
proof unfold_locales
  fix alloc l w s k m
  assume a: "good_alloc alloc" and t: "required_use_trees l (packages w) s = Some k"
    and f: "flags_ok (m + sum_list (map lookups k)) w"
  from t have "required_use_parse (fst l) (snd l) alloc s w = ru_nodes alloc k w" "list_all no_empty k"
    by (auto simp: required_use_trees_def required_use_parse_def no_empty_trees split: option.splits)
  with ru_nodes_ok [OF a _ f]
  show "\<exists>ns w'. required_use_parse (fst l) (snd l) alloc s w = Inr (ns, w') \<and> required_use_holds w' k ns \<and>
      grown m (sum_list (map lookups k)) w w'" by (simp add: required_use_holds_def)
next
  fix w k ns w'
  assume "required_use_holds w k ns" "same_db w w'"
  then show "required_use_holds w' k ns" using ru_builts_mono by (auto simp: required_use_holds_def)
next
  fix w k and ns :: "required_use list"
  assume "required_use_holds w k ns" "k \<noteq> []"
  then show "ns \<noteq> []" using survivors_nonempty(2) by (auto simp: required_use_holds_def)
qed

section \<open>Fields\<close>

definition dep_names :: "string set" where
  "dep_names = {''DEPEND'', ''RDEPEND'', ''PDEPEND'', ''BDEPEND''}"

definition dep_of :: "string \<Rightarrow> ebuild \<Rightarrow> dependency list" where
  "dep_of n e = (if n = ''DEPEND'' then depend e else if n = ''RDEPEND'' then rdepend e
     else if n = ''PDEPEND'' then pdepend e else bdepend e)"

definition set_dep :: "string \<Rightarrow> dependency list \<Rightarrow> ebuild \<Rightarrow> ebuild" where
  "set_dep n d e = (if n = ''DEPEND'' then e\<lparr>depend := d\<rparr> else if n = ''RDEPEND'' then e\<lparr>rdepend := d\<rparr>
     else if n = ''PDEPEND'' then e\<lparr>pdepend := d\<rparr> else e\<lparr>bdepend := d\<rparr>)"

lemma dep_of_set: "m \<in> dep_names \<Longrightarrow> n \<in> dep_names \<Longrightarrow> dep_of m (set_dep n d e) = (if m = n then d else dep_of m e)"
  by (auto simp: dep_names_def dep_of_def set_dep_def)

lemma set_dep_other [simp]:
  "required_use (set_dep n d e) = required_use e" "ebuild_slot (set_dep n d e) = ebuild_slot e"
  "ebuild_sub_slot (set_dep n d e) = ebuild_sub_slot e" "arch_keywords (set_dep n d e) = arch_keywords e"
  "iuse (set_dep n d e) = iuse e" "ebuild_key (set_dep n d e) = ebuild_key e"
  "package_key (set_dep n d e) = package_key e" "ebuild_version (set_dep n d e) = ebuild_version e"
  "package (set_dep n d e) = package e"
  by (simp_all add: set_dep_def)

lemma dep_of_other [simp]:
  "dep_of n (e\<lparr>required_use := r\<rparr>) = dep_of n e" "dep_of n (e\<lparr>ebuild_slot := s\<rparr>) = dep_of n e"
  "dep_of n (e\<lparr>ebuild_slot := s, ebuild_sub_slot := t\<rparr>) = dep_of n e"
  "dep_of n (e\<lparr>arch_keywords := kw\<rparr>) = dep_of n e" "dep_of n (e\<lparr>iuse := u\<rparr>) = dep_of n e"
  "dep_of n (e\<lparr>metadata_init := b\<rparr>) = dep_of n e"
  by (simp_all add: dep_of_def)

lemma dep_names_cases:
  assumes "n \<in> dep_names"
  obtains "n = ''DEPEND''" | "n = ''RDEPEND''" | "n = ''PDEPEND''" | "n = ''BDEPEND''"
  using assms unfolding dep_names_def by blast

lemma depend_field_other:
  assumes "n \<notin> dep_names"
  shows "depend_field dp n val 0 e w = Inr (0, e, w)"
proof -
  have "''DEPEND'' \<noteq> n" "''RDEPEND'' \<noteq> n" "''PDEPEND'' \<noteq> n" "''BDEPEND'' \<noteq> n"
    using assms unfolding dep_names_def by blast+
  then show ?thesis
    by (simp only: depend_field_def depend_setup_def find.simps prod.case if_False option.case)
qed

lemma depend_field_set:
  assumes "n \<in> dep_names" "dep_of n e = []" "dp val w = Inr (d, w')" "d \<noteq> []"
  shows "depend_field dp n val 0 e w = Inr (0, set_dep n d e, w')"
  using assms(1)
  by (cases rule: dep_names_cases)
    (use assms(2-4) in \<open>simp_all add: depend_field_def depend_setup_def dep_of_def set_dep_def\<close>)

text \<open>
  Lines that can be read: the values of the parsed fields have trees, a slot is not empty.
  \<open>D\<close> and \<open>R\<close> are the trees of a text.
\<close>

definition field_reads :: "(string \<Rightarrow> 't list option) \<Rightarrow> (string \<Rightarrow> 'r list option) \<Rightarrow> string \<times> string \<Rightarrow> bool" where
  "field_reads D R = (\<lambda>(n, val).
     if n \<in> dep_names then \<exists>k. D val = Some k \<and> k \<noteq> []
     else if n = ''REQUIRED_USE'' then \<exists>k. R val = Some k \<and> k \<noteq> []
     else if n = ''SLOT'' then strtok_all ''/'' val \<noteq> [] else True)"

definition field_cost ::
  "(string \<Rightarrow> 't list option) \<Rightarrow> (string \<Rightarrow> 'r list option) \<Rightarrow> ('t \<Rightarrow> nat) \<Rightarrow> ('r \<Rightarrow> nat) \<Rightarrow> string \<times> string \<Rightarrow> nat" where
  "field_cost D R dc rc = (\<lambda>(n, val).
     if n \<in> dep_names then sum_list (map dc (the (D val)))
     else if n = ''REQUIRED_USE'' then sum_list (map rc (the (R val))) else 0)"

text \<open>The slot and, behind a slash, the sub-slot.\<close>

definition slot_read :: "string option \<Rightarrow> ebuild \<Rightarrow> ebuild \<Rightarrow> bool" where
  "slot_read x e e' \<longleftrightarrow>
     (case x of
        None \<Rightarrow> ebuild_slot e' = ebuild_slot e \<and> ebuild_sub_slot e' = ebuild_sub_slot e
      | Some val \<Rightarrow>
          ebuild_slot e' = Some (strtok_all ''/'' val ! 0) \<and>
          ebuild_sub_slot e' = (if length (strtok_all ''/'' val) > 1 then Some (strtok_all ''/'' val ! 1) else ebuild_sub_slot e))"

text \<open>The ebuild \<open>e'\<close> has what the lines say, and for the rest what \<open>e\<close> has.\<close>

definition reads_as ::
  "(string \<Rightarrow> 't list option) \<Rightarrow> (string \<Rightarrow> 'r list option) \<Rightarrow> ('t list \<Rightarrow> dependency list \<Rightarrow> bool)
    \<Rightarrow> ('r list \<Rightarrow> required_use list \<Rightarrow> bool) \<Rightarrow> (string \<times> string) list \<Rightarrow> ebuild \<Rightarrow> ebuild \<Rightarrow> bool" where
  "reads_as D R dh rh fs e e' \<longleftrightarrow>
     (\<forall>n \<in> dep_names. case map_of fs n of None \<Rightarrow> dep_of n e' = dep_of n e | Some val \<Rightarrow> dh (the (D val)) (dep_of n e')) \<and>
     (case map_of fs ''REQUIRED_USE'' of
        None \<Rightarrow> required_use e' = required_use e | Some val \<Rightarrow> rh (the (R val)) (required_use e')) \<and>
     slot_read (map_of fs ''SLOT'') e e' \<and>
     arch_keywords e' = (case map_of fs ''KEYWORDS'' of None \<Rightarrow> arch_keywords e
      | Some val \<Rightarrow> fold keyword_token (strtok_all [CHR '' '', CHR 0x0A, CHR 0x09] val) (arch_keywords e)) \<and>
     iuse e' = (case map_of fs ''IUSE'' of None \<Rightarrow> iuse e | Some val \<Rightarrow> fold iuse_token (strtok_all '' '' val) (iuse e)) \<and>
     ebuild_key e' = ebuild_key e \<and> package_key e' = package_key e \<and> ebuild_version e' = ebuild_version e \<and>
     package e' = package e"

lemma reads_as_init: "reads_as D R dh rh fs e (e'\<lparr>metadata_init := b\<rparr>) = reads_as D R dh rh fs e e'"
  by (simp add: reads_as_def slot_read_def cong: option.case_cong if_cong)

lemma reads_as_Nil: "reads_as D R dh rh [] e e" by (simp add: reads_as_def slot_read_def)

lemma reads_as_Cons:
  assumes "reads_as D R dh rh [(n, val)] e e1" "reads_as D R dh' rh' fs e1 e'" "n \<notin> fst ` set fs"
    and "\<And>k ds. dh k ds \<Longrightarrow> dh' k ds" "\<And>k rs. rh k rs \<Longrightarrow> rh' k rs"
  shows "reads_as D R dh' rh' ((n, val) # fs) e e'"
proof -
  have none: "map_of fs n = None" using assms(3) by (simp add: map_of_eq_None_iff)
  note one = assms(1) [unfolded reads_as_def] and more = assms(2) [unfolded reads_as_def]
  note one1 = one [THEN conjunct1] and more1 = more [THEN conjunct1]
  note one2 = one [THEN conjunct2, THEN conjunct1] and more2 = more [THEN conjunct2, THEN conjunct1]
  note one3 = one [THEN conjunct2, THEN conjunct2, THEN conjunct1] and more3 = more [THEN conjunct2, THEN conjunct2, THEN conjunct1]
  note one4 = one [THEN conjunct2, THEN conjunct2, THEN conjunct2, THEN conjunct1] and more4 = more [THEN conjunct2, THEN conjunct2, THEN conjunct2, THEN conjunct1]
  note one5 = one [THEN conjunct2, THEN conjunct2, THEN conjunct2, THEN conjunct2, THEN conjunct1] and more5 = more [THEN conjunct2, THEN conjunct2, THEN conjunct2, THEN conjunct2, THEN conjunct1]
  note one6 = one [THEN conjunct2, THEN conjunct2, THEN conjunct2, THEN conjunct2, THEN conjunct2] and more6 = more [THEN conjunct2, THEN conjunct2, THEN conjunct2, THEN conjunct2, THEN conjunct2]
  have dep: "case map_of ((n, val) # fs) x of None \<Rightarrow> dep_of x e' = dep_of x e | Some val \<Rightarrow> dh' (the (D val)) (dep_of x e')"
    if "x \<in> dep_names" for x
  proof (cases "x = n")
    case True
    with that one1 have "dh (the (D val)) (dep_of x e1)" by auto
    moreover have "dep_of x e' = dep_of x e1" using more1 that none True by auto
    ultimately show ?thesis using True assms(4) by simp
  next
    case False
    with that one1 have "dep_of x e1 = dep_of x e" by auto
    moreover have "case map_of fs x of None \<Rightarrow> dep_of x e' = dep_of x e1 | Some val \<Rightarrow> dh' (the (D val)) (dep_of x e')"
      using more1 that by blast
    ultimately show ?thesis using False by (simp split: option.splits)
  qed
  have req: "case map_of ((n, val) # fs) ''REQUIRED_USE'' of
        None \<Rightarrow> required_use e' = required_use e | Some val \<Rightarrow> rh' (the (R val)) (required_use e')"
    using none one2 more2 assms(5) by (cases "n = ''REQUIRED_USE''") (simp_all split: option.splits)
  have slot: "slot_read (map_of ((n, val) # fs) ''SLOT'') e e'"
    using none one3 more3 by (cases "n = ''SLOT''") (simp_all add: slot_read_def split: option.splits)
  have kw: "arch_keywords e' = (case map_of ((n, val) # fs) ''KEYWORDS'' of None \<Rightarrow> arch_keywords e
      | Some val \<Rightarrow> fold keyword_token (strtok_all [CHR '' '', CHR 0x0A, CHR 0x09] val) (arch_keywords e))"
    using none one4 more4 by (cases "n = ''KEYWORDS''") (simp_all split: option.splits)
  have iu: "iuse e' = (case map_of ((n, val) # fs) ''IUSE'' of None \<Rightarrow> iuse e
      | Some val \<Rightarrow> fold iuse_token (strtok_all '' '' val) (iuse e))"
    using none one5 more5 by (cases "n = ''IUSE''") (simp_all split: option.splits)
  have frame: "ebuild_key e' = ebuild_key e" "package_key e' = package_key e" "ebuild_version e' = ebuild_version e"
    "package e' = package e"
    using one6 more6 by simp_all
  show ?thesis unfolding reads_as_def by (intro conjI ballI dep req slot kw iu frame)
qed

text \<open>One line.\<close>

lemma special_no_dep: "x \<in> dep_names \<Longrightarrow> x \<noteq> ''REQUIRED_USE'' \<and> x \<noteq> ''SLOT'' \<and> x \<noteq> ''KEYWORDS'' \<and> x \<noteq> ''IUSE''"
  by (elim dep_names_cases) simp_all

lemma reads_as_dep:
  assumes "n \<in> dep_names" "dh (the (D val)) d"
  shows "reads_as D R dh rh [(n, val)] e (set_dep n d e)"
proof -
  have "''REQUIRED_USE'' \<noteq> n" "''SLOT'' \<noteq> n" "''KEYWORDS'' \<noteq> n" "''IUSE'' \<noteq> n"
    using special_no_dep [OF assms(1)] by metis+
  then show ?thesis using assms by (simp add: reads_as_def slot_read_def dep_of_set)
qed

lemma reads_as_required_use:
  "rh (the (R val)) r \<Longrightarrow> reads_as D R dh rh [(''REQUIRED_USE'', val)] e (e\<lparr>required_use := r\<rparr>)"
  using special_no_dep by (fastforce simp: reads_as_def slot_read_def)

lemma reads_as_slot:
  assumes "strtok_all ''/'' val = tok # toks"
    and "e1 = (if toks = [] then e\<lparr>ebuild_slot := Some tok\<rparr> else e\<lparr>ebuild_slot := Some tok, ebuild_sub_slot := Some (hd toks)\<rparr>)"
  shows "reads_as D R dh rh [(''SLOT'', val)] e e1"
proof -
  have "map_of [(''SLOT'', val)] x = None" if "x \<in> dep_names" for x
    using special_no_dep [OF that] by simp
  then show ?thesis unfolding assms(2) by (cases toks) (simp_all add: reads_as_def slot_read_def assms(1))
qed

lemma reads_as_keywords: "reads_as D R dh rh [(''KEYWORDS'', val)] e (ebuild_keyword_init e val)"
  using special_no_dep by (fastforce simp: reads_as_def slot_read_def ebuild_keyword_init_def)

lemma reads_as_iuse: "reads_as D R dh rh [(''IUSE'', val)] e (ebuild_iuse_init e val)"
  using special_no_dep by (fastforce simp: reads_as_def slot_read_def ebuild_iuse_init_def)

lemma reads_as_other:
  assumes "n \<notin> dep_names" "n \<noteq> ''REQUIRED_USE''" "n \<noteq> ''SLOT''" "n \<noteq> ''KEYWORDS''" "n \<noteq> ''IUSE''"
  shows "reads_as D R dh rh [(n, val)] e e"
proof -
  have "map_of [(n, val)] x = None" if "x \<in> dep_names" for x
    using that assms(1) by auto
  moreover have "''REQUIRED_USE'' \<noteq> n" "''SLOT'' \<noteq> n" "''KEYWORDS'' \<noteq> n" "''IUSE'' \<noteq> n"
    using assms by metis+
  ultimately show ?thesis by (simp add: reads_as_def slot_read_def)
qed

section \<open>The loop over the lines\<close>

locale metadata_reader =
  dep: flag_parser dparse dtrees dcost dholds + ru: flag_parser rparse rtrees rcost rholds
  for dparse :: "'l \<Rightarrow> (world \<Rightarrow> u64) \<Rightarrow> depend_parser" and dtrees :: "'l \<Rightarrow> lut \<Rightarrow> string \<Rightarrow> 't list option"
    and dcost and dholds
    and rparse :: "'m \<Rightarrow> (world \<Rightarrow> u64) \<Rightarrow> required_use_parser" and rtrees :: "'m \<Rightarrow> lut \<Rightarrow> string \<Rightarrow> 'r list option"
    and rcost and rholds
begin

lemma dep_line_read:
  assumes alloc: "good_alloc alloc" and D: "D = dtrees l (packages w)" and R: "R = rtrees q (packages w)"
    and reads: "field_reads D R (n, val)" and room: "flags_ok (m + field_cost D R dcost rcost (n, val)) w"
    and name: "n \<in> dep_names" and unset: "dep_of n e = []"
  shows "\<exists>e1 w1. metadata_loop (dparse l alloc) (rparse q alloc) ((n, val) # fs) 0 e w =
      metadata_loop (dparse l alloc) (rparse q alloc) fs 0 e1 w1 \<and>
    grown m (field_cost D R dcost rcost (n, val)) w w1 \<and> reads_as D R (dholds w1) (rholds w1) [(n, val)] e e1 \<and>
    (\<forall>x \<in> dep_names - {n}. dep_of x e1 = dep_of x e)"
proof -
  from name reads obtain k where k: "D val = Some k" "k \<noteq> []" by (auto simp: field_reads_def)
  then have "flags_ok (m + sum_list (map dcost k)) w" using room name by (simp add: field_cost_def)
  from dep.parse_ok [OF alloc k(1) [unfolded D] this] obtain d w1 where
    d: "dparse l alloc val w = Inr (d, w1)" "dholds w1 k d" "grown m (sum_list (map dcost k)) w w1" by blast
  have "d \<noteq> []" using dep.holds_nonempty [OF d(2) k(2)] .
  from depend_field_set [where dp = "dparse l alloc", OF name unset d(1) this]
  have "metadata_loop (dparse l alloc) (rparse q alloc) ((n, val) # fs) 0 e w =
      metadata_loop (dparse l alloc) (rparse q alloc) fs 0 (set_dep n d e) w1"
    using special_no_dep [OF name] by simp
  moreover have "reads_as D R (dholds w1) (rholds w1) [(n, val)] e (set_dep n d e)"
    by (rule reads_as_dep [OF name]) (simp add: k(1) d(2))
  moreover have "\<forall>x \<in> dep_names - {n}. dep_of x (set_dep n d e) = dep_of x e" using name by (simp add: dep_of_set)
  ultimately show ?thesis using d(3) name k(1) by (auto simp: field_cost_def)
qed

lemma required_use_line_read:
  assumes alloc: "good_alloc alloc" and D: "D = dtrees l (packages w)" and R: "R = rtrees q (packages w)"
    and reads: "field_reads D R (n, val)" and room: "flags_ok (m + field_cost D R dcost rcost (n, val)) w"
    and name: "n = ''REQUIRED_USE''"
  shows "\<exists>e1 w1. metadata_loop (dparse l alloc) (rparse q alloc) ((n, val) # fs) 0 e w =
      metadata_loop (dparse l alloc) (rparse q alloc) fs 0 e1 w1 \<and>
    grown m (field_cost D R dcost rcost (n, val)) w w1 \<and> reads_as D R (dholds w1) (rholds w1) [(n, val)] e e1 \<and>
    (\<forall>x \<in> dep_names - {n}. dep_of x e1 = dep_of x e)"
proof -
  have other: "n \<notin> dep_names" using name by (simp add: dep_names_def)
  from name reads other obtain k where k: "R val = Some k" "k \<noteq> []" by (auto simp: field_reads_def)
  then have "flags_ok (m + sum_list (map rcost k)) w" using room other name by (simp add: field_cost_def)
  from ru.parse_ok [OF alloc k(1) [unfolded R] this] obtain r w1 where
    r: "rparse q alloc val w = Inr (r, w1)" "rholds w1 k r" "grown m (sum_list (map rcost k)) w w1" by blast
  have "r \<noteq> []" using ru.holds_nonempty [OF r(2) k(2)] .
  with r(1) name have "metadata_loop (dparse l alloc) (rparse q alloc) ((n, val) # fs) 0 e w =
      metadata_loop (dparse l alloc) (rparse q alloc) fs 0 (e\<lparr>required_use := r\<rparr>) w1"
    by (simp add: depend_field_other [OF other, unfolded name] Let_def)
  moreover have "reads_as D R (dholds w1) (rholds w1) [(n, val)] e (e\<lparr>required_use := r\<rparr>)"
    unfolding name by (rule reads_as_required_use) (simp add: k(1) r(2))
  moreover have "grown m (field_cost D R dcost rcost (n, val)) w w1" using r(3) other name k(1) by (simp add: field_cost_def)
  ultimately show ?thesis
    by (intro exI [of _ "e\<lparr>required_use := r\<rparr>"] exI [of _ w1]) (simp del: metadata_loop.simps)
qed

lemma line_read:
  assumes alloc: "good_alloc alloc" and D: "D = dtrees l (packages w)" and R: "R = rtrees q (packages w)"
    and reads: "field_reads D R (n, val)" and room: "flags_ok (m + field_cost D R dcost rcost (n, val)) w"
    and unset: "n \<in> dep_names \<Longrightarrow> dep_of n e = []"
  shows "\<exists>e1 w1. metadata_loop (dparse l alloc) (rparse q alloc) ((n, val) # fs) 0 e w =
      metadata_loop (dparse l alloc) (rparse q alloc) fs 0 e1 w1 \<and>
    grown m (field_cost D R dcost rcost (n, val)) w w1 \<and> reads_as D R (dholds w1) (rholds w1) [(n, val)] e e1 \<and>
    (\<forall>x \<in> dep_names - {n}. dep_of x e1 = dep_of x e)"
proof (cases "n \<in> dep_names")
  case True
  then show ?thesis using dep_line_read [OF alloc D R reads room True] unset by blast
next
  case False
  note step = depend_field_other [OF False]
  have id: "grown m (field_cost D R dcost rcost (n, val)) w w" if "n \<noteq> ''REQUIRED_USE''"
    using that False room by (simp add: field_cost_def grown_refl)
  consider "n = ''REQUIRED_USE''" | "n = ''SLOT''" | "n = ''KEYWORDS''" | "n = ''IUSE''"
    | "n \<noteq> ''REQUIRED_USE''" "n \<noteq> ''SLOT''" "n \<noteq> ''KEYWORDS''" "n \<noteq> ''IUSE''" by blast
  then show ?thesis
  proof cases
    case 1
    then show ?thesis by (rule required_use_line_read [OF alloc D R reads room])
  next
    case 2
    with reads False obtain tok toks where toks: "strtok_all ''/'' val = tok # toks"
      by (auto simp: field_reads_def neq_Nil_conv)
    define e1 where "e1 = (if toks = [] then e\<lparr>ebuild_slot := Some tok\<rparr>
      else e\<lparr>ebuild_slot := Some tok, ebuild_sub_slot := Some (hd toks)\<rparr>)"
    have "metadata_loop (dparse l alloc) (rparse q alloc) ((n, val) # fs) 0 e w =
        metadata_loop (dparse l alloc) (rparse q alloc) fs 0 e1 w"
      using 2 toks by (cases toks) (simp_all add: step [unfolded 2] e1_def)
    moreover have "reads_as D R (dholds w) (rholds w) [(n, val)] e e1"
      unfolding 2 by (rule reads_as_slot [OF toks]) (simp add: e1_def)
    moreover have "dep_of x e1 = dep_of x e" for x by (simp add: e1_def)
    ultimately show ?thesis using id 2 by auto
  next
    case 3
    have "metadata_loop (dparse l alloc) (rparse q alloc) ((n, val) # fs) 0 e w =
        metadata_loop (dparse l alloc) (rparse q alloc) fs 0 (ebuild_keyword_init e val) w"
      using 3 by (simp add: step [unfolded 3])
    moreover have "dep_of x (ebuild_keyword_init e val) = dep_of x e" for x by (simp add: ebuild_keyword_init_def)
    ultimately show ?thesis using id 3 reads_as_keywords
      by (intro exI [of _ "ebuild_keyword_init e val"] exI [of _ w]) (simp del: metadata_loop.simps)
  next
    case 4
    have "metadata_loop (dparse l alloc) (rparse q alloc) ((n, val) # fs) 0 e w =
        metadata_loop (dparse l alloc) (rparse q alloc) fs 0 (ebuild_iuse_init e val) w"
      using 4 by (simp add: step [unfolded 4])
    moreover have "dep_of x (ebuild_iuse_init e val) = dep_of x e" for x by (simp add: ebuild_iuse_init_def)
    ultimately show ?thesis using id 4 reads_as_iuse
      by (intro exI [of _ "ebuild_iuse_init e val"] exI [of _ w]) (simp del: metadata_loop.simps)
  next
    case 5
    then have "metadata_loop (dparse l alloc) (rparse q alloc) ((n, val) # fs) 0 e w =
        metadata_loop (dparse l alloc) (rparse q alloc) fs 0 e w"
      by (simp add: step)
    then show ?thesis using id [OF 5(1)] reads_as_other [OF False 5] by blast
  qed
qed

lemma lines_read:
  assumes alloc: "good_alloc alloc" and D: "D = dtrees l (packages w)" and R: "R = rtrees q (packages w)"
    and "\<forall>f \<in> set fs. field_reads D R f" "distinct (map fst fs)"
    and "flags_ok (m + sum_list (map (field_cost D R dcost rcost) fs)) w"
    and "\<forall>n \<in> dep_names. n \<in> fst ` set fs \<longrightarrow> dep_of n e = []"
  shows "\<exists>e' w'. metadata_loop (dparse l alloc) (rparse q alloc) fs 0 e w = Inr (0, e', w') \<and>
    grown m (sum_list (map (field_cost D R dcost rcost) fs)) w w' \<and> reads_as D R (dholds w') (rholds w') fs e e'"
  using assms
proof (induction fs arbitrary: e w)
  case Nil
  then show ?case by (auto simp: grown_refl intro: reads_as_Nil)
next
  case (Cons f fs)
  obtain n val where f: "f = (n, val)" by (cases f)
  let ?c = "sum_list (map (field_cost D R dcost rcost) fs)" and ?d = "field_cost D R dcost rcost (n, val)"
  have "flags_ok ((m + ?c) + ?d) w" "field_reads D R (n, val)" "n \<in> dep_names \<Longrightarrow> dep_of n e = []"
    using Cons.prems(4,6,7) by (simp_all add: f ac_simps)
  from line_read [OF alloc Cons.prems(2,3) this(2,1,3), of fs] obtain e1 w1 where
    step: "metadata_loop (dparse l alloc) (rparse q alloc) ((n, val) # fs) 0 e w =
        metadata_loop (dparse l alloc) (rparse q alloc) fs 0 e1 w1"
      "grown (m + ?c) ?d w w1" "reads_as D R (dholds w1) (rholds w1) [(n, val)] e e1"
      "\<forall>x \<in> dep_names - {n}. dep_of x e1 = dep_of x e" by blast
  have n: "n \<notin> fst ` set fs" using Cons.prems(5) by (simp add: f)
  have same: "packages w1 = packages w" using step(2) by (simp add: grown_def same_db_def)
  have D1: "D = dtrees l (packages w1)" "R = rtrees q (packages w1)" using Cons.prems(2,3) by (simp_all add: same)
  have fs: "\<forall>f \<in> set fs. field_reads D R f" "distinct (map fst fs)" "flags_ok (m + ?c) w1"
    using Cons.prems(4,5) step(2) by (simp_all add: f grown_def)
  have unset: "\<forall>x \<in> dep_names. x \<in> fst ` set fs \<longrightarrow> dep_of x e1 = []"
  proof (intro ballI impI)
    fix x
    assume x: "x \<in> dep_names" "x \<in> fst ` set fs"
    then have "dep_of x e = []" "x \<noteq> n" using Cons.prems(7) n by (auto simp: f)
    with step(4) x(1) show "dep_of x e1 = []" by simp
  qed
  from Cons.IH [OF alloc D1 fs unset] obtain e' w' where
    rest: "metadata_loop (dparse l alloc) (rparse q alloc) fs 0 e1 w1 = Inr (0, e', w')" "grown m ?c w1 w'"
      "reads_as D R (dholds w') (rholds w') fs e1 e'" by blast
  have sd: "same_db w1 w'" using rest(2) by (simp add: grown_def)
  have "reads_as D R (dholds w') (rholds w') ((n, val) # fs) e e'"
    by (rule reads_as_Cons [OF step(3) rest(3) n]) (use dep.holds_mono ru.holds_mono sd in blast)+
  moreover have "grown m (?d + ?c) w w'" using grown_trans [OF step(2) rest(2)] .
  ultimately show ?case
    by (intro exI [of _ e'] exI [of _ w']) (simp add: f step(1) rest(1) del: metadata_loop.simps)
qed

lemma file_read:
  assumes "good_alloc alloc" "D = dtrees l (packages w)" "R = rtrees q (packages w)"
    and "\<forall>f \<in> set fs. field_reads D R f \<and> field_ok f" "distinct (map fst fs)"
    and "flags_ok (m + sum_list (map (field_cost D R dcost rcost) fs)) w"
    and "\<forall>n \<in> dep_names. n \<in> fst ` set fs \<longrightarrow> dep_of n e = []"
  shows "\<exists>e' w'. PyEbuild_metadata_init (dparse l alloc) (rparse q alloc) (Some (concat (map metadata_line fs))) True e w =
      Inr (Return (e', w')) \<and> metadata_init e' \<and> grown m (sum_list (map (field_cost D R dcost rcost) fs)) w w' \<and>
    reads_as D R (dholds w') (rholds w') fs (e\<lparr>arch_keywords := (\<lambda>_. KEYWORD_NONE)\<rparr>) e'"
proof -
  have "metadata_fields (concat (map metadata_line fs) @ []) = fs @ metadata_fields []"
    by (rule metadata_fields_lines) (use assms(4) in blast)
  then have fields: "metadata_fields (concat (map metadata_line fs)) = fs"
    by (simp add: metadata_fields.simps [of "[]"])
  let ?e = "e\<lparr>arch_keywords := (\<lambda>_. KEYWORD_NONE)\<rparr>"
  have "\<forall>n \<in> dep_names. n \<in> fst ` set fs \<longrightarrow> dep_of n ?e = []" using assms(7) by simp
  from lines_read [OF assms(1-3) _ assms(5,6) this] assms(4) obtain e' w' where
    run: "metadata_loop (dparse l alloc) (rparse q alloc) fs 0 ?e w = Inr (0, e', w')"
      "grown m (sum_list (map (field_cost D R dcost rcost) fs)) w w'" "reads_as D R (dholds w') (rholds w') fs ?e e'"
    by blast
  let ?e' = "e'\<lparr>metadata_init := True\<rparr>"
  have "PyEbuild_metadata_init (dparse l alloc) (rparse q alloc) (Some (concat (map metadata_line fs))) True e w =
      Inr (Return (?e', w'))"
    using run(1) by (simp add: PyEbuild_metadata_init_def ebuild_metadata_init_def fields)
  moreover have "reads_as D R (dholds w') (rholds w') fs ?e ?e'"
    using run(3) by (simp only: reads_as_init)
  ultimately show ?thesis using run(2) by (intro exI [of _ ?e'] exI [of _ w']) simp
qed

end

interpretation metadata: metadata_reader
  "\<lambda>l alloc. depend_parse (fst l) (snd l) alloc" depend_trees conditions "\<lambda>w. list_all2 (built w)"
  "\<lambda>l alloc. required_use_parse (fst l) (snd l) alloc" required_use_trees lookups required_use_holds
  by unfold_locales

section \<open>Properties\<close>

text \<open>
  C2: the metadata of an ebuild. For a cache file of lines \<open>NAME=value\<close> with different names, in
  which the values of the dependency fields and of the required use have trees and the slot is
  not empty, reading succeeds in every order of the lines: each of the four dependency fields
  has the objects its value stands for, with conditions that name their flags in the table
  afterwards, the required use too (up to the groups it loses), slot, keywords and use flags are
  those of their lines, fields without a line stay as they were (keywords become
  \<^verbatim>\<open>KEYWORD_NONE\<close>), and neither the packages nor the version and the key of the ebuild change.
\<close>

theorem ebuild_metadata_read:
  assumes alloc: "good_alloc alloc"
    and D: "D = depend_trees (dlex, dfail) (packages w)" and R: "R = required_use_trees (rlex, rfail) (packages w)"
    and lines: "\<forall>f \<in> set fs. field_reads D R f \<and> field_ok f" "distinct (map fst fs)"
    and room: "flags_ok (m + sum_list (map (field_cost D R conditions lookups) fs)) w"
      "db_ok (j + sum_list (map (field_cost D R conditions lookups) fs)) w"
    and unset: "\<forall>n \<in> dep_names. n \<in> fst ` set fs \<longrightarrow> dep_of n e = []"
  shows "\<exists>e' w'. PyEbuild_metadata_init (depend_parse dlex dfail alloc) (required_use_parse rlex rfail alloc)
        (Some (concat (map metadata_line fs))) True e w = Inr (Return (e', w')) \<and>
    metadata_init e' \<and> flags_ok m w' \<and> db_ok j w' \<and> same_db w w' \<and>
    reads_as D R (list_all2 (built w')) (required_use_holds w') fs (e\<lparr>arch_keywords := (\<lambda>_. KEYWORD_NONE)\<rparr>) e'"
proof -
  from metadata.file_read [where l = "(dlex, dfail)" and q = "(rlex, rfail)", OF alloc D R lines room(1) unset]
  obtain e' w' where run: "PyEbuild_metadata_init (depend_parse dlex dfail alloc) (required_use_parse rlex rfail alloc)
        (Some (concat (map metadata_line fs))) True e w = Inr (Return (e', w'))" "metadata_init e'"
    and g: "grown m (sum_list (map (field_cost D R conditions lookups) fs)) w w'"
    and r: "reads_as D R (list_all2 (built w')) (required_use_holds w') fs (e\<lparr>arch_keywords := (\<lambda>_. KEYWORD_NONE)\<rparr>) e'"
    by auto
  have "db_ok j w'" using same_db_ok [OF room(2)] g by (simp add: grown_def)
  with run r g show ?thesis by (auto simp: grown_def)
qed

text \<open>A file with a run-time dependency on \<open>ssl? ( a/b ) a/c\<close>, a slot and keywords.\<close>

theorem ebuild_metadata_read_witness:
  "\<exists>e w ds. PyEbuild_metadata_init (depend_parse sample_lexer (\<lambda>_ w. w) lowest_free)
        (required_use_parse (\<lambda>_. Some lossy_lexemes) (\<lambda>_ w. w) lowest_free)
        (Some ''RDEPEND=ssl? ( a/b ) a/c\<newline>SLOT=0/2\<newline>KEYWORDS=~x86\<newline>REQUIRED_USE=( a b ) c\<newline>'') True ebuild_new empty_world =
      Inr (Return (e, w)) \<and> rdepend e = ds \<and> length ds = 2 \<and> names_flag w (use_condition (hd ds)) ''ssl'' \<and>
    ebuild_sub_slot e = Some ''2'' \<and> arch_keywords e ARCH_X86 = KEYWORD_UNSTABLE \<and>
    map ru_name (required_use e) = [Some ''a'', Some ''c'']"
proof -
  let ?fs = "[(''RDEPEND'', ''ssl? ( a/b ) a/c''), (''SLOT'', ''0/2''), (''KEYWORDS'', ''~x86''), (''REQUIRED_USE'', ''( a b ) c'')]"
  let ?D = "depend_trees (sample_lexer, \<lambda>_ w. w) (packages empty_world)"
  let ?R = "required_use_trees (\<lambda>_. Some lossy_lexemes, \<lambda>_ w. w) (packages empty_world)"
  from sample_tokens [of "packages empty_world"] obtain a b where
    ts: "depend_tokens (Some (packages empty_world)) sample_lexemes =
      Inr [USESELECT (Some ''ssl'') USE_OP_ENABLE, Chr (CHR ''(''), ATOM a, Chr (CHR '')''), ATOM b]"
    and p: "p_program [USESELECT (Some ''ssl'') USE_OP_ENABLE, Chr (CHR ''(''), ATOM a, Chr (CHR '')''), ATOM b] =
      Some [Select (Some ''ssl'') USE_OP_ENABLE [Leaf a], Leaf b]" by blast
  have lexer: "sample_lexer ''ssl? ( a/b ) a/c'' = Some sample_lexemes"
    by (simp add: sample_lexer_def sample_lexemes_def)
  have D: "?D ''ssl? ( a/b ) a/c'' = Some [Select (Some ''ssl'') USE_OP_ENABLE [Leaf a], Leaf b]"
    by (simp add: depend_trees_def lexer ts p)
  let ?k = "[RGroup [RLeaf (Some ''a'', USE_OP_ENABLE), RLeaf (Some ''b'', USE_OP_ENABLE)], RLeaf (Some ''c'', USE_OP_ENABLE)]"
  have R: "?R ''( a b ) c'' = Some ?k"
    by (simp add: required_use_trees_def ru_tokens_def lossy_lexemes_def List.map_filter_def p_required_use_def numeral_eq_Suc)
  have slot: "strtok_all ''/'' ''0/2'' = [''0'', ''2'']"
    using strtok_all_token [of "''/''" "''0''" "''/2''"] by (simp add: token_def strtok_all.simps)
  have kw: "strtok_all [CHR '' '', CHR 0x0A, CHR 0x09] ''~x86'' = [''~x86'']"
    by (simp add: strtok_all.simps)
  have lines: "\<forall>f \<in> set ?fs. field_reads ?D ?R f \<and> field_ok f"
    by (simp add: field_reads_def D R slot dep_names_def field_ok_def)
  have names: "distinct (map fst ?fs)" by simp
  have cost: "sum_list (map (field_cost ?D ?R conditions lookups) ?fs) = 4"
    by (simp add: field_cost_def D R dep_names_def)
  have room: "flags_ok (65532 + sum_list (map (field_cost ?D ?R conditions lookups) ?fs)) empty_world"
    "db_ok (65532 + sum_list (map (field_cost ?D ?R conditions lookups) ?fs)) empty_world"
    unfolding cost using empty_flags_ok empty_world_ok by simp_all
  have unset: "\<forall>n \<in> dep_names. n \<in> fst ` set ?fs \<longrightarrow> dep_of n ebuild_new = []"
    by (simp add: dep_of_def ebuild_new_def)
  from ebuild_metadata_read [OF lowest_free_good refl refl lines names room unset]
  obtain e w where run: "PyEbuild_metadata_init (depend_parse sample_lexer (\<lambda>_ w. w) lowest_free)
        (required_use_parse (\<lambda>_. Some lossy_lexemes) (\<lambda>_ w. w) lowest_free)
        (Some (concat (map metadata_line ?fs))) True ebuild_new empty_world = Inr (Return (e, w))"
    and r: "reads_as ?D ?R (list_all2 (built w)) (required_use_holds w) ?fs (ebuild_new\<lparr>arch_keywords := (\<lambda>_. KEYWORD_NONE)\<rparr>) e"
    by blast
  have "list_all2 (built w) [Select (Some ''ssl'') USE_OP_ENABLE [Leaf a], Leaf b] (rdepend e)"
    using r D by (simp add: reads_as_def dep_names_def dep_of_def)
  moreover have "required_use_holds w ?k (required_use e)" using r R by (simp add: reads_as_def)
  then have "map ru_name (required_use e) = [Some ''a'', Some ''c'']"
    by (auto simp: required_use_holds_def list_all2_Cons1)
  moreover have "ebuild_sub_slot e = Some ''2''" using r slot by (simp add: reads_as_def slot_read_def)
  moreover have "arch_keywords e ARCH_X86 = KEYWORD_UNSTABLE"
    using r kw by (simp add: reads_as_def keyword_token_apply keyword_value_def keyword_names_def keyword_target_def
        arch_name_def keyword_links_def char_at_def)
  ultimately show ?thesis using run by (auto simp: list_all2_Cons1 metadata_line_def)
qed

end
