(* ===== verification/Constructors.thy ===== *)
theory Constructors
  imports Required_Use Depend_Parse
begin

text \<open>
  The constructors that Python calls: \<^verbatim>\<open>tp_new\<close>, and \<^verbatim>\<open>tp_init\<close> with its arguments. The
  arguments are read by \<^verbatim>\<open>PyArg_ParseTupleAndKeywords\<close>, of which the code uses the formats
  \<open>s\<close> (a text), \<open>z\<close> (a text or None) and \<open>p\<close> (the truth of any object). Texts with a zero
  character, which Python refuses, are left out.
\<close>

section \<open>Arguments\<close>

datatype py_obj =
    P_None
  | P_Str string
  | P_Bool bool
  | P_Int int
  | P_Ebuild u64
  | P_Other

fun truth :: "py_obj \<Rightarrow> bool" where
  "truth P_None \<longleftrightarrow> False"
| "truth (P_Str t) \<longleftrightarrow> t \<noteq> []"
| "truth (P_Bool b) \<longleftrightarrow> b"
| "truth (P_Int n) \<longleftrightarrow> n \<noteq> 0"
| "truth _ \<longleftrightarrow> True"

datatype c_arg = A_str "string option" | A_int int

definition convert_arg :: "char \<Rightarrow> py_obj \<Rightarrow> c_arg option" where
  "convert_arg c x =
     (if c = CHR ''p'' then Some (A_int (if truth x then 1 else 0))
      else case x of
          P_Str t \<Rightarrow> Some (A_str (Some t))
        | P_None \<Rightarrow> if c = CHR ''z'' then Some (A_str None) else None
        | _ \<Rightarrow> None)"

type_synonym call_args = "py_obj list \<times> (string \<times> py_obj) list"

text \<open>
  The parameters are filled by position, then by name; an argument too many, a parameter
  given twice or not at all, an unknown name and a value of the wrong type are errors.
\<close>

fun fill_args :: "(string \<times> char) list \<Rightarrow> py_obj list \<Rightarrow> (string \<times> py_obj) list \<Rightarrow> c_arg list option" where
  "fill_args [] args kwds = (if args = [] then Some [] else None)"
| "fill_args ((name, c) # ps) (x # args) kwds =
     (if name \<in> fst ` set kwds then None
      else case convert_arg c x of None \<Rightarrow> None | Some y \<Rightarrow> map_option ((#) y) (fill_args ps args kwds))"
| "fill_args ((name, c) # ps) [] kwds =
     (case map_of kwds name of
        None \<Rightarrow> None
      | Some x \<Rightarrow> (case convert_arg c x of None \<Rightarrow> None | Some y \<Rightarrow> map_option ((#) y) (fill_args ps [] kwds)))"

definition PyArg_ParseTupleAndKeywords :: "(string \<times> char) list \<Rightarrow> call_args \<Rightarrow> c_arg list py" where
  "PyArg_ParseTupleAndKeywords ps = (\<lambda>(args, kwds).
     if \<exists>name \<in> fst ` set kwds. name \<notin> fst ` set ps then Raise TypeError
     else case fill_args ps args kwds of None \<Rightarrow> Raise TypeError | Some ys \<Rightarrow> Return ys)"

text \<open>A constructor with one text parameter.\<close>

definition with_text :: "string \<Rightarrow> call_args \<Rightarrow> (string \<Rightarrow> 'a py result) \<Rightarrow> 'a py result" where
  "with_text name args body =
     (case PyArg_ParseTupleAndKeywords [(name, CHR ''s'')] args of
        Return [A_str (Some t)] \<Rightarrow> body t
      | Return _ \<Rightarrow> Inl Uninitialised
      | Raise e \<Rightarrow> Inr (Raise e))"

section \<open>Use flags and required use\<close>

text \<open>
  \<^verbatim>\<open>UseFlag\<close>: the byte \<^verbatim>\<open>state\<close> and the seven bytes of padding behind it. The format \<open>p\<close>
  writes an \<^verbatim>\<open>int\<close> to the byte and the three bytes that follow.
\<close>

record use_flag_struct =
  uf_name :: "string option"
  uf_state :: u8
  uf_padding :: "u8 list"

definition PyUseFlag_new :: "u8 list \<Rightarrow> use_flag_struct" where
  "PyUseFlag_new padding = \<lparr>uf_name = None, uf_state = 0, uf_padding = padding\<rparr>"

definition use_flag_init :: "use_flag_struct \<Rightarrow> string \<Rightarrow> u8 \<Rightarrow> use_flag_struct" where
  "use_flag_init self name state = self\<lparr>uf_name := Some name, uf_state := state\<rparr>"

definition write_int :: "int \<Rightarrow> use_flag_struct \<Rightarrow> use_flag_struct" where
  "write_int n self =
     (let bytes = le_bytes 4 (word_of_int n)
      in self\<lparr>uf_state := hd bytes, uf_padding := tl bytes @ drop 3 (uf_padding self)\<rparr>)"

definition PyUseFlag_init :: "use_flag_struct \<Rightarrow> call_args \<Rightarrow> use_flag_struct py result" where
  "PyUseFlag_init self args =
     (case PyArg_ParseTupleAndKeywords [(''name'', CHR ''s''), (''state'', CHR ''p'')] args of
        Return [A_str (Some name), A_int n] \<Rightarrow> Inr (Return ((write_int n self)\<lparr>uf_name := Some name\<rparr>))
      | Return _ \<Rightarrow> Inl Uninitialised
      | Raise e \<Rightarrow> Inr (Raise e))"

definition PyRequiredUse_new :: required_use where
  "PyRequiredUse_new = RequiredUse None 0 USE_OP_DISABLE []"

text \<open>The constructor of required use: \<^verbatim>\<open>PyRequiredUse_init\<close> of \<open>Required_Use\<close> with its arguments.\<close>

definition RequiredUse_call ::
  "(string \<Rightarrow> (ru_rule \<times> string) list option) \<Rightarrow> (string \<Rightarrow> world \<Rightarrow> world) \<Rightarrow> (world \<Rightarrow> u64)
    \<Rightarrow> call_args \<Rightarrow> world \<Rightarrow> (required_use list \<times> world) py result" where
  "RequiredUse_call lexer failed alloc args w =
     with_text ''required_use_string'' args (\<lambda>t. PyRequiredUse_init lexer failed alloc t w)"

section \<open>Atoms and their parts\<close>

text \<open>\<^verbatim>\<open>PyAtomFlag_new\<close>: the name is NULL.\<close>

record flag_struct =
  fs_name :: "string option"
  fs_option :: atom_use_t
  fs_def :: atom_use_default_t

definition PyAtomFlag_new :: flag_struct where
  "PyAtomFlag_new = \<lparr>fs_name = None, fs_option = ATOM_USE_DISABLE, fs_def = ATOM_DEFAULT_NONE\<rparr>"

definition atomflag_init :: "flag_struct \<Rightarrow> string \<Rightarrow> flag_struct" where
  "atomflag_init self name =
     (let self = self\<lparr>fs_option := ATOM_USE_ENABLE\<rparr>;
          (self, name) =
            (if char_at name 0 = CHR ''-'' then (self\<lparr>fs_option := ATOM_USE_DISABLE\<rparr>, drop 1 name) else (self, name))
      in self\<lparr>fs_name := Some name, fs_def := ATOM_DEFAULT_NONE\<rparr>)"

definition PyAtomFlag_init :: "flag_struct \<Rightarrow> call_args \<Rightarrow> flag_struct py result" where
  "PyAtomFlag_init self args = with_text ''expr'' args (\<lambda>t. Inr (Return (atomflag_init self t)))"

definition PyAtomVersion_init :: "atom_version \<Rightarrow> call_args \<Rightarrow> atom_version py result" where
  "PyAtomVersion_init self args = with_text ''version_string'' args (\<lambda>t. Inr (Return (atom_version_init self t)))"

definition Atom_call ::
  "(string \<Rightarrow> (depend_rule \<times> string) list option) \<Rightarrow> (string \<Rightarrow> world \<Rightarrow> world) \<Rightarrow> (world \<Rightarrow> u64)
    \<Rightarrow> call_args \<Rightarrow> world \<Rightarrow> (atom \<times> world) py result" where
  "Atom_call lexer failed alloc args w = with_text ''atom_string'' args (\<lambda>t. PyAtom_init lexer failed alloc t w)"

text \<open>The method \<^verbatim>\<open>matches\<close> of an atom takes one ebuild.\<close>

definition PyAtom_matches :: "atom \<Rightarrow> py_obj list \<Rightarrow> world \<Rightarrow> bool py result" where
  "PyAtom_matches self args w =
     (case args of
        [P_Ebuild e] \<Rightarrow>
          bindR (the_ebuild w e) (\<lambda>ebuild. bindR (atom_matches self ebuild) (\<lambda>r. Inr (Return (r \<noteq> 0))))
      | _ \<Rightarrow> Inr (Raise TypeError))"

section \<open>Dependencies, packages and ebuilds\<close>

definition PyDependency_new :: dependency where
  "PyDependency_new = Dependency USE_OP_DISABLE 0 None []"

definition Dependency_call ::
  "(string \<Rightarrow> (depend_rule \<times> string) list option) \<Rightarrow> (string \<Rightarrow> world \<Rightarrow> world) \<Rightarrow> (world \<Rightarrow> u64)
    \<Rightarrow> call_args \<Rightarrow> world \<Rightarrow> (dependency list \<times> world) py result" where
  "Dependency_call lexer failed alloc args w =
     with_text ''depend_string'' args (\<lambda>t. PyDependency_init lexer failed alloc t w)"

text \<open>The constructor of a package: \<^verbatim>\<open>PyPackage_init\<close> with its argument.\<close>

definition Package_call :: "package \<Rightarrow> call_args \<Rightarrow> package py result" where
  "Package_call self args = with_text ''key'' args (\<lambda>t. map_sum id Return (PyPackage_init self t))"

text \<open>Only the repository of the ebuild file may be None.\<close>

definition PyEbuild_init ::
  "(string \<Rightarrow> string option) \<Rightarrow> lut option \<Rightarrow> ebuild \<Rightarrow> call_args \<Rightarrow> (py_exc option \<times> ebuild) result" where
  "PyEbuild_init realpath pkgs self args =
     (case PyArg_ParseTupleAndKeywords
         [(''ebuild_repo'', CHR ''z''), (''cache_repo'', CHR ''s''), (''category'', CHR ''s''),
          (''name_and_version'', CHR ''s'')] args of
        Return [A_str repo, A_str (Some cache), A_str (Some cat), A_str (Some name)] \<Rightarrow>
          ebuild_init realpath pkgs self repo cache cat name
      | Return _ \<Rightarrow> Inl Uninitialised
      | Raise e \<Rightarrow> Inr (Some e, self))"

text \<open>\<^verbatim>\<open>PyPortage_new\<close>: both tables are NULL until \<^verbatim>\<open>PyPortage_init\<close>.\<close>

definition PyPortage_new :: "lut option \<times> lut option" where
  "PyPortage_new = (None, None)"

section \<open>Calls\<close>

text \<open>
  Every way to write a call: the first arguments by position, the others by name in any order.
\<close>

definition call_of_values :: "(string \<times> char) list \<Rightarrow> py_obj list \<Rightarrow> call_args \<Rightarrow> bool" where
  "call_of_values ps xs = (\<lambda>(args, kwds).
     length xs = length ps \<and> args = take (length args) xs \<and> distinct (map fst kwds) \<and>
     set kwds = set (zip (map fst (drop (length args) ps)) (drop (length args) xs)))"

lemma fill_named:
  assumes "length xs = length ps" "list_all2 (\<lambda>(p, x) y. convert_arg (snd p) x = Some y) (zip ps xs) ys"
    and "\<And>p x. (p, x) \<in> set (zip ps xs) \<Longrightarrow> map_of kwds (fst p) = Some x"
  shows "fill_args ps [] kwds = Some ys"
  using assms
proof (induction ps arbitrary: xs ys)
  case Nil
  then show ?case by simp
next
  case (Cons p ps)
  obtain name c where p: "p = (name, c)" by (cases p)
  from Cons.prems(1) obtain x xs' where xs: "xs = x # xs'" by (cases xs) simp_all
  with Cons.prems(2) p obtain y ys' where ys: "ys = y # ys'" "convert_arg c x = Some y"
      "list_all2 (\<lambda>(p, x) y. convert_arg (snd p) x = Some y) (zip ps xs') ys'"
    by (auto simp: list_all2_Cons1)
  have "map_of kwds name = Some x" using Cons.prems(3) [of p x] xs p by simp
  moreover have "fill_args ps [] kwds = Some ys'"
    using Cons.IH [of xs' ys'] Cons.prems(1,3) ys(3) xs by simp
  ultimately show ?case using p ys by simp
qed

lemma fill_call:
  assumes "length xs = length ps" "list_all2 (\<lambda>(p, x) y. convert_arg (snd p) x = Some y) (zip ps xs) ys"
    and "distinct (map fst ps)" "i \<le> length ps" "distinct (map fst kwds)"
    and "set kwds = set (zip (map fst (drop i ps)) (drop i xs))"
  shows "fill_args ps (take i xs) kwds = Some ys"
  using assms
proof (induction i arbitrary: ps xs ys)
  case 0
  have "map_of kwds (fst p) = Some x" if "(p, x) \<in> set (zip ps xs)" for p x
  proof -
    have "(fst p, x) \<in> set kwds" using that 0 by (auto simp: zip_map1 intro!: rev_image_eqI)
    with 0 show ?thesis by simp
  qed
  with 0 show ?case by (simp add: fill_named)
next
  case (Suc i)
  then obtain p ps' x xs' where ps: "ps = p # ps'" "xs = x # xs'" by (cases ps; cases xs) simp_all
  obtain name c where p: "p = (name, c)" by (cases p)
  from Suc.prems(2) ps p obtain y ys' where ys: "ys = y # ys'" "convert_arg c x = Some y"
      "list_all2 (\<lambda>(p, x) y. convert_arg (snd p) x = Some y) (zip ps' xs') ys'"
    by (auto simp: list_all2_Cons1)
  have "fst ` set kwds \<subseteq> fst ` set (drop i ps')"
    using Suc.prems(6) ps by (auto dest!: set_zip_leftD)
  then have "name \<notin> fst ` set kwds"
    using Suc.prems(3) ps p by (auto dest!: in_set_dropD)
  moreover have "fill_args ps' (take i xs') kwds = Some ys'"
    using Suc.IH [of xs' ps' ys'] Suc.prems ps ys(3) by simp
  ultimately show ?case using ps p ys by simp
qed

lemma call_parsed:
  assumes "call_of_values ps xs call" "distinct (map fst ps)"
    and "list_all2 (\<lambda>(p, x) y. convert_arg (snd p) x = Some y) (zip ps xs) ys"
  shows "PyArg_ParseTupleAndKeywords ps call = Return ys"
proof -
  obtain args kwds where call: "call = (args, kwds)" by (cases call)
  note c = assms(1) [unfolded call_of_values_def call prod.case]
  have "length args \<le> length ps" using c by (metis length_take min.absorb_iff2 min.commute nat_le_linear)
  with c assms(2,3) have "fill_args ps args kwds = Some ys"
    using fill_call [of xs ps ys "length args" kwds] by simp
  moreover have "name \<in> fst ` set ps" if "name \<in> fst ` set kwds" for name
    using that c by (auto dest!: set_zip_leftD in_set_dropD)
  ultimately show ?thesis by (auto simp: PyArg_ParseTupleAndKeywords_def call)
qed

text \<open>The constructors never see arguments they do not expect.\<close>

lemma convert_s: "convert_arg (CHR ''s'') x = Some y \<longleftrightarrow> (\<exists>t. x = P_Str t \<and> y = A_str (Some t))"
  by (cases x) (auto simp: convert_arg_def)

lemma convert_z: "convert_arg (CHR ''z'') x = Some y \<longleftrightarrow> (x = P_None \<and> y = A_str None) \<or> (\<exists>t. x = P_Str t \<and> y = A_str (Some t))"
  by (cases x) (auto simp: convert_arg_def)

lemma convert_p: "convert_arg (CHR ''p'') x = Some y \<longleftrightarrow> y = A_int (if truth x then 1 else 0)"
  by (auto simp: convert_arg_def)

lemma fill_args_typed:
  "fill_args ps args kwds = Some ys \<Longrightarrow> list_all2 (\<lambda>p y. \<exists>x. convert_arg (snd p) x = Some y) ps ys"
proof (induction ps args kwds arbitrary: ys rule: fill_args.induct)
  case (1 args kwds)
  then show ?case by (simp split: if_splits)
next
  case (2 name c ps x args kwds)
  then show ?case by (auto split: if_splits option.splits)
next
  case (3 name c ps kwds)
  then show ?case by (auto split: option.splits)
qed

lemma parse_typed:
  "PyArg_ParseTupleAndKeywords ps call = Return ys \<Longrightarrow> list_all2 (\<lambda>p y. \<exists>x. convert_arg (snd p) x = Some y) ps ys"
  by (cases call) (auto simp: PyArg_ParseTupleAndKeywords_def dest: fill_args_typed split: if_splits option.splits)

lemma parse_error: "PyArg_ParseTupleAndKeywords ps call = Raise e \<Longrightarrow> e = TypeError"
  by (cases call) (auto simp: PyArg_ParseTupleAndKeywords_def split: if_splits option.splits)

lemma with_text_cases:
  "(\<exists>t. with_text name call body = body t) \<or> with_text name call body = Inr (Raise TypeError)"
proof (cases "PyArg_ParseTupleAndKeywords [(name, CHR ''s'')] call")
  case (Raise e)
  with parse_error [OF Raise] show ?thesis by (simp add: with_text_def)
next
  case (Return ys)
  from parse_typed [OF Return] obtain t where "ys = [A_str (Some t)]"
    by (auto simp: list_all2_Cons1 convert_s)
  with Return show ?thesis by (auto simp: with_text_def)
qed

text \<open>What an object is after its constructor has run.\<close>

lemma use_flag_called:
  assumes "call_of_values [(''name'', CHR ''s''), (''state'', CHR ''p'')] [P_Str name, x] call"
    and "length (uf_padding self) = 7"
  shows "\<exists>flag. PyUseFlag_init self call = Inr (Return flag) \<and> uf_name flag = Some name \<and>
    uf_state flag = (if truth x then 1 else 0) \<and> length (uf_padding flag) = 7 \<and>
    drop 3 (uf_padding flag) = drop 3 (uf_padding self)"
proof -
  have "PyArg_ParseTupleAndKeywords [(''name'', CHR ''s''), (''state'', CHR ''p'')] call =
      Return [A_str (Some name), A_int (if truth x then 1 else 0)]"
    by (rule call_parsed [OF assms(1)]) (simp_all add: convert_arg_def)
  then show ?thesis
    using assms(2) by (simp add: PyUseFlag_init_def write_int_def le_bytes_def Let_def upt_rec)
qed

lemma atom_flag_called:
  "fs_name (atomflag_init self t) = Some (flag_name (atomflag_build t))"
  "fs_option (atomflag_init self t) = flag_option (atomflag_build t)"
  "fs_def (atomflag_init self t) = flag_def (atomflag_build t)"
  by (simp_all add: atomflag_init_def atomflag_build_def)

lemma ebuild_called:
  assumes "call_of_values [(''ebuild_repo'', CHR ''z''), (''cache_repo'', CHR ''s''), (''category'', CHR ''s''),
      (''name_and_version'', CHR ''s'')] [case repo of None \<Rightarrow> P_None | Some r \<Rightarrow> P_Str r, P_Str cache, P_Str cat, P_Str name] call"
  shows "PyEbuild_init realpath pkgs self call = ebuild_init realpath pkgs self repo cache cat name"
proof -
  have "PyArg_ParseTupleAndKeywords [(''ebuild_repo'', CHR ''z''), (''cache_repo'', CHR ''s''), (''category'', CHR ''s''),
      (''name_and_version'', CHR ''s'')] call = Return [A_str repo, A_str (Some cache), A_str (Some cat), A_str (Some name)]"
    by (rule call_parsed [OF assms]) (auto simp: convert_arg_def split: option.splits)
  then show ?thesis by (simp add: PyEbuild_init_def)
qed

end
