(* ===== verification/Python_Types.thy ===== *)
theory Python_Types
  imports Objects
begin

text \<open>
  The Python side of the objects: the tables \<^verbatim>\<open>PyMemberDef\<close>, \<^verbatim>\<open>PyMethodDef\<close> and
  \<^verbatim>\<open>PyTypeObject\<close> of \<^verbatim>\<open>cportage\<close> and \<^verbatim>\<open>network\<close>, the fields of the C structs that they
  point into, and what Python makes of them: reading an attribute (\<^verbatim>\<open>PyMember_GetOne\<close>),
  whether an object can be iterated or hashed. Functions are their names.
\<close>

section \<open>Fields\<close>

datatype c_type = C_str | C_obj | C_u64 | C_enum | C_u8

datatype c_value =
    V_str "string option"
  | V_obj u64
  | V_u64 u64
  | V_enum int
  | V_u8 u8

fun value_of :: "c_type \<Rightarrow> c_value \<Rightarrow> bool" where
  "value_of C_str (V_str s) \<longleftrightarrow> True"
| "value_of C_obj (V_obj a) \<longleftrightarrow> True"
| "value_of C_u64 (V_u64 n) \<longleftrightarrow> True"
| "value_of C_enum (V_enum n) \<longleftrightarrow> True"
| "value_of C_u8 (V_u8 b) \<longleftrightarrow> True"
| "value_of _ _ \<longleftrightarrow> False"

type_synonym fields_t = "(string \<times> c_type) list"

definition Atom_fields :: fields_t where
  "Atom_fields =
     [(''id'', C_u64), (''id_flag'', C_enum), (''cached_hash'', C_u64), (''category'', C_str), (''name'', C_str),
      (''key'', C_str), (''repository'', C_str), (''slot'', C_str), (''sub_slot'', C_str), (''slot_opts'', C_enum),
      (''range'', C_enum), (''blocks'', C_enum), (''version'', C_obj), (''useflags'', C_obj)]"

definition AtomVersion_fields :: fields_t where
  "AtomVersion_fields =
     [(''full_version'', C_str), (''v'', C_str), (''prefix'', C_enum), (''revision'', C_enum), (''next'', C_obj)]"

definition AtomFlag_fields :: fields_t where
  "AtomFlag_fields =
     [(''name'', C_str), (''option'', C_enum), (''def'', C_enum), (''next'', C_obj), (''PyIterator_self__'', C_obj)]"

definition Dependency_fields :: fields_t where
  "Dependency_fields =
     [(''use_operator'', C_enum), (''use_condition'', C_u64), (''atom'', C_obj), (''children'', C_obj),
      (''next'', C_obj), (''PyIterator_self__'', C_obj)]"

definition UseFlag_fields :: fields_t where
  "UseFlag_fields = [(''name'', C_str), (''state'', C_u8)]"

definition RequiredUse_fields :: fields_t where
  "RequiredUse_fields =
     [(''name'', C_str), (''global_flag'', C_u64), (''option'', C_enum), (''depend'', C_obj), (''next'', C_obj),
      (''PyIterator_self__'', C_obj)]"

definition Package_fields :: fields_t where
  "Package_fields =
     [(''package_id'', C_u64), (''category'', C_str), (''name'', C_str), (''key'', C_str), (''ebuilds'', C_obj)]"

definition Ebuild_fields :: fields_t where
  "Ebuild_fields =
     [(''name'', C_str), (''category'', C_str), (''package_id'', C_u64), (''package_lut_flags'', C_enum),
      (''slot'', C_str), (''sub_slot'', C_str), (''key'', C_str), (''package_key'', C_str), (''ebuild'', C_str),
      (''path'', C_str), (''cache_file'', C_str), (''depend'', C_obj), (''bdepend'', C_obj), (''rdepend'', C_obj),
      (''pdepend'', C_obj), (''iuse'', C_obj), (''required_use'', C_obj), (''src_uri'', C_obj), (''version'', C_obj),
      (''metadata_init'', C_u8), (''package'', C_obj), (''older'', C_obj)]"

section \<open>Members\<close>

datatype member_type = T_STRING | T_OBJECT | T_INT | T_ULONGLONG | T_BOOL

text \<open>The name in Python, how the memory is read, the field, and whether it is read-only.\<close>

type_synonym member = "string \<times> member_type \<times> string \<times> bool"

definition PyAtomFlag_members :: "member list" where
  "PyAtomFlag_members =
     [(''name'', T_STRING, ''name'', True), (''option'', T_INT, ''option'', True),
      (''default'', T_INT, ''option'', True), (''next'', T_OBJECT, ''next'', True)]"

definition PyAtomVersion_members :: "member list" where
  "PyAtomVersion_members = [(''raw'', T_STRING, ''full_version'', True)]"

definition PyAtom_members :: "member list" where
  "PyAtom_members =
     [(''id'', T_ULONGLONG, ''id'', True), (''category'', T_STRING, ''category'', True),
      (''name'', T_STRING, ''name'', True), (''key'', T_STRING, ''key'', True),
      (''repository'', T_STRING, ''repository'', True), (''slot'', T_STRING, ''slot'', True),
      (''sub_slot'', T_STRING, ''sub_slot'', True), (''slot_opts'', T_INT, ''slot_opts'', True),
      (''range'', T_INT, ''range'', True), (''blocks'', T_INT, ''blocks'', True),
      (''version'', T_OBJECT, ''version'', True), (''useflags'', T_OBJECT, ''useflags'', True)]"

definition PyDependency_members :: "member list" where
  "PyDependency_members =
     [(''use_operator'', T_INT, ''use_operator'', True), (''use_condition'', T_ULONGLONG, ''use_condition'', True),
      (''atom'', T_OBJECT, ''atom'', True), (''children'', T_OBJECT, ''children'', True),
      (''next'', T_OBJECT, ''next'', True)]"

definition PyUseFlag_members :: "member list" where
  "PyUseFlag_members = [(''name'', T_STRING, ''name'', True), (''state'', T_BOOL, ''state'', False)]"

definition PyRequiredUse_members :: "member list" where
  "PyRequiredUse_members =
     [(''name'', T_STRING, ''name'', True), (''depend'', T_OBJECT, ''depend'', True),
      (''next'', T_OBJECT, ''next'', True), (''id'', T_ULONGLONG, ''global_flag'', True),
      (''operator'', T_INT, ''option'', True)]"

definition PyPackage_members :: "member list" where
  "PyPackage_members =
     [(''package_id'', T_ULONGLONG, ''package_id'', True), (''category'', T_STRING, ''category'', True),
      (''name'', T_STRING, ''name'', True), (''key'', T_OBJECT, ''key'', True),
      (''ebuilds'', T_OBJECT, ''ebuilds'', True)]"

definition PyEbuild_members :: "member list" where
  "PyEbuild_members =
     [(''name'', T_STRING, ''name'', True), (''category'', T_STRING, ''category'', True),
      (''slot'', T_STRING, ''slot'', True), (''sub_slot'', T_STRING, ''sub_slot'', True),
      (''package_key'', T_STRING, ''package_key'', True), (''key'', T_STRING, ''key'', True),
      (''ebuild'', T_STRING, ''ebuild'', True), (''path'', T_STRING, ''path'', True),
      (''cache_file'', T_STRING, ''cache_file'', True), (''depend'', T_OBJECT, ''depend'', True),
      (''bdepend'', T_OBJECT, ''bdepend'', True), (''rdepend'', T_OBJECT, ''rdepend'', True),
      (''pdepend'', T_OBJECT, ''pdepend'', True), (''required_use'', T_OBJECT, ''required_use'', True),
      (''src_uri'', T_OBJECT, ''src_uri'', True), (''version'', T_OBJECT, ''version'', True),
      (''iuse'', T_OBJECT, ''iuse'', True), (''metadata_init'', T_BOOL, ''metadata_init'', True),
      (''package'', T_OBJECT, ''package'', True), (''older'', T_OBJECT, ''older'', True)]"

section \<open>Methods and types\<close>

datatype calling = METH_FASTCALL | METH_KEYWORDS

type_synonym methods_t = "(string \<times> string \<times> calling) list"

definition PyAtom_methods :: methods_t where
  "PyAtom_methods = [(''matches'', ''PyAtom_matches'', METH_FASTCALL)]"

definition PyPackage_methods :: methods_t where
  "PyPackage_methods =
     [(''add_ebuild'', ''PyPackage_add_ebuild'', METH_FASTCALL), (''match_atom'', ''PyPackage_match_atom'', METH_FASTCALL)]"

definition PyEbuild_methods :: methods_t where
  "PyEbuild_methods = [(''initialize_metadata'', ''PyEbuild_metadata_init'', METH_FASTCALL)]"

definition PyPortage_methods :: methods_t where
  "PyPortage_methods =
     [(''get_package'', ''PyPortage_get_package'', METH_FASTCALL),
      (''add_package'', ''PyPortage_add_package'', METH_FASTCALL),
      (''match_atom'', ''PyPortage_match_atom'', METH_FASTCALL),
      (''get_use_flag'', ''PyPortage_get_use_flag'', METH_FASTCALL),
      (''initialize_repository'', ''PyPortage_initialize_repository'', METH_FASTCALL)]"

definition TCPServer_methods :: methods_t where
  "TCPServer_methods =
     [(''set_request_callback'', ''TCPServer_set_request_callback'', METH_KEYWORDS),
      (''start'', ''TCPServer_start'', METH_KEYWORDS), (''stop'', ''TCPServer_stop'', METH_KEYWORDS)]"

datatype slot =
    Tp_new | Tp_init | Tp_dealloc | Tp_repr | Tp_iter | Tp_iternext | Tp_richcompare | Tp_hash

record py_type =
  tp_name :: string
  tp_members :: "member list"
  tp_methods :: methods_t
  tp_slots :: "(slot \<times> string) list"

definition PyAtomFlagType :: py_type where
  "PyAtomFlagType =
     \<lparr>tp_name = ''autogentoo_cportage.AtomFlag'', tp_members = PyAtomFlag_members, tp_methods = [],
      tp_slots = [(Tp_new, ''PyAtomFlag_new''), (Tp_init, ''PyAtomFlag_init''), (Tp_dealloc, ''PyAtomFlag_dealloc''),
        (Tp_repr, ''PyAtomFlag_repr''), (Tp_iter, ''PyAtomFlag_iter''), (Tp_iternext, ''PyAtomFlag_next'')]\<rparr>"

definition PyAtomVersionType :: py_type where
  "PyAtomVersionType =
     \<lparr>tp_name = ''autogentoo_cportage.AtomVersion'', tp_members = PyAtomVersion_members, tp_methods = [],
      tp_slots = [(Tp_new, ''PyAtomVersion_new''), (Tp_init, ''PyAtomVersion_init''),
        (Tp_dealloc, ''PyAtomVersion_dealloc''), (Tp_repr, ''PyAtomVersion_repr''),
        (Tp_richcompare, ''PyAtomVersion_richcompare'')]\<rparr>"

definition PyAtomType :: py_type where
  "PyAtomType =
     \<lparr>tp_name = ''autogentoo_cportage.Atom'', tp_members = PyAtom_members, tp_methods = PyAtom_methods,
      tp_slots = [(Tp_new, ''PyAtom_new''), (Tp_init, ''PyAtom_init''), (Tp_dealloc, ''PyAtom_dealloc''),
        (Tp_repr, ''PyAtom_repr''), (Tp_richcompare, ''PyAtom_richcompare''), (Tp_hash, ''PyAtom_hash'')]\<rparr>"

definition PyDependencyType :: py_type where
  "PyDependencyType =
     \<lparr>tp_name = ''autogentoo_cportage.Dependency'', tp_members = PyDependency_members, tp_methods = [],
      tp_slots = [(Tp_new, ''PyDependency_new''), (Tp_init, ''PyDependency_init''),
        (Tp_dealloc, ''PyDependency_dealloc''), (Tp_iter, ''PyDependency_iter''), (Tp_iternext, ''PyDependency_next'')]\<rparr>"

definition PyUseFlagType :: py_type where
  "PyUseFlagType =
     \<lparr>tp_name = ''autogentoo_cportage.UseFlag'', tp_members = PyUseFlag_members, tp_methods = [],
      tp_slots = [(Tp_new, ''PyUseFlag_new''), (Tp_init, ''PyUseFlag_init''), (Tp_dealloc, ''PyUseFlag_dealloc'')]\<rparr>"

definition PyRequiredUseType :: py_type where
  "PyRequiredUseType =
     \<lparr>tp_name = ''autogentoo_cportage.RequiredUse'', tp_members = PyRequiredUse_members, tp_methods = [],
      tp_slots = [(Tp_new, ''PyRequiredUse_new''), (Tp_init, ''PyRequiredUse_init''),
        (Tp_dealloc, ''PyRequiredUse_dealloc''), (Tp_iter, ''PyRequiredUse_iter''), (Tp_iternext, ''PyRequiredUse_next'')]\<rparr>"

definition PyPackageType :: py_type where
  "PyPackageType =
     \<lparr>tp_name = ''autogentoo_cportage.Package'', tp_members = PyPackage_members, tp_methods = PyPackage_methods,
      tp_slots = [(Tp_new, ''PyPackage_new''), (Tp_init, ''PyPackage_init''), (Tp_dealloc, ''PyPackage_dealloc''),
        (Tp_iter, ''PyPackage_iter'')]\<rparr>"

definition PyEbuildType :: py_type where
  "PyEbuildType =
     \<lparr>tp_name = ''autogentoo_cportage.Ebuild'', tp_members = PyEbuild_members, tp_methods = PyEbuild_methods,
      tp_slots = [(Tp_new, ''PyEbuild_new''), (Tp_init, ''PyEbuild_init''), (Tp_dealloc, ''PyEbuild_dealloc''),
        (Tp_iternext, ''PyEbuild_next'')]\<rparr>"

definition PyPortageType :: py_type where
  "PyPortageType =
     \<lparr>tp_name = ''autogentoo_cportage.Portage'', tp_members = [], tp_methods = PyPortage_methods,
      tp_slots = [(Tp_new, ''PyPortage_new''), (Tp_init, ''PyPortage_init''), (Tp_dealloc, ''PyPortage_dealloc'')]\<rparr>"

definition TCPServerType :: py_type where
  "TCPServerType =
     \<lparr>tp_name = ''autogentoo_network.TCPServer'', tp_members = [], tp_methods = TCPServer_methods,
      tp_slots = [(Tp_new, ''TCPServer_new''), (Tp_init, ''TCPServer_init''), (Tp_dealloc, ''TCPServer_dealloc''),
        (Tp_repr, ''TCPServer_repr'')]\<rparr>"

section \<open>What Python does with them\<close>

datatype py_value = Py_None | Py_Str string | Py_Ref u64 | Py_Int int | Py_Bool bool

text \<open>Memory read in another way than it was written is a wild pointer or a wrong value.\<close>

fun PyMember_GetOne :: "member_type \<Rightarrow> c_value \<Rightarrow> py_value result" where
  "PyMember_GetOne T_STRING (V_str s) = Inr (case s of None \<Rightarrow> Py_None | Some t \<Rightarrow> Py_Str t)"
| "PyMember_GetOne T_OBJECT (V_obj a) = Inr (if a = 0 then Py_None else Py_Ref a)"
| "PyMember_GetOne T_OBJECT (V_str None) = Inr Py_None"
| "PyMember_GetOne T_INT (V_enum n) = Inr (Py_Int n)"
| "PyMember_GetOne T_ULONGLONG (V_u64 n) = Inr (Py_Int (uint n))"
| "PyMember_GetOne T_BOOL (V_u8 b) = Inr (Py_Bool (b \<noteq> 0))"
| "PyMember_GetOne _ _ = Inl Wild_Pointer"

text \<open>An attribute of an object: \<open>None\<close> when the type has no such member.\<close>

definition getattr :: "py_type \<Rightarrow> (string \<rightharpoonup> c_value) \<Rightarrow> string \<Rightarrow> py_value result option" where
  "getattr T obj name =
     (case find (\<lambda>(n, _). n = name) (tp_members T) of
        None \<Rightarrow> None
      | Some (_, ty, field, _) \<Rightarrow>
          Some (case obj field of None \<Rightarrow> Inl Out_Of_Bounds | Some x \<Rightarrow> PyMember_GetOne ty x))"

text \<open>
  \<^verbatim>\<open>iter(x)\<close> needs \<^verbatim>\<open>tp_iter\<close>; a type that compares but does not hash is not hashable, one
  that does neither has the identity.
\<close>

definition has_slot :: "py_type \<Rightarrow> slot \<Rightarrow> bool" where
  "has_slot T s \<longleftrightarrow> s \<in> fst ` set (tp_slots T)"

definition iterable :: "py_type \<Rightarrow> bool" where "iterable T \<longleftrightarrow> has_slot T Tp_iter"

definition hashable :: "py_type \<Rightarrow> bool" where
  "hashable T \<longleftrightarrow> has_slot T Tp_hash \<or> \<not> has_slot T Tp_richcompare"

text \<open>Every type with the struct it describes, and the attributes of the stub file \<^verbatim>\<open>autogentoo_cportage.pyi\<close>.\<close>

definition portage_types :: "(py_type \<times> fields_t) list" where
  "portage_types =
     [(PyAtomFlagType, AtomFlag_fields), (PyAtomVersionType, AtomVersion_fields), (PyAtomType, Atom_fields),
      (PyDependencyType, Dependency_fields), (PyUseFlagType, UseFlag_fields),
      (PyRequiredUseType, RequiredUse_fields), (PyPackageType, Package_fields), (PyEbuildType, Ebuild_fields)]"

definition stub_attributes :: "(py_type \<times> string list) list" where
  "stub_attributes =
     [(PyAtomVersionType, [''raw'']), (PyUseFlagType, [''name'', ''state'']),
      (PyAtomFlagType, [''name'', ''option'', ''default'', ''next'']),
      (PyPackageType, [''package_id'', ''category'', ''name'', ''key'', ''ebuilds'']),
      (PyRequiredUseType, [''name'', ''id'', ''operator'', ''depend'', ''next'']),
      (PyAtomType, [''id'', ''category'', ''name'', ''key'', ''repository'', ''slot'', ''sub_slot'', ''slot_opts'',
        ''range'', ''blocks'', ''revision'', ''version'', ''useflags'']),
      (PyDependencyType, [''use_operator'', ''use_condition'', ''atom'', ''children'', ''next'']),
      (PyEbuildType, [''name'', ''category'', ''slot'', ''sub_slot'', ''package_key'', ''key'', ''ebuild'', ''path'',
        ''cache_file'', ''iuse'', ''depend'', ''bdepend'', ''rdepend'', ''pdepend'', ''required_use'', ''src_uri'',
        ''version'', ''metadata_init'', ''package'', ''older'', ''newer''])]"

definition object_of :: "fields_t \<Rightarrow> (string \<rightharpoonup> c_value) \<Rightarrow> bool" where
  "object_of fs obj \<longleftrightarrow> (\<forall>(f, ty) \<in> set fs. \<exists>x. obj f = Some x \<and> value_of ty x)"

lemmas type_defs =
  PyAtomFlagType_def PyAtomVersionType_def PyAtomType_def PyDependencyType_def PyUseFlagType_def
  PyRequiredUseType_def PyPackageType_def PyEbuildType_def
  PyAtomFlag_members_def PyAtomVersion_members_def PyAtom_members_def PyDependency_members_def
  PyUseFlag_members_def PyRequiredUse_members_def PyPackage_members_def PyEbuild_members_def

lemmas field_defs =
  Atom_fields_def AtomVersion_fields_def AtomFlag_fields_def Dependency_fields_def UseFlag_fields_def
  RequiredUse_fields_def Package_fields_def Ebuild_fields_def

text \<open>How a field of a type is read without failing.\<close>

fun reads :: "member_type \<Rightarrow> c_type \<Rightarrow> bool" where
  "reads T_STRING C_str \<longleftrightarrow> True"
| "reads T_OBJECT C_obj \<longleftrightarrow> True"
| "reads T_INT C_enum \<longleftrightarrow> True"
| "reads T_ULONGLONG C_u64 \<longleftrightarrow> True"
| "reads T_BOOL C_u8 \<longleftrightarrow> True"
| "reads _ _ \<longleftrightarrow> False"

definition member_ok :: "fields_t \<Rightarrow> member \<Rightarrow> bool" where
  "member_ok fs = (\<lambda>(_, ty, field, _). \<exists>c. map_of fs field = Some c \<and> reads ty c)"

lemma reads_result: "reads ty c \<Longrightarrow> value_of c x \<Longrightarrow> \<exists>y. PyMember_GetOne ty x = Inr y"
  by (cases ty; cases c; cases x) auto

lemma member_ok_getattr:
  assumes "find (\<lambda>(n, _). n = name) (tp_members T) = Some m" "member_ok fs m" "object_of fs obj"
  shows "\<exists>y. getattr T obj name = Some (Inr y)"
proof -
  obtain n ty field ro where m: "m = (n, ty, field, ro)" by (cases m)
  with assms(2) obtain c where c: "map_of fs field = Some c" "reads ty c" by (auto simp: member_ok_def)
  then obtain x where "obj field = Some x" "value_of c x"
    using assms(3) map_of_SomeD unfolding object_of_def by fastforce
  with reads_result [OF c(2)] assms(1) m show ?thesis by (fastforce simp: getattr_def)
qed

lemma members_ok:
  "\<forall>(T, fs) \<in> set portage_types. \<forall>m \<in> set (tp_members T).
     member_ok fs m \<or> (T = PyPackageType \<and> m = (''key'', T_OBJECT, ''key'', True))"
  by (simp add: portage_types_def member_ok_def type_defs field_defs)

lemma find_map_of: "map_of ms name = Some x \<Longrightarrow> find (\<lambda>(n, _). n = name) ms = Some (name, x)"
  by (induction ms) (auto split: if_splits)

text \<open>The stub file declares two attributes that no type has.\<close>

lemma stub_missing:
  "map (\<lambda>(T, names). (tp_name T, filter (\<lambda>n. n \<notin> fst ` set (tp_members T)) names)) stub_attributes =
     map (\<lambda>(T, _). (tp_name T, if tp_name T = ''autogentoo_cportage.Atom'' then [''revision'']
        else if tp_name T = ''autogentoo_cportage.Ebuild'' then [''newer''] else [])) stub_attributes"
  by (simp add: stub_attributes_def type_defs)

text \<open>Which objects Python can iterate and hash: no \<^verbatim>\<open>iter()\<close> of an ebuild, no hash of a version.\<close>

lemma protocols:
  "map tp_name (filter iterable (map fst portage_types)) =
     [''autogentoo_cportage.AtomFlag'', ''autogentoo_cportage.Dependency'', ''autogentoo_cportage.RequiredUse'',
      ''autogentoo_cportage.Package'']"
  "map tp_name (filter (\<lambda>T. \<not> hashable T) (map fst portage_types)) = [''autogentoo_cportage.AtomVersion'']"
  "map tp_name (filter (\<lambda>T. has_slot T Tp_iternext \<and> \<not> iterable T) (map fst portage_types)) =
     [''autogentoo_cportage.Ebuild'']"
  by (simp_all add: portage_types_def iterable_def hashable_def has_slot_def type_defs)

section \<open>Properties\<close>

text \<open>
  C33: reading attributes from Python. Of every object whose fields have the types of its
  struct, every attribute of its type can be read, except the key of a package, which is a string
  that is read as an object: unless it is NULL, the interpreter follows a wild pointer. The
  attribute \<open>default\<close> of a use flag reads the field \<open>option\<close>.
\<close>

theorem attributes_read:
  assumes "(T, fs) \<in> set portage_types" and "object_of fs obj"
    and "map_of (tp_members T) name = Some (ty, field, ro)"
  shows "(if T = PyPackageType \<and> name = ''key''
       then \<forall>s. obj ''key'' = Some (V_str (Some s)) \<longrightarrow> getattr T obj name = Some (Inl Wild_Pointer)
       else \<exists>y. getattr T obj name = Some (Inr y)) \<and>
     (T = PyAtomFlagType \<and> name = ''default'' \<longrightarrow> getattr T obj name = getattr T obj ''option'')"
proof -
  have f: "find (\<lambda>(n, _). n = name) (tp_members T) = Some (name, ty, field, ro)"
    using assms(3) by (rule find_map_of)
  then have "(name, ty, field, ro) \<in> set (tp_members T)" using find_SomeD by fast
  then have ok: "member_ok fs (name, ty, field, ro) \<or> (T = PyPackageType \<and> name = ''key'')"
    using members_ok assms(1) by blast
  have "\<exists>y. getattr T obj name = Some (Inr y)" if "\<not> (T = PyPackageType \<and> name = ''key'')"
    using ok that member_ok_getattr [OF f _ assms(2)] by blast
  moreover have "getattr PyPackageType obj ''key'' = Some (Inl Wild_Pointer)" if "obj ''key'' = Some (V_str (Some s))" for s
    using that by (simp add: getattr_def type_defs)
  moreover have "getattr PyAtomFlagType obj ''default'' = getattr PyAtomFlagType obj ''option''"
    by (simp add: getattr_def type_defs)
  ultimately show ?thesis by auto
qed

theorem attributes_read_witness:
  "getattr PyPackageType [''package_id'' \<mapsto> V_u64 7, ''category'' \<mapsto> V_str (Some ''a''), ''name'' \<mapsto> V_str None,
      ''key'' \<mapsto> V_str (Some ''a/b''), ''ebuilds'' \<mapsto> V_obj 0] ''key'' = Some (Inl Wild_Pointer)"
proof -
  let ?obj = "[''package_id'' \<mapsto> V_u64 7, ''category'' \<mapsto> V_str (Some ''a''), ''name'' \<mapsto> V_str None,
      ''key'' \<mapsto> V_str (Some ''a/b''), ''ebuilds'' \<mapsto> V_obj 0]"
  have 1: "(PyPackageType, Package_fields) \<in> set portage_types" by (simp add: portage_types_def)
  have 2: "object_of Package_fields ?obj" by (simp add: object_of_def Package_fields_def)
  have 3: "map_of (tp_members PyPackageType) ''key'' = Some (T_OBJECT, ''key'', True)"
    by (simp add: PyPackageType_def PyPackage_members_def)
  from attributes_read [OF 1 2 3] show ?thesis by simp
qed

end
