(* ===== verification/Cportage_Module.thy ===== *)
theory Cportage_Module
  imports Python_Types
begin

text \<open>
  The Python modules: creation with their types and constants (\<^verbatim>\<open>PyInit_autogentoo_cportage\<close>
  of \<^verbatim>\<open>cportage/module.c\<close>, \<^verbatim>\<open>PyInit_autogentoo_network\<close> of \<^verbatim>\<open>network/module.c\<close>), and
  the global \<^verbatim>\<open>Portage\<close> object with its reference count. Whether the interpreter can create
  the module, ready a type or enter an object into the module is an argument.
\<close>

section \<open>Registration\<close>

text \<open>
  What registration changes: the reference counts of the type objects, the entries of the
  module (a type or a number), and whether the parsers are initialised.
\<close>

datatype entry = Type_Entry string | Int_Entry int

record registry =
  type_refs :: "string \<Rightarrow> int"
  entries :: "(string \<times> entry) list"
  parsers_ready :: bool

definition add_type_ref :: "int \<Rightarrow> string \<Rightarrow> registry \<Rightarrow> registry" where
  "add_type_ref c t s = s\<lparr>type_refs := (type_refs s)(t := type_refs s t + c)\<rparr>"

text \<open>\<^verbatim>\<open>PyModule_AddObject\<close> takes the reference over when it succeeds, and only then.\<close>

fun add_objects :: "(string \<Rightarrow> bool) \<Rightarrow> (string \<times> string) list \<Rightarrow> registry \<Rightarrow> bool \<times> registry" where
  "add_objects adds [] s = (True, s)"
| "add_objects adds ((name, t) # ts) s =
     (if adds name then add_objects adds ts (s\<lparr>entries := entries s @ [(name, Type_Entry t)]\<rparr>) else (False, s))"

text \<open>The end of a module drops the types it has entered and calls \<^verbatim>\<open>m_free\<close>.\<close>

definition drop_module :: "(registry \<Rightarrow> registry) \<Rightarrow> registry \<Rightarrow> registry" where
  "drop_module m_free s =
     fold (\<lambda>(_, x) s. case x of Type_Entry t \<Rightarrow> add_type_ref (- 1) t s | Int_Entry _ \<Rightarrow> s) (entries s)
       (m_free (s\<lparr>entries := []\<rparr>))"

definition cportage_types :: "(string \<times> string) list" where
  "cportage_types =
     [(''Dependency'', ''PyDependencyType''), (''AtomVersion'', ''PyAtomVersionType''),
      (''AtomFlag'', ''PyAtomFlagType''), (''Atom'', ''PyAtomType''), (''Portage'', ''PyPortageType''),
      (''UseFlag'', ''PyUseFlagType''), (''RequiredUse'', ''PyRequiredUseType''),
      (''Ebuild'', ''PyEbuildType''), (''Package'', ''PyPackageType'')]"

definition enumerate_from_0 :: "string list \<Rightarrow> (string \<times> int) list" where
  "enumerate_from_0 names = zip names (map int [0..<length names])"

definition cportage_constants :: "(string \<times> int) list" where
  "cportage_constants =
     enumerate_from_0 [''USE_OP_DISABLE'', ''USE_OP_ENABLE'', ''USE_OP_LEAST_ONE'', ''USE_OP_EXACT_ONE'', ''USE_OP_MOST_ONE''] @
     enumerate_from_0 [''USE_STATE_DISABLED'', ''USE_STATE_ENABLED''] @
     enumerate_from_0 [''ATOM_USE_DISABLE'', ''ATOM_USE_ENABLE'', ''ATOM_USE_ENABLE_IF_ON'', ''ATOM_USE_DISABLE_IF_OFF'',
       ''ATOM_USE_EQUAL'', ''ATOM_USE_OPPOSITE''] @
     enumerate_from_0 [''ATOM_DEFAULT_NONE'', ''ATOM_DEFAULT_ON'', ''ATOM_DEFAULT_OFF''] @
     map (apsnd uint)
       [(''ATOM_VERSION_NONE'', ATOM_VERSION_NONE), (''ATOM_VERSION_E'', ATOM_VERSION_E),
        (''ATOM_VERSION_L'', ATOM_VERSION_L), (''ATOM_VERSION_G'', ATOM_VERSION_G),
        (''ATOM_VERSION_REV'', ATOM_VERSION_REV), (''ATOM_VERSION_ALL'', ATOM_VERSION_ALL),
        (''ATOM_VERSION_GE'', ATOM_VERSION_GE), (''ATOM_VERSION_LE'', ATOM_VERSION_LE)] @
     enumerate_from_0 [''ATOM_BLOCK_NONE'', ''ATOM_BLOCK_SOFT'', ''ATOM_BLOCK_HARD''] @
     enumerate_from_0 [''ATOM_SLOT_IGNORE'', ''ATOM_SLOT_REBUILD''] @
     enumerate_from_0 [''ATOM_PREFIX_ALPHA'', ''ATOM_PREFIX_BETA'', ''ATOM_PREFIX_PRE'', ''ATOM_PREFIX_RC'',
       ''ATOM_PREFIX_NONE'', ''ATOM_PREFIX_P''] @
     enumerate_from_0 [''ARCH_AMD64'', ''ARCH_X86'', ''ARCH_ARM'', ''ARCH_ARM64'', ''ARCH_HPPA'', ''ARCH_IA64'',
       ''ARCH_PPC'', ''ARCH_PPC64'', ''ARCH_SPARC'', ''ARCH_END''] @
     enumerate_from_0 [''KEYWORD_BROKEN'', ''KEYWORD_NONE'', ''KEYWORD_UNSTABLE'', ''KEYWORD_STABLE'']"

text \<open>
  Both modules are registered in the same way. \<^verbatim>\<open>finish\<close> is what happens after all types are
  in. The result tells whether the module is returned or NULL.
\<close>

definition register ::
  "bool \<Rightarrow> (string \<Rightarrow> bool) \<Rightarrow> (string \<Rightarrow> bool) \<Rightarrow> (string \<times> string) list \<Rightarrow> (registry \<Rightarrow> registry)
    \<Rightarrow> (registry \<Rightarrow> registry) \<Rightarrow> registry \<Rightarrow> bool \<times> registry" where
  "register create ready adds types m_free finish s =
     (if \<not> create then (False, s)
      else if \<exists>(_, t) \<in> set types. \<not> ready t then (False, drop_module m_free s)
      else
        let s = fold (\<lambda>(_, t). add_type_ref 1 t) types s;
            (ok, s) = add_objects adds types s
        in if ok then (True, finish s)
           else (False, drop_module m_free (fold (\<lambda>(_, t). add_type_ref (- 1) t) types s)))"

definition PyInit_autogentoo_cportage ::
  "bool \<Rightarrow> (string \<Rightarrow> bool) \<Rightarrow> (string \<Rightarrow> bool) \<Rightarrow> registry \<Rightarrow> bool \<times> registry" where
  "PyInit_autogentoo_cportage create ready adds =
     register create ready adds cportage_types (\<lambda>s. s\<lparr>parsers_ready := False\<rparr>)
       (\<lambda>s. s\<lparr>entries := entries s @ map (apsnd Int_Entry) cportage_constants, parsers_ready := True\<rparr>)"

definition network_types :: "(string \<times> string) list" where
  "network_types = [(''TCPServer'', ''TCPServerType''), (''Message'', ''PyMessageType'')]"

definition PyInit_autogentoo_network ::
  "bool \<Rightarrow> bool \<Rightarrow> (string \<Rightarrow> bool) \<Rightarrow> (string \<Rightarrow> bool) \<Rightarrow> registry \<Rightarrow> bool \<times> registry" where
  "PyInit_autogentoo_network create init_message ready adds s =
     (if create \<and> \<not> init_message then (False, drop_module id s)
      else register create ready adds network_types id id s)"

text \<open>The functions of the modules, and the fields of \<^verbatim>\<open>Message\<close> in the order of its tuple.\<close>

definition cportage_methods :: methods_t where
  "cportage_methods =
     [(''init'', ''PyCportage_Init'', METH_FASTCALL), (''get_portage'', ''PyCportage_get_portage'', METH_FASTCALL)]"

definition network_methods :: methods_t where
  "network_methods = [(''send_message'', ''Py_send_message'', METH_KEYWORDS)]"

definition PyMessage_Fields :: "string list" where
  "PyMessage_Fields = [''token'', ''val1'', ''val2'', ''val3'', ''val4'', ''val5'', ''val6'', ''data'']"

definition PyMessage_Desc :: "string \<times> string list \<times> nat" where
  "PyMessage_Desc = (''autogentoo_network.Message'', PyMessage_Fields, 8)"

lemma message_fields_all: "case PyMessage_Desc of (name, fs, n) \<Rightarrow> distinct fs \<and> length fs = n"
  by (simp add: PyMessage_Desc_def PyMessage_Fields_def)

section \<open>What is registered\<close>

lemma add_type_ref_simps [simp]:
  "type_refs (add_type_ref c t s) = (type_refs s)(t := type_refs s t + c)" "entries (add_type_ref c t s) = entries s"
  "parsers_ready (add_type_ref c t s) = parsers_ready s"
  by (simp_all add: add_type_ref_def)

lemma fold_add_type_ref:
  "entries (fold (\<lambda>(_, t). add_type_ref c t) ts s) = entries s"
  "parsers_ready (fold (\<lambda>(_, t). add_type_ref c t) ts s) = parsers_ready s"
  "distinct (map snd ts) \<Longrightarrow> type_refs (fold (\<lambda>(_, t). add_type_ref c t) ts s) x =
     type_refs s x + (if x \<in> snd ` set ts then c else 0)"
  by (induction ts arbitrary: s) (simp_all add: case_prod_unfold)

lemma add_objects_prefix:
  "add_objects adds ts s =
     (list_all (\<lambda>(n, _). adds n) ts,
      s\<lparr>entries := entries s @ map (apsnd Type_Entry) (takeWhile (\<lambda>(n, _). adds n) ts)\<rparr>)"
  by (induction ts arbitrary: s) (auto split: prod.splits)

lemma fold_drop_types:
  assumes "distinct (map snd ts)"
  shows "type_refs (fold (\<lambda>(_, x) s. case x of Type_Entry t \<Rightarrow> add_type_ref (- 1) t s | Int_Entry _ \<Rightarrow> s)
      (map (apsnd Type_Entry) ts) s) x = type_refs s x - (if x \<in> snd ` set ts then 1 else 0)"
proof -
  have "fold (\<lambda>(_, x) s. case x of Type_Entry t \<Rightarrow> add_type_ref (- 1) t s | Int_Entry _ \<Rightarrow> s)
      (map (apsnd Type_Entry) ts) s = fold (\<lambda>(_, t). add_type_ref (- 1) t) ts s"
    by (induction ts arbitrary: s) (auto split: prod.splits)
  then show ?thesis using fold_add_type_ref(3) [OF assms, of "- 1" s x] by simp
qed

lemma register_result:
  fixes adds :: "string \<Rightarrow> bool"
  assumes "distinct (map snd types)" "entries s = []"
    and free: "\<And>s. type_refs (m_free s) = type_refs s" and fin: "\<And>s. type_refs (finish s) = type_refs s"
    and "create" "\<And>t. t \<in> snd ` set types \<Longrightarrow> ready t"
  defines "added \<equiv> takeWhile (\<lambda>(n, _). adds n) types"
  shows "\<exists>s'. register create ready adds types m_free finish s = (list_all (\<lambda>(n, _). adds n) types, s') \<and>
    (\<forall>t. type_refs s' t = type_refs s t +
       (if list_all (\<lambda>(n, _). adds n) types then if t \<in> snd ` set types then 1 else 0
        else if t \<in> snd ` set added then - 1 else 0))"
proof -
  let ?s1 = "fold (\<lambda>(_, t). add_type_ref 1 t) types s"
  let ?s2 = "?s1\<lparr>entries := map (apsnd Type_Entry) added\<rparr>"
  have e1: "entries ?s1 = []" using assms(2) by (simp add: fold_add_type_ref)
  have ready: "\<not> (\<exists>(_, t) \<in> set types. \<not> ready t)" using assms(6) by force
  have add: "add_objects adds types ?s1 = (list_all (\<lambda>(n, _). adds n) types, ?s2)"
    by (simp add: add_objects_prefix e1 added_def)
  show ?thesis
  proof (cases "list_all (\<lambda>(n, _). adds n) types")
    case True
    then have "register create ready adds types m_free finish s = (True, finish ?s2)"
      using assms(5) ready add by (simp add: register_def)
    with True show ?thesis by (simp add: fin fold_add_type_ref(3) [OF assms(1)])
  next
    case False
    let ?s3 = "fold (\<lambda>(_, t). add_type_ref (- 1) t) types ?s2"
    have run: "register create ready adds types m_free finish s = (False, drop_module m_free ?s3)"
      using False assms(5) ready add by (simp add: register_def)
    have d: "distinct (map snd added)"
      using assms(1) unfolding added_def by (metis distinct_append map_append takeWhile_dropWhile_id)
    have "type_refs (drop_module m_free ?s3) t = type_refs s t + (if t \<in> snd ` set added then - 1 else 0)" for t
      unfolding drop_module_def fold_add_type_ref(1)
      by (simp add: fold_drop_types [OF d] free fold_add_type_ref(3) [OF assms(1)])
    with False run show ?thesis by simp
  qed
qed

lemma cportage_types_distinct: "distinct (map snd cportage_types)" "distinct (map fst cportage_types)"
  by (simp_all add: cportage_types_def)

text \<open>The constants have distinct names; those of the stub file are the same but for one.\<close>

lemma constants_distinct: "distinct (map fst cportage_constants)" "''USE_STATE_UNKNOWN'' \<notin> fst ` set cportage_constants"
  by (simp_all add: cportage_constants_def enumerate_from_0_def)

section \<open>The global database object\<close>

text \<open>
  The pointer \<^verbatim>\<open>global_portage\<close> and the reference counts of the \<^verbatim>\<open>Portage\<close> objects that
  exist. An argument of a call is an object with its type.
\<close>

record globals =
  global_portage :: u64
  portages :: "u64 \<rightharpoonup> nat"

datatype argument = Portage_Arg u64 | Other_Arg

definition portage_incref :: "u64 \<Rightarrow> globals \<Rightarrow> globals result" where
  "portage_incref a s = (case portages s a of
     None \<Rightarrow> Inl Use_After_Free | Some n \<Rightarrow> Inr (s\<lparr>portages := (portages s)(a \<mapsto> Suc n)\<rparr>))"

definition portage_xdecref :: "u64 \<Rightarrow> globals \<Rightarrow> globals result" where
  "portage_xdecref a s =
     (if a = 0 then Inr s
      else case portages s a of
        None \<Rightarrow> Inl Use_After_Free
      | Some n \<Rightarrow> Inr (s\<lparr>portages := (portages s)(a := if n \<le> 1 then None else Some (n - 1))\<rparr>))"

definition PyCportage_Init :: "argument list \<Rightarrow> globals \<Rightarrow> globals py result" where
  "PyCportage_Init args s =
     (case args of
        [Portage_Arg a] \<Rightarrow>
          bindR (portage_xdecref (global_portage s) s) (\<lambda>s.
          bindR (portage_incref a s) (\<lambda>s. Inr (Return (s\<lparr>global_portage := a\<rparr>))))
      | _ \<Rightarrow> Inr (Raise TypeError))"

definition PyCportage_get_portage :: "argument list \<Rightarrow> globals \<Rightarrow> (u64 \<times> globals) py result" where
  "PyCportage_get_portage args s =
     (if args \<noteq> [] then Inr (Raise TypeError)
      else if global_portage s \<noteq> 0
      then bindR (portage_incref (global_portage s) s) (\<lambda>s. Inr (Return (global_portage s, s)))
      else Inr (Raise RuntimeError))"

definition PyCportage_free :: "globals \<Rightarrow> globals result" where
  "PyCportage_free s = bindR (portage_xdecref (global_portage s) s) (\<lambda>s. Inr (s\<lparr>global_portage := 0\<rparr>))"

text \<open>
  A Python program: it makes \<^verbatim>\<open>Portage\<close> objects, passes objects it holds to \<^verbatim>\<open>init\<close>, gets
  the global object, and drops references it holds. \<open>held\<close> counts the references of
  the program, of which the code knows nothing.
\<close>

datatype py_step = Make u64 | Init u64 | Get | Drop u64 | Unload

type_synonym program_state = "globals \<times> (u64 \<Rightarrow> nat)"

fun py_run :: "py_step \<Rightarrow> program_state \<Rightarrow> program_state option result" where
  "py_run (Make a) (s, held) =
     (if a = 0 \<or> portages s a \<noteq> None then Inr None
      else Inr (Some (s\<lparr>portages := (portages s)(a \<mapsto> 1)\<rparr>, held(a := 1))))"
| "py_run (Init a) (s, held) =
     (if held a = 0 then Inr None
      else bindR (PyCportage_Init [Portage_Arg a] s) (\<lambda>r. Inr (case r of Raise _ \<Rightarrow> None | Return s \<Rightarrow> Some (s, held))))"
| "py_run Get (s, held) =
     bindR (PyCportage_get_portage [] s) (\<lambda>r. Inr (case r of
         Raise _ \<Rightarrow> Some (s, held) | Return (a, s) \<Rightarrow> Some (s, held(a := Suc (held a)))))"
| "py_run (Drop a) (s, held) =
     (if held a = 0 then Inr None
      else bindR (portage_xdecref a s) (\<lambda>s. Inr (Some (s, held(a := held a - 1)))))"
| "py_run Unload (s, held) = bindR (PyCportage_free s) (\<lambda>s. Inr (Some (s, held)))"

text \<open>A step the program cannot take (\<open>Inr None\<close>) is left out.\<close>

fun py_steps :: "py_step list \<Rightarrow> program_state \<Rightarrow> program_state result" where
  "py_steps [] st = Inr st"
| "py_steps (p # ps) st = bindR (py_run p st) (\<lambda>r. py_steps ps (case r of None \<Rightarrow> st | Some st' \<Rightarrow> st'))"

text \<open>Every count is the number of references: those of the program and the global one.\<close>

definition counts_exact :: "program_state \<Rightarrow> bool" where
  "counts_exact = (\<lambda>(s, held). portages s 0 = None \<and> held 0 = 0 \<and>
     (\<forall>a. a \<noteq> 0 \<longrightarrow> portages s a =
        (let n = held a + (if global_portage s = a then 1 else 0) in if n = 0 then None else Some n)))"

lemma xdecref_exact:
  assumes "portages s a = Some (Suc n)" "a \<noteq> 0"
  shows "portage_xdecref a s = Inr (s\<lparr>portages := (portages s)(a := if n = 0 then None else Some n)\<rparr>)"
  using assms by (simp add: portage_xdecref_def)

lemma counts_exact_step:
  assumes "counts_exact (s, held)"
  shows "\<exists>r. py_run p (s, held) = Inr r \<and> counts_exact (case r of None \<Rightarrow> (s, held) | Some st \<Rightarrow> st)"
proof -
  have z: "portages s 0 = None" "held 0 = 0"
    and c: "\<And>a. a \<noteq> 0 \<Longrightarrow> portages s a =
        (let n = held a + (if global_portage s = a then 1 else 0) in if n = 0 then None else Some n)"
    using assms by (auto simp: counts_exact_def)
  let ?g = "global_portage s"
  define s1 where "s1 = (if ?g = 0 then s else
      s\<lparr>portages := (portages s)(?g := if held ?g = 0 then None else Some (held ?g))\<rparr>)"
  have drop: "portage_xdecref ?g s = Inr s1"
    using c [of ?g] xdecref_exact [of s ?g "held ?g"] by (auto simp: s1_def portage_xdecref_def)
  have s1: "portages s1 a = (if held a = 0 then None else Some (held a))" if "a \<noteq> 0" for a
    using c [OF that] that by (auto simp: s1_def Let_def)
  have s1z: "portages s1 0 = None" "global_portage s1 = ?g" using z by (auto simp: s1_def)
  show ?thesis
  proof (cases p)
    case (Make a)
    then show ?thesis using assms c by (auto simp: counts_exact_def Let_def split: if_splits)
  next
    case (Init a)
    show ?thesis
    proof (cases "held a = 0")
      case True
      with Init assms show ?thesis by simp
    next
      case False
      then have a: "a \<noteq> 0" using z(2) by metis
      have "PyCportage_Init [Portage_Arg a] s =
          Inr (Return (s1\<lparr>portages := (portages s1)(a \<mapsto> Suc (held a)), global_portage := a\<rparr>))"
        using drop s1 [OF a] False by (simp add: PyCportage_Init_def portage_incref_def)
      with Init False z s1 s1z a show ?thesis by (auto simp: counts_exact_def Let_def)
    qed
  next
    case Get
    show ?thesis
    proof (cases "?g = 0")
      case True
      with Get assms show ?thesis by (simp add: PyCportage_get_portage_def)
    next
      case False
      with Get z c c [OF False] show ?thesis
        by (auto simp: PyCportage_get_portage_def portage_incref_def counts_exact_def Let_def)
    qed
  next
    case (Drop a)
    show ?thesis
    proof (cases "held a = 0")
      case True
      with Drop assms show ?thesis by simp
    next
      case False
      then have a: "a \<noteq> 0" using z(2) by metis
      from False obtain k where k: "held a = Suc k" by (cases "held a") auto
      have "portages s a = Some (Suc (k + (if ?g = a then 1 else 0)))" using c [OF a] k by (simp add: Let_def)
      from xdecref_exact [OF this a] Drop k a z c show ?thesis
        by (auto simp: counts_exact_def Let_def)
    qed
  next
    case Unload
    with drop s1 s1z z show ?thesis by (auto simp: PyCportage_free_def counts_exact_def Let_def)
  qed
qed

lemma counts_exact_steps:
  "counts_exact st \<Longrightarrow> \<exists>st'. py_steps ps st = Inr st' \<and> counts_exact st'"
proof (induction ps arbitrary: st)
  case (Cons p ps)
  obtain s held where st: "st = (s, held)" by (cases st)
  from counts_exact_step [of s held p] Cons.prems st obtain r where
    r: "py_run p st = Inr r" "counts_exact (case r of None \<Rightarrow> st | Some st' \<Rightarrow> st')" by blast
  with Cons.IH [OF r(2)] show ?case by simp
qed simp

section \<open>Properties\<close>

text \<open>
  C39: the references of the types. When the module is created, every type has gained exactly the
  reference of the module. When the type named by some entry cannot be added, every type
  entered before it has lost a reference: it is given up once by the cleanup and once by the
  end of the module, and the count of a static type reaches zero.
\<close>

theorem module_type_references:
  assumes "entries s = []" and "create" and "\<And>t. t \<in> snd ` set cportage_types \<Longrightarrow> ready t"
  shows "\<exists>ok s'. PyInit_autogentoo_cportage create ready adds s = (ok, s') \<and>
    (ok \<longleftrightarrow> (\<forall>n. n \<notin> fst ` set cportage_types \<or> adds n)) \<and>
    (\<forall>t. type_refs s' t = type_refs s t +
       (if ok then if t \<in> snd ` set cportage_types then 1 else 0
        else if t \<in> snd ` set (takeWhile (\<lambda>(n, _). adds n) cportage_types) then - 1 else 0))"
proof -
  let ?fin = "\<lambda>s. s\<lparr>entries := entries s @ map (apsnd Int_Entry) cportage_constants, parsers_ready := True\<rparr>"
  have "list_all (\<lambda>(n, _). adds n) cportage_types \<longleftrightarrow> (\<forall>n. n \<notin> fst ` set cportage_types \<or> adds n)"
    by (force simp: list_all_iff)
  moreover obtain s' where
    "register create ready adds cportage_types (\<lambda>s. s\<lparr>parsers_ready := False\<rparr>) ?fin s =
       (list_all (\<lambda>(n, _). adds n) cportage_types, s')"
    "\<forall>t. type_refs s' t = type_refs s t +
       (if list_all (\<lambda>(n, _). adds n) cportage_types then if t \<in> snd ` set cportage_types then 1 else 0
        else if t \<in> snd ` set (takeWhile (\<lambda>(n, _). adds n) cportage_types) then - 1 else 0)"
    using register_result [OF cportage_types_distinct(1) assms(1), of "\<lambda>s. s\<lparr>parsers_ready := False\<rparr>" ?fin create
        ready adds] assms(2,3) by auto
  ultimately show ?thesis unfolding PyInit_autogentoo_cportage_def by auto
qed

theorem module_type_references_witness:
  "\<exists>s'. PyInit_autogentoo_cportage True (\<lambda>_. True) (\<lambda>n. n \<noteq> ''AtomVersion'')
       \<lparr>type_refs = (\<lambda>_. 1), entries = [], parsers_ready = False\<rparr> = (False, s') \<and>
     type_refs s' ''PyDependencyType'' = 0 \<and> type_refs s' ''PyAtomType'' = 1"
proof -
  let ?s = "\<lparr>type_refs = (\<lambda>_ :: string. 1 :: int), entries = [], parsers_ready = False\<rparr>"
  have "entries ?s = []" "True" by simp_all
  from module_type_references [OF this, of "\<lambda>_. True" "\<lambda>n. n \<noteq> ''AtomVersion''"]
  show ?thesis by (auto simp: cportage_types_def)
qed

text \<open>
  C34: the global database object. Whatever a Python program does with \<^verbatim>\<open>init\<close>, \<^verbatim>\<open>get_portage\<close> and
  its own references, in any order, nothing is used after it was freed, and the count of every
  \<^verbatim>\<open>Portage\<close> object is the number of references the program holds, plus one for the
  global object; so the global object always exists.
\<close>

theorem global_portage_counted:
  "\<exists>s held. py_steps ps (\<lparr>global_portage = 0, portages = Map.empty\<rparr>, \<lambda>_. 0) = Inr (s, held) \<and>
     (global_portage s = 0 \<or> portages s (global_portage s) = Some (Suc (held (global_portage s)))) \<and>
     (\<forall>a. a = global_portage s \<or> portages s a = (if held a = 0 then None else Some (held a)))"
proof -
  have "counts_exact (\<lparr>global_portage = 0, portages = Map.empty\<rparr>, \<lambda>_. 0)"
    by (simp add: counts_exact_def)
  from counts_exact_steps [OF this, of ps] obtain s held where
    run: "py_steps ps (\<lparr>global_portage = 0, portages = Map.empty\<rparr>, \<lambda>_. 0) = Inr (s, held)" and c: "counts_exact (s, held)"
    by auto
  have "portages s a = (if held a = 0 then None else Some (held a))" if "a \<noteq> global_portage s" for a
    using c that by (cases "a = 0") (auto simp: counts_exact_def Let_def)
  moreover have "global_portage s = 0 \<or> portages s (global_portage s) = Some (Suc (held (global_portage s)))"
    using c by (auto simp: counts_exact_def Let_def)
  ultimately show ?thesis using run by blast
qed

end
