(* ===== verification/File_Utils.thy ===== *)
theory File_Utils
  imports CString
begin

text \<open>
  The functions of \<^verbatim>\<open>hacksaw/util.c\<close> on files: \<^verbatim>\<open>prv_mkdir\<close> and \<^verbatim>\<open>file_copy\<close>. The file
  system is directories and files by path; a path is whether it is absolute and its
  components, last first. Links, permissions and the names \<^verbatim>\<open>.\<close> and \<^verbatim>\<open>..\<close> are left out.
\<close>

section \<open>File system\<close>

type_synonym fpath = "bool \<times> string list"

text \<open>The components of a reversed text.\<close>

fun components :: "string \<Rightarrow> string list" where
  "components [] = []"
| "components (c # s) =
     (if c = CHR ''/'' then components s
      else if s = [] \<or> hd s = CHR ''/'' then [c] # components s
      else case components s of [] \<Rightarrow> [[c]] | x # xs \<Rightarrow> (x @ [c]) # xs)"

definition path_of :: "string \<Rightarrow> fpath" where
  "path_of s = (char_at s 0 = CHR ''/'', components (rev s))"

record file_system =
  is_dir :: "fpath \<Rightarrow> bool"
  contents :: "fpath \<rightharpoonup> string"

text \<open>The root and the working directory exist; whatever exists is in a directory.\<close>

definition fs_ok :: "file_system \<Rightarrow> bool" where
  "fs_ok fs \<longleftrightarrow> (\<forall>b. is_dir fs (b, [])) \<and>
     (\<forall>b x xs. is_dir fs (b, x # xs) \<or> contents fs (b, x # xs) \<noteq> None \<longrightarrow> is_dir fs (b, xs)) \<and>
     (\<forall>p. is_dir fs p \<longrightarrow> contents fs p = None)"

text \<open>\<^verbatim>\<open>mkdir\<close>: an error, which the code ignores, changes nothing.\<close>

definition mkdir :: "string \<Rightarrow> file_system \<Rightarrow> file_system" where
  "mkdir s fs =
     (case path_of s of
        (b, []) \<Rightarrow> fs
      | (b, x # xs) \<Rightarrow>
          if is_dir fs (b, x # xs) \<or> contents fs (b, x # xs) \<noteq> None \<or> \<not> is_dir fs (b, xs) then fs
          else fs\<lparr>is_dir := (is_dir fs)((b, x # xs) := True)\<rparr>)"

section \<open>Making directories\<close>

text \<open>The loop of \<^verbatim>\<open>prv_mkdir\<close>: \<open>pre\<close> is the text before the position of \<^verbatim>\<open>p\<close>.\<close>

fun mkdir_loop :: "string \<Rightarrow> string \<Rightarrow> file_system \<Rightarrow> file_system" where
  "mkdir_loop pre [] fs = mkdir pre fs"
| "mkdir_loop pre (c # rest) fs = mkdir_loop (pre @ [c]) rest (if c = CHR ''/'' then mkdir pre fs else fs)"

text \<open>
  The buffer holds 255 characters. The length of an empty path is 0, and the byte before the
  buffer is read. When removing the last slash leaves nothing, the loop starts at the old
  terminating zero.
\<close>

definition prv_mkdir :: "string \<Rightarrow> file_system \<Rightarrow> file_system result" where
  "prv_mkdir dir fs =
     (if dir \<noteq> [] \<and> is_dir fs (path_of dir) then Inr fs
      else
        let tmp = take 255 dir
        in if tmp = [] then Inl Out_Of_Bounds
           else
             let tmp = (if last tmp = CHR ''/'' then butlast tmp else tmp)
             in Inr (case tmp of [] \<Rightarrow> mkdir [] fs | c # rest \<Rightarrow> mkdir_loop [c] rest fs))"

section \<open>Copying files\<close>

text \<open>
  Opening for writing empties the file before the first byte of the source is read. A directory can
  be opened for reading, and yields no byte. The result is the state and whether an error was
  logged.
\<close>

definition file_copy :: "string \<Rightarrow> string \<Rightarrow> file_system \<Rightarrow> bool \<times> file_system" where
  "file_copy src dest fs =
     (if src = [] \<or> \<not> is_dir fs (path_of src) \<and> contents fs (path_of src) = None then (True, fs)
      else case path_of dest of
        (b, []) \<Rightarrow> (True, fs)
      | (b, x # xs) \<Rightarrow>
          if is_dir fs (b, x # xs) \<or> \<not> is_dir fs (b, xs) then (True, fs)
          else
            let fs = fs\<lparr>contents := (contents fs)((b, x # xs) \<mapsto> [])\<rparr>;
                bytes = (case contents fs (path_of src) of None \<Rightarrow> [] | Some t \<Rightarrow> t)
            in (False, fs\<lparr>contents := (contents fs)((b, x # xs) \<mapsto> bytes)\<rparr>))"

section \<open>Which directories are made\<close>

text \<open>The directories with at most the given components: the suffixes of a reversed path.\<close>

fun above :: "string list \<Rightarrow> string list set" where
  "above [] = {[]}"
| "above (x # xs) = insert (x # xs) (above xs)"

definition made :: "bool \<Rightarrow> string list set \<Rightarrow> file_system \<Rightarrow> file_system" where
  "made b ds fs = fs\<lparr>is_dir := (\<lambda>p. is_dir fs p \<or> fst p = b \<and> snd p \<in> ds)\<rparr>"

lemma above_self [simp]: "xs \<in> above xs" "[] \<in> above xs"
  by (induction xs) auto

lemma made_simps [simp]:
  "is_dir (made b ds fs) p \<longleftrightarrow> is_dir fs p \<or> fst p = b \<and> snd p \<in> ds" "contents (made b ds fs) = contents fs"
  by (simp_all add: made_def)

lemma made_cong:
  assumes "\<And>d. is_dir fs (b, d) \<or> d \<in> ds \<longleftrightarrow> is_dir fs (b, d) \<or> d \<in> es"
  shows "made b ds fs = made b es fs"
proof -
  have "is_dir (made b ds fs) = is_dir (made b es fs)"
  proof
    fix p
    show "is_dir (made b ds fs) p = is_dir (made b es fs) p"
      using assms [of "snd p"] by (cases p) auto
  qed
  then show ?thesis by (simp add: made_def)
qed

text \<open>What is before a slash is a directory above the whole path.\<close>

lemma components_above_aux:
  "components u \<in> above (components (v @ CHR ''/'' # u)) \<and>
   (v \<noteq> [] \<and> hd v \<noteq> CHR ''/'' \<longrightarrow> (\<exists>x xs. components (v @ CHR ''/'' # u) = x # xs \<and> components u \<in> above xs))"
proof (induction v)
  case Nil
  then show ?case by simp
next
  case (Cons c v)
  show ?case
  proof (cases v)
    case Nil
    then show ?thesis by simp
  next
    case (Cons d w)
    show ?thesis
    proof (cases "d = CHR ''/''")
      case True
      with Cons.IH Cons show ?thesis by simp
    next
      case False
      with Cons.IH Cons obtain x xs where "components (v @ CHR ''/'' # u) = x # xs" "components u \<in> above xs"
        by auto
      with Cons.IH Cons False show ?thesis by simp
    qed
  qed
qed

lemma components_above: "components (rev pre) \<in> above (components (rev (pre @ CHR ''/'' # rest)))"
  using components_above_aux [of "rev pre" "rev rest"] by simp

lemma components_last:
  assumes "pre \<noteq> []" "last pre \<noteq> CHR ''/''"
  shows "\<exists>x xs. components (rev pre) = x # xs"
  using assms by (cases pre rule: rev_cases) (auto split: list.split)

text \<open>The directories the loop has made when it is behind the text \<open>pre\<close>.\<close>

definition so_far :: "string \<Rightarrow> string list set" where
  "so_far pre = (if last pre = CHR ''/'' then above (components (rev pre))
     else above (tl (components (rev pre))))"

lemma so_far_next:
  assumes "pre \<noteq> []"
  shows "so_far (pre @ [c]) = (if c = CHR ''/'' then above (components (rev pre)) else so_far pre)"
  using assms components_last [OF assms] by (auto simp: so_far_def hd_rev split: list.splits)

lemma mkdir_so_far:
  assumes "pre \<noteq> []" "(char_at pre 0 = CHR ''/'') = b" "contents fs (b, components (rev pre)) = None"
    and "is_dir fs (b, [])"
  shows "mkdir pre (made b (so_far pre) fs) = made b (above (components (rev pre))) fs"
proof (cases "components (rev pre)")
  case Nil
  then show ?thesis using assms(2) by (simp add: mkdir_def path_of_def so_far_def)
next
  case (Cons x xs)
  let ?m = "made b (so_far pre) fs"
  have path: "path_of pre = (b, x # xs)" using assms(2) Cons by (simp add: path_of_def)
  show ?thesis
  proof (cases "last pre = CHR ''/''")
    case True
    then have s: "so_far pre = above (x # xs)" by (simp add: so_far_def Cons)
    then have "is_dir ?m (b, x # xs)" by simp
    with path have "mkdir pre ?m = ?m" by (simp only: mkdir_def prod.case list.case HOL.simp_thms if_True)
    then show ?thesis by (simp only: s Cons)
  next
    case False
    then have s: "so_far pre = above xs" by (simp add: so_far_def Cons)
    show ?thesis
    proof (cases "is_dir ?m (b, x # xs)")
      case True
      then have "made b (above (x # xs)) fs = ?m"
        unfolding s by (intro made_cong) auto
      moreover from True path have "mkdir pre ?m = ?m" by (simp only: mkdir_def prod.case list.case HOL.simp_thms if_True)
      ultimately show ?thesis by (simp only: Cons)
    next
      case False
      have "mkdir pre ?m = ?m\<lparr>is_dir := (is_dir ?m)((b, x # xs) := True)\<rparr>"
        using False path assms(3) Cons by (simp add: mkdir_def s)
      also have "\<dots> = made b (above (x # xs)) fs" unfolding s by (auto simp: made_def fun_eq_iff)
      finally show ?thesis by (simp only: Cons)
    qed
  qed
qed

lemma mkdir_loop_made:
  assumes "pre \<noteq> []" "(char_at pre 0 = CHR ''/'') = b" "is_dir fs (b, [])"
    and "\<forall>ys \<in> above (components (rev (pre @ rest))). contents fs (b, ys) = None"
  shows "mkdir_loop pre rest (made b (so_far pre) fs) = made b (above (components (rev (pre @ rest)))) fs"
  using assms
proof (induction rest arbitrary: pre)
  case Nil
  then show ?case by (simp add: mkdir_so_far)
next
  case (Cons c rest)
  have first: "(char_at (pre @ [c]) 0 = CHR ''/'') = b" using Cons.prems(1,2) by (cases pre) (simp_all add: char_at_def)
  have IH: "mkdir_loop (pre @ [c]) rest (made b (so_far (pre @ [c])) fs) =
      made b (above (components (rev (pre @ c # rest)))) fs"
    using Cons.IH [of "pre @ [c]"] first Cons.prems(3,4) by simp
  show ?case
  proof (cases "c = CHR ''/''")
    case True
    then have "contents fs (b, components (rev pre)) = None"
      using Cons.prems(4) components_above [of pre rest] by blast
    with mkdir_so_far [OF Cons.prems(1,2)] Cons.prems(1,3) IH True show ?thesis
      by (simp add: so_far_next)
  next
    case False
    with IH Cons.prems(1) show ?thesis by (simp add: so_far_next)
  qed
qed

text \<open>A last slash changes nothing.\<close>

lemma components_slash: "components (rev (s @ [CHR ''/''])) = components (rev s)"
  by simp

lemma made_id: "(\<And>d. d \<in> ds \<Longrightarrow> is_dir fs (b, d)) \<Longrightarrow> made b ds fs = fs"
  using made_cong [of fs b ds "{}"] by (simp add: made_def) blast

lemma fs_okD:
  assumes "fs_ok fs"
  shows "is_dir fs (b, [])" "is_dir fs (b, x # xs) \<Longrightarrow> is_dir fs (b, xs)"
  using assms unfolding fs_ok_def by blast+

lemma made_present:
  assumes "is_dir fs (b, xs)" "fs_ok fs"
  shows "made b (above xs) fs = fs"
proof (rule made_id)
  fix d
  assume "d \<in> above xs"
  then show "is_dir fs (b, d)" using assms(1)
  proof (induction xs)
    case Nil
    then show ?case by simp
  next
    case (Cons x xs)
    from fs_okD(2) [OF assms(2) Cons.prems(2)] Cons show ?case by auto
  qed
qed

lemma made_root: "fs_ok fs \<Longrightarrow> made b {[]} fs = fs"
  by (rule made_id) (simp add: fs_okD(1))

lemma prv_mkdir_short:
  assumes "dir \<noteq> []" "length dir < 256" "fs_ok fs" "path_of dir = (b, xs)"
    and "\<forall>ys \<in> above xs. contents fs (b, ys) = None"
  shows "prv_mkdir dir fs = Inr (made b (above xs) fs)"
proof (cases "is_dir fs (b, xs)")
  case True
  with assms(1,3,4) show ?thesis by (simp add: prv_mkdir_def made_present)
next
  case False
  have tmp: "take 255 dir = dir" using assms(2) by simp
  have xs: "xs = components (rev dir)" and b: "(char_at dir 0 = CHR ''/'') = b" using assms(4) by (simp_all add: path_of_def)
  define t where "t = (if last dir = CHR ''/'' then butlast dir else dir)"
  have run: "prv_mkdir dir fs = Inr (case t of [] \<Rightarrow> mkdir [] fs | c # rest \<Rightarrow> mkdir_loop [c] rest fs)"
    using False assms(1,4) tmp by (simp add: prv_mkdir_def t_def Let_def)
  have comps: "components (rev t) = xs"
  proof (cases "last dir = CHR ''/''")
    case True
    then have "dir = t @ [CHR ''/'']" using append_butlast_last_id [OF assms(1)] by (simp add: t_def)
    then show ?thesis by (simp add: xs)
  next
    case False
    then show ?thesis by (simp add: t_def xs)
  qed
  show ?thesis
  proof (cases t)
    case Nil
    then have "xs = []" using comps by simp
    with run Nil made_root [OF assms(3), of b] show ?thesis
      by (simp add: mkdir_def path_of_def char_at_def)
  next
    case (Cons c rest)
    then have c: "(char_at [c] 0 = CHR ''/'') = b"
    proof (cases "last dir = CHR ''/''")
      case True
      then have "dir = t @ [CHR ''/'']" using append_butlast_last_id [OF assms(1)] by (simp add: t_def)
      with Cons b show ?thesis by (simp add: char_at_def)
    next
      case False
      with Cons b show ?thesis by (simp add: t_def char_at_def)
    qed
    have root: "is_dir fs (b, [])" using assms(3) by (simp add: fs_ok_def)
    have "so_far [c] = {[]}" by (simp add: so_far_def)
    then have "made b (so_far [c]) fs = fs" by (simp add: made_root [OF assms(3)])
    with mkdir_loop_made [of "[c]" b fs rest] c root assms(5) Cons comps run show ?thesis by simp
  qed
qed

section \<open>Properties\<close>

text \<open>
  making directories. For a path of 1 to 255 characters with no file in the way, the path and
  all directories above it exist afterwards, whatever slashes it has and however many of them
  existed, and nothing else changes. The empty path makes the code read in front of its buffer.
\<close>

theorem prv_mkdir_makes:
  assumes "dir \<noteq> []" and "length dir < 256" and "fs_ok fs"
    and "\<forall>ys \<in> above (snd (path_of dir)). contents fs (fst (path_of dir), ys) = None"
  shows "(\<exists>fs'. prv_mkdir dir fs = Inr fs' \<and> contents fs' = contents fs \<and> is_dir fs' (path_of dir) \<and>
      (\<forall>p. is_dir fs' p \<longleftrightarrow> is_dir fs p \<or> fst p = fst (path_of dir) \<and> snd p \<in> above (snd (path_of dir)))) \<and>
    prv_mkdir [] fs = Inl Out_Of_Bounds"
proof -
  obtain b xs where p: "path_of dir = (b, xs)" by (cases "path_of dir")
  from prv_mkdir_short [OF assms(1-3) p] assms(4) p show ?thesis by (simp add: prv_mkdir_def)
qed

definition empty_fs :: file_system where
  "empty_fs = \<lparr>is_dir = (\<lambda>p. snd p = []), contents = Map.empty\<rparr>"

theorem prv_mkdir_makes_witness:
  "\<exists>fs'. prv_mkdir ''/a//b/'' empty_fs = Inr fs' \<and> is_dir fs' (True, [''b'', ''a'']) \<and> is_dir fs' (True, [''a'']) \<and>
     \<not> is_dir fs' (False, [''a''])"
proof -
  have "fs_ok empty_fs" by (simp add: fs_ok_def empty_fs_def)
  moreover have "path_of ''/a//b/'' = (True, [''b'', ''a''])" by (simp add: path_of_def char_at_def)
  ultimately show ?thesis using prv_mkdir_makes [of "''/a//b/''" empty_fs] by (auto simp: empty_fs_def)
qed

text \<open>Copying a file: the copy is exact, except that a file copied to itself becomes empty.\<close>

lemma file_copy_result:
  assumes "contents fs (path_of src) = Some t" "src \<noteq> []" "path_of dest = (b, x # xs)"
    and "\<not> is_dir fs (b, x # xs)" "is_dir fs (b, xs)"
  shows "file_copy src dest fs =
    (False, fs\<lparr>contents := (contents fs)((b, x # xs) \<mapsto> if path_of src = path_of dest then [] else t)\<rparr>)"
  using assms by (simp add: file_copy_def Let_def)

end
