(* ===== verification/Ref_Data.thy ===== *)
theory Ref_Data
  imports Ref_Objects
begin

text \<open>
  Reference-counted wrappers of other memory: \<^verbatim>\<open>ref_string\<close> and \<^verbatim>\<open>ref_pyobject\<close> of
  \<^verbatim>\<open>hacksaw/util.c\<close>, and the requests of the server (\<^verbatim>\<open>request_new\<close> of \<^verbatim>\<open>tcp_server.c\<close>).
  A wrapper is the count of its address in the map of \<open>Ref_Objects\<close> with what it points to;
  its free function runs when the count is dropped to nothing.
\<close>

section \<open>Wrappers\<close>

datatype ref_ptr = Ref_String u64 | Ref_PyObject u64 | Ref_Request int

text \<open>The counts of the wrappers, what they wrap, the strings that are allocated, the counts of Python objects.\<close>

record ref_heap =
  ref_counts_of :: ref_counts
  wrapped :: "u64 \<rightharpoonup> ref_ptr"
  allocated :: "u64 \<Rightarrow> bool"
  py_counts :: "u64 \<Rightarrow> int"

definition new_ref :: "u64 \<Rightarrow> ref_ptr \<Rightarrow> ref_heap \<Rightarrow> ref_heap" where
  "new_ref a p h = h\<lparr>ref_counts_of := (ref_counts_of h)(a \<mapsto> 0), wrapped := (wrapped h)(a \<mapsto> p)\<rparr>"

text \<open>\<open>a\<close> is the address that \<^verbatim>\<open>malloc\<close> returns. The string is taken over, not copied.\<close>

definition ref_string :: "u64 \<Rightarrow> u64 \<Rightarrow> ref_heap \<Rightarrow> ref_heap" where
  "ref_string a str h = new_ref a (Ref_String str) h"

definition ref_pyobject :: "u64 \<Rightarrow> u64 \<Rightarrow> ref_heap \<Rightarrow> ref_heap" where
  "ref_pyobject a data h =
     new_ref a (Ref_PyObject data)
       (if data = 0 then h else h\<lparr>py_counts := (py_counts h)(data := py_counts h data + 1)\<rparr>)"

definition request_new :: "u64 \<Rightarrow> int \<Rightarrow> ref_heap \<Rightarrow> ref_heap" where
  "request_new a client_sock h = new_ref a (Ref_Request client_sock) h"

definition ref_string_free :: "u64 \<Rightarrow> ref_heap \<Rightarrow> ref_heap result" where
  "ref_string_free str h =
     (if str = 0 then Inr h
      else if allocated h str then Inr (h\<lparr>allocated := (allocated h)(str := False)\<rparr>) else Inl Use_After_Free)"

definition ref_pyobect_free :: "u64 \<Rightarrow> ref_heap \<Rightarrow> ref_heap" where
  "ref_pyobect_free data h =
     (if data = 0 then h else h\<lparr>py_counts := (py_counts h)(data := py_counts h data - 1)\<rparr>)"

text \<open>The free function of a wrapper, and the macros of \<^verbatim>\<open>object.h\<close> on the heap.\<close>

definition ref_free :: "u64 \<Rightarrow> ref_heap \<Rightarrow> ref_heap result" where
  "ref_free a h =
     bindR (case wrapped h a of
         None \<Rightarrow> Inl Use_After_Free
       | Some (Ref_String str) \<Rightarrow> ref_string_free str h
       | Some (Ref_PyObject data) \<Rightarrow> Inr (ref_pyobect_free data h)
       | Some (Ref_Request c) \<Rightarrow> Inr h)
       (\<lambda>h. Inr (h\<lparr>wrapped := (wrapped h)(a := None)\<rparr>))"

definition ref_incref :: "u64 \<Rightarrow> ref_heap \<Rightarrow> ref_heap result" where
  "ref_incref a h = map_sum id (\<lambda>rc. h\<lparr>ref_counts_of := rc\<rparr>) (OBJECT_INCREF a (ref_counts_of h))"

definition ref_decref :: "u64 \<Rightarrow> ref_heap \<Rightarrow> ref_heap result" where
  "ref_decref a h =
     bindR (OBJECT_DECREF a (ref_counts_of h)) (\<lambda>rc.
       let h = h\<lparr>ref_counts_of := rc\<rparr> in if a \<noteq> 0 \<and> rc a = None then ref_free a h else Inr h)"

section \<open>Life of a wrapper\<close>

fun times :: "nat \<Rightarrow> (ref_heap \<Rightarrow> ref_heap result) \<Rightarrow> ref_heap \<Rightarrow> ref_heap result" where
  "times 0 f h = Inr h"
| "times (Suc n) f h = bindR (f h) (times n f)"

lemma times_0 [simp]: "bindR m (times 0 f) = m"
  by (cases m) simp_all

lemma incref_times:
  assumes "a \<noteq> 0" "ref_counts_of h a = Some c"
  shows "times n (ref_incref a) h = Inr (h\<lparr>ref_counts_of := (ref_counts_of h)(a \<mapsto> c + of_nat n)\<rparr>)"
  using assms(2)
proof (induction n arbitrary: h c)
  case 0
  then show ?case by (simp add: fun_upd_idem)
next
  case (Suc n)
  let ?h = "h\<lparr>ref_counts_of := (ref_counts_of h)(a \<mapsto> c + 1)\<rparr>"
  have "ref_incref a h = Inr ?h" using assms(1) Suc.prems by (simp add: ref_incref_def OBJECT_INCREF_def)
  with Suc.IH [of ?h "c + 1"] show ?case by (simp add: algebra_simps fun_upd_same del: fun_upd_apply)
qed

lemma decref_last:
  assumes "a \<noteq> 0" "ref_counts_of h a = Some c" "c = 0 \<or> c = 1"
  shows "ref_decref a h = ref_free a (h\<lparr>ref_counts_of := (ref_counts_of h)(a := None)\<rparr>)"
  using assms by (auto simp: ref_decref_def OBJECT_DECREF_def)

lemma decref_times:
  assumes "a \<noteq> 0" "ref_counts_of h a = Some (of_nat (Suc n))" "Suc n < 2 ^ 64"
  shows "times (Suc n) (ref_decref a) h = ref_free a (h\<lparr>ref_counts_of := (ref_counts_of h)(a := None)\<rparr>)"
  using assms(2,3)
proof (induction n arbitrary: h)
  case 0
  then show ?case using decref_last [OF assms(1), of h 1] by (simp del: fun_upd_apply)
next
  case (Suc n)
  let ?c = "of_nat (Suc (Suc n)) :: u64"
  let ?h = "h\<lparr>ref_counts_of := (ref_counts_of h)(a \<mapsto> of_nat (Suc n))\<rparr>"
  have "unat ?c = Suc (Suc n)" "unat (of_nat (Suc n) :: u64) = Suc n"
    using Suc.prems(2) by (simp_all only: unat_of_nat) simp_all
  then have "?c \<noteq> 0" "of_nat (Suc n) \<noteq> (0 :: u64)" by (metis nat.distinct(1) unat_0)+
  then have "ref_decref a h = Inr ?h"
    using assms(1) Suc.prems(1) by (simp add: ref_decref_def OBJECT_DECREF_def)
  with Suc.IH [of ?h] Suc.prems(2) show ?case by (simp add: fun_upd_same del: fun_upd_apply)
qed

text \<open>
  A wrapper that is taken \<open>n\<close> times and dropped as often is freed with the last drop; one that
  was never taken is freed by the first.
\<close>

lemma wrapper_life:
  assumes "a \<noteq> 0" "n < 2 ^ 64"
  shows "bindR (times n (ref_incref a) (new_ref a p h)) (times (max 1 n) (ref_decref a)) =
    ref_free a ((new_ref a p h)\<lparr>ref_counts_of := (ref_counts_of h)(a := None)\<rparr>)"
proof -
  let ?h = "(new_ref a p h)\<lparr>ref_counts_of := (ref_counts_of h)(a \<mapsto> of_nat n)\<rparr>"
  have inc: "times n (ref_incref a) (new_ref a p h) = Inr ?h"
    using incref_times [OF assms(1), of "new_ref a p h" 0 n] by (simp add: new_ref_def)
  have "times (max 1 n) (ref_decref a) ?h = ref_free a (?h\<lparr>ref_counts_of := (ref_counts_of h)(a := None)\<rparr>)"
  proof (cases n)
    case 0
    then show ?thesis using decref_last [OF assms(1), of ?h 0] by (simp add: fun_upd_same del: fun_upd_apply)
  next
    case (Suc k)
    then have "max 1 n = Suc k" by simp
    with Suc assms(2) decref_times [OF assms(1), of ?h k] show ?thesis by simp
  qed
  with inc show ?thesis by simp
qed

lemma pyobject_returned:
  assumes "a \<noteq> 0" "n < 2 ^ 64"
  shows "\<exists>h'. bindR (times n (ref_incref a) (ref_pyobject a data h)) (times (max 1 n) (ref_decref a)) = Inr h' \<and>
    py_counts h' = py_counts h \<and> ref_counts_of h' a = None"
proof -
  define g where "g = (if data = 0 then h else h\<lparr>py_counts := (py_counts h)(data := py_counts h data + 1)\<rparr>)"
  have "\<exists>h'. ref_free a ((new_ref a (Ref_PyObject data) g)\<lparr>ref_counts_of := (ref_counts_of g)(a := None)\<rparr>) = Inr h' \<and>
      py_counts h' = py_counts h \<and> ref_counts_of h' a = None"
    by (simp add: g_def ref_free_def new_ref_def ref_pyobect_free_def)
  moreover have "ref_pyobject a data h = new_ref a (Ref_PyObject data) g" by (simp add: ref_pyobject_def g_def)
  ultimately show ?thesis using wrapper_life [OF assms, of "Ref_PyObject data" g] by simp
qed

text \<open>
  The way of a request: it is created and added to the queue by the accepting thread, taken
  out by a worker (one more reference, one less with the node of the queue) and freed by it
  with the macro \<^verbatim>\<open>OBJECT_FREE\<close>, whatever its count is.
\<close>

definition OBJECT_FREE :: "u64 \<Rightarrow> ref_heap \<Rightarrow> ref_heap result" where
  "OBJECT_FREE a h =
     (if a = 0 then Inr h
      else if ref_counts_of h a = None then Inl Use_After_Free
      else ref_free a (h\<lparr>ref_counts_of := (ref_counts_of h)(a := None)\<rparr>))"

lemma request_freed:
  assumes "a \<noteq> 0"
  shows "\<exists>h'. bindR (ref_incref a (request_new a client h)) (\<lambda>h. bindR (ref_incref a h) (\<lambda>h.
      bindR (ref_decref a h) (OBJECT_FREE a))) = Inr h' \<and> ref_counts_of h' a = None \<and> wrapped h' a = None"
  using assms
  by (simp add: request_new_def ref_free_def new_ref_def ref_incref_def ref_decref_def OBJECT_FREE_def
      OBJECT_INCREF_def OBJECT_DECREF_def Let_def)

text \<open>Two wrappers of one string free it twice.\<close>

lemma string_wrapped_twice:
  assumes "a \<noteq> 0" "b \<noteq> 0" "a \<noteq> b" "str \<noteq> 0"
  shows "bindR (ref_decref a (ref_string b str (ref_string a str h))) (ref_decref b) = Inl Use_After_Free"
  using assms
  by (simp add: ref_string_def new_ref_def ref_decref_def OBJECT_DECREF_def ref_free_def ref_string_free_def Let_def)

end
