(* ===== verification/Log.thy ===== *)
theory Log
  imports Prelude
begin

text \<open>
  The log of the program: \<^verbatim>\<open>hacksaw/log.c\<close> and \<^verbatim>\<open>log.h\<close>. A stream of the C library is a
  number, with the text that has reached the file and the text that is still in its buffer. A
  message is the text that \<^verbatim>\<open>vfprintf\<close> makes of the format and its arguments. The first part
  takes one call at a time; the second part interleaves the statements of the calls of several
  threads.
\<close>

section \<open>The state\<close>

record log_state =
  target :: "nat option"
  open_streams :: "nat \<Rightarrow> bool"
  on_file :: "nat \<Rightarrow> string"
  in_buffer :: "nat \<Rightarrow> string"
  log_mutex :: "nat option"

definition stdout :: nat where
  "stdout = 1"

text \<open>The text of a stream, and writing to it.\<close>

definition all_text :: "log_state \<Rightarrow> nat \<Rightarrow> string" where
  "all_text s f = on_file s f @ in_buffer s f"

definition fput :: "nat \<Rightarrow> string \<Rightarrow> log_state \<Rightarrow> log_state" where
  "fput f t s = s\<lparr>in_buffer := (in_buffer s)(f := in_buffer s f @ t)\<rparr>"

text \<open>\<^verbatim>\<open>drain f n\<close>: the first \<open>n\<close> characters of the buffer reach the file. \<^verbatim>\<open>fflush\<close> drains all.\<close>

definition drain :: "nat \<Rightarrow> nat \<Rightarrow> log_state \<Rightarrow> log_state" where
  "drain f n s = s\<lparr>on_file := (on_file s)(f := on_file s f @ take n (in_buffer s f)),
     in_buffer := (in_buffer s)(f := drop n (in_buffer s f))\<rparr>"

definition fflush :: "nat \<Rightarrow> log_state \<Rightarrow> log_state" where
  "fflush f s = drain f (length (in_buffer s f)) s"

section \<open>The functions\<close>

definition ESC :: char where
  "ESC = CHR 0x1B"

definition ANSI_RED :: string where "ANSI_RED = ESC # ''[31m''"
definition ANSI_GREEN :: string where "ANSI_GREEN = ESC # ''[32m''"
definition ANSI_YELLOW :: string where "ANSI_YELLOW = ESC # ''[33m''"
definition ANSI_RESET :: string where "ANSI_RESET = ESC # ''[0m''"
definition ANSI_BOLD :: string where "ANSI_BOLD = ESC # ''[1m''"
definition ANSI_COLOR :: string where "ANSI_COLOR = ESC # ''[39m''"

definition init_log :: "log_state \<Rightarrow> log_state" where
  "init_log s = s\<lparr>target := Some stdout, log_mutex := None\<rparr>"

definition lset :: "nat option \<Rightarrow> log_state \<Rightarrow> log_state" where
  "lset f s = s\<lparr>target := f\<rparr>"

text \<open>\<^verbatim>\<open>fclose\<close> writes the buffer out; closing a stream twice is undefined, as is \<^verbatim>\<open>fclose(NULL)\<close>.\<close>

definition close_log :: "log_state \<Rightarrow> log_state result" where
  "close_log s =
     (case target s of
        None \<Rightarrow> Inl Null_Deref
      | Some f \<Rightarrow>
          if open_streams s f then
            let s = fflush f s in Inr (s\<lparr>open_streams := (open_streams s)(f := False)\<rparr>)
          else Inl Use_After_Free)"

text \<open>
  The macro \<^verbatim>\<open>AUTOGENTOO_LOG_PRINT\<close>. The target is read again for each of the three texts
  and for the flush.
\<close>

definition to_target :: "(nat \<Rightarrow> log_state \<Rightarrow> log_state) \<Rightarrow> log_state \<Rightarrow> log_state result" where
  "to_target f s =
     (case target s of
        None \<Rightarrow> Inl Null_Deref
      | Some n \<Rightarrow> if open_streams s n then Inr (f n s) else Inl Use_After_Free)"

definition star_text :: "string \<Rightarrow> string" where
  "star_text star_color = ANSI_BOLD @ star_color @ '' * '' @ ANSI_COLOR"

definition end_text :: string where
  "end_text = ANSI_RESET @ [CHR 0x0A]"

definition AUTOGENTOO_LOG_PRINT :: "string \<Rightarrow> string \<Rightarrow> log_state \<Rightarrow> log_state result" where
  "AUTOGENTOO_LOG_PRINT star_color message s =
     bindR (to_target (\<lambda>f. fput f (star_text star_color)) s) (\<lambda>s.
     bindR (to_target (\<lambda>f. fput f message) s) (\<lambda>s.
     bindR (to_target (\<lambda>f. fput f end_text) s) (to_target fflush)))"

text \<open>\<^verbatim>\<open>AUTOGENTOO_SHOW_DEBUG\<close> is defined, so that the debug functions print too.\<close>

definition ldinfo :: "string \<Rightarrow> log_state \<Rightarrow> log_state result" where
  "ldinfo = AUTOGENTOO_LOG_PRINT ANSI_GREEN"

definition ldwarning :: "string \<Rightarrow> log_state \<Rightarrow> log_state result" where
  "ldwarning = AUTOGENTOO_LOG_PRINT ANSI_YELLOW"

definition lderror :: "string \<Rightarrow> log_state \<Rightarrow> log_state result" where
  "lderror = AUTOGENTOO_LOG_PRINT ANSI_RED"

definition lerror :: "string \<Rightarrow> log_state \<Rightarrow> log_state result" where
  "lerror = AUTOGENTOO_LOG_PRINT ANSI_RED"

definition lwarning :: "string \<Rightarrow> log_state \<Rightarrow> log_state result" where
  "lwarning = AUTOGENTOO_LOG_PRINT ANSI_YELLOW"

definition linfo :: "string \<Rightarrow> log_state \<Rightarrow> log_state result" where
  "linfo = AUTOGENTOO_LOG_PRINT ANSI_GREEN"

text \<open>The line of a call.\<close>

definition line_text :: "string \<times> string \<Rightarrow> string" where
  "line_text = (\<lambda>(star_color, message). star_text star_color @ message @ end_text)"

lemma flush_all: "fflush f s = s\<lparr>on_file := (on_file s)(f := all_text s f), in_buffer := (in_buffer s)(f := [])\<rparr>"
  by (simp add: fflush_def drain_def all_text_def)

lemma log_print_result:
  assumes "target s = Some f" "open_streams s f" "in_buffer s f = []"
  shows "AUTOGENTOO_LOG_PRINT c m s = Inr (s\<lparr>on_file := (on_file s)(f := on_file s f @ line_text (c, m)),
    in_buffer := (in_buffer s)(f := [])\<rparr>)"
  using assms by (simp add: AUTOGENTOO_LOG_PRINT_def to_target_def fput_def flush_all all_text_def line_text_def)

section \<open>Several threads\<close>

text \<open>
  What a thread does next: nothing, wait for the mutex, write one of the three texts, flush,
  release the mutex.
\<close>

datatype log_pc =
    L_Idle
  | L_Lock string string
  | L_Star string string
  | L_Message string string
  | L_End string string
  | L_Flush string string
  | L_Unlock string string

record log_run =
  state :: log_state
  pcs :: "nat \<Rightarrow> log_pc"
  begun :: "(nat \<times> string \<times> string) list"

text \<open>\<open>begun\<close> is the history of the calls that took the mutex, with their stream.\<close>

definition goto :: "nat \<Rightarrow> log_pc \<Rightarrow> log_run \<Rightarrow> log_run" where
  "goto i pc r = r\<lparr>pcs := (pcs r)(i := pc)\<rparr>"

definition on_state :: "(log_state \<Rightarrow> log_state) \<Rightarrow> log_run \<Rightarrow> log_run" where
  "on_state f r = r\<lparr>state := f (state r)\<rparr>"

text \<open>One statement of thread \<open>i\<close>. A call with a target that is not open has no step.\<close>

inductive log_step :: "nat \<Rightarrow> log_run \<Rightarrow> log_run \<Rightarrow> bool" where
  l_call: "pcs r i = L_Idle \<Longrightarrow> log_step i r (goto i (L_Lock c m) r)"
| l_lock: "pcs r i = L_Lock c m \<Longrightarrow> log_mutex (state r) = None \<Longrightarrow> target (state r) = Some f \<Longrightarrow>
    log_step i r ((goto i (L_Star c m) (on_state (\<lambda>s. s\<lparr>log_mutex := Some i\<rparr>) r))\<lparr>begun := begun r @ [(f, c, m)]\<rparr>)"
| l_star: "pcs r i = L_Star c m \<Longrightarrow> target (state r) = Some f \<Longrightarrow> open_streams (state r) f \<Longrightarrow>
    log_step i r (goto i (L_Message c m) (on_state (fput f (star_text c)) r))"
| l_message: "pcs r i = L_Message c m \<Longrightarrow> target (state r) = Some f \<Longrightarrow> open_streams (state r) f \<Longrightarrow>
    log_step i r (goto i (L_End c m) (on_state (fput f m) r))"
| l_end: "pcs r i = L_End c m \<Longrightarrow> target (state r) = Some f \<Longrightarrow> open_streams (state r) f \<Longrightarrow>
    log_step i r (goto i (L_Flush c m) (on_state (fput f end_text) r))"
| l_flush: "pcs r i = L_Flush c m \<Longrightarrow> target (state r) = Some f \<Longrightarrow> open_streams (state r) f \<Longrightarrow>
    log_step i r (goto i (L_Unlock c m) (on_state (fflush f) r))"
| l_unlock: "pcs r i = L_Unlock c m \<Longrightarrow>
    log_step i r (goto i L_Idle (on_state (\<lambda>s. s\<lparr>log_mutex := None\<rparr>) r))"

text \<open>
  What can happen: a statement of a thread, the C library writing out a part of a buffer, and
  \<^verbatim>\<open>lset\<close>, which does not take the mutex. The events of a run say which.
\<close>

datatype log_event = Statement nat | Library nat nat | Set_Target nat

inductive log_event_step :: "log_event \<Rightarrow> log_run \<Rightarrow> log_run \<Rightarrow> bool" where
  e_statement: "log_step i r r' \<Longrightarrow> log_event_step (Statement i) r r'"
| e_library: "log_event_step (Library f n) r (on_state (drain f n) r)"
| e_set: "log_event_step (Set_Target f) r (on_state (lset (Some f)) r)"

text \<open>
  Runs whose events are allowed in the state they happen in. In a quiet run \<^verbatim>\<open>lset\<close> is called only
  while no thread prints.
\<close>

definition quiet :: "log_event \<Rightarrow> log_run \<Rightarrow> bool" where
  "quiet e r = (case e of Set_Target f \<Rightarrow> log_mutex (state r) = None | _ \<Rightarrow> True)"

definition started_log :: "(nat \<Rightarrow> bool) \<Rightarrow> log_run" where
  "started_log opened = \<lparr>state = init_log \<lparr>target = None, open_streams = opened, on_file = (\<lambda>_. []),
     in_buffer = (\<lambda>_. []), log_mutex = None\<rparr>, pcs = (\<lambda>_. L_Idle), begun = []\<rparr>"

inductive log_reachable :: "(log_event \<Rightarrow> log_run \<Rightarrow> bool) \<Rightarrow> (nat \<Rightarrow> bool) \<Rightarrow> log_run \<Rightarrow> bool" for allowed opened where
  r_start: "log_reachable allowed opened (started_log opened)"
| r_next: "log_reachable allowed opened r \<Longrightarrow> allowed e r \<Longrightarrow> log_event_step e r r' \<Longrightarrow> log_reachable allowed opened r'"

inductive_cases log_event_stepE: "log_event_step e r r'"
inductive_cases log_stepE: "log_step i r r'"

section \<open>Whole lines\<close>

text \<open>The part of its line that a thread has written.\<close>

fun part_of :: "log_pc \<Rightarrow> string option" where
  "part_of L_Idle = None"
| "part_of (L_Lock c m) = None"
| "part_of (L_Star c m) = Some []"
| "part_of (L_Message c m) = Some (star_text c)"
| "part_of (L_End c m) = Some (star_text c @ m)"
| "part_of (L_Flush c m) = Some (star_text c @ m @ end_text)"
| "part_of (L_Unlock c m) = Some (star_text c @ m @ end_text)"

fun call_of :: "log_pc \<Rightarrow> (string \<times> string) option" where
  "call_of L_Idle = None"
| "call_of (L_Lock c m) = None"
| "call_of (L_Star c m) = Some (c, m)"
| "call_of (L_Message c m) = Some (c, m)"
| "call_of (L_End c m) = Some (c, m)"
| "call_of (L_Flush c m) = Some (c, m)"
| "call_of (L_Unlock c m) = Some (c, m)"

definition lines_of :: "nat \<Rightarrow> (nat \<times> string \<times> string) list \<Rightarrow> string" where
  "lines_of f calls = concat (map (line_text \<circ> snd) (filter (\<lambda>(g, _). g = f) calls))"

text \<open>
  The invariant. No thread holds the mutex, and every stream has the lines of its calls and an
  empty buffer; or one does, and its target has the lines of the earlier calls and the part of
  the last one.
\<close>

definition log_inv :: "log_run \<Rightarrow> bool" where
  "log_inv r \<longleftrightarrow>
     (\<forall>i. part_of (pcs r i) \<noteq> None \<longleftrightarrow> log_mutex (state r) = Some i) \<and>
     (case log_mutex (state r) of
        None \<Rightarrow> \<forall>f. all_text (state r) f = lines_of f (begun r) \<and> in_buffer (state r) f = []
      | Some i \<Rightarrow> \<exists>g t calls cm. target (state r) = Some g \<and> begun r = calls @ [(g, cm)] \<and>
          part_of (pcs r i) = Some t \<and> call_of (pcs r i) = Some cm \<and>
          (\<forall>f. all_text (state r) f = lines_of f calls @ (if f = g then t else []) \<and>
             (f \<noteq> g \<or> (\<exists>c m. pcs r i = L_Unlock c m) \<longrightarrow> in_buffer (state r) f = [])))"

lemma lines_of_snoc: "lines_of f (calls @ [(g, cm)]) = lines_of f calls @ (if f = g then line_text cm else [])"
  by (simp add: lines_of_def)

lemma line_parts: "line_text (c, m) = star_text c @ m @ end_text"
  by (simp add: line_text_def)

lemma all_text_put: "all_text (fput g t s) f = all_text s f @ (if f = g then t else [])"
  by (simp add: all_text_def fput_def)

lemma drain_simps [simp]:
  "all_text (drain g n s) f = all_text s f"
  "log_mutex (drain g n s) = log_mutex s" "target (drain g n s) = target s"
  by (simp_all add: all_text_def drain_def)

lemma fput_simps [simp]:
  "log_mutex (fput g t s) = log_mutex s" "target (fput g t s) = target s"
  "in_buffer (fput g t s) f = (if f = g then in_buffer s f @ t else in_buffer s f)"
  by (simp_all add: fput_def)

lemma drain_buffer [simp]: "in_buffer (drain g n s) f = (if f = g then drop n (in_buffer s f) else in_buffer s f)"
  by (simp add: drain_def)

lemma fflush_simps [simp]:
  "all_text (fflush g s) f = all_text s f" "log_mutex (fflush g s) = log_mutex s" "target (fflush g s) = target s"
  "in_buffer (fflush g s) f = (if f = g then [] else in_buffer s f)"
  by (simp_all add: fflush_def)

text \<open>The mutex and the texts are all the invariant is about.\<close>

lemma all_text_other [simp]:
  "all_text (s\<lparr>log_mutex := x\<rparr>) f = all_text s f" "all_text (s\<lparr>target := y\<rparr>) f = all_text s f"
  by (simp_all add: all_text_def)

lemma log_inv_free:
  assumes "log_inv r" "log_mutex (state r) = None"
  shows "all_text (state r) f = lines_of f (begun r)" "in_buffer (state r) f = []" "part_of (pcs r i) = None"
  using assms by (auto simp: log_inv_def)

lemma log_inv_held:
  assumes "log_inv r" "part_of (pcs r i) = Some t" "call_of (pcs r i) = Some cm" "target (state r) = Some g"
  shows "log_mutex (state r) = Some i" "\<exists>calls. begun r = calls @ [(g, cm)] \<and>
    (\<forall>f. all_text (state r) f = lines_of f calls @ (if f = g then t else []) \<and>
      (f \<noteq> g \<or> (\<exists>c m. pcs r i = L_Unlock c m) \<longrightarrow> in_buffer (state r) f = []))"
proof -
  from assms(1,2) show m: "log_mutex (state r) = Some i" by (auto simp: log_inv_def)
  with assms show "\<exists>calls. begun r = calls @ [(g, cm)] \<and>
    (\<forall>f. all_text (state r) f = lines_of f calls @ (if f = g then t else []) \<and>
      (f \<noteq> g \<or> (\<exists>c m. pcs r i = L_Unlock c m) \<longrightarrow> in_buffer (state r) f = []))"
    by (auto simp: log_inv_def)
qed

text \<open>A state in which thread \<open>i\<close> holds the mutex.\<close>

lemma log_inv_heldI:
  assumes "log_mutex (state r) = Some i" "\<And>j. part_of (pcs r j) \<noteq> None \<longleftrightarrow> j = i"
    and "target (state r) = Some g" "begun r = calls @ [(g, cm)]"
    and "part_of (pcs r i) = Some t" "call_of (pcs r i) = Some cm"
    and "\<And>f. all_text (state r) f = lines_of f calls @ (if f = g then t else [])"
    and "\<And>f. f \<noteq> g \<or> (\<exists>c m. pcs r i = L_Unlock c m) \<Longrightarrow> in_buffer (state r) f = []"
  shows "log_inv r"
  unfolding log_inv_def using assms by auto

lemma goto_simps [simp]:
  "state (goto i pc r) = state r" "begun (goto i pc r) = begun r"
  "pcs (goto i pc r) j = (if j = i then pc else pcs r j)"
  "state (on_state h r) = h (state r)" "begun (on_state h r) = begun r" "pcs (on_state h r) = pcs r"
  by (simp_all add: goto_def on_state_def)

lemma log_inv_others:
  assumes "log_inv r" "part_of (pcs r i) = Some t"
  shows "part_of (pcs r j) \<noteq> None \<longleftrightarrow> j = i"
proof -
  have "log_mutex (state r) = Some i" using assms unfolding log_inv_def by auto
  moreover have "part_of (pcs r j) \<noteq> None \<longleftrightarrow> log_mutex (state r) = Some j" using assms(1) unfolding log_inv_def by blast
  ultimately show ?thesis by auto
qed

text \<open>The statements that write keep the invariant.\<close>

lemma log_inv_write:
  assumes inv: "log_inv r" and at: "part_of (pcs r i) = Some t" "call_of (pcs r i) = Some cm"
    and goes: "part_of pc = Some (t @ u)" "call_of pc = Some cm" "\<And>c m. pc \<noteq> L_Unlock c m"
    and target: "target (state r) = Some g"
  shows "log_inv (goto i pc (on_state (fput g u) r))"
proof -
  from log_inv_held [OF inv at target] obtain calls where m: "log_mutex (state r) = Some i"
    and calls: "begun r = calls @ [(g, cm)]"
    and texts: "\<And>f. all_text (state r) f = lines_of f calls @ (if f = g then t else [])"
    and buffers: "\<And>f. f \<noteq> g \<Longrightarrow> in_buffer (state r) f = []" by blast
  show ?thesis
    by (rule log_inv_heldI [of _ i g calls cm "t @ u"])
      (use m calls goes target log_inv_others [OF inv at(1)] in \<open>simp_all add: all_text_put texts buffers\<close>)
qed

lemma log_inv_statement:
  assumes "log_step i r r'" "log_inv r"
  shows "log_inv r'"
  using assms
proof (induction rule: log_step.induct)
  case (l_call r i c m)
  then show ?case by (auto simp: log_inv_def split: option.splits)
next
  case (l_lock r i c m f)
  note free = log_inv_free [OF l_lock.prems l_lock.hyps(2)]
  show ?case
    by (rule log_inv_heldI [of _ i f "begun r" "(c, m)" "[]"]) (use l_lock free in auto)
next
  case (l_star r i c m f)
  then show ?case by (intro log_inv_write [where t = "[]"]) auto
next
  case (l_message r i c m f)
  then show ?case by (intro log_inv_write [where t = "star_text c"]) auto
next
  case (l_end r i c m f)
  then show ?case by (intro log_inv_write [where t = "star_text c @ m"]) auto
next
  case (l_flush r i c m f)
  then have at: "part_of (pcs r i) = Some (star_text c @ m @ end_text)" "call_of (pcs r i) = Some (c, m)" by simp_all
  from log_inv_held [OF l_flush.prems at l_flush.hyps(2)] obtain calls where m: "log_mutex (state r) = Some i"
    and calls: "begun r = calls @ [(f, c, m)]"
    and texts: "\<And>g. all_text (state r) g = lines_of g calls @ (if g = f then star_text c @ m @ end_text else [])"
    and buffers: "\<And>g. g \<noteq> f \<Longrightarrow> in_buffer (state r) g = []" by blast
  show ?case
    by (rule log_inv_heldI [of _ i f calls "(c, m)" "star_text c @ m @ end_text"])
      (use m calls l_flush.hyps log_inv_others [OF l_flush.prems at(1)] in \<open>simp_all add: texts buffers\<close>)
next
  case (l_unlock r i c m)
  then have at: "part_of (pcs r i) = Some (star_text c @ m @ end_text)" "call_of (pcs r i) = Some (c, m)" by simp_all
  have mu: "log_mutex (state r) = Some i" using l_unlock.prems at(1) unfolding log_inv_def by auto
  then obtain g where tg: "target (state r) = Some g" using l_unlock.prems unfolding log_inv_def by auto
  from log_inv_held [OF l_unlock.prems at tg] l_unlock.hyps obtain calls where calls: "begun r = calls @ [(g, c, m)]"
    and texts: "\<And>f. all_text (state r) f = lines_of f calls @ (if f = g then star_text c @ m @ end_text else [])"
    and buffers: "\<And>f. in_buffer (state r) f = []" by blast
  have "\<And>j. j \<noteq> i \<Longrightarrow> part_of (pcs r j) = None"
    using log_inv_others [OF l_unlock.prems at(1)] by blast
  then show ?case
    by (simp add: log_inv_def texts buffers calls lines_of_snoc line_parts)
qed

lemma log_inv_event:
  assumes "log_event_step e r r'" "quiet e r" "log_inv r"
  shows "log_inv r'"
  using assms
proof (induction rule: log_event_step.induct)
  case (e_statement i r r')
  then show ?case by (simp add: log_inv_statement)
next
  case (e_library f n r)
  then show ?case by (auto simp: log_inv_def split: option.splits)
next
  case (e_set f r)
  then show ?case by (auto simp: log_inv_def lset_def quiet_def split: option.splits)
qed

lemma log_inv_reachable: "log_reachable quiet opened r \<Longrightarrow> log_inv r"
proof (induction rule: log_reachable.induct)
  case r_start
  then show ?case by (simp add: log_inv_def started_log_def init_log_def all_text_def lines_of_def)
next
  case (r_next r e r')
  then show ?case by (simp add: log_inv_event)
qed

lemma log_inv_begun:
  assumes "log_inv r"
  shows "\<exists>rest. lines_of f (begun r) = all_text (state r) f @ rest"
proof (cases "log_mutex (state r)")
  case None
  with assms show ?thesis by (simp add: log_inv_def)
next
  case (Some i)
  with assms obtain g t calls cm where calls: "begun r = calls @ [(g, cm)]" and at: "part_of (pcs r i) = Some t" "call_of (pcs r i) = Some cm"
    and texts: "all_text (state r) f = lines_of f calls @ (if f = g then t else [])"
    by (auto simp: log_inv_def)
  have "\<exists>u. line_text cm = t @ u" using at by (cases "pcs r i") (auto simp: line_parts)
  then show ?thesis by (auto simp: calls texts lines_of_snoc)
qed

text \<open>A whole call that no other thread interrupts, with one \<^verbatim>\<open>lset\<close> after the first text when \<open>g\<close> is another stream.\<close>

definition after_call :: "nat \<Rightarrow> nat \<Rightarrow> nat \<Rightarrow> string \<Rightarrow> string \<Rightarrow> log_state \<Rightarrow> log_state" where
  "after_call i f g c m s = (fflush g (fput g end_text (fput g m (lset (Some g) (fput f (star_text c) (s\<lparr>log_mutex := Some i\<rparr>))))))
     \<lparr>log_mutex := None\<rparr>"

lemma r_statement:
  "log_reachable allowed opened r \<Longrightarrow> log_step i r r' \<Longrightarrow> allowed (Statement i) r \<Longrightarrow> log_reachable allowed opened r'"
  by (rule r_next [OF _ _ e_statement])

lemma log_call_reachable:
  assumes r: "log_reachable allowed opened r" and at: "pcs r i = L_Idle" "log_mutex (state r) = None"
    and target: "target (state r) = Some f" "open_streams (state r) f" "open_streams (state r) g"
    and allowed: "\<And>r. allowed (Statement i) r" "\<And>r. g \<noteq> f \<Longrightarrow> allowed (Set_Target g) r"
  shows "\<exists>r'. log_reachable allowed opened r' \<and> state r' = after_call i f g c m (state r) \<and> pcs r' = pcs r \<and>
    begun r' = begun r @ [(f, c, m)]"
proof -
  define r1 where "r1 = goto i (L_Lock c m) r"
  define r2 where "r2 = (goto i (L_Star c m) (on_state (\<lambda>s. s\<lparr>log_mutex := Some i\<rparr>) r1))\<lparr>begun := begun r1 @ [(f, c, m)]\<rparr>"
  define r3 where "r3 = goto i (L_Message c m) (on_state (fput f (star_text c)) r2)"
  define r4 where "r4 = on_state (lset (Some g)) r3"
  define r5 where "r5 = goto i (L_End c m) (on_state (fput g m) r4)"
  define r6 where "r6 = goto i (L_Flush c m) (on_state (fput g end_text) r5)"
  define r7 where "r7 = goto i (L_Unlock c m) (on_state (fflush g) r6)"
  define r8 where "r8 = goto i L_Idle (on_state (\<lambda>s. s\<lparr>log_mutex := None\<rparr>) r7)"
  have "log_step i r r1" unfolding r1_def by (rule l_call [OF at(1)])
  from r_statement [OF r this allowed(1)] have R1: "log_reachable allowed opened r1" .
  have "log_step i r1 r2" unfolding r2_def by (rule l_lock) (use at target in \<open>simp_all add: r1_def\<close>)
  from r_statement [OF R1 this allowed(1)] have R2: "log_reachable allowed opened r2" .
  have "log_step i r2 r3" unfolding r3_def by (rule l_star) (use target in \<open>simp_all add: r2_def r1_def\<close>)
  from r_statement [OF R2 this allowed(1)] have R3: "log_reachable allowed opened r3" .
  have R4: "log_reachable allowed opened r4"
  proof (cases "g = f")
    case True
    then have "r4 = r3" using target by (simp add: r4_def r3_def r2_def r1_def on_state_def goto_def lset_def fput_def)
    with R3 show ?thesis by simp
  next
    case False
    show ?thesis unfolding r4_def by (rule r_next [OF R3 allowed(2) [OF False] e_set])
  qed
  have "log_step i r4 r5" unfolding r5_def
    by (rule l_message) (use target in \<open>simp_all add: r4_def r3_def r2_def r1_def lset_def fput_def\<close>)
  from r_statement [OF R4 this allowed(1)] have R5: "log_reachable allowed opened r5" .
  have "log_step i r5 r6" unfolding r6_def
    by (rule l_end) (use target in \<open>simp_all add: r5_def r4_def r3_def r2_def r1_def lset_def fput_def\<close>)
  from r_statement [OF R5 this allowed(1)] have R6: "log_reachable allowed opened r6" .
  have "log_step i r6 r7" unfolding r7_def
    by (rule l_flush) (use target in \<open>simp_all add: r6_def r5_def r4_def r3_def r2_def r1_def lset_def fput_def\<close>)
  from r_statement [OF R6 this allowed(1)] have R7: "log_reachable allowed opened r7" .
  have "log_step i r7 r8" unfolding r8_def by (rule l_unlock) (simp add: r7_def)
  from r_statement [OF R7 this allowed(1)] have R8: "log_reachable allowed opened r8" .
  have "state r8 = after_call i f g c m (state r)" "pcs r8 = pcs r" "begun r8 = begun r @ [(f, c, m)]"
    using at by (simp_all add: r8_def r7_def r6_def r5_def r4_def r3_def r2_def r1_def after_call_def fun_eq_iff)
  with R8 show ?thesis by blast
qed

text \<open>An \<^verbatim>\<open>lset\<close> while a thread prints: the line is spread over two streams, and its beginning stays in the buffer.\<close>

lemma lset_splits_line:
  "\<exists>r. log_reachable (\<lambda>_ _. True) (\<lambda>_. True) r \<and> log_mutex (state r) = None \<and> begun r = [(stdout, c, m)] \<and>
     on_file (state r) stdout = [] \<and> in_buffer (state r) stdout = star_text c \<and> on_file (state r) 2 = m @ end_text"
proof -
  let ?o = "\<lambda>_ :: nat. True"
  from log_call_reachable [OF r_start [of "\<lambda>_ _. True" ?o], of 0 stdout 2 c m]
  obtain r where "log_reachable (\<lambda>_ _. True) ?o r" "state r = after_call 0 stdout 2 c m (state (started_log ?o))"
      "begun r = begun (started_log ?o) @ [(stdout, c, m)]"
    by (auto simp: started_log_def init_log_def)
  then show ?thesis
    by (intro exI [of _ r])
      (simp add: after_call_def started_log_def init_log_def flush_all all_text_def fput_def lset_def stdout_def)
qed

section \<open>Properties\<close>

text \<open>
  C30: lines are whole. However the threads that log are interleaved and whenever the C library
  writes its buffers out, whenever no thread holds the mutex every file has exactly the lines of
  its calls, in the order in which the calls took the mutex, and at any time what is on the file
  is a beginning of these lines. \<^verbatim>\<open>lset\<close> does not take the mutex, so that this holds for the
  runs in which it is not called while a thread prints.
\<close>

theorem log_lines_whole:
  assumes "log_reachable quiet opened r"
  shows "(log_mutex (state r) = None \<longrightarrow> on_file (state r) f = lines_of f (begun r)) \<and>
    (\<exists>rest. lines_of f (begun r) = on_file (state r) f @ rest)"
proof -
  note inv = log_inv_reachable [OF assms]
  have "log_mutex (state r) = None \<Longrightarrow> on_file (state r) f = lines_of f (begun r)"
    using log_inv_free [OF inv] by (simp add: all_text_def)
  moreover from log_inv_begun [OF inv, of f] have "\<exists>rest. lines_of f (begun r) = on_file (state r) f @ rest"
    by (auto simp: all_text_def)
  ultimately show ?thesis by blast
qed

theorem log_lines_whole_witness:
  "\<exists>r. log_reachable quiet (\<lambda>_. True) r \<and> on_file (state r) stdout = line_text (ANSI_RED, ''no'') @ line_text (ANSI_GREEN, ''yes'')"
proof -
  let ?o = "\<lambda>_ :: nat. True"
  have q: "quiet (Statement i) r" for i r by (simp add: quiet_def)
  obtain r where r: "log_reachable quiet ?o r" "state r = after_call 3 stdout stdout ANSI_RED ''no'' (state (started_log ?o))"
      "pcs r = pcs (started_log ?o)" "begun r = [(stdout, ANSI_RED, ''no'')]"
    using log_call_reachable [OF r_start [of quiet ?o], of 3 stdout stdout ANSI_RED "''no''"] q
    by (auto simp: started_log_def init_log_def)
  have s: "pcs r 5 = L_Idle" "log_mutex (state r) = None" "target (state r) = Some stdout" "open_streams (state r) stdout"
    by (simp_all add: r started_log_def init_log_def after_call_def lset_def fput_def flush_all)
  obtain t where t: "log_reachable quiet ?o t" "state t = after_call 5 stdout stdout ANSI_GREEN ''yes'' (state r)"
      "begun t = begun r @ [(stdout, ANSI_GREEN, ''yes'')]"
    using log_call_reachable [OF r(1) s(1,2,3,4,4), of ANSI_GREEN "''yes''"] q by auto
  have "log_mutex (state t) = None" by (simp add: t after_call_def)
  with log_lines_whole [OF t(1), of stdout] t r(4) have
    "on_file (state t) stdout = line_text (ANSI_RED, ''no'') @ line_text (ANSI_GREEN, ''yes'')"
    by (simp add: lines_of_def)
  with t(1) show ?thesis by blast
qed

end
