(* ===== verification/Resolver_Use.thy ===== *)
theory Resolver_Use
  imports Required_Use Python_Types
begin

text \<open>
  The use flags of the resolver (\<^verbatim>\<open>portage/resolve.py\<close>, in Python): what an atom requires of the
  flags of a selected ebuild (\<^verbatim>\<open>UseSelection\<close>), the check of a required-use expression
  (\<^verbatim>\<open>RequiredUseHook\<close>), and the hooks that run when flags change (\<^verbatim>\<open>SelectedEbuild\<close>). An operation
  returns the exception that it raises, if any, with the state that it leaves.
\<close>

section \<open>Suggestions and exceptions\<close>

datatype suggest_op = S_LEAST_ONE | S_EXACT_ONE | S_MOST_ONE | S_AND

datatype suggestion =
    UseSuggestion "string option" bool
  | SuggestionExpression suggest_op "suggestion list"

datatype resolve_exc =
    RequiredUseException suggestion
  | No_Such_Flag
  | Not_Iterable
  | Bad_Default

type_synonym 'a resolved = "resolve_exc + 'a"

section \<open>Required use\<close>

text \<open>
  The loop of \<^verbatim>\<open>evaluate_required_use\<close>: the suggestions, and how many of the expressions hold. An
  empty list is None, over which Python cannot iterate.
\<close>

definition bind_exc :: "'a resolved \<Rightarrow> ('a \<Rightarrow> 'b resolved) \<Rightarrow> 'b resolved" where
  "bind_exc m f = (case m of Inl e \<Rightarrow> Inl e | Inr x \<Rightarrow> f x)"

lemma bind_exc_simps [simp]: "bind_exc (Inl e) f = Inl e" "bind_exc (Inr x) f = f x"
  by (simp_all add: bind_exc_def)

lemma bind_exc_cong [fundef_cong]: "m = m' \<Longrightarrow> (\<And>x. m' = Inr x \<Longrightarrow> f x = f' x) \<Longrightarrow> bind_exc m f = bind_exc m' f'"
  by (cases m') simp_all

definition iterable_list :: "'a list \<Rightarrow> 'a list resolved" where
  "iterable_list xs = (if xs = [] then Inl Not_Iterable else Inr xs)"

fun evaluate_required_use :: "(string option \<Rightarrow> bool option) \<Rightarrow> required_use list \<Rightarrow> (suggestion list \<times> nat) resolved"
  and evaluate_one :: "(string option \<Rightarrow> bool option) \<Rightarrow> required_use \<Rightarrow> (suggestion list \<times> nat) resolved" where
  "evaluate_required_use flags [] = Inr ([], 0)"
| "evaluate_required_use flags (r # rs) =
     bind_exc (evaluate_one flags r) (\<lambda>(s, k).
     bind_exc (evaluate_required_use flags rs) (\<lambda>(s', k'). Inr (s @ s', k + k')))"
| "evaluate_one flags (RequiredUse name i op kids) =
     (if op = USE_OP_ENABLE \<or> op = USE_OP_DISABLE then
        case flags name of
          None \<Rightarrow> Inl No_Such_Flag
        | Some state \<Rightarrow>
            let target = (op = USE_OP_ENABLE) in
            if kids = [] \<and> state = target then Inr ([], 1)
            else if state = target then
              bind_exc (evaluate_required_use flags kids) (\<lambda>(s, k).
                if k = length kids then Inr ([], 1)
                else Inr ([SuggestionExpression S_LEAST_ONE
                  [UseSuggestion name (\<not> state), SuggestionExpression S_AND s]], 0))
            else if kids \<noteq> [] \<and> state = target then Inr ([], 1)
            else Inr ([UseSuggestion name (\<not> state)], 0)
      else if kids = [] then Inl Not_Iterable
      else bind_exc (evaluate_required_use flags kids) (\<lambda>(s, k).
        if op = USE_OP_LEAST_ONE then
          (if k \<ge> 1 then Inr ([], 1) else Inr ([SuggestionExpression S_LEAST_ONE s], 0))
        else if op = USE_OP_EXACT_ONE then
          (if k = 1 then Inr ([], 1) else Inr ([SuggestionExpression S_EXACT_ONE s], 0))
        else
          (if k \<le> 1 then Inr ([], 1) else Inr ([SuggestionExpression S_MOST_ONE s], 0))))"

definition RequiredUseHook_run ::
  "(string option \<Rightarrow> bool option) \<Rightarrow> required_use list \<Rightarrow> resolve_exc option" where
  "RequiredUseHook_run flags expression =
     (case bind_exc (iterable_list expression) (evaluate_required_use flags) of
        Inl e \<Rightarrow> Some e
      | Inr (s, k) \<Rightarrow> if k \<noteq> length expression then Some (RequiredUseException (SuggestionExpression S_AND s)) else None)"

text \<open>What the code takes an expression to mean: a condition must itself hold.\<close>

fun met :: "(string option \<Rightarrow> bool) \<Rightarrow> required_use \<Rightarrow> bool" where
  "met f (RequiredUse name i op kids) =
     (case op of
        USE_OP_ENABLE \<Rightarrow> f name \<and> list_all (met f) kids
      | USE_OP_DISABLE \<Rightarrow> \<not> f name \<and> list_all (met f) kids
      | USE_OP_LEAST_ONE \<Rightarrow> list_ex (met f) kids
      | USE_OP_EXACT_ONE \<Rightarrow> length (filter (met f) kids) = 1
      | USE_OP_MOST_ONE \<Rightarrow> length (filter (met f) kids) \<le> 1)"

text \<open>What the package manager specification takes it to mean.\<close>

fun satisfied :: "(string option \<Rightarrow> bool) \<Rightarrow> required_use \<Rightarrow> bool" where
  "satisfied f (RequiredUse name i op kids) =
     (case op of
        USE_OP_ENABLE \<Rightarrow> if kids = [] then f name else f name \<longrightarrow> list_all (satisfied f) kids
      | USE_OP_DISABLE \<Rightarrow> if kids = [] then \<not> f name else \<not> f name \<longrightarrow> list_all (satisfied f) kids
      | USE_OP_LEAST_ONE \<Rightarrow> list_ex (satisfied f) kids
      | USE_OP_EXACT_ONE \<Rightarrow> length (filter (satisfied f) kids) = 1
      | USE_OP_MOST_ONE \<Rightarrow> length (filter (satisfied f) kids) \<le> 1)"

text \<open>The flags that an expression names, and that its groups are not empty.\<close>

fun ru_names :: "required_use \<Rightarrow> string option set" where
  "ru_names (RequiredUse name i op kids) =
     (if op = USE_OP_ENABLE \<or> op = USE_OP_DISABLE then {name} else {}) \<union> \<Union>(set (map ru_names kids))"

fun groups_full :: "required_use \<Rightarrow> bool" where
  "groups_full (RequiredUse name i op kids) \<longleftrightarrow>
     (op = USE_OP_ENABLE \<or> op = USE_OP_DISABLE \<or> kids \<noteq> []) \<and> list_all groups_full kids"

text \<open>No conditions: flags have no children.\<close>

fun unconditional :: "required_use \<Rightarrow> bool" where
  "unconditional (RequiredUse name i op kids) \<longleftrightarrow>
     (op = USE_OP_ENABLE \<or> op = USE_OP_DISABLE \<longrightarrow> kids = []) \<and> list_all unconditional kids"

lemma evaluate_met:
  "(\<And>n. n \<in> \<Union>(set (map ru_names rs)) \<Longrightarrow> flags n = Some (f n)) \<Longrightarrow> list_all groups_full rs \<Longrightarrow>
    \<exists>s. evaluate_required_use flags rs = Inr (s, length (filter (met f) rs)) \<and>
      length s + length (filter (met f) rs) = length rs"
  "(\<And>n. n \<in> ru_names r \<Longrightarrow> flags n = Some (f n)) \<Longrightarrow> groups_full r \<Longrightarrow>
    \<exists>s. evaluate_one flags r = Inr (s, if met f r then 1 else 0) \<and> length s = (if met f r then 0 else 1)"
proof (induction flags rs and flags r rule: evaluate_required_use_evaluate_one.induct)
  case (1 flags)
  then show ?case by simp
next
  case (2 flags r rs)
  then obtain s s' where "evaluate_one flags r = Inr (s, if met f r then 1 else 0)" "length s = (if met f r then 0 else 1)"
    "evaluate_required_use flags rs = Inr (s', length (filter (met f) rs))"
    "length s' + length (filter (met f) rs) = length rs" by fastforce
  then show ?case by simp
next
  case (3 flags name i op kids)
  have names: "flags n = Some (f n)" if "n \<in> \<Union>(set (map ru_names kids))" for n
    using 3(3) [of n] that by simp
  have full: "list_all groups_full kids" using 3(4) by simp
  have all: "length (filter (met f) kids) = length kids \<longleftrightarrow> list_all (met f) kids"
    by (metis filter_True filter_id_conv length_filter_less list_all_iff nat_neq_iff)
  have ex: "1 \<le> length (filter (met f) kids) \<longleftrightarrow> list_ex (met f) kids"
    by (auto simp: list_ex_iff Suc_le_eq filter_empty_conv)
  show ?case
  proof (cases "op = USE_OP_ENABLE \<or> op = USE_OP_DISABLE")
    case True
    then have name: "flags name = Some (f name)" using 3(3) [of name] by simp
    show ?thesis
    proof (cases "f name = (op = USE_OP_ENABLE) \<and> kids \<noteq> []")
      case cond: True
      with 3(1) [OF True name refl _ _ names full] obtain s where
        "evaluate_required_use flags kids = Inr (s, length (filter (met f) kids))" by auto
      with True name cond show ?thesis by (auto simp: Let_def all)
    next
      case False
      with True name show ?thesis by (cases kids) (auto simp: Let_def)
    qed
  next
    case False
    then have "kids \<noteq> []" using 3(4) by simp
    with 3(2) [OF False _ names full] obtain s where
      "evaluate_required_use flags kids = Inr (s, length (filter (met f) kids))" by auto
    with False \<open>kids \<noteq> []\<close> show ?thesis
      by (cases op) (auto simp: ex [unfolded One_nat_def])
  qed
qed

lemma met_satisfied: "unconditional r \<Longrightarrow> met f r = satisfied f r"
proof (induction r)
  case (RequiredUse name i op kids)
  then have "met f k = satisfied f k" if "k \<in> set kids" for k using that by (simp add: list_all_iff)
  then have "list_all (met f) kids = list_all (satisfied f) kids" "list_ex (met f) kids = list_ex (satisfied f) kids"
    "filter (met f) kids = filter (satisfied f) kids"
    by (simp_all add: list_all_iff list_ex_iff cong: filter_cong)
  with RequiredUse.prems show ?case by (cases op) auto
qed

text \<open>
  What a suggestion asks of the flags, as \<^verbatim>\<open>common.py\<close> explains its operators, and the expressions
  made of flags and of \<open>||\<close> groups: of these the suggestions are exact.
\<close>

fun suggests :: "(string option \<Rightarrow> bool) \<Rightarrow> suggestion \<Rightarrow> bool" where
  "suggests g (UseSuggestion name b) \<longleftrightarrow> g name = b"
| "suggests g (SuggestionExpression op ss) \<longleftrightarrow>
     (case op of
        S_LEAST_ONE \<Rightarrow> list_ex (suggests g) ss
      | S_EXACT_ONE \<Rightarrow> length (filter (suggests g) ss) = 1
      | S_MOST_ONE \<Rightarrow> length (filter (suggests g) ss) \<le> 1
      | S_AND \<Rightarrow> list_all (suggests g) ss)"

fun choices :: "required_use \<Rightarrow> bool" where
  "choices (RequiredUse name i op kids) \<longleftrightarrow>
     (if op = USE_OP_ENABLE \<or> op = USE_OP_DISABLE then kids = [] else op = USE_OP_LEAST_ONE \<and> list_all choices kids)"

lemma list_all2_ex: "list_all2 R xs ys \<Longrightarrow> (\<And>x y. R x y \<Longrightarrow> P x = Q y) \<Longrightarrow> list_ex P xs = list_ex Q ys"
  by (induction rule: list_all2_induct) auto

lemma list_all2_all: "list_all2 R xs ys \<Longrightarrow> (\<And>x y. R x y \<Longrightarrow> P x = Q y) \<Longrightarrow> list_all P xs = list_all Q ys"
  by (induction rule: list_all2_induct) auto

lemma evaluate_suggests:
  "(\<And>n. n \<in> \<Union>(set (map ru_names rs)) \<Longrightarrow> flags n = Some (f n)) \<Longrightarrow> list_all groups_full rs \<Longrightarrow> list_all choices rs \<Longrightarrow>
    evaluate_required_use flags rs = Inr (s, k) \<Longrightarrow>
    list_all2 (\<lambda>x r. \<forall>g. suggests g x = met g r) s (filter (\<lambda>r. \<not> met f r) rs)"
  "(\<And>n. n \<in> ru_names r \<Longrightarrow> flags n = Some (f n)) \<Longrightarrow> groups_full r \<Longrightarrow> choices r \<Longrightarrow>
    evaluate_one flags r = Inr (s, k) \<Longrightarrow> \<not> met f r \<Longrightarrow> \<exists>x. s = [x] \<and> (\<forall>g. suggests g x = met g r)"
proof (induction flags rs and flags r arbitrary: s k and s k rule: evaluate_required_use_evaluate_one.induct)
  case (1 flags)
  then show ?case by simp
next
  case (2 flags r rs)
  have n: "flags n = Some (f n)" if "n \<in> ru_names r \<or> n \<in> \<Union>(set (map ru_names rs))" for n using 2(3) that by auto
  obtain t where t: "evaluate_one flags r = Inr (t, if met f r then 1 else 0)" "length t = (if met f r then 0 else 1)"
    using evaluate_met(2) [of r flags f] n 2(4) by auto
  obtain t' where t': "evaluate_required_use flags rs = Inr (t', length (filter (met f) rs))"
    using evaluate_met(1) [of rs flags f] n 2(4) by auto
  have s: "s = t @ t'" using 2(6) t t' by simp
  have rest: "list_all2 (\<lambda>x r. \<forall>g. suggests g x = met g r) t' (filter (\<lambda>r. \<not> met f r) rs)"
    using 2(2) [OF t(1) refl _ _ _ t'] n 2(4,5) by simp
  show ?case
  proof (cases "met f r")
    case True
    with t(2) rest s show ?thesis by simp
  next
    case False
    with 2(1) [OF _ _ _ t(1)] n 2(4,5) obtain x where "t = [x]" "\<forall>g. suggests g x = met g r" by auto
    with False rest s show ?thesis by simp
  qed
next
  case (3 flags name i op kids)
  show ?case
  proof (cases "op = USE_OP_ENABLE \<or> op = USE_OP_DISABLE")
    case True
    then have "flags name = Some (f name)" "kids = []" using 3(3) [of name] 3(5) by auto
    with True 3(6,7) show ?thesis by (auto simp: Let_def split: if_splits)
  next
    case False
    then have op: "op = USE_OP_LEAST_ONE" "list_all choices kids" "kids \<noteq> []" using 3(4,5) by auto
    have n: "flags n = Some (f n)" if "n \<in> \<Union>(set (map ru_names kids))" for n using 3(3) [of n] that by simp
    obtain t where t: "evaluate_required_use flags kids = Inr (t, length (filter (met f) kids))"
      using evaluate_met(1) [of kids flags f] n 3(4) by auto
    have unmet: "filter (met f) kids = []" "filter (\<lambda>r. \<not> met f r) kids = kids"
      using 3(7) op(1) by (auto simp: list_ex_iff filter_empty_conv filter_id_conv)
    have "list_all2 (\<lambda>x r. \<forall>g. suggests g x = met g r) t kids"
      using 3(2) [OF False op(3) _ _ op(2) t] n 3(4) unmet by simp
    then have "list_ex (suggests g) t = list_ex (met g) kids" for g by (rule list_all2_ex) simp
    moreover have "s = [SuggestionExpression S_LEAST_ONE t]" using 3(6) op t unmet by simp
    ultimately show ?thesis using op by simp
  qed
qed

section \<open>Flags of a selected ebuild\<close>

text \<open>
  Hooks: the requirement of an atom, the condition of a dependency (whose expression is left out
  here; \<open>dirty\<close> says that it must be evaluated again), and required use.
\<close>

datatype hook =
    Use_Selection (sel_name: string) (target_value: bool) (enforcing: bool)
  | Use_Conditional string bool bool
  | Required_Use_Hook "required_use list"

record selected =
  iuse_flags :: "string \<rightharpoonup> bool"
  set_flags :: "string \<rightharpoonup> bool"
  flag_hooks :: "string \<Rightarrow> hook list"
  global_hooks :: "hook list"
  flag_queue :: "(string \<times> bool) list"
  dirty :: bool

type_synonym run = "resolve_exc option \<times> selected"

text \<open>Sequencing that stops at an exception and keeps the state.\<close>

definition andThen :: "run \<Rightarrow> (selected \<Rightarrow> run) \<Rightarrow> run" where
  "andThen r f = (case r of (None, s) \<Rightarrow> f s | (Some e, s) \<Rightarrow> (Some e, s))"

lemma andThen_simps [simp]: "andThen (None, s) f = f s" "andThen (Some e, s) f = (Some e, s)"
  by (simp_all add: andThen_def)

lemma andThen_None: "andThen r f = (None, s') \<longleftrightarrow> (\<exists>s. r = (None, s) \<and> f s = (None, s'))"
  by (cases r; cases "fst r") auto

definition has_use :: "selected \<Rightarrow> string \<Rightarrow> bool" where
  "has_use s name \<longleftrightarrow> set_flags s name \<noteq> None \<or> iuse_flags s name \<noteq> None"

definition get_use :: "selected \<Rightarrow> string \<Rightarrow> bool option" where
  "get_use s name = (case set_flags s name of None \<Rightarrow> iuse_flags s name | Some b \<Rightarrow> Some b)"

definition add_use :: "string \<Rightarrow> bool \<Rightarrow> selected \<Rightarrow> selected" where
  "add_use name val s = s\<lparr>set_flags := (set_flags s)(name \<mapsto> val)\<rparr>"

definition schedule_use :: "string \<Rightarrow> bool \<Rightarrow> selected \<Rightarrow> selected" where
  "schedule_use name state s = s\<lparr>flag_queue := flag_queue s @ [(name, state)], dirty := True\<rparr>"

text \<open>\<^verbatim>\<open>run_hook\<close> of the three classes: the hook afterwards, and the exception.\<close>

definition run_hook :: "selected \<Rightarrow> bool option \<Rightarrow> hook \<Rightarrow> resolve_exc option \<times> hook" where
  "run_hook s arg h =
     (case h of
        Use_Selection name target enf \<Rightarrow>
          (if enf \<and> arg \<noteq> Some target then Some (RequiredUseException (UseSuggestion (Some name) target)) else None, h)
      | Use_Conditional name state d \<Rightarrow> (None, Use_Conditional name state (Some state \<noteq> arg))
      | Required_Use_Hook expression \<Rightarrow>
          (RequiredUseHook_run (\<lambda>n. case n of None \<Rightarrow> None | Some x \<Rightarrow> get_use s x) expression, h))"

text \<open>Hooks run in order; those behind the one that raises do not run.\<close>

fun run_hooks :: "selected \<Rightarrow> bool option \<Rightarrow> hook list \<Rightarrow> resolve_exc option \<times> hook list" where
  "run_hooks s arg [] = (None, [])"
| "run_hooks s arg (h # hs) =
     (case run_hook s arg h of
        (Some e, h') \<Rightarrow> (Some e, h' # hs)
      | (None, h') \<Rightarrow> (case run_hooks s arg hs of (e, hs') \<Rightarrow> (e, h' # hs')))"

definition add_use_hook :: "string option \<Rightarrow> hook \<Rightarrow> selected \<Rightarrow> run" where
  "add_use_hook useflag h s =
     (case useflag of
        None \<Rightarrow> (case run_hook s None h of (e, h') \<Rightarrow> (e, s\<lparr>global_hooks := global_hooks s @ [h']\<rparr>))
      | Some name \<Rightarrow>
          (case get_use s name of
             None \<Rightarrow> (Some No_Such_Flag, s\<lparr>flag_hooks := (flag_hooks s)(name := flag_hooks s name @ [h])\<rparr>)
           | Some state \<Rightarrow>
               (case run_hook s (Some state) h of (e, h') \<Rightarrow>
                  (e, s\<lparr>flag_hooks := (flag_hooks s)(name := flag_hooks s name @ [h'])\<rparr>))))"

text \<open>The constructor of \<^verbatim>\<open>UseSelection\<close>: the hook, and the flag it schedules.\<close>

definition UseSelection_init :: "string \<Rightarrow> bool \<Rightarrow> atom_use_t \<Rightarrow> selected \<Rightarrow> hook \<times> selected" where
  "UseSelection_init name state flag s =
     (case flag of
        ATOM_USE_ENABLE \<Rightarrow> (Use_Selection name True True, schedule_use name True s)
      | ATOM_USE_DISABLE \<Rightarrow> (Use_Selection name False True, schedule_use name False s)
      | ATOM_USE_DISABLE_IF_OFF \<Rightarrow> (Use_Selection name state (\<not> state), s)
      | ATOM_USE_ENABLE_IF_ON \<Rightarrow> (Use_Selection name state state, s)
      | ATOM_USE_EQUAL \<Rightarrow> (Use_Selection name state True, s)
      | ATOM_USE_OPPOSITE \<Rightarrow> (Use_Selection name (\<not> state) True, schedule_use name (\<not> state) s))"

definition add_use_requirement :: "string \<Rightarrow> atom_use_t \<Rightarrow> selected \<Rightarrow> run" where
  "add_use_requirement name flag s =
     (case get_use s name of
        None \<Rightarrow> (Some No_Such_Flag, s)
      | Some state \<Rightarrow> (case UseSelection_init name state flag s of (h, s) \<Rightarrow> add_use_hook (Some name) h s))"

text \<open>
  The flags of an atom in \<^verbatim>\<open>resolve_single\<close>. The attribute \<^verbatim>\<open>default\<close> that Python reads is the
  field \<^verbatim>\<open>option\<close> (\<open>default_is_option\<close> below), and only its first three values are defaults.
\<close>

fun option_number :: "atom_use_t \<Rightarrow> int" where
  "option_number ATOM_USE_DISABLE = 0"
| "option_number ATOM_USE_ENABLE = 1"
| "option_number ATOM_USE_ENABLE_IF_ON = 2"
| "option_number ATOM_USE_DISABLE_IF_OFF = 3"
| "option_number ATOM_USE_EQUAL = 4"
| "option_number ATOM_USE_OPPOSITE = 5"

lemma default_is_option: "getattr PyAtomFlagType obj ''default'' = getattr PyAtomFlagType obj ''option''"
  by (simp add: getattr_def PyAtomFlagType_def PyAtomFlag_members_def)

definition resolve_use :: "atom_flag \<Rightarrow> selected \<Rightarrow> run" where
  "resolve_use use s =
     (let name = flag_name use; default = option_number (flag_option use)
      in if has_use s name then add_use_requirement name (flag_option use) s
         else if default = 0 then (Some No_Such_Flag, s)
         else if default = 1 then add_use_requirement name ATOM_USE_ENABLE (add_use name True s)
         else if default = 2 then add_use_requirement name ATOM_USE_DISABLE (add_use name False s)
         else (Some Bad_Default, s))"

fun resolve_uses :: "atom_flag list \<Rightarrow> selected \<Rightarrow> run" where
  "resolve_uses [] s = (None, s)"
| "resolve_uses (use # us) s = andThen (resolve_use use s) (resolve_uses us)"

text \<open>\<^verbatim>\<open>flush_use\<close>: the flag is set before its hooks run. No hook schedules a flag.\<close>

fun flush_flags :: "(string \<times> bool) list \<Rightarrow> selected \<Rightarrow> run" where
  "flush_flags [] s = (None, s\<lparr>flag_queue := []\<rparr>)"
| "flush_flags ((name, state) # q) s =
     (case get_use s name of
        None \<Rightarrow> (Some No_Such_Flag, s\<lparr>flag_queue := q\<rparr>)
      | Some old \<Rightarrow>
          if old = state then flush_flags q s
          else
            let s = s\<lparr>set_flags := (set_flags s)(name \<mapsto> state), flag_queue := q\<rparr>;
                (e, hs) = run_hooks s (Some state) (flag_hooks s name);
                s = s\<lparr>flag_hooks := (flag_hooks s)(name := hs)\<rparr>
            in if e \<noteq> None then (e, s)
               else (case run_hooks s None (global_hooks s) of (e, hs) \<Rightarrow>
                 let s = s\<lparr>global_hooks := hs\<rparr> in if e \<noteq> None then (e, s) else flush_flags q s))"

definition flush_use :: "selected \<Rightarrow> run" where
  "flush_use s = flush_flags (flag_queue s) s"

section \<open>Requirements\<close>

text \<open>A flag has the value that one of its hooks enforces.\<close>

definition enforced :: "string \<Rightarrow> bool \<Rightarrow> selected \<Rightarrow> bool" where
  "enforced n t s \<longleftrightarrow> Use_Selection n t True \<in> set (flag_hooks s n) \<and> get_use s n = Some t"

text \<open>
  What an operation keeps of one flag: values that are enforced, the table of defaults, and that it
  is set explicitly.
\<close>

definition keeps_flag :: "string \<Rightarrow> selected \<Rightarrow> selected \<Rightarrow> bool" where
  "keeps_flag n s s' \<longleftrightarrow> (\<forall>t. enforced n t s \<longrightarrow> enforced n t s') \<and> iuse_flags s' = iuse_flags s \<and>
     (set_flags s n \<noteq> None \<longrightarrow> set_flags s' n \<noteq> None)"

lemma keeps_flag_refl [simp]: "keeps_flag n s s"
  by (simp add: keeps_flag_def)

lemma keeps_flag_trans: "keeps_flag n s s' \<Longrightarrow> keeps_flag n s' s'' \<Longrightarrow> keeps_flag n s s''"
  by (simp add: keeps_flag_def)

lemma get_use_simps [simp]:
  "get_use (s\<lparr>flag_hooks := a\<rparr>) = get_use s" "get_use (s\<lparr>global_hooks := b\<rparr>) = get_use s"
  "get_use (s\<lparr>flag_queue := c\<rparr>) = get_use s" "get_use (schedule_use n val s) = get_use s"
  "get_use (add_use n val s) = (get_use s)(n \<mapsto> val)"
  "get_use (s\<lparr>set_flags := (set_flags s)(n \<mapsto> val)\<rparr>) = (get_use s)(n \<mapsto> val)"
  "flag_hooks (schedule_use n val s) = flag_hooks s" "global_hooks (schedule_use n val s) = global_hooks s"
  by (auto simp: get_use_def schedule_use_def add_use_def fun_eq_iff split: option.splits)

lemma has_use_get: "has_use s name \<longleftrightarrow> get_use s name \<noteq> None"
  by (auto simp: has_use_def get_use_def split: option.splits)

text \<open>When a requirement is accepted.\<close>

definition accepted :: "atom_use_t \<Rightarrow> bool \<Rightarrow> bool" where
  "accepted flag state \<longleftrightarrow>
     (case flag of ATOM_USE_ENABLE \<Rightarrow> state | ATOM_USE_DISABLE \<Rightarrow> \<not> state | ATOM_USE_OPPOSITE \<Rightarrow> False | _ \<Rightarrow> True)"

text \<open>Selections stay among the hooks, and the hooks of a flag that run without raising agree with the value they are given.\<close>

lemma run_hook_selection: "snd (run_hook s arg (Use_Selection n t e)) = Use_Selection n t e"
  by (simp add: run_hook_def)

lemma run_hook_other: "snd (run_hook s arg h) = Use_Selection n t e \<Longrightarrow> h = Use_Selection n t e"
  by (cases h) (auto simp: run_hook_def)

lemma run_hooks_selections:
  "Use_Selection n t e \<in> set (snd (run_hooks s arg hs)) \<longleftrightarrow> Use_Selection n t e \<in> set hs"
proof (induction hs)
  case Nil
  then show ?case by simp
next
  case (Cons h hs)
  obtain x h' where r: "run_hook s arg h = (x, h')" by (cases "run_hook s arg h")
  have "h' = Use_Selection n t e \<longleftrightarrow> h = Use_Selection n t e"
    using run_hook_other [of s arg h n t e] run_hook_selection [of s arg n t e] r by auto
  with Cons r show ?case by (cases x) (auto split: prod.splits)
qed

lemma run_hooks_enforced:
  "fst (run_hooks s arg hs) = None \<Longrightarrow> Use_Selection n t True \<in> set hs \<Longrightarrow> arg = Some t"
proof (induction hs)
  case Nil
  then show ?case by simp
next
  case (Cons h hs)
  obtain x h' where r: "run_hook s arg h = (x, h')" by (cases "run_hook s arg h")
  with Cons.prems(1) have "x = None" "fst (run_hooks s arg hs) = None" by (auto split: option.splits prod.splits)
  with Cons r show ?case by (auto simp: run_hook_def split: if_splits)
qed

lemma keeps_flag_hooks:
  assumes "set (flag_hooks s n) \<subseteq> set (flag_hooks s' n)" "get_use s' n = get_use s n" "iuse_flags s' = iuse_flags s" "set_flags s' = set_flags s"
  shows "keeps_flag n s s'"
  using assms by (auto simp: keeps_flag_def enforced_def)

lemma schedule_keeps: "keeps_flag n s (schedule_use m val s)"
  by (rule keeps_flag_hooks) (simp_all, simp_all add: schedule_use_def)

lemma add_use_keeps:
  assumes "\<not> has_use s m"
  shows "keeps_flag n s (add_use m val s)"
proof (cases "n = m")
  case True
  with assms show ?thesis by (auto simp: keeps_flag_def enforced_def has_use_get) (simp_all add: add_use_def)
next
  case False
  then show ?thesis by (simp add: keeps_flag_def enforced_def) (simp add: add_use_def)
qed

lemma add_use_hook_keeps: "add_use_hook flag h s = (e, s') \<Longrightarrow> keeps_flag n s s'"
  by (auto simp: add_use_hook_def split: option.splits prod.splits intro!: keeps_flag_hooks)

lemma add_use_requirement_keeps:
  assumes "add_use_requirement name flag s = (e, s')"
  shows "keeps_flag n s s'"
proof (cases "get_use s name")
  case None
  with assms show ?thesis by (simp add: add_use_requirement_def)
next
  case (Some state)
  obtain h s1 where init: "UseSelection_init name state flag s = (h, s1)" by fastforce
  then have "keeps_flag n s s1" by (cases flag) (auto simp: UseSelection_init_def schedule_keeps)
  moreover have "add_use_hook (Some name) h s1 = (e, s')" using assms Some init by (simp add: add_use_requirement_def)
  ultimately show ?thesis using add_use_hook_keeps keeps_flag_trans by blast
qed

lemma resolve_use_keeps:
  assumes "resolve_use use s = (e, s')"
  shows "keeps_flag n s s'"
  using assms keeps_flag_trans [OF add_use_keeps add_use_requirement_keeps]
  by (auto simp: resolve_use_def Let_def add_use_requirement_keeps split: if_splits)

text \<open>A requirement that is accepted is enforced.\<close>

lemma add_use_requirement_enforces:
  assumes "add_use_requirement name flag s = (None, s')"
  shows "flag = ATOM_USE_ENABLE \<Longrightarrow> enforced name True s'" "flag = ATOM_USE_DISABLE \<Longrightarrow> enforced name False s'"
    "flag \<noteq> ATOM_USE_OPPOSITE"
  using assms
  by (auto simp: add_use_requirement_def UseSelection_init_def add_use_hook_def run_hook_def enforced_def
      split: option.splits atom_use_t.splits if_splits)

lemma resolve_use_enforces:
  assumes "resolve_use use s = (None, s')"
  shows "flag_option use = ATOM_USE_ENABLE \<Longrightarrow> enforced (flag_name use) True s'"
    "flag_option use = ATOM_USE_DISABLE \<Longrightarrow> enforced (flag_name use) False s'" "flag_option use \<noteq> ATOM_USE_OPPOSITE"
  using assms add_use_requirement_enforces
  by (auto simp: resolve_use_def Let_def split: if_splits)

text \<open>Setting the scheduled flags: a flag is changed only to a value that its hooks accept.\<close>

lemma flush_flags_keeps:
  "flush_flags q s = (None, s') \<Longrightarrow> keeps_flag n s s'"
proof (induction q s rule: flush_flags.induct)
  case (1 s)
  then show ?case by (auto intro!: keeps_flag_hooks)
next
  case (2 name state q s)
  then obtain old where old: "get_use s name = Some old" by (auto split: option.splits)
  show ?case
  proof (cases "old = state")
    case True
    with 2 old show ?thesis by simp
  next
    case False
    define s1 where "s1 = s\<lparr>set_flags := (set_flags s)(name \<mapsto> state), flag_queue := q\<rparr>"
    obtain e hs where hs: "run_hooks s1 (Some state) (flag_hooks s1 name) = (e, hs)" by fastforce
    define s2 where "s2 = s1\<lparr>flag_hooks := (flag_hooks s1)(name := hs)\<rparr>"
    obtain e' gs where gs: "run_hooks s2 None (global_hooks s2) = (e', gs)" by fastforce
    define s3 where "s3 = s2\<lparr>global_hooks := gs\<rparr>"
    have e: "e = None" "e' = None" and rest: "flush_flags q s3 = (None, s')"
      using 2(3) old False hs gs by (auto simp: Let_def s1_def s2_def s3_def split: if_splits)
    have sel: "Use_Selection n t True \<in> set (flag_hooks s3 n)" if "Use_Selection n t True \<in> set (flag_hooks s n)" for t
      using that run_hooks_selections [of n t True s1 "Some state" "flag_hooks s1 name"] hs
      by (auto simp: s3_def s2_def s1_def)
    have "enforced n t s3" if t: "enforced n t s" for t
    proof (cases "n = name")
      case True
      with t have "Use_Selection n t True \<in> set (flag_hooks s1 name)" by (simp add: enforced_def s1_def)
      then have "Some state = Some t" using run_hooks_enforced [of s1 "Some state"] hs e(1) by (metis fst_conv)
      with t sel True show ?thesis by (simp add: enforced_def s3_def s2_def s1_def)
    next
      case False
      with t sel show ?thesis by (simp add: enforced_def s3_def s2_def s1_def)
    qed
    then have "keeps_flag n s s3" by (simp add: keeps_flag_def s3_def s2_def s1_def)
    moreover have "keeps_flag n s3 s'"
      using 2(2) [OF old False refl _ refl, of e hs] hs e gs rest by (simp add: s1_def s2_def s3_def)
    ultimately show ?thesis by (rule keeps_flag_trans)
  qed
qed

lemma has_use_Some: "get_use s name = Some b \<Longrightarrow> has_use s name"
  by (simp add: has_use_get)

lemma enabled_required:
  assumes "get_use s (flag_name use) = Some True" "flag_option use = ATOM_USE_ENABLE"
  shows "resolve_use use s = (None, (schedule_use (flag_name use) True s)\<lparr>flag_hooks := (flag_hooks s)
    (flag_name use := flag_hooks s (flag_name use) @ [Use_Selection (flag_name use) True True])\<rparr>)"
  using assms
  by (simp add: resolve_use_def has_use_Some Let_def add_use_requirement_def UseSelection_init_def add_use_hook_def run_hook_def)

section \<open>Properties\<close>

text \<open>
  C18: the check of required use. When every flag the expression names exists, the hook accepts
  exactly the flags under which every part of the expression is met, and otherwise raises an
  exception with one suggestion for each part that is not. Without conditions that is what the
  package manager specification asks; a condition whose flag has the other value is refused,
  where the specification accepts it. If the parts are flags and \<open>||\<close> groups, the suggestions are
  exact: flags satisfy them if and only if they meet every part that was not met.
\<close>

theorem required_use_enforced:
  assumes "rs \<noteq> []" and "list_all groups_full rs"
    and "\<forall>n \<in> \<Union>(set (map ru_names rs)). flags n = Some (f n)"
  shows "(RequiredUseHook_run flags rs = None \<longleftrightarrow> list_all (met f) rs) \<and>
    (\<not> list_all (met f) rs \<longrightarrow> (\<exists>ss. RequiredUseHook_run flags rs = Some (RequiredUseException (SuggestionExpression S_AND ss)) \<and>
       length ss = length (filter (\<lambda>r. \<not> met f r) rs) \<and>
       (list_all choices rs \<longrightarrow> (\<forall>g. suggests g (SuggestionExpression S_AND ss) \<longleftrightarrow> list_all (met g) (filter (\<lambda>r. \<not> met f r) rs))))) \<and>
    (list_all unconditional rs \<longrightarrow> list_all (met f) rs = list_all (satisfied f) rs) \<and>
    (\<forall>n i kids. RequiredUse n i USE_OP_ENABLE kids \<in> set rs \<and> \<not> f n \<longrightarrow> \<not> list_all (met f) rs)"
proof -
  obtain ss where ss: "evaluate_required_use flags rs = Inr (ss, length (filter (met f) rs))"
      "length ss + length (filter (met f) rs) = length rs"
    using evaluate_met(1) [of rs flags f] assms by auto
  have len: "length (filter (met f) rs) = length rs \<longleftrightarrow> list_all (met f) rs"
    by (metis filter_True filter_id_conv length_filter_less list_all_iff nat_neq_iff)
  have run: "RequiredUseHook_run flags rs =
      (if list_all (met f) rs then None else Some (RequiredUseException (SuggestionExpression S_AND ss)))"
    using assms(1) ss len by (auto simp: RequiredUseHook_run_def iterable_list_def)
  have n: "length ss = length (filter (\<lambda>r. \<not> met f r) rs)"
    using ss(2) sum_length_filter_compl [of "met f" rs] by simp
  have exact: "suggests g (SuggestionExpression S_AND ss) \<longleftrightarrow> list_all (met g) (filter (\<lambda>r. \<not> met f r) rs)"
    if "list_all choices rs" for g
    using list_all2_all [OF evaluate_suggests(1) [of rs flags f, OF _ assms(2) that ss(1)]] assms(3) by simp
  have "list_all (met f) rs = list_all (satisfied f) rs" if "list_all unconditional rs"
    using that met_satisfied by (simp add: list_all_iff)
  moreover have "\<not> list_all (met f) rs" if "RequiredUse n i USE_OP_ENABLE kids \<in> set rs" "\<not> f n" for n i kids
    using that unfolding list_all_iff by fastforce
  ultimately show ?thesis using run n exact by auto
qed

definition leaf :: "string \<Rightarrow> required_use" where
  "leaf name = RequiredUse (Some name) 0 USE_OP_ENABLE []"

theorem required_use_enforced_witness:
  "\<exists>ss. RequiredUseHook_run (\<lambda>n. Some (n = Some ''a'')) [leaf ''a'', RequiredUse None 0 USE_OP_LEAST_ONE [leaf ''b'', leaf ''c'']] =
      Some (RequiredUseException (SuggestionExpression S_AND ss)) \<and>
    length ss = 1 \<and> (\<forall>g. suggests g (SuggestionExpression S_AND ss) \<longleftrightarrow> g (Some ''b'') \<or> g (Some ''c''))"
proof -
  have nn: "[leaf ''a'', RequiredUse None 0 USE_OP_LEAST_ONE [leaf ''b'', leaf ''c'']] \<noteq> []" by simp
  from required_use_enforced [of "[leaf ''a'', RequiredUse None 0 USE_OP_LEAST_ONE [leaf ''b'', leaf ''c'']]" _ "\<lambda>n. n = Some ''a''", OF nn]
  show ?thesis by (simp add: leaf_def)
qed

text \<open>
  The suggestions for the condition \<open>a? ( b )\<close> go in a circle: with \<open>a\<close> on and \<open>b\<close> off, switching \<open>a\<close> off
  is suggested; with \<open>a\<close> off, switching it on. And \<open>^^ ( a b )\<close> with both flags on gets a suggestion
  that no flags satisfy, as it has no alternatives.
\<close>

lemma condition_suggestions_circular:
  assumes "r = RequiredUse (Some ''a'') 0 USE_OP_ENABLE [leaf ''b'']"
  shows "RequiredUseHook_run (\<lambda>n. Some (n = Some ''a'')) [r] = Some (RequiredUseException (SuggestionExpression S_AND
      [SuggestionExpression S_LEAST_ONE [UseSuggestion (Some ''a'') False, SuggestionExpression S_AND [UseSuggestion (Some ''b'') True]]]))"
    "RequiredUseHook_run (\<lambda>n. Some False) [r] = Some (RequiredUseException (SuggestionExpression S_AND [UseSuggestion (Some ''a'') True]))"
    "satisfied (\<lambda>n. False) r"
  by (simp_all add: assms leaf_def RequiredUseHook_run_def iterable_list_def Let_def)

lemma exact_one_suggestion_empty:
  "RequiredUseHook_run (\<lambda>n. Some True) [RequiredUse None 0 USE_OP_EXACT_ONE [leaf ''a'', leaf ''b'']] =
     Some (RequiredUseException (SuggestionExpression S_AND [SuggestionExpression S_EXACT_ONE []])) \<and>
   \<not> suggests g (SuggestionExpression S_AND [SuggestionExpression S_EXACT_ONE []])"
  by (simp add: leaf_def RequiredUseHook_run_def iterable_list_def Let_def)

text \<open>
  What is done with a selected ebuild. Its table of defaults changes when the ebuild is
  replaced by another version, and when its metadata is read: no hook runs.
\<close>

datatype flag_op =
    Require atom_flag
  | Hook "string option" string bool
  | Check "required_use list"
  | Schedule string bool
  | Flush
  | New_Defaults "string \<rightharpoonup> bool"

fun flag_step :: "flag_op \<Rightarrow> selected \<Rightarrow> run" where
  "flag_step (Require use) s = resolve_use use s"
| "flag_step (Hook flag name state) s = add_use_hook flag (Use_Conditional name state False) s"
| "flag_step (Check expression) s = add_use_hook None (Required_Use_Hook expression) s"
| "flag_step (Schedule name state) s = (None, schedule_use name state s)"
| "flag_step Flush s = flush_use s"
| "flag_step (New_Defaults defaults) s = (None, s\<lparr>iuse_flags := defaults\<rparr>)"

fun flag_steps :: "flag_op list \<Rightarrow> selected \<Rightarrow> run" where
  "flag_steps [] s = (None, s)"
| "flag_steps (x # xs) s = andThen (flag_step x s) (flag_steps xs)"

definition new_selected :: "(string \<rightharpoonup> bool) \<Rightarrow> selected" where
  "new_selected defaults = \<lparr>iuse_flags = defaults, set_flags = Map.empty, flag_hooks = (\<lambda>_. []), global_hooks = [],
     flag_queue = [], dirty = True\<rparr>"

lemma flag_step_keeps:
  assumes "flag_step x s = (None, s')" "\<And>d. x \<noteq> New_Defaults d"
  shows "keeps_flag n s s'"
  using assms add_use_hook_keeps schedule_keeps
  by (cases x) (auto simp: resolve_use_keeps flush_use_def flush_flags_keeps)

text \<open>An enforced value stays if the flag is set explicitly or new tables have the same default for it.\<close>

lemma flag_steps_enforced:
  assumes "flag_steps xs s = (None, s')" "enforced n t s"
    and "set_flags s n \<noteq> None \<or> (\<forall>d. New_Defaults d \<in> set xs \<longrightarrow> d n = iuse_flags s n)"
  shows "enforced n t s'"
  using assms
proof (induction xs arbitrary: s)
  case Nil
  then show ?case by simp
next
  case (Cons x xs)
  then obtain s1 where s1: "flag_step x s = (None, s1)" "flag_steps xs s1 = (None, s')" by (auto simp: andThen_None)
  show ?case
  proof (cases "\<exists>d. x = New_Defaults d")
    case True
    then obtain d where d: "x = New_Defaults d" "s1 = s\<lparr>iuse_flags := d\<rparr>" using s1(1) by auto
    then have "get_use s1 n = get_use s n" using Cons.prems(3) by (auto simp: get_use_def split: option.splits)
    then have "enforced n t s1" using Cons.prems(2) d by (simp add: enforced_def)
    moreover have "set_flags s1 n \<noteq> None \<or> (\<forall>d. New_Defaults d \<in> set xs \<longrightarrow> d n = iuse_flags s1 n)" using Cons.prems(3) d by auto
    ultimately show ?thesis by (rule Cons.IH [OF s1(2)])
  next
    case False
    with flag_step_keeps [OF s1(1), of n] have k: "keeps_flag n s s1" by blast
    then have "enforced n t s1" using Cons.prems(2) by (simp add: keeps_flag_def)
    moreover have "set_flags s1 n \<noteq> None \<or> (\<forall>d. New_Defaults d \<in> set xs \<longrightarrow> d n = iuse_flags s1 n)"
      using k Cons.prems(3) by (simp add: keeps_flag_def) blast
    ultimately show ?thesis by (rule Cons.IH [OF s1(2)])
  qed
qed

lemma flag_steps_append: "flag_steps (xs @ ys) s = andThen (flag_steps xs s) (flag_steps ys)"
proof (induction xs arbitrary: s)
  case (Cons x xs)
  obtain e s1 where "flag_step x s = (e, s1)" by fastforce
  with Cons show ?case by (cases e) simp_all
qed simp

text \<open>
  C5: requirements of atoms on use flags. An atom requires a flag of a selected ebuild, before and after
  which anything may be done with that ebuild (atoms require flags, dependencies hang conditions on them,
  required use is checked, flags are scheduled and set, the ebuild is replaced, its metadata is read). As
  long as nothing raises, and either the flag is set explicitly or each new table of defaults has the
  default for it that it had, a flag required to be on is on and a flag required to be off is off. That
  condition is needed: if the flag is not set explicitly, a replacement raises nothing and leaves the flag
  with whatever default the other ebuild has for it. The code never turns a flag for an atom: a flag that
  has the other value raises at once, and \<open>[!flag=]\<close> always does.
\<close>

theorem use_requirements_kept:
  assumes "flag_steps xs (new_selected defaults) = (None, s0)" and "flag_step (Require use) s0 = (None, s1)"
    and "flag_steps ys s1 = (None, s)"
  shows "(set_flags s1 (flag_name use) \<noteq> None \<or>
       (\<forall>d. New_Defaults d \<in> set ys \<longrightarrow> d (flag_name use) = iuse_flags s1 (flag_name use)) \<longrightarrow>
       (flag_option use = ATOM_USE_ENABLE \<longrightarrow> get_use s (flag_name use) = Some True) \<and>
       (flag_option use = ATOM_USE_DISABLE \<longrightarrow> get_use s (flag_name use) = Some False)) \<and>
    (\<forall>d. set_flags s (flag_name use) = None \<longrightarrow>
       (\<exists>s'. flag_steps (ys @ [New_Defaults d]) s1 = (None, s') \<and> get_use s' (flag_name use) = d (flag_name use))) \<and>
    flag_option use \<noteq> ATOM_USE_OPPOSITE"
proof -
  have req: "resolve_use use s0 = (None, s1)" using assms(2) by simp
  note one = resolve_use_enforces [OF req]
  have "enforced (flag_name use) t s"
    if "enforced (flag_name use) t s1" "set_flags s1 (flag_name use) \<noteq> None \<or>
       (\<forall>d. New_Defaults d \<in> set ys \<longrightarrow> d (flag_name use) = iuse_flags s1 (flag_name use))" for t
    using flag_steps_enforced [OF assms(3) that] .
  moreover have "\<exists>s'. flag_steps (ys @ [New_Defaults d]) s1 = (None, s') \<and> get_use s' (flag_name use) = d (flag_name use)"
    if "set_flags s (flag_name use) = None" for d
    using assms(3) that by (simp add: flag_steps_append get_use_def)
  ultimately show ?thesis using one unfolding enforced_def by blast
qed

text \<open>
  A flag that is on by default is required; then a condition is hung on it, another flag is set, and the
  ebuild is replaced: by one with the same default, or by one without.
\<close>

theorem use_requirements_kept_witness:
  "\<exists>s1 s s'. flag_step (Require (atomflag_build ''ssl'')) (new_selected [''ssl'' \<mapsto> True, ''doc'' \<mapsto> False]) = (None, s1) \<and>
    flag_steps [Hook (Some ''ssl'') ''ssl'' True, Schedule ''doc'' True, Flush, New_Defaults [''ssl'' \<mapsto> True]] s1 = (None, s) \<and>
    get_use s ''ssl'' = Some True \<and> get_use s ''doc'' = Some True \<and>
    flag_steps [Hook (Some ''ssl'') ''ssl'' True, Schedule ''doc'' True, Flush, New_Defaults [''ssl'' \<mapsto> True], New_Defaults [''ssl'' \<mapsto> False]] s1 = (None, s') \<and>
    get_use s' ''ssl'' = Some False"
proof -
  let ?u = "atomflag_build ''ssl''"
  let ?ys = "[Hook (Some ''ssl'') ''ssl'' True, Schedule ''doc'' True, Flush, New_Defaults [''ssl'' \<mapsto> True]]"
  have u: "flag_name ?u = ''ssl''" "flag_option ?u = ATOM_USE_ENABLE" by (simp_all add: atomflag_build_def char_at_def)
  let ?s = "new_selected [''ssl'' \<mapsto> True, ''doc'' \<mapsto> False]"
  have g: "get_use ?s = [''ssl'' \<mapsto> True, ''doc'' \<mapsto> False]" "flag_queue ?s = []" "global_hooks ?s = []" "flag_hooks ?s x = []"
    "iuse_flags ?s = [''ssl'' \<mapsto> True, ''doc'' \<mapsto> False]" "set_flags ?s = Map.empty" for x
    by (auto simp: get_use_def new_selected_def)
  let ?h = "(flag_hooks ?s)(''ssl'' := [Use_Selection ''ssl'' True True])"
  define s1 where "s1 = (schedule_use ''ssl'' True ?s)\<lparr>flag_hooks := ?h\<rparr>"
  have s1: "get_use s1 = get_use ?s" "flag_queue s1 = [(''ssl'', True)]" "global_hooks s1 = []" "flag_hooks s1 = ?h"
    "iuse_flags s1 = iuse_flags ?s" "set_flags s1 = Map.empty"
    by (simp_all add: s1_def g) (simp_all add: schedule_use_def g)
  have first: "flag_step (Require ?u) ?s = (None, s1)" using enabled_required [of ?s ?u] u g by (simp add: s1_def)
  define s2 where "s2 = s1\<lparr>flag_hooks := ?h(''ssl'' := [Use_Selection ''ssl'' True True, Use_Conditional ''ssl'' True False])\<rparr>"
  have second: "add_use_hook (Some ''ssl'') (Use_Conditional ''ssl'' True False) s1 = (None, s2)"
    by (simp add: add_use_hook_def run_hook_def s1 g s2_def)
  define s3 where "s3 = schedule_use ''doc'' True s2"
  have s3: "get_use s3 = get_use ?s" "flag_queue s3 = [(''ssl'', True), (''doc'', True)]" "global_hooks s3 = []"
      "flag_hooks s3 ''doc'' = []" "set_flags s3 = Map.empty"
    by (simp_all add: s3_def s2_def s1 g) (simp_all add: schedule_use_def s1)
  obtain s4 where "flush_use s3 = (None, s4)" "get_use s4 ''doc'' = Some True" "set_flags s4 = [''doc'' \<mapsto> True]"
    by (simp add: flush_use_def s3 g Let_def) (simp add: get_use_def)
  then obtain s where s: "flag_steps ?ys s1 = (None, s)" "get_use s ''doc'' = Some True" "set_flags s ''ssl'' = None"
    by (auto simp: second s3_def [symmetric] get_use_def split: option.splits)
  have start: "flag_steps [] ?s = (None, ?s)" by simp
  from use_requirements_kept [OF start first s(1)] s(3) have "get_use s ''ssl'' = Some True"
    by (simp add: u s1(5) g(5))
  moreover from use_requirements_kept [OF start first s(1)] s(3)
  obtain s' where "flag_steps (?ys @ [New_Defaults [''ssl'' \<mapsto> False]]) s1 = (None, s')" "get_use s' ''ssl'' = Some False"
    unfolding u(1) by (metis fun_upd_same)
  ultimately show ?thesis using first s(1,2) unfolding append.simps by blast
qed

text \<open>An exception while flags are set leaves the flag set and the requirement broken.\<close>

lemma failed_flush_breaks:
  "\<exists>e s. flag_steps [Require (atomflag_build ''ssl''), Schedule ''ssl'' False, Flush] (new_selected [''ssl'' \<mapsto> True]) = (Some e, s) \<and>
     Use_Selection ''ssl'' True True \<in> set (flag_hooks s ''ssl'') \<and> get_use s ''ssl'' = Some False"
proof -
  let ?s = "new_selected [''ssl'' \<mapsto> True]" and ?u = "atomflag_build ''ssl''"
  have u: "flag_name ?u = ''ssl''" "flag_option ?u = ATOM_USE_ENABLE" by (simp_all add: atomflag_build_def char_at_def)
  have g: "get_use ?s = [''ssl'' \<mapsto> True]" "flag_queue ?s = []" "global_hooks ?s = []" "flag_hooks ?s x = []" for x
    by (auto simp: get_use_def new_selected_def)
  let ?h = "(flag_hooks ?s)(''ssl'' := [Use_Selection ''ssl'' True True])"
  define s1 where "s1 = (schedule_use ''ssl'' True ?s)\<lparr>flag_hooks := ?h\<rparr>"
  have s1: "get_use s1 = [''ssl'' \<mapsto> True]" "flag_queue s1 = [(''ssl'', True)]" "flag_hooks s1 ''ssl'' = [Use_Selection ''ssl'' True True]"
    by (simp_all add: s1_def g) (simp add: schedule_use_def g)
  have first: "resolve_use ?u ?s = (None, s1)"
    using enabled_required [of ?s ?u] u g by (simp add: s1_def)
  have q: "flag_queue (schedule_use ''ssl'' False s1) = [(''ssl'', True), (''ssl'', False)]"
    by (simp add: schedule_use_def s1)
  define s2 where "s2 = schedule_use ''ssl'' False s1"
  have s2: "get_use s2 = [''ssl'' \<mapsto> True]" "flag_hooks s2 ''ssl'' = [Use_Selection ''ssl'' True True]"
    by (simp_all add: s2_def s1)
  have "flag_steps [Require ?u, Schedule ''ssl'' False, Flush] ?s = flush_flags [(''ssl'', True), (''ssl'', False)] s2"
    by (simp add: first flush_use_def q andThen_def s2_def split: option.splits prod.splits)
  also have "\<dots> = (Some (RequiredUseException (UseSuggestion (Some ''ssl'') True)),
      s2\<lparr>set_flags := (set_flags s2)(''ssl'' \<mapsto> False), flag_queue := [],
        flag_hooks := (flag_hooks s2)(''ssl'' := [Use_Selection ''ssl'' True True])\<rparr>)" (is "_ = (?e, ?t)")
    by (simp add: s2 run_hook_def Let_def)
  finally have run: "flag_steps [Require ?u, Schedule ''ssl'' False, Flush] ?s = (?e, ?t)" .
  have t: "get_use ?t = [''ssl'' \<mapsto> False]" by (simp add: s2)
  with run t show ?thesis by (intro exI [of _ "RequiredUseException (UseSuggestion (Some ''ssl'') True)"] exI [of _ ?t]) simp
qed

text \<open>A flag that an atom requires and the ebuild does not have is read as its own default.\<close>

lemma missing_flag_enabled:
  "\<exists>s. resolve_use (atomflag_build ''ssl'') (new_selected Map.empty) = (None, s) \<and> get_use s ''ssl'' = Some True"
  by (simp add: atomflag_build_def char_at_def resolve_use_def has_use_def get_use_def new_selected_def
      add_use_requirement_def UseSelection_init_def add_use_hook_def run_hook_def schedule_use_def Let_def add_use_def)

end
