(* ===== verification/Resolver_Select.thy ===== *)
theory Resolver_Select
  imports Resolver_Use Constructors Iteration "HOL-Library.AList"
begin

text \<open>
  The choice of ebuilds in the resolver (\<^verbatim>\<open>portage/resolve.py\<close>): the packages that have been
  selected, with one ebuild for each slot (\<^verbatim>\<open>InstallPackage\<close>, \<^verbatim>\<open>Emerge\<close>), and what a dependency does
  to them (\<^verbatim>\<open>resolve_single\<close>). Selected ebuilds are shared objects, numbered in the order in which
  they are made. The references that Python's variables hold are counted by the interpreter and
  are left out.
\<close>

section \<open>State\<close>

text \<open>
  \<^verbatim>\<open>SelectedEbuild\<close>; its flags read the table \<^verbatim>\<open>iuse\<close> of the ebuild whenever they are used. Its two
  containers are lists of four lists, in the order of their fields.
\<close>

record chosen =
  chosen_ebuild :: u64
  selected_by :: "(atom \<times> nat option) list"
  chosen_flags :: selected
  generators :: "nat list list"
  resolved_deps :: "nat list list"

record install_package =
  install_key :: "string option"
  slots :: "(string option \<times> nat) list"

record emerge =
  installs :: "string option \<rightharpoonup> install_package"
  emerge_blocks :: "string option \<Rightarrow> atom list"
  chosen_nodes :: "chosen list"
  current_resolution :: "nat set"
  emerge_world :: world

definition emerge_new :: "world \<Rightarrow> emerge" where
  "emerge_new w = \<lparr>installs = Map.empty, emerge_blocks = (\<lambda>_. []), chosen_nodes = [], current_resolution = {}, emerge_world = w\<rparr>"

text \<open>
  A call answers, raises an exception, or does not return; a fault is undefined behaviour in
  the C library.
\<close>

datatype emerge_exc =
    E_Flags resolve_exc
  | E_Python py_exc
  | E_Resolution
  | E_Not_Implemented
  | E_Attribute
  | E_Assertion

datatype 'a outcome = Fault c_error | Hangs | Raises emerge_exc emerge | Gives 'a emerge

definition bindO :: "'a outcome \<Rightarrow> ('a \<Rightarrow> emerge \<Rightarrow> 'b outcome) \<Rightarrow> 'b outcome" where
  "bindO m f = (case m of Fault e \<Rightarrow> Fault e | Hangs \<Rightarrow> Hangs | Raises e s \<Rightarrow> Raises e s | Gives x s \<Rightarrow> f x s)"

lemma bindO_simps [simp]:
  "bindO (Fault e) f = Fault e" "bindO Hangs f = Hangs" "bindO (Raises x s) f = Raises x s" "bindO (Gives r s) f = f r s"
  by (simp_all add: bindO_def)

lemma bindO_Gives: "bindO m f = Gives r s' \<longleftrightarrow> (\<exists>x s. m = Gives x s \<and> f x s = Gives r s')"
  by (cases m) simp_all

definition liftP :: "'a py result \<Rightarrow> emerge \<Rightarrow> 'a outcome" where
  "liftP m s = (case m of Inl e \<Rightarrow> Fault e | Inr (Raise x) \<Rightarrow> Raises (E_Python x) s | Inr (Return r) \<Rightarrow> Gives r s)"

definition liftR :: "'a result \<Rightarrow> emerge \<Rightarrow> 'a outcome" where
  "liftR m s = (case m of Inl e \<Rightarrow> Fault e | Inr r \<Rightarrow> Gives r s)"

lemma lift_simps [simp]:
  "liftP (Inr (Return r)) s = Gives r s" "liftP (Inr (Raise x)) s = Raises (E_Python x) s" "liftP (Inl e) s = Fault e"
  "liftR (Inr r') s = Gives r' s" "liftR (Inl e) s = Fault e"
  by (simp_all add: liftP_def liftR_def)

lemma lift_Gives [simp]:
  "liftP m s = Gives r s' \<longleftrightarrow> m = Inr (Return r) \<and> s' = s" "liftR m' s = Gives x s' \<longleftrightarrow> m' = Inr x \<and> s' = s"
  by (auto simp: liftP_def liftR_def split: sum.splits py.splits)

section \<open>Changing the ebuild of a slot\<close>

text \<open>The loop over the atoms that selected the ebuild overwrites what the new atom said.\<close>

fun all_match :: "world \<Rightarrow> atom list \<Rightarrow> bool \<Rightarrow> u64 \<Rightarrow> bool py result" where
  "all_match w [] m c = Inr (Return m)"
| "all_match w (prev_atom # ps) m c =
     bindP (PyAtom_matches prev_atom [P_Ebuild c] w) (\<lambda>m. if m then all_match w ps m c else Inr (Return False))"

text \<open>The loop over the package, which is left at the first match. Answer 0 is None.\<close>

partial_function (option) find_ebuild :: "world \<Rightarrow> (u64 \<Rightarrow> bool py result) \<Rightarrow> u64 \<Rightarrow> u64 py result option" where
  "find_ebuild w test it = (case PyEbuild_next w it of
     Inl e \<Rightarrow> Some (Inl e)
   | Inr x \<Rightarrow> if x = 0 then Some (Inr (Return 0)) else
       (case test x of
          Inl e \<Rightarrow> Some (Inl e)
        | Inr (Raise r) \<Rightarrow> Some (Inr (Raise r))
        | Inr (Return m) \<Rightarrow> if m then Some (Inr (Return x)) else find_ebuild w test it))"

definition change_within_slot :: "nat \<Rightarrow> atom \<Rightarrow> emerge \<Rightarrow> bool outcome" where
  "change_within_slot i a s =
     (let n = chosen_nodes s ! i; w = emerge_world s;
          test = (\<lambda>c. bindP (PyAtom_matches a [P_Ebuild c] w) (\<lambda>m. all_match w (map fst (selected_by n)) m c))
      in bindO (liftR (the_ebuild w (chosen_ebuild n)) s) (\<lambda>e s.
           if package e = 0 then Raises (E_Python TypeError) s
           else bindO (liftR (PyPackage_iter w (package e)) s) (\<lambda>it s.
             if it = 0 then Raises (E_Python SystemError) s
             else case find_ebuild w test it of
                 None \<Rightarrow> Hangs
               | Some r \<Rightarrow> bindO (liftP r s) (\<lambda>c s.
                   if c = 0 then Gives False s
                   else Gives True (s\<lparr>chosen_nodes := (chosen_nodes s)
                     [i := n\<lparr>chosen_ebuild := c, chosen_flags := (chosen_flags n)\<lparr>dirty := True\<rparr>\<rparr>]\<rparr>)))))"

section \<open>Slots\<close>

fun first_match :: "atom \<Rightarrow> (string option \<times> nat) list \<Rightarrow> emerge \<Rightarrow> nat option outcome" where
  "first_match a [] s = Gives None s"
| "first_match a ((slot, i) # rest) s =
     bindO (liftP (PyAtom_matches a [P_Ebuild (chosen_ebuild (chosen_nodes s ! i))] (emerge_world s)) s) (\<lambda>m s.
       if m then Gives (Some i) s else first_match a rest s)"

definition add_atom :: "nat option \<Rightarrow> atom \<Rightarrow> u64 \<Rightarrow> string option \<Rightarrow> install_package \<Rightarrow> emerge \<Rightarrow> nat option outcome" where
  "add_atom parent a c key inst s =
     bindO (liftR (the_ebuild (emerge_world s) c) s) (\<lambda>e s.
       let i = length (chosen_nodes s);
           n = \<lparr>chosen_ebuild = c, selected_by = [(a, parent)], chosen_flags = new_selected Map.empty,
                generators = replicate 4 [], resolved_deps = replicate 4 []\<rparr>
       in Gives (Some i) (s\<lparr>chosen_nodes := chosen_nodes s @ [n],
            installs := (installs s)(key \<mapsto> inst\<lparr>slots := AList.update (ebuild_slot e) i (slots inst)\<rparr>)\<rparr>))"

definition match_atom :: "nat option \<Rightarrow> atom \<Rightarrow> u64 \<Rightarrow> string option \<Rightarrow> install_package \<Rightarrow> emerge \<Rightarrow> nat option outcome" where
  "match_atom parent a c key inst s =
     bindO (first_match a (slots inst) s) (\<lambda>r s.
       if r \<noteq> None then Gives r s
       else bindO (liftR (the_ebuild (emerge_world s) c) s) (\<lambda>e s.
         if ebuild_slot e = None then Gives None s
         else case map_of (slots inst) (ebuild_slot e) of
             Some i \<Rightarrow>
               bindO (liftP (PyAtom_matches a [P_Ebuild (chosen_ebuild (chosen_nodes s ! i))] (emerge_world s)) s) (\<lambda>m s.
                 if m then Gives (Some i) s
                 else bindO (change_within_slot i a s) (\<lambda>changed s.
                   if changed then Gives (Some i) s else Raises E_Not_Implemented s))
           | None \<Rightarrow>
               bindO (first_match a (slots inst) s) (\<lambda>r s.
                 if r \<noteq> None then Gives r s else add_atom parent a c key inst s)))"

definition add_block :: "atom \<Rightarrow> emerge \<Rightarrow> emerge" where
  "add_block a s = s\<lparr>emerge_blocks := (emerge_blocks s)(atom_key a := emerge_blocks s (atom_key a) @ [a])\<rparr>"

definition select_atom :: "nat option \<Rightarrow> atom \<Rightarrow> emerge \<Rightarrow> nat option outcome" where
  "select_atom parent a s =
     bindO (liftP (PyPortage_match_atom a (emerge_world s)) s) (\<lambda>(c, _) s.
       if c = 0 then Raises E_Resolution s
       else bindO (liftR (the_ebuild (emerge_world s) c) s) (\<lambda>e s.
         case installs s (package_key e) of
           Some inst \<Rightarrow> match_atom parent a c (package_key e) inst s
         | None \<Rightarrow>
             let pkg = \<lparr>install_key = atom_key a, slots = []\<rparr>
             in add_atom parent a c (install_key pkg) pkg (s\<lparr>installs := (installs s)(install_key pkg \<mapsto> pkg)\<rparr>)))"

section \<open>Dependencies\<close>

text \<open>An operation on the flags of a selected ebuild.\<close>

definition with_flags :: "nat \<Rightarrow> (selected \<Rightarrow> run) \<Rightarrow> emerge \<Rightarrow> unit outcome" where
  "with_flags i f s =
     (let n = chosen_nodes s ! i
      in bindO (liftR (the_ebuild (emerge_world s) (chosen_ebuild n)) s) (\<lambda>e s.
           case f ((chosen_flags n)\<lparr>iuse_flags := iuse e\<rparr>) of (x, fl) \<Rightarrow>
             let s = s\<lparr>chosen_nodes := (chosen_nodes s)[i := n\<lparr>chosen_flags := fl\<rparr>]\<rparr>
             in case x of None \<Rightarrow> Gives () s | Some x \<Rightarrow> Raises (E_Flags x) s))"

text \<open>
  The state of the flag of a condition comes from comparing its id with \<^verbatim>\<open>UseOperatorT.ENABLE\<close>,
  which is 1. A condition answers None, like a block and an expression without a flag.
\<close>

definition add_condition :: "nat \<Rightarrow> dependency \<Rightarrow> emerge \<Rightarrow> unit outcome" where
  "add_condition p d s =
     (if use_operator d \<notin> {USE_OP_ENABLE, USE_OP_DISABLE} then Raises E_Assertion s
      else
        let f = fst (PyPortage_get_use_flag (use_condition d) (emerge_world s))
        in if f = 0 then Raises E_Attribute s
           else case use_objs (emerge_world s) f of
               None \<Rightarrow> Fault Use_After_Free
             | Some u \<Rightarrow>
                 if children d = [] then Raises E_Assertion s
                 else with_flags p (add_use_hook (Some (use_name u)) (Use_Conditional (use_name u) (use_condition d = 1) False)) s)"

definition resolve_single :: "nat option \<Rightarrow> dependency \<Rightarrow> emerge \<Rightarrow> nat option outcome" where
  "resolve_single parent d s =
     (case dep_atom d of
        Some a \<Rightarrow>
          if blocks a \<noteq> ATOM_BLOCK_NONE then Gives None (add_block a s)
          else bindO (select_atom parent a s) (\<lambda>r s.
            if useflags a = [] then Gives r s
            else case r of
                None \<Rightarrow> Raises E_Attribute s
              | Some i \<Rightarrow> bindO (with_flags i (resolve_uses (useflags a)) s) (\<lambda>_ s. Gives r s))
      | None \<Rightarrow>
          (case parent of
             None \<Rightarrow> Raises E_Resolution s
           | Some p \<Rightarrow>
               if use_condition d \<noteq> 0 then bindO (add_condition p d s) (\<lambda>_ s. Gives None s) else Gives None s))"

fun resolve_all :: "nat option \<Rightarrow> dependency list \<Rightarrow> emerge \<Rightarrow> nat list outcome" where
  "resolve_all parent [] s = Gives [] s"
| "resolve_all parent (d # ds) s =
     bindO (resolve_single parent d s) (\<lambda>r s.
     bindO (resolve_all parent ds s) (\<lambda>rs s. Gives (case r of None \<Rightarrow> rs | Some i \<Rightarrow> i # rs) s))"

section \<open>What is selected\<close>

text \<open>
  An atom fits the database if its id is that of its key (ids of keys that are in no table lead
  to no package), and if it has a version, that is made of numbers.
\<close>

definition atom_fits :: "world \<Rightarrow> atom \<Rightarrow> bool" where
  "atom_fits w a \<longleftrightarrow> (\<exists>k. atom_key a = Some k \<and>
     (\<forall>d p. lut_get (packages w) (atom_id a) = d \<and> pkg_objs w d = Some p \<longrightarrow> pkg_key p = Some k)) \<and>
     (\<forall>ver. atom_version a = Some ver \<longrightarrow> plain ver)"

definition listed :: "world \<Rightarrow> u64 \<Rightarrow> bool" where
  "listed w c \<longleftrightarrow> (\<exists>d p. pkg_objs w d = Some p \<and> c \<in> set (ebuilds p))"

definition takes :: "world \<Rightarrow> atom \<Rightarrow> u64 \<Rightarrow> bool" where
  "takes w a c \<longleftrightarrow> PyAtom_matches a [P_Ebuild c] w = Inr (Return True)"

lemma match_ebuilds_takes:
  assumes "\<forall>d \<in> set cs. ebuild_ok w d \<and> package_key (the (ebuild_objs w d)) = atom_key a"
    and "atom_key a = Some k" "\<forall>ver. atom_version a = Some ver \<longrightarrow> plain ver"
    and "match_ebuilds w a cs = Inr c" "c \<noteq> 0"
  shows "c \<in> set cs \<and> takes w a c"
  using assms
proof (induction cs)
  case Nil
  then show ?case by simp
next
  case (Cons d cs)
  then have ok: "ebuild_ok w d" "package_key (the (ebuild_objs w d)) = Some k" by auto
  then obtain e where e: "the_ebuild w d = Inr e" "ebuild_objs w d = Some e" "ebuild_version e = Some (version_at w d)"
    by (blast elim: ebuild_okE)
  show ?case
  proof (cases "atom_version a")
    case (Some ver)
    with Cons.prems(3) have ver: "plain ver" by simp
    note step = Cons.prems(4) [unfolded match_ebuilds_step [OF ok(1) Some ver]]
    from atom_matches_accepts [OF ok(1) Some ver Cons.prems(2) ok(2)] e obtain m where
      m: "atom_matches a e = Inr m" "m \<noteq> 0 \<longleftrightarrow> accepts w a d" by auto
    show ?thesis
    proof (cases "accepts w a d")
      case True
      with step have "d = c" by simp
      with True m e show ?thesis by (simp add: takes_def PyAtom_matches_def)
    next
      case False
      with step Cons.prems(5) have "match_ebuilds w a cs = Inr c" by (auto split: if_splits)
      with Cons show ?thesis by simp
    qed
  next
    case None
    define ns where "ns = nodes (version_at w d)"
    have cmp: "atom_version_compare (ebuild_version e) None = (if ns = [] then Inl Null_Deref else Inr 1)"
      "atom_version_compare None (ebuild_version e) = (if ns = [] then Inl Null_Deref else Inr (- 1))"
      by (cases ns; simp add: atom_version_compare_def version_nodes_def e ns_def)+
    show ?thesis
    proof (cases "ns = []")
      case True
      with Cons.prems(4) e cmp None show ?thesis by simp
    next
      case False
      have m: "atom_matches a e = Inr (version_range a AND ATOM_VERSION_G)"
        using False cmp None ok(2) e Cons.prems(2) by (simp add: atom_matches_def the_str_def)
      show ?thesis
      proof (cases "range_has a ATOM_VERSION_G")
        case True
        then have "version_range a AND ATOM_VERSION_G \<noteq> 0" by (simp add: range_has_def)
        moreover have "d = c" using True Cons.prems(4) e cmp None False by simp
        ultimately show ?thesis using m e by (simp add: takes_def PyAtom_matches_def)
      next
        case False
        with \<open>ns \<noteq> []\<close> Cons.prems(4,5) e cmp None have "match_ebuilds w a cs = Inr c" by (auto split: if_splits)
        with Cons show ?thesis by simp
      qed
    qed
  qed
qed

lemma match_atom_takes:
  assumes "packages_ok w" "keys_ok w" "atom_fits w a"
    and "PyPortage_match_atom a w = Inr (Return (c, w'))" "c \<noteq> 0"
  shows "listed w c \<and> takes w a c \<and> package_key (the (ebuild_objs w c)) = atom_key a"
proof -
  let ?d = "lut_get (packages w) (atom_id a)"
  from assms(3) obtain k where k: "atom_key a = Some k" "\<And>p. pkg_objs w ?d = Some p \<Longrightarrow> pkg_key p = Some k"
    and ver: "\<forall>ver. atom_version a = Some ver \<longrightarrow> plain ver" by (auto simp: atom_fits_def)
  have "?d \<noteq> 0" using assms(4) by (auto simp: PyPortage_match_atom_def Let_def)
  with assms(4,5) obtain p where p: "pkg_objs w ?d = Some p" "match_ebuilds w a (ebuilds p) = Inr c"
    by (auto simp: PyPortage_match_atom_def Let_def PyPackage_match_atom_def the_package_def bindR_def map_sum_def
        split: sum.splits option.splits)
  have keys: "\<forall>d \<in> set (ebuilds p). package_key (the (ebuild_objs w d)) = atom_key a"
    using assms(2) p(1) k by (auto simp: keys_ok_def)
  moreover have "\<forall>d \<in> set (ebuilds p). ebuild_ok w d"
    using assms(1) p(1) by (auto simp: packages_ok_def package_ok_def)
  ultimately have "c \<in> set (ebuilds p) \<and> takes w a c"
    using match_ebuilds_takes [OF _ k(1) ver p(2) assms(5)] by simp
  with p(1) keys show ?thesis by (auto simp: listed_def)
qed

text \<open>What the loop over a package finds is the second newest ebuild, and it passed the test.\<close>

lemma find_ebuild_result:
  assumes "find_ebuild w test it = Some (Inr (Return c))" "c \<noteq> 0"
  shows "PyEbuild_next w it = Inr c \<and> test c = Inr (Return True)"
proof -
  have "find_ebuild w' test' it' = Some r \<Longrightarrow> r = Inr (Return c) \<Longrightarrow> PyEbuild_next w' it' = Inr c \<and> test' c = Inr (Return True)"
    for w' test' it' r
  proof (induction rule: find_ebuild.raw_induct [rotated, consumes 1])
    case (1 f w' test' it' r)
    then show ?case using assms(2) by (auto split: sum.splits py.splits if_splits)
  qed
  from this [OF assms(1) refl] show ?thesis .
qed

lemma all_match_takes: "all_match w ps m c = Inr (Return True) \<Longrightarrow> ps \<noteq> [] \<Longrightarrow> \<forall>a \<in> set ps. takes w a c"
proof (induction ps arbitrary: m)
  case Nil
  then show ?case by simp
next
  case (Cons a ps)
  then have a: "PyAtom_matches a [P_Ebuild c] w = Inr (Return True)" "all_match w ps True c = Inr (Return True)"
    by (auto simp: bindP_def bindR_def split: sum.splits py.splits if_splits)
  with Cons show ?case by (cases ps) (auto simp: takes_def)
qed

lemma older_in_set: "older_in cs a \<noteq> 0 \<Longrightarrow> older_in cs a \<in> set cs"
  by (induction cs a rule: older_in.induct) auto

section \<open>The invariant\<close>

definition node_ok :: "world \<Rightarrow> chosen \<Rightarrow> bool" where
  "node_ok w n \<longleftrightarrow> listed w (chosen_ebuild n) \<and>
     (\<exists>a parent. selected_by n = [(a, parent)] \<and> takes w a (chosen_ebuild n))"

definition key_of :: "world \<Rightarrow> chosen \<Rightarrow> string option" where
  "key_of w n = package_key (the (ebuild_objs w (chosen_ebuild n)))"

definition install_ok :: "emerge \<Rightarrow> string option \<Rightarrow> install_package \<Rightarrow> bool" where
  "install_ok s key inst \<longleftrightarrow> slots inst \<noteq> [] \<and> distinct (map fst (slots inst)) \<and> distinct (map snd (slots inst)) \<and>
     (\<forall>x \<in> set (slots inst). snd x < length (chosen_nodes s) \<and> key_of (emerge_world s) (chosen_nodes s ! snd x) = key)"

definition select_ok :: "emerge \<Rightarrow> bool" where
  "select_ok s \<longleftrightarrow> packages_ok (emerge_world s) \<and> keys_ok (emerge_world s) \<and>
     (\<forall>n \<in> set (chosen_nodes s). node_ok (emerge_world s) n) \<and>
     (\<forall>key inst. installs s key = Some inst \<longrightarrow> install_ok s key inst)"

text \<open>What a step keeps: the database, and of the selected ebuilds their numbers and what selected them.\<close>

definition extends :: "emerge \<Rightarrow> emerge \<Rightarrow> bool" where
  "extends s s' \<longleftrightarrow> emerge_world s' = emerge_world s \<and>
     take (length (chosen_nodes s)) (map selected_by (chosen_nodes s')) = map selected_by (chosen_nodes s)"

lemma extends_refl [simp]: "extends s s"
  by (simp add: extends_def)

lemma extends_length: "extends s s' \<Longrightarrow> length (chosen_nodes s) \<le> length (chosen_nodes s')"
  unfolding extends_def by (metis length_map length_take min.absorb_iff2 min.commute)

lemma extends_trans: "extends s t \<Longrightarrow> extends t u \<Longrightarrow> extends s u"
proof -
  assume a: "extends s t" "extends t u"
  have "take (length (chosen_nodes s)) (map selected_by (chosen_nodes u)) =
    take (length (chosen_nodes s)) (take (length (chosen_nodes t)) (map selected_by (chosen_nodes u)))"
    using extends_length [OF a(1)] by (simp add: min_def)
  with a show ?thesis by (simp add: extends_def)
qed

text \<open>Each operation keeps the invariant.\<close>

lemma listed_ok:
  assumes "packages_ok w" "listed w c"
  obtains e d p where "the_ebuild w c = Inr e" "ebuild_objs w c = Some e" "package e = d" "d \<noteq> 0"
    "pkg_objs w d = Some p" "c \<in> set (ebuilds p)"
proof -
  from assms(2) obtain d p where p: "pkg_objs w d = Some p" "c \<in> set (ebuilds p)" by (auto simp: listed_def)
  with assms(1) have "ebuild_ok w c" "package (the (ebuild_objs w c)) = d" "d \<noteq> 0"
    by (auto simp: packages_ok_def package_ok_def)
  with p that show ?thesis by (force elim: ebuild_okE)
qed

lemma first_match_result:
  "first_match a ss s = Gives r s' \<Longrightarrow> s' = s \<and>
     (\<forall>i. r = Some i \<longrightarrow> i \<in> snd ` set ss \<and> takes (emerge_world s) a (chosen_ebuild (chosen_nodes s ! i)))"
  by (induction a ss s rule: first_match.induct) (auto simp: bindO_Gives takes_def split: if_splits)

lemma update_new: "k \<notin> fst ` set xs \<Longrightarrow> AList.update k x xs = xs @ [(k, x)]"
  by (induction xs) auto

lemma change_result:
  assumes "change_within_slot i a s = Gives b s'" "packages_ok (emerge_world s)"
  obtains "\<not> b" "s' = s"
  | c e p where "b" "the_ebuild (emerge_world s) (chosen_ebuild (chosen_nodes s ! i)) = Inr e"
      "pkg_objs (emerge_world s) (package e) = Some p" "c \<in> set (ebuilds p)"
      "selected_by (chosen_nodes s ! i) \<noteq> [] \<Longrightarrow> \<forall>x \<in> set (selected_by (chosen_nodes s ! i)). takes (emerge_world s) (fst x) c"
      "s' = s\<lparr>chosen_nodes := (chosen_nodes s)[i := (chosen_nodes s ! i)
        \<lparr>chosen_ebuild := c, chosen_flags := (chosen_flags (chosen_nodes s ! i))\<lparr>dirty := True\<rparr>\<rparr>]\<rparr>"
proof -
  let ?n = "chosen_nodes s ! i" and ?w = "emerge_world s"
  let ?test = "\<lambda>c. bindP (PyAtom_matches a [P_Ebuild c] ?w) (\<lambda>m. all_match ?w (map fst (selected_by ?n)) m c)"
  from assms(1) obtain e it c where e: "the_ebuild ?w (chosen_ebuild ?n) = Inr e" "package e \<noteq> 0" "PyPackage_iter ?w (package e) = Inr it"
      "it \<noteq> 0" and find: "find_ebuild ?w ?test it = Some (Inr (Return c))"
    and s': "(if c = 0 then Gives False s else Gives True (s\<lparr>chosen_nodes := (chosen_nodes s)
       [i := ?n\<lparr>chosen_ebuild := c, chosen_flags := (chosen_flags ?n)\<lparr>dirty := True\<rparr>\<rparr>]\<rparr>)) = Gives b s'"
    unfolding change_within_slot_def Let_def bindO_Gives lift_Gives
    by (auto split: if_splits option.splits simp: bindO_Gives)
  show thesis
  proof (cases "c = 0")
    case True
    with s' that(1) show ?thesis by simp
  next
    case False
    note nx = find_ebuild_result [OF find False]
    from e(2,3) obtain p where p: "pkg_objs ?w (package e) = Some p" "it = (case ebuilds p of [] \<Rightarrow> 0 | x # _ \<Rightarrow> x)"
      by (auto simp: PyPackage_iter_def the_package_def bindR_def split: sum.splits option.splits if_splits)
    with e(4) have it: "it \<in> set (ebuilds p)" by (cases "ebuilds p") auto
    then have "listed ?w it" using p(1) by (auto simp: listed_def)
    from listed_ok [OF assms(2) this] it p(1) assms(2) obtain e2 where e2: "the_ebuild ?w it = Inr e2" "package e2 = package e"
      unfolding packages_ok_def package_ok_def by (metis option.sel)
    have "c = older_in (ebuilds p) it"
      using nx e2 e(2) p(1) by (simp add: PyEbuild_next_def the_package_def)
    with False older_in_set have "c \<in> set (ebuilds p)" by metis
    moreover obtain m where "all_match ?w (map fst (selected_by ?n)) m c = Inr (Return True)"
      using nx by (auto simp: bindP_def bindR_def split: sum.splits py.splits)
    from all_match_takes [OF this] have "selected_by ?n \<noteq> [] \<Longrightarrow> \<forall>x \<in> set (selected_by ?n). takes ?w (fst x) c" by simp
    ultimately show ?thesis using that(2) s' False e(1) p(1) by simp
  qed
qed

lemma nodes_update:
  assumes "select_ok s" "i < length (chosen_nodes s)" "node_ok (emerge_world s) n"
    and "selected_by n = selected_by (chosen_nodes s ! i)" "key_of (emerge_world s) n = key_of (emerge_world s) (chosen_nodes s ! i)"
  shows "select_ok (s\<lparr>chosen_nodes := (chosen_nodes s)[i := n]\<rparr>) \<and> extends s (s\<lparr>chosen_nodes := (chosen_nodes s)[i := n]\<rparr>)"
proof -
  have "map selected_by ((chosen_nodes s)[i := n]) = map selected_by (chosen_nodes s)"
    using assms(2,4) by (metis list_update_id map_update nth_map)
  moreover have "key_of (emerge_world s) ((chosen_nodes s)[i := n] ! j) = key_of (emerge_world s) (chosen_nodes s ! j)" for j
    using assms(2,5) by (cases "j = i") simp_all
  ultimately show ?thesis using assms(1,3) set_update_subset_insert [of "chosen_nodes s" i n]
    by (auto simp: select_ok_def extends_def install_ok_def)
qed

lemma change_ok:
  assumes "change_within_slot i a s = Gives b s'" "select_ok s" "i < length (chosen_nodes s)"
  shows "select_ok s' \<and> extends s s'"
proof -
  have pk: "packages_ok (emerge_world s)" and kk: "keys_ok (emerge_world s)" using assms(2) by (simp_all add: select_ok_def)
  have n: "node_ok (emerge_world s) (chosen_nodes s ! i)" using assms(2,3) by (simp add: select_ok_def)
  from assms(1) pk show ?thesis
  proof (cases rule: change_result)
    case 1
    with assms(2) show ?thesis by simp
  next
    case (2 c e p)
    have "listed (emerge_world s) (chosen_ebuild (chosen_nodes s ! i))" using n by (simp add: node_ok_def)
    from listed_ok [OF pk this] 2(2,3) obtain d where
      d: "chosen_ebuild (chosen_nodes s ! i) \<in> set (ebuilds p)" by (metis option.inject sum.inject(2))
    let ?n = "(chosen_nodes s ! i)\<lparr>chosen_ebuild := c, chosen_flags := (chosen_flags (chosen_nodes s ! i))\<lparr>dirty := True\<rparr>\<rparr>"
    have "key_of (emerge_world s) ?n = key_of (emerge_world s) (chosen_nodes s ! i)"
      using kk 2(3,4) d by (auto simp: keys_ok_def key_of_def)
    moreover have "node_ok (emerge_world s) ?n"
      using n 2(3-5) by (auto simp: node_ok_def listed_def)
    ultimately show ?thesis using nodes_update [OF assms(2,3), of ?n] 2(6) by simp
  qed
qed

lemma add_atom_ok:
  assumes "add_atom parent a c key inst (s\<lparr>installs := (installs s)(key := x)\<rparr>) = Gives r s'" "select_ok s"
    and "listed (emerge_world s) c" "takes (emerge_world s) a c" "package_key (the (ebuild_objs (emerge_world s) c)) = key"
    and "slots inst = [] \<or> install_ok s key inst" "\<And>e. the_ebuild (emerge_world s) c = Inr e \<Longrightarrow> ebuild_slot e \<notin> fst ` set (slots inst)"
  shows "select_ok s' \<and> extends s s' \<and> r = Some (length (chosen_nodes s)) \<and> length (chosen_nodes s') = Suc (length (chosen_nodes s)) \<and>
    dom (installs s') = insert key (dom (installs s))"
proof -
  from assms(1) obtain e where e: "the_ebuild (emerge_world s) c = Inr e"
    by (auto simp: add_atom_def bindO_Gives)
  define n where "n = \<lparr>chosen_ebuild = c, selected_by = [(a, parent)], chosen_flags = new_selected Map.empty,
                generators = replicate 4 [], resolved_deps = replicate 4 []\<rparr>"
  let ?inst = "inst\<lparr>slots := slots inst @ [(ebuild_slot e, length (chosen_nodes s))]\<rparr>"
  have s': "s' = s\<lparr>chosen_nodes := chosen_nodes s @ [n], installs := (installs s)(key \<mapsto> ?inst)\<rparr>"
    and r: "r = Some (length (chosen_nodes s))"
    using assms(1) e update_new [OF assms(7) [OF e]] by (simp_all add: add_atom_def Let_def n_def)
  have n: "node_ok (emerge_world s) n" "key_of (emerge_world s) n = key"
    using assms(3-5) by (auto simp: node_ok_def n_def key_of_def)
  have old: "install_ok s' k i" if "install_ok s k i" for k i
    using that by (auto simp: install_ok_def s' nth_append dest: order.strict_trans2 [OF _ le_SucI])
  have fresh: "length (chosen_nodes s) \<notin> snd ` set (slots inst)"
    using assms(6) by (auto simp: install_ok_def)
  have "install_ok s' key ?inst"
    using assms(6) assms(7) [OF e] n(2) fresh by (auto simp: install_ok_def s' nth_append less_Suc_eq)
  with assms(2) old n show ?thesis by (auto simp: select_ok_def s' extends_def r)
qed

text \<open>One step: the invariant, an answer that is a number in use, and the packages it may select.\<close>

definition step_ok :: "string option set \<Rightarrow> emerge \<Rightarrow> nat option \<Rightarrow> emerge \<Rightarrow> bool" where
  "step_ok ks s r s' \<longleftrightarrow> select_ok s' \<and> extends s s' \<and> (\<forall>i. r = Some i \<longrightarrow> i < length (chosen_nodes s')) \<and>
     dom (installs s') \<subseteq> dom (installs s) \<union> ks"

lemma step_ok_trans:
  "step_ok ks s r t \<Longrightarrow> step_ok ks t r' u \<Longrightarrow> step_ok ks s r' u" "step_ok ks s r s' \<Longrightarrow> ks \<subseteq> ls \<Longrightarrow> step_ok ls s r s'"
  unfolding step_ok_def using extends_trans by blast+

lemma change_installs: "change_within_slot i a s = Gives b s' \<Longrightarrow> installs s' = installs s"
  by (auto simp: change_within_slot_def Let_def bindO_Gives split: if_splits option.splits)

lemma slot_number:
  "select_ok s \<Longrightarrow> installs s key = Some inst \<Longrightarrow> i \<in> snd ` set (slots inst) \<Longrightarrow> i < length (chosen_nodes s)"
  unfolding select_ok_def install_ok_def by force

lemma match_atom_ok:
  assumes "match_atom parent a c key inst s = Gives r s'" "select_ok s" "installs s key = Some inst"
    and "listed (emerge_world s) c" "takes (emerge_world s) a c" "package_key (the (ebuild_objs (emerge_world s) c)) = key"
  shows "step_ok {} s r s'"
proof -
  from assms(1) obtain r1 where m: "first_match a (slots inst) s = Gives r1 s"
    unfolding match_atom_def bindO_Gives using first_match_result by blast
  note rest = assms(1) [unfolded match_atom_def m bindO_simps]
  note num = slot_number [OF assms(2,3)]
  show ?thesis
  proof (cases r1)
    case (Some i)
    with rest first_match_result [OF m] num assms(2) show ?thesis by (auto simp: step_ok_def)
  next
    case None
    obtain e where e: "the_ebuild (emerge_world s) c = Inr e" using rest None by (auto simp: bindO_Gives)
    show ?thesis
    proof (cases "ebuild_slot e = None")
      case True
      with rest None e assms(2) show ?thesis by (simp add: step_ok_def)
    next
      case slot: False
      show ?thesis
      proof (cases "map_of (slots inst) (ebuild_slot e)")
        case (Some i)
        then have i: "i < length (chosen_nodes s)" using num by (force dest: map_of_SomeD)
        from rest None e slot Some have "r = Some i \<and> (s' = s \<or> change_within_slot i a s = Gives True s')"
          by (auto simp: bindO_Gives split: if_splits)
        with change_ok [OF _ assms(2) i] change_installs [of i a s] assms(2) i extends_length show ?thesis
          unfolding step_ok_def by fastforce
      next
        case new: None
        from rest e slot new m None have "add_atom parent a c key inst s = Gives r s'" by simp
        then have "add_atom parent a c key inst (s\<lparr>installs := (installs s)(key := Some inst)\<rparr>) = Gives r s'"
          using assms(3) by (simp add: fun_upd_idem)
        from add_atom_ok [OF this assms(2,4,5,6)] assms(2,3) new e show ?thesis
          by (auto simp: step_ok_def select_ok_def map_of_eq_None_iff)
      qed
    qed
  qed
qed

lemma select_atom_ok:
  assumes "select_atom parent a s = Gives r s'" "select_ok s" "atom_fits (emerge_world s) a"
  shows "step_ok {atom_key a} s r s'"
proof -
  have ok: "packages_ok (emerge_world s)" "keys_ok (emerge_world s)" using assms(2) by (simp_all add: select_ok_def)
  from assms(1) obtain c w' where c: "PyPortage_match_atom a (emerge_world s) = Inr (Return (c, w'))" "c \<noteq> 0"
    by (auto simp: select_atom_def bindO_Gives split: if_splits)
  from match_atom_takes [OF ok assms(3) c] have t: "listed (emerge_world s) c" "takes (emerge_world s) a c"
      "package_key (the (ebuild_objs (emerge_world s) c)) = atom_key a" by simp_all
  obtain e where e: "the_ebuild (emerge_world s) c = Inr e" "package_key e = atom_key a"
    using listed_ok [OF ok(1) t(1)] t(3) by (metis option.sel)
  show ?thesis
  proof (cases "installs s (atom_key a)")
    case (Some inst)
    then have "match_atom parent a c (atom_key a) inst s = Gives r s'" using assms(1) c e by (simp add: select_atom_def)
    from match_atom_ok [OF this assms(2) Some t] step_ok_trans(2) show ?thesis by blast
  next
    case None
    then have "add_atom parent a c (atom_key a) \<lparr>install_key = atom_key a, slots = []\<rparr>
        (s\<lparr>installs := (installs s)(atom_key a := Some \<lparr>install_key = atom_key a, slots = []\<rparr>)\<rparr>) = Gives r s'"
      using assms(1) c e by (simp add: select_atom_def Let_def)
    from add_atom_ok [OF this assms(2) t] show ?thesis by (auto simp: step_ok_def)
  qed
qed

lemma with_flags_ok:
  assumes "with_flags i f s = Gives x s'" "select_ok s" "i < length (chosen_nodes s)"
  shows "step_ok {} s (Some i) s'"
proof -
  let ?n = "chosen_nodes s ! i"
  from assms(1) obtain e where e: "the_ebuild (emerge_world s) (chosen_ebuild ?n) = Inr e"
    by (auto simp: with_flags_def Let_def bindO_Gives)
  obtain y fl where "f ((chosen_flags ?n)\<lparr>iuse_flags := iuse e\<rparr>) = (y, fl)" by (cases "f ((chosen_flags ?n)\<lparr>iuse_flags := iuse e\<rparr>)")
  with e assms(1) have s': "s' = s\<lparr>chosen_nodes := (chosen_nodes s)[i := ?n\<lparr>chosen_flags := fl\<rparr>]\<rparr>"
    by (simp add: with_flags_def Let_def split: option.splits)
  have "node_ok (emerge_world s) ?n" using assms(2,3) by (simp add: select_ok_def)
  then have "node_ok (emerge_world s) (?n\<lparr>chosen_flags := fl\<rparr>)" by (simp add: node_ok_def)
  from nodes_update [OF assms(2,3) this] assms(3) show ?thesis by (simp add: step_ok_def s' key_of_def)
qed

text \<open>The atoms that a dependency asks for: not those of blocks, nor those under conditions.\<close>

definition asked :: "dependency \<Rightarrow> atom option" where
  "asked d = (case dep_atom d of Some a \<Rightarrow> if blocks a = ATOM_BLOCK_NONE then Some a else None | None \<Rightarrow> None)"

definition number_ok :: "nat option \<Rightarrow> emerge \<Rightarrow> bool" where
  "number_ok parent s \<longleftrightarrow> (\<forall>p. parent = Some p \<longrightarrow> p < length (chosen_nodes s))"

lemma resolve_single_ok:
  assumes "resolve_single parent d s = Gives r s'" "select_ok s" "number_ok parent s"
    and "\<forall>a. asked d = Some a \<longrightarrow> atom_fits (emerge_world s) a"
  shows "step_ok (atom_key ` set_option (asked d)) s r s' \<and> (asked d = None \<longrightarrow> r = None)"
proof (cases "dep_atom d")
  case (Some a)
  show ?thesis
  proof (cases "blocks a = ATOM_BLOCK_NONE")
    case False
    have "select_ok (add_block a s)" "extends s (add_block a s)" "installs (add_block a s) = installs s"
      using assms(2) by (simp_all add: add_block_def select_ok_def install_ok_def extends_def)
    with Some False assms(1) show ?thesis by (auto simp: resolve_single_def step_ok_def asked_def)
  next
    case True
    with Some have a: "asked d = Some a" by (simp add: asked_def)
    from assms(1) Some True obtain s1 where s1: "select_atom parent a s = Gives r s1"
        "s' = s1 \<or> (\<exists>i. r = Some i \<and> with_flags i (resolve_uses (useflags a)) s1 = Gives () s')"
      by (auto simp: resolve_single_def bindO_Gives split: if_splits option.splits)
    from select_atom_ok [OF s1(1) assms(2)] assms(4) a have one: "step_ok {atom_key a} s r s1" by simp
    have "step_ok {atom_key a} s r s'"
    proof (cases "s' = s1")
      case False
      with s1(2) obtain i where i: "r = Some i" "with_flags i (resolve_uses (useflags a)) s1 = Gives () s'" by auto
      have "select_ok s1" "i < length (chosen_nodes s1)" using one i(1) by (simp_all add: step_ok_def)
      from with_flags_ok [OF i(2) this] step_ok_trans one i(1) show ?thesis by blast
    qed (use one in simp)
    with a show ?thesis by simp
  qed
next
  case None
  then obtain p where p: "parent = Some p" "r = None"
      "s' = s \<or> add_condition p d s = Gives () s'"
    using assms(1) by (auto simp: resolve_single_def bindO_Gives split: if_splits option.splits)
  then have "s' = s \<or> (\<exists>f. with_flags p f s = Gives () s')"
    by (auto simp: add_condition_def Let_def split: if_splits option.splits)
  moreover have "p < length (chosen_nodes s)" using assms(3) p(1) by (simp add: number_ok_def)
  ultimately have "s' = s \<or> step_ok {} s (Some p) s'" using with_flags_ok assms(2) by blast
  then show ?thesis using None p(2) assms(2) by (auto simp: step_ok_def asked_def)
qed

lemma chain_subset: "B \<union> A \<subseteq> C \<Longrightarrow> X \<subseteq> Y \<union> A \<Longrightarrow> Y \<subseteq> Z \<union> B \<Longrightarrow> X \<subseteq> Z \<union> C"
  by blast

lemma resolve_all_ok:
  assumes "resolve_all parent ds s = Gives rs s'" "select_ok s" "number_ok parent s"
    and "\<forall>d \<in> set ds. \<forall>a. asked d = Some a \<longrightarrow> atom_fits (emerge_world s) a"
  shows "select_ok s' \<and> extends s s' \<and> (\<forall>i \<in> set rs. i < length (chosen_nodes s')) \<and>
    dom (installs s') \<subseteq> dom (installs s) \<union> {atom_key a |a. Some a \<in> asked ` set ds} \<and>
    length rs \<le> length (filter (\<lambda>d. asked d \<noteq> None) ds)"
  using assms
proof (induction ds arbitrary: s rs)
  case Nil
  then show ?case by simp
next
  case (Cons d ds)
  then obtain r s1 rs' where one: "resolve_single parent d s = Gives r s1" "resolve_all parent ds s1 = Gives rs' s'"
    "rs = (case r of None \<Rightarrow> rs' | Some i \<Rightarrow> i # rs')" by (auto simp: bindO_Gives)
  have step: "step_ok (atom_key ` set_option (asked d)) s r s1" "asked d = None \<longrightarrow> r = None"
    using resolve_single_ok [OF one(1) Cons.prems(2,3)] Cons.prems(4) by simp_all
  then have ext: "extends s s1" and ok: "select_ok s1" by (simp_all add: step_ok_def)
  have par: "number_ok parent s1" using Cons.prems(3) extends_length [OF ext] by (auto simp: number_ok_def)
  have w: "emerge_world s1 = emerge_world s" using ext by (simp add: extends_def)
  have rest: "select_ok s' \<and> extends s1 s' \<and> (\<forall>i \<in> set rs'. i < length (chosen_nodes s')) \<and>
    dom (installs s') \<subseteq> dom (installs s1) \<union> {atom_key a |a. Some a \<in> asked ` set ds} \<and>
    length rs' \<le> length (filter (\<lambda>d. asked d \<noteq> None) ds)"
    using Cons.IH [OF one(2) ok par] Cons.prems(4) w by simp
  have dom: "dom (installs s') \<subseteq> dom (installs s) \<union> {atom_key a |a. Some a \<in> asked ` set (d # ds)}"
  proof -
    have "atom_key ` set_option (asked d) \<union> {atom_key a |a. Some a \<in> asked ` set ds} \<subseteq> {atom_key a |a. Some a \<in> asked ` set (d # ds)}"
      by (cases "asked d") auto
    moreover have "dom (installs s') \<subseteq> dom (installs s1) \<union> {atom_key a |a. Some a \<in> asked ` set ds}"
      "dom (installs s1) \<subseteq> dom (installs s) \<union> atom_key ` set_option (asked d)"
      using rest step(1) by (simp_all add: step_ok_def)
    ultimately show ?thesis by (rule chain_subset)
  qed
  moreover have "i < length (chosen_nodes s')" if "r = Some i" for i
    using that step(1) rest extends_length by (fastforce simp: step_ok_def)
  moreover have ext': "extends s s'" using extends_trans [OF ext] rest by blast
  moreover have "\<forall>i \<in> set rs'. i < length (chosen_nodes s')" using rest by blast
  ultimately have "\<forall>i \<in> set rs. i < length (chosen_nodes s')" using one(3) by (cases r) simp_all
  moreover have "length rs' \<le> length (filter (\<lambda>d. asked d \<noteq> None) ds)" "select_ok s'" using rest by blast+
  moreover from this(1) have "length rs \<le> length (filter (\<lambda>d. asked d \<noteq> None) (d # ds))"
    using step(2) one(3) by (cases r; cases "asked d") simp_all
  ultimately show ?case using dom ext' by blast
qed

lemma select_ok_new: "packages_ok w \<Longrightarrow> keys_ok w \<Longrightarrow> select_ok (emerge_new w)"
  by (simp add: select_ok_def emerge_new_def)

section \<open>Blocks\<close>

text \<open>The state and the outcome without the recorded blocks.\<close>

definition erase :: "emerge \<Rightarrow> emerge" where
  "erase s = s\<lparr>emerge_blocks := (\<lambda>_. [])\<rparr>"

fun erase_outcome :: "'a outcome \<Rightarrow> 'a outcome" where
  "erase_outcome (Raises e s) = Raises e (erase s)"
| "erase_outcome (Gives r s) = Gives r (erase s)"
| "erase_outcome m = m"

lemma erase_simps [simp]:
  "installs (erase s) = installs s" "chosen_nodes (erase s) = chosen_nodes s" "emerge_world (erase s) = emerge_world s"
  "erase (s\<lparr>installs := x\<rparr>) = (erase s)\<lparr>installs := x\<rparr>" "erase (s\<lparr>chosen_nodes := ns\<rparr>) = (erase s)\<lparr>chosen_nodes := ns\<rparr>"
  "erase (add_block a s) = erase s"
  by (simp_all add: erase_def add_block_def)

lemma erase_bindI:
  "m' = erase_outcome m \<Longrightarrow> (\<And>x s. f' x (erase s) = erase_outcome (f x s)) \<Longrightarrow> bindO m' f' = erase_outcome (bindO m f)"
  by (cases m) simp_all

lemma erase_lift [simp]:
  "erase_outcome (liftP m s) = liftP m (erase s)" "erase_outcome (liftR m' s) = liftR m' (erase s)"
  by (auto simp: liftP_def liftR_def split: sum.splits py.splits)

lemma erase_change: "change_within_slot i a (erase s) = erase_outcome (change_within_slot i a s)"
  unfolding change_within_slot_def Let_def
  by (simp add: bindO_def liftP_def liftR_def split: sum.splits py.splits option.splits)

lemma erase_first_match: "first_match a ss (erase s) = erase_outcome (first_match a ss s)"
proof (induction ss)
  case (Cons x ss)
  then show ?case by (cases x) (auto simp: bindO_def liftP_def split: sum.splits py.splits)
qed simp

lemma erase_add_atom: "add_atom parent a c key inst (erase s) = erase_outcome (add_atom parent a c key inst s)"
  by (cases "the_ebuild (emerge_world s) c") (simp_all add: add_atom_def Let_def)

lemma erase_match_atom: "match_atom parent a c key inst (erase s) = erase_outcome (match_atom parent a c key inst s)"
  unfolding match_atom_def
  by (auto intro!: erase_bindI simp: erase_first_match erase_change erase_add_atom split: option.splits)

lemma erase_select_atom: "select_atom parent a (erase s) = erase_outcome (select_atom parent a s)"
proof -
  have "add_atom parent a c key inst ((erase s)\<lparr>installs := x\<rparr>) = erase_outcome (add_atom parent a c key inst (s\<lparr>installs := x\<rparr>))"
    for c key inst x s using erase_add_atom [of parent a c key inst "s\<lparr>installs := x\<rparr>"] by simp
  then show ?thesis unfolding select_atom_def
    by (auto intro!: erase_bindI simp: erase_match_atom Let_def split: option.splits)
qed

lemma erase_with_flags: "with_flags i f (erase s) = erase_outcome (with_flags i f s)"
  unfolding with_flags_def Let_def erase_simps
  by (rule erase_bindI) (auto split: prod.splits option.splits)

lemma erase_erase [simp]: "erase (erase s) = erase s" "erase_outcome (erase_outcome m) = erase_outcome m"
  by (simp add: erase_def, cases m, simp_all add: erase_def)

lemma erase_bind_eq:
  assumes "erase_outcome m = erase_outcome m'" "\<And>x s. erase_outcome (f x (erase s)) = erase_outcome (f x s)"
  shows "erase_outcome (bindO m f) = erase_outcome (bindO m' f)"
proof (cases m)
  case (Gives x s)
  with assms(1) obtain s' where "m' = Gives x s'" "erase s = erase s'" by (cases m') auto
  with Gives assms(2) [of x s] assms(2) [of x s'] show ?thesis by simp
qed (use assms in \<open>cases m'; simp\<close>)+

lemma erase_resolve_single: "erase_outcome (resolve_single parent d (erase s)) = erase_outcome (resolve_single parent d s)"
proof (cases "dep_atom d")
  case (Some a)
  then show ?thesis
    by (auto intro!: erase_bind_eq simp: resolve_single_def erase_select_atom erase_with_flags split: option.splits)
next
  case None
  have "add_condition p d (erase s) = erase_outcome (add_condition p d s)" for p
    by (simp add: add_condition_def Let_def erase_with_flags split: option.splits)
  with None show ?thesis
    by (auto intro!: erase_bind_eq simp: resolve_single_def split: option.splits)
qed

lemma erase_resolve_all: "erase_outcome (resolve_all parent ds (erase s)) = erase_outcome (resolve_all parent ds s)"
proof (induction ds arbitrary: s)
  case (Cons d ds)
  show ?case unfolding resolve_all.simps
    by (rule erase_bind_eq [OF erase_resolve_single], rule erase_bind_eq [OF Cons], simp)
qed simp

section \<open>Properties\<close>

definition is_block :: "dependency \<Rightarrow> bool" where
  "is_block d \<longleftrightarrow> (\<exists>a. dep_atom d = Some a \<and> blocks a \<noteq> ATOM_BLOCK_NONE)"


text \<open>Two requests for \<open><=a/b-2\<close>, with a block in front of the second.\<close>

definition resolver_world :: world where
  "resolver_world = sample_world\<lparr>packages := \<lparr>lut_table = [[\<lparr>nid = 0, nkey = ''a/b'', ndata = 16, nflags = 0\<rparr>]],
     lut_n = 1, lut_size = 1, lut_realloc_at = 1\<rparr>\<rparr>"

abbreviation "up_to_two \<equiv> sample_atom ''2'' ATOM_VERSION_LE"

definition want :: "atom \<Rightarrow> dependency" where
  "want a = Dependency USE_OP_DISABLE 0 (Some a) []"

lemma up_to_two_facts: "atom_key up_to_two = Some ''a/b''" "atom_id up_to_two = 0" "blocks up_to_two = ATOM_BLOCK_NONE"
  "useflags up_to_two = []"
  by (simp_all add: sample_atom_def atom_new_def)

lemma resolver_world_facts:
  "packages_ok resolver_world" "keys_ok resolver_world"
  "atom_fits resolver_world (up_to_two\<lparr>blocks := b\<rparr>)" "atom_fits resolver_world up_to_two"
  "PyAtom_matches up_to_two [P_Ebuild 1] resolver_world = Inr (Return True)"
  "the_ebuild resolver_world 1 = Inr (sample_ebuild ''1'' 16)"
  "\<exists>w'. PyPortage_match_atom up_to_two resolver_world = Inr (Return (1, w'))"
proof -
  show "packages_ok resolver_world" using sample_facts(1)
    by (simp add: packages_ok_def package_ok_def ebuild_ok_def key_at_def version_at_def resolver_world_def)
  show "keys_ok resolver_world"
    by (simp add: keys_ok_def resolver_world_def sample_world_def sample_ebuild_def package_new_def)
  show "atom_fits resolver_world (up_to_two\<lparr>blocks := b\<rparr>)" "atom_fits resolver_world up_to_two"
    by (auto simp: atom_fits_def resolver_world_def sample_world_def sample_atom_def number_version_facts isdigit_def)
  have e: "the_ebuild resolver_world 1 = Inr (sample_ebuild ''1'' 16)" "the_ebuild resolver_world 2 = Inr (sample_ebuild ''3'' 16)"
    by (simp_all add: the_ebuild_def resolver_world_def sample_world_def)
  then show "the_ebuild resolver_world 1 = Inr (sample_ebuild ''1'' 16)" by simp
  show "PyAtom_matches up_to_two [P_Ebuild 1] resolver_world = Inr (Return True)"
    by (simp add: PyAtom_matches_def e sample_matches)
  have p: "the_package resolver_world 16 = Inr (package_new\<lparr>pkg_key := Some ''a/b'', ebuilds := [2, 1]\<rparr>)"
    by (simp add: the_package_def resolver_world_def sample_world_def)
  have cmp: "atom_version_compare (ebuild_version (sample_ebuild ''3'' 16)) (atom_version up_to_two) = Inr 1"
    "atom_version_compare (ebuild_version (sample_ebuild ''1'' 16)) (atom_version up_to_two) = Inr (- 1)"
    "range_has up_to_two ATOM_VERSION_G = False" "range_has up_to_two ATOM_VERSION_L = True"
    by code_simp+
  have g: "lut_get (packages resolver_world) 0 = 16" by (simp add: lut_get_def lut_bucket_def resolver_world_def)
  have "PyPortage_match_atom up_to_two resolver_world = Inr (Return (1, add_count 1 1 resolver_world))"
    by (simp add: PyPortage_match_atom_def up_to_two_facts g Let_def PyPackage_match_atom_def p e cmp)
  then show "\<exists>w'. PyPortage_match_atom up_to_two resolver_world = Inr (Return (1, w'))" by blast
qed


text \<open>
  C19: blocks have no effect. Resolving a list of dependencies is resolving it without its
  blocks: the same answers or exception, and the same selection; only the table of blocks is
  different, which nothing reads.
\<close>

theorem blocks_ignored:
  "erase_outcome (resolve_all parent ds s) = erase_outcome (resolve_all parent (filter (\<lambda>d. \<not> is_block d) ds) s)"
proof (induction ds arbitrary: s)
  case Nil
  then show ?case by simp
next
  case (Cons d ds)
  show ?case
  proof (cases "is_block d")
    case True
    then obtain a where "resolve_single parent d s = Gives None (add_block a s)"
      by (auto simp: is_block_def resolve_single_def)
    moreover have "bindO (resolve_all parent ds t) (\<lambda>rs s. Gives rs s) = resolve_all parent ds t" for t
      by (cases "resolve_all parent ds t") simp_all
    moreover have "erase_outcome (resolve_all parent ds (add_block a s)) = erase_outcome (resolve_all parent ds s)"
      using erase_resolve_all [of parent ds "add_block a s"] erase_resolve_all [of parent ds s] by simp
    ultimately show ?thesis using True Cons by simp
  next
    case False
    have "erase_outcome (bindO (resolve_all parent ds s1) (\<lambda>rs s. Gives (case r of None \<Rightarrow> rs | Some i \<Rightarrow> i # rs) s)) =
      erase_outcome (bindO (resolve_all parent (filter (\<lambda>d. \<not> is_block d) ds) s1) (\<lambda>rs s. Gives (case r of None \<Rightarrow> rs | Some i \<Rightarrow> i # rs) s))"
      for r s1 by (rule erase_bind_eq [OF Cons]) simp
    with False show ?thesis by (cases "resolve_single parent d s") simp_all
  qed
qed

text \<open>
  An atom that the selected ebuilds of its package refuse, and whose newest match has no slot
  yet because its metadata has not been read, is dropped without a word.
\<close>

lemma second_version_dropped:
  assumes "PyPortage_match_atom a (emerge_world s) = Inr (Return (c, w'))" "c \<noteq> 0"
    and "the_ebuild (emerge_world s) c = Inr e" "ebuild_slot e = None"
    and "installs s (package_key e) = Some inst" "first_match a (slots inst) s = Gives None s"
    and "dep_atom d = Some a" "blocks a = ATOM_BLOCK_NONE" "useflags a = []"
  shows "resolve_single parent d s = Gives None s"
  using assms by (simp add: resolve_single_def select_atom_def match_atom_def)

end
