(* ===== verification/Known_Atoms.thy ===== *)
theory Known_Atoms
  imports Required_Use Depend_Parse
begin

text \<open>
  What parsing keeps and what the atoms of a parsed dependency refer to: an atom's id is the id
  of its key, so that looking it up leads to the package of its key or to none. The resolver
  (\<^verbatim>\<open>portage/resolve.py\<close>) ends because of that.
\<close>

section \<open>Parsing adds flags only\<close>

definition keeps :: "world \<Rightarrow> world \<Rightarrow> bool" where
  "keeps w w' \<longleftrightarrow> packages w' = packages w \<and> pkg_objs w' = pkg_objs w \<and> ebuild_objs w' = ebuild_objs w"

lemma keeps_refl [simp]: "keeps w w"
  by (simp add: keeps_def)

lemma keeps_trans: "keeps w w' \<Longrightarrow> keeps w' w'' \<Longrightarrow> keeps w w''"
  by (simp add: keeps_def)

lemma bindR_Inr: "bindR m f = Inr y \<longleftrightarrow> (\<exists>x. m = Inr x \<and> f x = Inr y)"
  by (cases m) (simp_all add: bindR_def)

lemma use_get_global_keeps: "use_get_global alloc name w = Inr (i, w') \<Longrightarrow> keeps w w'"
  by (auto simp: use_get_global_def Let_def bindR_Inr keeps_def add_count_def new_count_def split: option.splits prod.splits if_splits)

lemma dependency_build_use_keeps: "dependency_build_use alloc t opt kids w = Inr (d, w') \<Longrightarrow> keeps w w'"
  by (auto simp: dependency_build_use_def bindR_Inr use_get_global_keeps split: option.splits)

lemma depend_nodes_keeps:
  "depend_node alloc t w = Inr (d, w') \<Longrightarrow> keeps w w' \<and> (\<forall>a. dep_atom d = Some a \<longrightarrow> t = Leaf a)"
  "depend_nodes alloc k w = Inr (ds, w') \<Longrightarrow> keeps w w' \<and> (\<forall>d \<in> set ds. \<forall>a. dep_atom d = Some a \<longrightarrow> Leaf a \<in> set k)"
proof (induction alloc t w and alloc k w arbitrary: d w' and ds w' rule: depend_node_depend_nodes.induct)
  case (1 alloc a w)
  then show ?case by (auto simp: dependency_build_atom_def)
next
  case (2 alloc target opt k w)
  then obtain kids w1 where "depend_nodes alloc k w = Inr (kids, w1)" "dependency_build_use alloc target opt kids w1 = Inr (d, w')"
    by (auto simp: bindR_Inr)
  moreover from this(2) have "dep_atom d = None" by (auto simp: dependency_build_use_def bindR_Inr split: option.splits)
  ultimately show ?case using 2 dependency_build_use_keeps keeps_trans by fastforce
next
  case (3 alloc k w)
  then show ?case by (auto simp: bindR_Inr dependency_build_grouping_def)
next
  case (4 alloc w)
  then show ?case by simp
next
  case (5 alloc t k w)
  then obtain d w1 ds' where one: "depend_node alloc t w = Inr (d, w1)" "depend_nodes alloc k w1 = Inr (ds', w')" "ds = d # ds'"
    by (auto simp: bindR_Inr)
  with 5(1) [OF one(1)] 5(2) [OF one(1) refl one(2)] keeps_trans show ?case by auto
qed

lemma ru_nodes_keeps:
  "ru_node alloc t w = Inr (r, w') \<Longrightarrow> keeps w w'"
  "ru_nodes alloc k w = Inr (rs, w') \<Longrightarrow> keeps w w'"
proof (induction alloc t w and alloc k w arbitrary: r w' and rs w' rule: ru_node_ru_nodes.induct)
  case (1 alloc target opt w)
  then show ?case by (auto simp: bindR_Inr use_build_required_use_def use_get_global_keeps)
next
  case (2 alloc target opt k w)
  then obtain kids w1 x where "ru_nodes alloc k w = Inr (kids, w1)" "use_build_required_use alloc target opt w1 = Inr (x, w')"
    by (auto simp: bindR_Inr)
  with 2 keeps_trans use_get_global_keeps show ?case by (fastforce simp: use_build_required_use_def bindR_Inr)
next
  case (6 alloc t u k w)
  then obtain xs w1 ys where one: "ru_node alloc t w = Inr (xs, w1)" "ru_nodes alloc (u # k) w1 = Inr (ys, w')"
    by (auto simp: bindR_Inr)
  with 6(1) [OF one(1)] 6(2) [OF one(1) refl one(2)] keeps_trans show ?case by blast
qed simp_all

section \<open>The atoms of a tree\<close>

text \<open>The rules of the grammar set ranges, blocks, slots, repository and flags, not key and id.\<close>

definition token_keys :: "tokens \<Rightarrow> (lut_id \<times> string option) set" where
  "token_keys ts = {(atom_id a, atom_key a) |a. ATOM a \<in> set ts}"

lemma token_keys_simps [simp]:
  "token_keys (ts @ us) = token_keys ts \<union> token_keys us" "token_keys [] = {}"
  "token_keys (t # ts) = (case t of ATOM a \<Rightarrow> {(atom_id a, atom_key a)} | _ \<Rightarrow> {}) \<union> token_keys ts"
  by (auto simp: token_keys_def split: depend_token.splits)

lemma atom_version_key: "atom_version_rule ts a \<Longrightarrow> (atom_id a, atom_key a) \<in> token_keys ts"
  by (induction rule: atom_version_rule.induct) simp_all

lemma atom_block_key: "atom_block_rule ts a \<Longrightarrow> (atom_id a, atom_key a) \<in> token_keys ts"
  by (induction rule: atom_block_rule.induct) (simp_all add: atom_version_key)

lemma atom_slot_key: "atom_slot_rule ts a \<Longrightarrow> (atom_id a, atom_key a) \<in> token_keys ts"
  by (induction rule: atom_slot_rule.induct) (simp_all add: atom_block_key)

lemma atom_repo_key: "atom_repo_rule ts a \<Longrightarrow> (atom_id a, atom_key a) \<in> token_keys ts"
  by (induction rule: atom_repo_rule.induct) (simp_all add: atom_slot_key)

lemma atom_rule_key: "atom_rule ts a \<Longrightarrow> (atom_id a, atom_key a) \<in> token_keys ts"
  by (induction rule: atom_rule.induct) (simp_all add: atom_repo_key)

lemma depend_expr_keys:
  "depend_expr ts k \<Longrightarrow> Leaf a \<in> set k \<Longrightarrow> (atom_id a, atom_key a) \<in> token_keys ts"
  "depend_expr_single ts t \<Longrightarrow> t = Leaf a \<Longrightarrow> (atom_id a, atom_key a) \<in> token_keys ts"
  by (induction rule: depend_expr_depend_expr_single.inducts) (auto simp: atom_rule_key)

lemma program_keys: "p_program ts = Some k \<Longrightarrow> Leaf a \<in> set k \<Longrightarrow> (atom_id a, atom_key a) \<in> token_keys ts"
  using depend_expr_keys(1) by (auto simp: p_program_iff elim!: program_depend.cases)

section \<open>Known atoms\<close>

text \<open>The tables agree with the objects and have room to look up any key.\<close>

definition tables_ok :: "world \<Rightarrow> bool" where
  "tables_ok w \<longleftrightarrow> entries_ok w \<and> keys_ok w \<and> lut_wf (packages w) \<and> (\<forall>k. lut_room (packages w) k)"

definition atom_known :: "world \<Rightarrow> atom \<Rightarrow> bool" where
  "atom_known w a \<longleftrightarrow> (\<forall>p. lut_get (packages w) (atom_id a) \<noteq> 0 \<and>
     pkg_objs w (lut_get (packages w) (atom_id a)) = Some p \<longrightarrow> pkg_key p = atom_key a)"

lemma db_ok_tables: "db_ok (Suc m) w \<Longrightarrow> tables_ok w"
  using cap_room by (auto simp: db_ok_def tables_ok_def lut_cap_def)

lemma looked_up_known:
  assumes "tables_ok w" "atom_id a = fst (lut_get_id (packages w) k)" "atom_key a = Some k"
  shows "atom_known w a"
proof -
  obtain i fl where i: "lut_get_id (packages w) k = (i, fl)" by (cases "lut_get_id (packages w) k")
  then consider "fl = LUT_FLAG_NOT_FOUND" | "fl = LUT_FLAG_EXISTS"
    by (auto simp: lut_get_id_chain split: option.splits)
  then show ?thesis
  proof cases
    case 1
    with assms i lut_fresh_id have "lut_entries (packages w) i = None" by (auto simp: tables_ok_def)
    with assms(2) i show ?thesis by (simp add: atom_known_def lut_get_entries)
  next
    case 2
    with assms i lut_entries_iff obtain d f where entry: "lut_entries (packages w) i = Some (k, d, f)"
      by (auto simp: tables_ok_def)
    with assms(1) have "\<exists>p. pkg_objs w d = Some p \<and> pkg_key p = Some k" unfolding tables_ok_def entries_ok_def by blast
    with entry assms(2,3) i show ?thesis by (auto simp: atom_known_def lut_get_entries)
  qed
qed

text \<open>The pattern of an atom asks for a slash.\<close>

definition slashes :: "(string \<Rightarrow> (depend_rule \<times> string) list option) \<Rightarrow> bool" where
  "slashes lexer \<longleftrightarrow> (\<forall>input ls y. lexer input = Some ls \<and> (R_atom, y) \<in> set ls \<longrightarrow> CHR ''/'' \<in> set y)"

lemma atom_init_key:
  assumes "atom_init (Some pkgs) self y = Inr (code, a)" "strchr y (CHR ''/'') = Some c"
  shows "\<exists>k. lut_get_id pkgs k = (atom_id a, id_flag a) \<and> atom_key a = Some k"
proof -
  let ?r = "drop (c + 1) y"
  obtain ver name where vn: "(case version_split ?r of None \<Rightarrow> (None, ?r)
      | Some i \<Rightarrow> (Some (atom_version_init atom_version_new (drop (i + 1) ?r)), take i ?r)) = (ver, name)" by fastforce
  obtain i fl where i: "lut_get_id pkgs (take c y @ ''/'' @ name) = (i, fl)" by fastforce
  obtain h b where "a = b\<lparr>atom_key := Some (take c y @ ''/'' @ name), atom_id := i, id_flag := fl, cached_hash := h\<rparr>"
    using assms unfolding atom_init_def Let_def option.case assms(2) vn prod.case i bindR_Inr by auto
  with i show ?thesis by simp
qed

lemma atom_action_known:
  assumes "tables_ok w" "CHR ''/'' \<in> set y" "atom_action (Some (packages w)) y = Inr (ATOM a)"
  shows "atom_known w a"
proof -
  from assms(2) obtain c where c: "strchr y (CHR ''/'') = Some c"
    using str_index_None [of "\<lambda>d. d = CHR ''/''" y] by (auto simp: strchr_def)
  from assms(3) obtain code where "atom_init (Some (packages w)) atom_new y = Inr (code, a)" by (auto simp: atom_action_def bindR_Inr)
  then obtain k where "lut_get_id (packages w) k = (atom_id a, id_flag a)" "atom_key a = Some k"
    using atom_init_key [OF _ c] by blast
  then show ?thesis by (intro looked_up_known [OF assms(1), of a k]) simp_all
qed

lemma depend_tokens_known:
  assumes "tables_ok w" "\<forall>y. (R_atom, y) \<in> set ls \<longrightarrow> CHR ''/'' \<in> set y" "depend_tokens (Some (packages w)) ls = Inr ts" "ATOM a \<in> set ts"
  shows "atom_known w a"
  using assms(2-4)
proof (induction ls arbitrary: ts)
  case Nil
  then show ?case by simp
next
  case (Cons l ls)
  obtain r y where l: "l = (r, y)" by (cases l)
  from Cons.prems(2) obtain t us where t: "depend_action (Some (packages w)) r y = Inr t"
      "depend_tokens (Some (packages w)) ls = Inr us" "ts = (case t of None \<Rightarrow> us | Some t \<Rightarrow> t # us)"
    by (auto simp: l bindR_Inr)
  show ?case
  proof (cases "t = Some (ATOM a)")
    case True
    have "r = R_atom" using t(1) True
      by (cases r) (auto simp: slot_action_def atomflags_action_def use_select_action_def Let_def split: if_splits option.splits prod.splits)
    then have "atom_action (Some (packages w)) y = Inr (ATOM a)" "CHR ''/'' \<in> set y"
      using t(1) True Cons.prems(1) by (auto simp: l map_sum_def split: sum.splits)
    then show ?thesis using atom_action_known [OF assms(1)] by blast
  next
    case False
    with t(3) Cons.prems(3) have "ATOM a \<in> set us" by (auto split: option.splits)
    with Cons t(2) show ?thesis by simp
  qed
qed

lemma depend_parse_known:
  assumes "tables_ok w" "slashes lexer" "depend_parse lexer failed alloc input w = Inr (ds, w')" "ds \<noteq> []"
  shows "keeps w w' \<and> (\<forall>d \<in> set ds. \<forall>a. dep_atom d = Some a \<longrightarrow> atom_known w a)"
proof -
  from assms(3,4) obtain ls ts k where run: "lexer input = Some ls" "depend_tokens (Some (packages w)) ls = Inr ts"
      "p_program ts = Some k" "depend_nodes alloc k w = Inr (ds, w')"
    by (auto simp: depend_parse_def bindR_Inr split: option.splits)
  have "atom_known w a" if leaf: "Leaf a \<in> set k" for a
  proof -
    obtain b where b: "ATOM b \<in> set ts" "atom_id b = atom_id a" "atom_key b = atom_key a"
      using program_keys [OF run(3) leaf] by (auto simp: token_keys_def)
    then have "atom_known w b" using depend_tokens_known [OF assms(1) _ run(2)] run(1) assms(2) by (auto simp: slashes_def)
    with b show ?thesis by (simp add: atom_known_def)
  qed
  with depend_nodes_keeps(2) [OF run(4)] show ?thesis by blast
qed

lemma required_use_parse_keeps:
  "required_use_parse lexer failed alloc input w = Inr (rs, w') \<Longrightarrow> rs \<noteq> [] \<Longrightarrow> keeps w w'"
  using ru_nodes_keeps(2) by (auto simp: required_use_parse_def split: option.splits)

section \<open>Reading metadata\<close>

definition parsers_ok :: "depend_parser \<Rightarrow> required_use_parser \<Rightarrow> bool" where
  "parsers_ok dp rp \<longleftrightarrow>
     (\<forall>text w ds w'. tables_ok w \<and> dp text w = Inr (ds, w') \<and> ds \<noteq> [] \<longrightarrow>
        keeps w w' \<and> (\<forall>d \<in> set ds. \<forall>a. dep_atom d = Some a \<longrightarrow> atom_known w a)) \<and>
     (\<forall>text w rs w'. rp text w = Inr (rs, w') \<and> rs \<noteq> [] \<longrightarrow> keeps w w')"

lemma depend_parsers_ok: "slashes dlex \<Longrightarrow> parsers_ok (depend_parse dlex dfail alloc) (required_use_parse rlex rfail alloc)"
  using depend_parse_known required_use_parse_keeps unfolding parsers_ok_def by blast

definition ebuild_known :: "world \<Rightarrow> ebuild \<Rightarrow> bool" where
  "ebuild_known w e \<longleftrightarrow> (\<forall>d \<in> set (bdepend e) \<union> set (depend e) \<union> set (rdepend e) \<union> set (pdepend e).
     \<forall>a. dep_atom d = Some a \<longrightarrow> atom_known w a)"

lemma keeps_known: "keeps w w' \<Longrightarrow> tables_ok w' = tables_ok w \<and> atom_known w' a = atom_known w a \<and> ebuild_known w' e = ebuild_known w e"
  by (simp add: keeps_def tables_ok_def atom_known_def ebuild_known_def entries_ok_def keys_ok_def)

text \<open>An error stays an error.\<close>

lemma depend_field_error: "depend_field dp name val error e w = Inr (error', e', w') \<Longrightarrow> error \<noteq> 0 \<Longrightarrow> error' \<noteq> 0"
  by (auto simp: depend_field_def bindR_Inr split: option.splits if_splits)

lemma metadata_loop_error: "metadata_loop dp rp lines error e w = Inr (error', e', w') \<Longrightarrow> error \<noteq> 0 \<Longrightarrow> error' \<noteq> 0"
proof (induction lines arbitrary: error e w)
  case (Cons l lines)
  obtain name val where l: "l = (name, val)" by (cases l)
  from Cons.prems(1) obtain x e1 w1 where "depend_field dp name val error e w = Inr (x, e1, w1)" by (auto simp: l bindR_Inr)
  moreover from this have "x \<noteq> 0" using depend_field_error Cons.prems(2) by blast
  ultimately show ?case using Cons.prems Cons.IH [of x]
    by (auto simp: l bindR_Inr Let_def split: if_splits list.splits)
qed simp

definition same_place :: "ebuild \<Rightarrow> ebuild \<Rightarrow> bool" where
  "same_place e e' \<longleftrightarrow> package_key e' = package_key e \<and> package e' = package e"

text \<open>The other fields of a file do not touch the dependencies.\<close>

definition same_dependencies :: "ebuild \<Rightarrow> ebuild \<Rightarrow> bool" where
  "same_dependencies e e' \<longleftrightarrow> same_place e e' \<and>
     bdepend e' = bdepend e \<and> depend e' = depend e \<and> rdepend e' = rdepend e \<and> pdepend e' = pdepend e"

lemma same_dependencies_simps [simp]:
  "same_dependencies e e" "same_dependencies e (ebuild_iuse_init e t)" "same_dependencies e (ebuild_keyword_init e t)"
  "same_dependencies e (e\<lparr>ebuild_slot := x\<rparr>)" "same_dependencies e (e\<lparr>ebuild_slot := x, ebuild_sub_slot := y\<rparr>)"
  "same_dependencies e (e\<lparr>required_use := r\<rparr>)"
  by (simp_all add: same_dependencies_def same_place_def ebuild_iuse_init_def ebuild_keyword_init_def)

lemma same_dependencies_known: "same_dependencies e e' \<Longrightarrow> ebuild_known w e' = ebuild_known w e"
  by (simp add: same_dependencies_def ebuild_known_def)

lemma depend_field_known:
  assumes "parsers_ok dp rp" "tables_ok w" "ebuild_known w e" "depend_field dp name val 0 e w = Inr (0, e', w')"
  shows "keeps w w' \<and> ebuild_known w e' \<and> same_place e e'"
proof (cases "find (\<lambda>(n, _, _). n = name) depend_setup")
  case None
  with assms(3,4) show ?thesis by (simp add: depend_field_def same_place_def)
next
  case (Some f)
  obtain n get put where f: "f = (n, get, put)" by (cases f)
  with Some assms(4) obtain ds where ds: "dp val w = Inr (ds, w')" "ds \<noteq> []" "e' = put ds e"
    by (auto simp: depend_field_def bindR_Inr split: if_splits)
  then have new: "keeps w w' \<and> (\<forall>d \<in> set ds. \<forall>a. dep_atom d = Some a \<longrightarrow> atom_known w a)"
    using assms(1,2) unfolding parsers_ok_def by blast
  have "f \<in> set depend_setup" using Some by (auto dest: find_SomeD)
  then consider "put = (\<lambda>d e. e\<lparr>depend := d\<rparr>)" | "put = (\<lambda>d e. e\<lparr>rdepend := d\<rparr>)"
    | "put = (\<lambda>d e. e\<lparr>pdepend := d\<rparr>)" | "put = (\<lambda>d e. e\<lparr>bdepend := d\<rparr>)"
    unfolding depend_setup_def f by auto
  then have "ebuild_known w (put ds e) \<and> same_place e (put ds e)"
    by cases (use assms(3) new in \<open>simp_all add: ebuild_known_def same_place_def ball_Un\<close>)
  with new ds show ?thesis by simp
qed

lemma metadata_loop_known:
  assumes "parsers_ok dp rp" "tables_ok w" "ebuild_known w e" "metadata_loop dp rp lines 0 e w = Inr (0, e', w')"
  shows "keeps w w' \<and> ebuild_known w' e' \<and> same_place e e'"
  using assms(2-)
proof (induction lines arbitrary: e w)
  case Nil
  then show ?case by (simp add: same_place_def)
next
  case (Cons l lines)
  obtain name val where l: "l = (name, val)" by (cases l)
  from Cons.prems(3) obtain x e1 w1 where one: "depend_field dp name val 0 e w = Inr (x, e1, w1)"
    and rest: "(\<lambda>(error, self, w). 
         if name = ''SLOT'' then
           (case strtok_all ''/'' val of
              [] \<Rightarrow> Inl Null_Deref
            | [tok] \<Rightarrow> metadata_loop dp rp lines error (self\<lparr>ebuild_slot := Some tok\<rparr>) w
            | tok # tok2 # _ \<Rightarrow>
                metadata_loop dp rp lines error (self\<lparr>ebuild_slot := Some tok, ebuild_sub_slot := Some tok2\<rparr>) w)
         else if name = ''REQUIRED_USE'' then
           bindR (rp val w) (\<lambda>(r, w). let self = self\<lparr>required_use := r\<rparr>
            in if r = [] then Inr (3, self, w) else metadata_loop dp rp lines error self w)
         else if name = ''KEYWORDS'' then
           metadata_loop dp rp lines error (ebuild_keyword_init self val) w
         else if name = ''IUSE'' then
           metadata_loop dp rp lines error (ebuild_iuse_init self val) w
         else metadata_loop dp rp lines error self w) (x, e1, w1) = Inr (0, e', w')"
    by (auto simp only: l metadata_loop.simps bindR_Inr)
  have x: "x = 0" using rest metadata_loop_error [of dp rp lines x _ _ 0 e' w']
    by (cases "x = 0") (auto simp: bindR_Inr Let_def split: if_splits list.splits)
  note field = depend_field_known [OF assms(1) Cons.prems(1,2) one [unfolded x]]
  have rp: "rp val w1 = Inr (rs, w2) \<Longrightarrow> rs \<noteq> [] \<Longrightarrow> keeps w1 w2" for rs w2
    using assms(1) unfolding parsers_ok_def by blast
  have result: "metadata_loop dp rp lines x e2 w2 = Inr (0, e', w') \<Longrightarrow> keeps w1 w2 \<Longrightarrow> same_dependencies e1 e2 \<Longrightarrow>
      \<exists>w2 e2. metadata_loop dp rp lines x e2 w2 = Inr (0, e', w') \<and> keeps w1 w2 \<and> same_dependencies e1 e2" for w2 e2
    by blast
  from rest have "\<exists>w2 e2. metadata_loop dp rp lines x e2 w2 = Inr (0, e', w') \<and> keeps w1 w2 \<and> same_dependencies e1 e2"
    by (auto simp: bindR_Inr Let_def split: if_splits list.splits) (rule result, assumption, simp add: rp, simp)+
  then obtain w2 e2 where two: "metadata_loop dp rp lines 0 e2 w2 = Inr (0, e', w')" "keeps w1 w2" "same_dependencies e1 e2"
    unfolding x by blast
  have "tables_ok w2" "ebuild_known w2 e2"
    using two(2,3) field Cons.prems(1) keeps_known same_dependencies_known by auto
  with Cons.IH [OF _ _ two(1)] have "keeps w2 w' \<and> ebuild_known w' e' \<and> same_place e2 e'"
    using keeps_known by blast
  with field two(2,3) show ?case by (auto simp: same_place_def same_dependencies_def intro: keeps_trans)
qed

lemma metadata_init_known:
  assumes "parsers_ok dp rp" "tables_ok w" "ebuild_known w e" "ebuild_metadata_init dp rp contents closes e w = Inr (0, e', w')"
  shows "keeps w w' \<and> ebuild_known w' e' \<and> same_place e e' \<and> metadata_init e'"
proof -
  let ?e = "e\<lparr>arch_keywords := (\<lambda>_. KEYWORD_NONE)\<rparr>"
  from assms(4) obtain t x e1 where run: "contents = Some t" "metadata_loop dp rp (metadata_fields t) 0 ?e w = Inr (x, e1, w')"
      "(if closes then x else 4) = 0" "e' = (if x = 0 then e1\<lparr>metadata_init := True\<rparr> else e1)"
    by (auto simp: ebuild_metadata_init_def bindR_Inr Let_def split: option.splits)
  have x: "x = 0" using run(3) by (simp split: if_splits)
  have "ebuild_known w ?e" using assms(3) by (simp add: ebuild_known_def)
  from metadata_loop_known [OF assms(1,2) this run(2) [unfolded x]] run(4) x
  show ?thesis by (simp add: ebuild_known_def same_place_def)
qed

end
