(* ===== verification/Resolver.thy ===== *)
theory Resolver
  imports Resolver_Select Known_Atoms
begin

text \<open>
  The resolver as a whole (\<^verbatim>\<open>portage/resolve.py\<close>): a selected ebuild reads its metadata, sets its
  flags, resolves its dependencies and then visits the ebuilds they selected, each once in a
  session.
\<close>

section \<open>Metadata\<close>

text \<open>The parsers, the contents of cache files, and whether a file closes.\<close>

record reader =
  parse_depend :: depend_parser
  parse_required_use :: required_use_parser
  cache_contents :: "ebuild \<Rightarrow> string option"
  closes :: bool

definition initialize_metadata :: "reader \<Rightarrow> u64 \<Rightarrow> emerge \<Rightarrow> unit outcome" where
  "initialize_metadata env c s =
     bindO (liftR (the_ebuild (emerge_world s) c) s) (\<lambda>e s.
     bindO (liftR (ebuild_metadata_init (parse_depend env) (parse_required_use env) (cache_contents env e) (closes env)
         e (emerge_world s)) s) (\<lambda>(error, e', w) s.
       let s = s\<lparr>emerge_world := w\<lparr>ebuild_objs := (ebuild_objs w)(c \<mapsto> e')\<rparr>\<rparr>
       in if error \<noteq> 0 then Raises (E_Python RuntimeError) s else Gives () s))"

section \<open>Regeneration\<close>

definition change_node :: "nat \<Rightarrow> (chosen \<Rightarrow> chosen) \<Rightarrow> emerge \<Rightarrow> emerge" where
  "change_node i f s = s\<lparr>chosen_nodes := (chosen_nodes s)[i := f (chosen_nodes s ! i)]\<rparr>"

definition append_at :: "nat \<Rightarrow> nat \<Rightarrow> nat list list \<Rightarrow> nat list list" where
  "append_at k j xss = xss[k := xss ! k @ [j]]"

text \<open>The loop over the dependencies of one kind.\<close>

fun add_generators :: "nat \<Rightarrow> nat \<Rightarrow> dependency list \<Rightarrow> emerge \<Rightarrow> unit outcome" where
  "add_generators i k [] s = Gives () s"
| "add_generators i k (d # ds) s =
     bindO (resolve_single (Some i) d s) (\<lambda>r s. add_generators i k ds
       (case r of None \<Rightarrow> s | Some j \<Rightarrow> change_node i (\<lambda>n. n\<lparr>generators := append_at k j (generators n)\<rparr>) s))"

text \<open>
  The loop over the kinds; what a list of the ebuild is when the loop starts is what is read. The
  kinds are numbered as the code does it, which is not the order in which the containers name them.
\<close>

fun add_kinds :: "nat \<Rightarrow> (nat \<times> dependency list) list \<Rightarrow> emerge \<Rightarrow> unit outcome" where
  "add_kinds i [] s = Gives () s"
| "add_kinds i ((k, ds) # rest) s = bindO (add_generators i k ds s) (\<lambda>_ s. add_kinds i rest s)"

text \<open>The part of \<^verbatim>\<open>regenerate\<close> that a dirty ebuild runs.\<close>

definition refresh :: "reader \<Rightarrow> nat \<Rightarrow> emerge \<Rightarrow> unit outcome" where
  "refresh env i s =
     (if \<not> dirty (chosen_flags (chosen_nodes s ! i)) then Gives () s
      else
        let s = change_node i (\<lambda>n. n\<lparr>generators := replicate 4 []\<rparr>) s;
            c = chosen_ebuild (chosen_nodes s ! i)
        in bindO (liftR (the_ebuild (emerge_world s) c) s) (\<lambda>e s.
           bindO (if metadata_init e then Gives () s else initialize_metadata env c s) (\<lambda>_ s.
           bindO (with_flags i flush_use s) (\<lambda>_ s.
           bindO (liftR (the_ebuild (emerge_world s) c) s) (\<lambda>e s.
           bindO (if required_use e = [] then Gives () s
                  else with_flags i (add_use_hook None (Required_Use_Hook (required_use e))) s) (\<lambda>_ s.
           bindO (add_kinds i [(0, bdepend e), (1, depend e), (2, rdepend e), (3, pdepend e)] s) (\<lambda>_ s.
             Gives () (change_node i (\<lambda>n. n\<lparr>chosen_flags := (chosen_flags n)\<lparr>dirty := False\<rparr>\<rparr>) s))))))))"

text \<open>
  \<^verbatim>\<open>get_resolved\<close>: the ebuilds to visit, each with the container it is appended to afterwards (none
  for the ebuild that is asked for). An ebuild that is in the session is not visited again.
\<close>

type_synonym visit = "(nat \<times> nat) option \<times> nat"

definition visits_of :: "nat \<Rightarrow> emerge \<Rightarrow> visit list" where
  "visits_of i s =
     concat (map (\<lambda>(k, js). map (\<lambda>j. (Some (i, k), j)) js) (enumerate 0 (generators (chosen_nodes s ! i))))"

definition append_resolved :: "(nat \<times> nat) option \<Rightarrow> nat \<Rightarrow> emerge \<Rightarrow> emerge" where
  "append_resolved dest j s =
     (case dest of None \<Rightarrow> s
      | Some (i, k) \<Rightarrow> change_node i (\<lambda>n. n\<lparr>resolved_deps := append_at k j (resolved_deps n)\<rparr>) s)"

partial_function (option) visit_all :: "reader \<Rightarrow> visit list \<Rightarrow> emerge \<Rightarrow> unit outcome option" where
  "visit_all env vs s =
     (case vs of
        [] \<Rightarrow> Some (Gives () s)
      | (dest, i) # rest \<Rightarrow>
          Option.bind
            (if i \<in> current_resolution s then Some (Gives () s)
             else (case refresh env i (s\<lparr>current_resolution := insert i (current_resolution s)\<rparr>) of
                 Fault e \<Rightarrow> Some (Fault e)
               | Hangs \<Rightarrow> Some Hangs
               | Raises x s \<Rightarrow> Some (Raises x s)
               | Gives _ s \<Rightarrow> visit_all env (visits_of i s) (change_node i (\<lambda>n. n\<lparr>resolved_deps := replicate 4 []\<rparr>) s)))
            (\<lambda>r. case r of
                 Fault e \<Rightarrow> Some (Fault e)
               | Hangs \<Rightarrow> Some Hangs
               | Raises x s \<Rightarrow> Some (Raises x s)
               | Gives _ s \<Rightarrow> visit_all env rest (append_resolved dest i s)))"

definition get_resolved :: "reader \<Rightarrow> nat \<Rightarrow> emerge \<Rightarrow> unit outcome option" where
  "get_resolved env i s = visit_all env [(None, i)] s"

text \<open>Between two resolutions the session is cleared; the one that is in use is a global variable.\<close>

definition clear_session :: "emerge \<Rightarrow> emerge" where
  "clear_session s = s\<lparr>current_resolution := {}\<rparr>"

definition emerge_init :: "emerge \<Rightarrow> emerge option \<Rightarrow> emerge option" where
  "emerge_init s global = Some s"

definition emerge_session :: "emerge option \<Rightarrow> emerge py" where
  "emerge_session global = (case global of None \<Rightarrow> Raise RuntimeError | Some s \<Rightarrow> Return s)"

section \<open>Invariant and measure\<close>

definition numbers_ok :: "emerge \<Rightarrow> bool" where
  "numbers_ok s \<longleftrightarrow> (\<forall>key inst. installs s key = Some inst \<longrightarrow> (\<forall>x \<in> set (slots inst). snd x < length (chosen_nodes s))) \<and>
     (\<forall>n \<in> set (chosen_nodes s). length (generators n) = 4 \<and> (\<forall>js \<in> set (generators n). \<forall>j \<in> set js. j < length (chosen_nodes s)))"

definition world_known :: "world \<Rightarrow> bool" where
  "world_known w \<longleftrightarrow> tables_ok w \<and> (\<forall>c e. ebuild_objs w c = Some e \<longrightarrow> ebuild_known w e)"

definition resolver_ok :: "emerge \<Rightarrow> bool" where
  "resolver_ok s \<longleftrightarrow> world_known (emerge_world s) \<and> numbers_ok s"

text \<open>
  What a session uses up: ebuilds whose metadata has not been read, and pairs of package and
  slot that an ebuild of the database has and no selected ebuild has taken.
\<close>

definition unread :: "world \<Rightarrow> u64 set" where
  "unread w = {c. \<exists>e. ebuild_objs w c = Some e \<and> \<not> metadata_init e}"

definition places :: "world \<Rightarrow> (string option \<times> string option) set" where
  "places w = (\<lambda>e. (package_key e, ebuild_slot e)) ` ran (ebuild_objs w)"

definition taken :: "emerge \<Rightarrow> (string option \<times> string option) set" where
  "taken s = {x. \<exists>inst. installs s (fst x) = Some inst \<and> map_of (slots inst) (snd x) \<noteq> None}"

definition free :: "emerge \<Rightarrow> nat" where
  "free s = card (places (emerge_world s) - taken s)"

lemma finite_places [simp]: "finite (places w)"
proof -
  have "finite (dom (ebuild_objs w))" by (rule finite_subset [OF subset_UNIV]) simp
  then show ?thesis by (simp add: places_def finite_ran)
qed

text \<open>What a step keeps that selects: \<open>I\<close> are the ebuilds whose dependencies it may change.\<close>

definition frame :: "nat set \<Rightarrow> emerge \<Rightarrow> emerge \<Rightarrow> bool" where
  "frame I s s' \<longleftrightarrow> current_resolution s' = current_resolution s \<and> length (chosen_nodes s) \<le> length (chosen_nodes s') \<and>
     (\<forall>j < length (chosen_nodes s). resolved_deps (chosen_nodes s' ! j) = resolved_deps (chosen_nodes s ! j) \<and>
        (j \<notin> I \<longrightarrow> generators (chosen_nodes s' ! j) = generators (chosen_nodes s ! j)))"

definition grows :: "nat set \<Rightarrow> emerge \<Rightarrow> emerge \<Rightarrow> bool" where
  "grows I s s' \<longleftrightarrow> numbers_ok s' \<and> emerge_world s' = emerge_world s \<and> frame I s s' \<and>
     (free s' < free s \<or> free s' = free s \<and> length (chosen_nodes s') = length (chosen_nodes s))"

lemma frame_refl [simp]: "frame I s s"
  by (simp add: frame_def)

lemma frame_trans: "frame I s t \<Longrightarrow> frame J t u \<Longrightarrow> I \<subseteq> K \<Longrightarrow> J \<subseteq> K \<Longrightarrow> frame K s u"
proof -
  assume a: "frame I s t" "frame J t u" "I \<subseteq> K" "J \<subseteq> K"
  have "resolved_deps (chosen_nodes u ! j) = resolved_deps (chosen_nodes s ! j) \<and>
      (j \<notin> K \<longrightarrow> generators (chosen_nodes u ! j) = generators (chosen_nodes s ! j))" if "j < length (chosen_nodes s)" for j
  proof -
    have "j < length (chosen_nodes t)" using a(1) that by (simp add: frame_def)
    moreover have "j \<notin> I \<and> j \<notin> J" if "j \<notin> K" using that a(3,4) by blast
    ultimately show ?thesis using a(1,2) that unfolding frame_def by metis
  qed
  with a(1,2) show ?thesis by (simp add: frame_def)
qed

lemma grows_refl: "numbers_ok s \<Longrightarrow> grows I s s"
  by (simp add: grows_def)

lemma grows_trans: "grows I s t \<Longrightarrow> grows J t u \<Longrightarrow> I \<subseteq> K \<Longrightarrow> J \<subseteq> K \<Longrightarrow> grows K s u"
  using frame_trans [of I s t J u K] by (auto simp: grows_def)

lemma grows_length: "grows I s t \<Longrightarrow> length (chosen_nodes s) \<le> length (chosen_nodes t)"
  by (simp add: grows_def frame_def)

text \<open>Changing one node.\<close>

lemma grows_change:
  assumes "numbers_ok s" "i < length (chosen_nodes s)" "resolved_deps n = resolved_deps (chosen_nodes s ! i)"
    and "length (generators n) = 4" "\<forall>js \<in> set (generators n). \<forall>j \<in> set js. j < length (chosen_nodes s)"
    and "i \<notin> I \<Longrightarrow> generators n = generators (chosen_nodes s ! i)"
  shows "grows I s (s\<lparr>chosen_nodes := (chosen_nodes s)[i := n]\<rparr>)"
proof -
  have "m \<in> set (chosen_nodes s)" if "m \<in> set ((chosen_nodes s)[i := n])" "m \<noteq> n" for m
    using that set_update_subset_insert [of "chosen_nodes s" i n] by blast
  then have "length (generators m) = 4 \<and> (\<forall>js \<in> set (generators m). \<forall>j \<in> set js. j < length (chosen_nodes s))"
    if "m \<in> set ((chosen_nodes s)[i := n])" for m
    using that assms(1,4,5) unfolding numbers_ok_def by blast
  then have "numbers_ok (s\<lparr>chosen_nodes := (chosen_nodes s)[i := n]\<rparr>)"
    using assms(1) by (simp add: numbers_ok_def)
  then show ?thesis using assms(2,3,6)
    by (auto simp: grows_def frame_def free_def taken_def nth_list_update)
qed

section \<open>Selection\<close>

lemma match_ebuilds_in: "match_ebuilds w a cs = Inr c \<Longrightarrow> c \<noteq> 0 \<Longrightarrow> c \<in> set cs"
  by (induction cs) (auto simp: bindR_Inr split: if_splits)

lemma match_atom_place:
  assumes "tables_ok w" "atom_known w a" "PyPortage_match_atom a w = Inr (Return (c, w'))" "c \<noteq> 0" "the_ebuild w c = Inr e"
  shows "package_key e = atom_key a" "(package_key e, ebuild_slot e) \<in> places w"
proof -
  let ?d = "lut_get (packages w) (atom_id a)"
  from assms(3) have d: "?d \<noteq> 0" by (auto simp: PyPortage_match_atom_def Let_def)
  with assms(3,4) obtain p where p: "pkg_objs w ?d = Some p" "match_ebuilds w a (ebuilds p) = Inr c"
    by (auto simp: PyPortage_match_atom_def Let_def PyPackage_match_atom_def the_package_def bindR_Inr map_sum_def
        split: sum.splits option.splits if_splits)
  have e: "ebuild_objs w c = Some e" using assms(5) by (simp add: the_ebuild_def split: if_splits option.splits)
  have "package_key (the (ebuild_objs w c)) = pkg_key p"
    using assms(1) p match_ebuilds_in [OF p(2) assms(4)] by (auto simp: tables_ok_def keys_ok_def)
  then show "package_key e = atom_key a" using e p(1) d assms(2) by (simp add: atom_known_def)
  show "(package_key e, ebuild_slot e) \<in> places w" using e by (auto simp: places_def ran_def)
qed

lemma add_atom_grows:
  assumes "add_atom parent a c key inst (s\<lparr>installs := (installs s)(key := x)\<rparr>) = Gives r s'" "numbers_ok s"
    and "the_ebuild (emerge_world s) c = Inr e" "(key, ebuild_slot e) \<in> places (emerge_world s)" "(key, ebuild_slot e) \<notin> taken s"
    and "installs s key = Some inst \<or> installs s key = None \<and> slots inst = []"
  shows "grows {} s s' \<and> r = Some (length (chosen_nodes s)) \<and> length (chosen_nodes s') = Suc (length (chosen_nodes s))"
proof -
  define n where "n = \<lparr>chosen_ebuild = c, selected_by = [(a, parent)], chosen_flags = new_selected Map.empty,
                generators = replicate 4 [], resolved_deps = replicate 4 []\<rparr>"
  let ?inst = "inst\<lparr>slots := slots inst @ [(ebuild_slot e, length (chosen_nodes s))]\<rparr>"
  have "map_of (slots inst) (ebuild_slot e) = None" using assms(5,6) by (auto simp: taken_def)
  then have s': "s' = s\<lparr>chosen_nodes := chosen_nodes s @ [n], installs := (installs s)(key \<mapsto> ?inst)\<rparr>"
    and r: "r = Some (length (chosen_nodes s))"
    using assms(1,3) by (simp_all add: add_atom_def Let_def n_def update_new map_of_eq_None_iff)
  have "taken s' = insert (key, ebuild_slot e) (taken s)"
  proof -
    have "x \<in> taken s' \<longleftrightarrow> x = (key, ebuild_slot e) \<or> x \<in> taken s" for x
      using assms(6) by (cases x; cases "fst x = key") (auto simp: taken_def s' map_add_def split: option.splits)
    then show ?thesis by blast
  qed
  then have "places (emerge_world s) - taken s' \<subset> places (emerge_world s) - taken s" using assms(4,5) by auto
  then have "free s' < free s" by (simp add: free_def s' psubset_card_mono)
  moreover have "numbers_ok s'"
  proof -
    have old: "snd y < Suc (length (chosen_nodes s))" if "installs s k = Some i" "y \<in> set (slots i)" for k i y
      using assms(2) that unfolding numbers_ok_def by (meson less_SucI)
    have new: "snd y < Suc (length (chosen_nodes s))" if "y \<in> set (slots ?inst)" for y
      using that old [of key inst y] assms(6) by auto
    have "snd y < Suc (length (chosen_nodes s))" if "installs s' k = Some i" "y \<in> set (slots i)" for k i y
    proof (cases "k = key")
      case True
      with that(1) have "i = ?inst" by (simp add: s')
      with that(2) new show ?thesis by blast
    qed (use that old in \<open>simp add: s'\<close>)
    moreover have "length (generators m) = 4 \<and> (\<forall>js \<in> set (generators m). \<forall>j \<in> set js. j < Suc (length (chosen_nodes s)))"
      if "m \<in> set (chosen_nodes s')" for m
    proof (cases "m = n")
      case False
      with that have "m \<in> set (chosen_nodes s)" by (simp add: s')
      with assms(2) show ?thesis unfolding numbers_ok_def by (meson less_SucI)
    qed (simp add: n_def)
    ultimately show ?thesis by (simp add: numbers_ok_def s' del: fun_upd_apply)
  qed
  ultimately show ?thesis by (simp add: grows_def frame_def s' r nth_append)
qed

lemma node_numbers:
  "numbers_ok s \<Longrightarrow> i < length (chosen_nodes s) \<Longrightarrow> length (generators (chosen_nodes s ! i)) = 4 \<and>
    (\<forall>js \<in> set (generators (chosen_nodes s ! i)). \<forall>j \<in> set js. j < length (chosen_nodes s))"
  unfolding numbers_ok_def using nth_mem by blast

lemma grows_node:
  assumes "numbers_ok s" "i < length (chosen_nodes s)" "resolved_deps n = resolved_deps (chosen_nodes s ! i)"
    and "generators n = generators (chosen_nodes s ! i)"
  shows "grows {} s (s\<lparr>chosen_nodes := (chosen_nodes s)[i := n]\<rparr>)"
  using grows_change [OF assms(1-3)] node_numbers [OF assms(1,2)] assms(4) by simp

lemma change_grows:
  assumes "change_within_slot i a s = Gives b s'" "numbers_ok s" "i < length (chosen_nodes s)"
  shows "grows {} s s'"
proof -
  let ?n = "chosen_nodes s ! i"
  have "s' = s \<or> (\<exists>c. s' = s\<lparr>chosen_nodes := (chosen_nodes s)
       [i := ?n\<lparr>chosen_ebuild := c, chosen_flags := (chosen_flags ?n)\<lparr>dirty := True\<rparr>\<rparr>]\<rparr>)"
    using assms(1) unfolding change_within_slot_def Let_def bindO_Gives lift_Gives
    by (auto split: if_splits option.splits simp: bindO_Gives)
  then show ?thesis
  proof
    assume "\<exists>c. s' = s\<lparr>chosen_nodes := (chosen_nodes s)
       [i := ?n\<lparr>chosen_ebuild := c, chosen_flags := (chosen_flags ?n)\<lparr>dirty := True\<rparr>\<rparr>]\<rparr>"
    then obtain c where s': "s' = s\<lparr>chosen_nodes := (chosen_nodes s)
       [i := ?n\<lparr>chosen_ebuild := c, chosen_flags := (chosen_flags ?n)\<lparr>dirty := True\<rparr>\<rparr>]\<rparr>" by blast
    show ?thesis unfolding s' by (rule grows_node [OF assms(2,3)]) simp_all
  qed (simp add: grows_refl assms(2))
qed

lemma slot_index: "numbers_ok s \<Longrightarrow> installs s key = Some inst \<Longrightarrow> i \<in> snd ` set (slots inst) \<Longrightarrow> i < length (chosen_nodes s)"
  unfolding numbers_ok_def by force

definition answer_ok :: "nat option \<Rightarrow> emerge \<Rightarrow> bool" where
  "answer_ok r s \<longleftrightarrow> (\<forall>i. r = Some i \<longrightarrow> i < length (chosen_nodes s))"

lemma match_atom_grows:
  assumes "match_atom parent a c key inst s = Gives r s'" "numbers_ok s" "installs s key = Some inst"
    and "the_ebuild (emerge_world s) c = Inr e" "(key, ebuild_slot e) \<in> places (emerge_world s)"
  shows "grows {} s s' \<and> answer_ok r s'"
proof -
  from assms(1) obtain r1 where m: "first_match a (slots inst) s = Gives r1 s"
    unfolding match_atom_def bindO_Gives using first_match_result by blast
  note rest = assms(1) [unfolded match_atom_def m bindO_simps]
  note num = slot_index [OF assms(2,3)]
  show ?thesis
  proof (cases r1)
    case (Some i)
    with rest have "s' = s" "r = Some i" by simp_all
    with first_match_result [OF m] num Some grows_refl [OF assms(2)] show ?thesis by (simp add: answer_ok_def)
  next
    case None
    show ?thesis
    proof (cases "ebuild_slot e = None")
      case True
      with rest None assms(4) have "s' = s" "r = None" by simp_all
      with grows_refl [OF assms(2)] show ?thesis by (simp add: answer_ok_def)
    next
      case slot: False
      show ?thesis
      proof (cases "map_of (slots inst) (ebuild_slot e)")
        case (Some i)
        then have i: "i < length (chosen_nodes s)" using num by (force dest: map_of_SomeD)
        from rest None assms(4) slot Some have "r = Some i \<and> (s' = s \<or> change_within_slot i a s = Gives True s')"
          by (auto simp: bindO_Gives split: if_splits)
        moreover have "grows {} s s'" using calculation change_grows [OF _ assms(2) i] grows_refl [OF assms(2)] by auto
        moreover have "i < length (chosen_nodes s')" using i grows_length [OF calculation(2)] by simp
        ultimately show ?thesis by (simp add: answer_ok_def)
      next
        case new: None
        from rest assms(4) slot new m None have "add_atom parent a c key inst s = Gives r s'" by simp
        then have add: "add_atom parent a c key inst (s\<lparr>installs := (installs s)(key := Some inst)\<rparr>) = Gives r s'"
          using assms(3) by (simp add: fun_upd_idem)
        have "(key, ebuild_slot e) \<notin> taken s" using assms(3) new by (simp add: taken_def)
        from add_atom_grows [OF add assms(2,4,5) this] assms(3) show ?thesis by (simp add: answer_ok_def)
      qed
    qed
  qed
qed

lemma select_atom_grows:
  assumes "select_atom parent a s = Gives r s'" "numbers_ok s" "tables_ok (emerge_world s)" "atom_known (emerge_world s) a"
  shows "grows {} s s' \<and> answer_ok r s'"
proof -
  from assms(1) obtain c w' e where c: "PyPortage_match_atom a (emerge_world s) = Inr (Return (c, w'))" "c \<noteq> 0"
      "the_ebuild (emerge_world s) c = Inr e"
    by (auto simp: select_atom_def bindO_Gives split: if_splits)
  note place = match_atom_place [OF assms(3,4) c]
  show ?thesis
  proof (cases "installs s (atom_key a)")
    case (Some inst)
    then have "match_atom parent a c (atom_key a) inst s = Gives r s'" using assms(1) c place(1) by (simp add: select_atom_def)
    from match_atom_grows [OF this assms(2) Some c(3)] place show ?thesis by simp
  next
    case None
    then have "add_atom parent a c (atom_key a) \<lparr>install_key = atom_key a, slots = []\<rparr>
        (s\<lparr>installs := (installs s)(atom_key a := Some \<lparr>install_key = atom_key a, slots = []\<rparr>)\<rparr>) = Gives r s'"
      using assms(1) c place(1) by (simp add: select_atom_def Let_def)
    from add_atom_grows [OF this assms(2) c(3)] place None show ?thesis by (simp add: taken_def answer_ok_def)
  qed
qed

lemma with_flags_grows:
  assumes "with_flags i f s = Gives x s'" "numbers_ok s" "i < length (chosen_nodes s)"
  shows "grows {} s s'"
proof -
  let ?n = "chosen_nodes s ! i"
  from assms(1) obtain e where e: "the_ebuild (emerge_world s) (chosen_ebuild ?n) = Inr e"
    by (auto simp: with_flags_def Let_def bindO_Gives)
  obtain y fl where "f ((chosen_flags ?n)\<lparr>iuse_flags := iuse e\<rparr>) = (y, fl)" by (cases "f ((chosen_flags ?n)\<lparr>iuse_flags := iuse e\<rparr>)")
  with e assms(1) have s': "s' = s\<lparr>chosen_nodes := (chosen_nodes s)[i := ?n\<lparr>chosen_flags := fl\<rparr>]\<rparr>"
    by (simp add: with_flags_def Let_def split: option.splits)
  show ?thesis unfolding s' by (rule grows_node [OF assms(2,3)]) simp_all
qed

lemma resolve_single_grows:
  assumes "resolve_single parent d s = Gives r s'" "numbers_ok s" "tables_ok (emerge_world s)" "number_ok parent s"
    and "\<forall>a. dep_atom d = Some a \<longrightarrow> atom_known (emerge_world s) a"
  shows "grows {} s s' \<and> answer_ok r s'"
proof (cases "dep_atom d")
  case (Some a)
  show ?thesis
  proof (cases "blocks a = ATOM_BLOCK_NONE")
    case False
    with Some assms(1) have "r = None" "s' = add_block a s" by (simp_all add: resolve_single_def)
    then show ?thesis using assms(2)
      by (simp add: answer_ok_def grows_def frame_def add_block_def numbers_ok_def free_def taken_def)
  next
    case True
    from assms(1) Some True obtain s1 where s1: "select_atom parent a s = Gives r s1"
        "s' = s1 \<or> (\<exists>i. r = Some i \<and> with_flags i (resolve_uses (useflags a)) s1 = Gives () s')"
      by (auto simp: resolve_single_def bindO_Gives split: if_splits option.splits)
    from select_atom_grows [OF s1(1) assms(2,3)] assms(5) Some have one: "grows {} s s1" "answer_ok r s1" by simp_all
    show ?thesis
    proof (cases "s' = s1")
      case False
      with s1(2) obtain i where i: "r = Some i" "with_flags i (resolve_uses (useflags a)) s1 = Gives () s'" by auto
      have "numbers_ok s1" "i < length (chosen_nodes s1)" using one i(1) by (simp_all add: grows_def answer_ok_def)
      from with_flags_grows [OF i(2) this] one i(1) show ?thesis
        using grows_trans [of "{}" s s1 "{}" s' "{}"] grows_length [of "{}" s1 s'] by (simp add: answer_ok_def)
    qed (use one in simp)
  qed
next
  case None
  then obtain p where r: "parent = Some p" "r = None" "s' = s \<or> add_condition p d s = Gives () s'"
    using assms(1) by (auto simp: resolve_single_def bindO_Gives split: if_splits option.splits)
  then have "s' = s \<or> (\<exists>f. with_flags p f s = Gives () s')"
    by (auto simp: add_condition_def Let_def split: if_splits option.splits)
  moreover have "p < length (chosen_nodes s)" using assms(4) r(1) by (simp add: number_ok_def)
  ultimately show ?thesis using with_flags_grows assms(2) grows_refl r(2) by (auto simp: answer_ok_def)
qed

lemma resolve_all_grows:
  assumes "resolve_all parent ds s = Gives rs s'" "numbers_ok s" "tables_ok (emerge_world s)" "number_ok parent s"
    and "\<forall>d \<in> set ds. \<forall>a. dep_atom d = Some a \<longrightarrow> atom_known (emerge_world s) a"
  shows "grows {} s s' \<and> (\<forall>i \<in> set rs. i < length (chosen_nodes s'))"
  using assms
proof (induction ds arbitrary: s rs)
  case Nil
  then show ?case by (simp add: grows_refl)
next
  case (Cons d ds)
  then obtain r s1 rs' where one: "resolve_single parent d s = Gives r s1" "resolve_all parent ds s1 = Gives rs' s'"
    "rs = (case r of None \<Rightarrow> rs' | Some i \<Rightarrow> i # rs')" by (auto simp: bindO_Gives)
  from resolve_single_grows [OF one(1) Cons.prems(2,3,4)] Cons.prems(5) have g: "grows {} s s1" "answer_ok r s1" by simp_all
  have ok: "numbers_ok s1" "emerge_world s1 = emerge_world s" "number_ok parent s1"
    using g(1) grows_length [OF g(1)] Cons.prems(4) by (auto simp: grows_def number_ok_def)
  have rest: "grows {} s1 s' \<and> (\<forall>i \<in> set rs'. i < length (chosen_nodes s'))"
    using Cons.IH [OF one(2) ok(1)] ok(2,3) Cons.prems(3,5) by simp
  have "grows {} s s'" using grows_trans [OF g(1), of "{}" s' "{}"] rest by simp
  moreover have "i < length (chosen_nodes s')" if "r = Some i" for i
    using g(2) that grows_length [of "{}" s1 s'] rest by (auto simp: answer_ok_def)
  ultimately show ?case using rest one(3) by (cases r) simp_all
qed

section \<open>Generators\<close>

lemma grows_append:
  assumes "numbers_ok s" "i < length (chosen_nodes s)" "j < length (chosen_nodes s)"
  shows "grows {i} s (change_node i (\<lambda>n. n\<lparr>generators := append_at k j (generators n)\<rparr>) s)"
proof -
  note n = node_numbers [OF assms(1,2)]
  have "m < length (chosen_nodes s)" if "js \<in> set (append_at k j (generators (chosen_nodes s ! i)))" "m \<in> set js" for js m
  proof (cases "k < 4")
    case True
    from that(1) consider "js \<in> set (generators (chosen_nodes s ! i))" | "js = generators (chosen_nodes s ! i) ! k @ [j]"
      unfolding append_at_def using set_update_subset_insert by fast
    then show ?thesis
    proof cases
      case 2
      have "generators (chosen_nodes s ! i) ! k \<in> set (generators (chosen_nodes s ! i))" using n True by simp
      with 2 that(2) n assms(3) show ?thesis by auto
    qed (use n that(2) in blast)
  next
    case False
    with n have "append_at k j (generators (chosen_nodes s ! i)) = generators (chosen_nodes s ! i)"
      by (simp add: append_at_def list_update_beyond)
    with that n show ?thesis by auto
  qed
  then show ?thesis unfolding change_node_def
    by (intro grows_change [OF assms(1,2)]) (simp_all add: append_at_def n)
qed

lemma add_generators_grows:
  assumes "add_generators i k ds s = Gives x s'" "numbers_ok s" "tables_ok (emerge_world s)" "i < length (chosen_nodes s)"
    and "\<forall>d \<in> set ds. \<forall>a. dep_atom d = Some a \<longrightarrow> atom_known (emerge_world s) a"
  shows "grows {i} s s'"
  using assms
proof (induction ds arbitrary: s)
  case Nil
  then show ?case by (simp add: grows_refl)
next
  case (Cons d ds)
  then obtain r s1 where one: "resolve_single (Some i) d s = Gives r s1"
    "add_generators i k ds (case r of None \<Rightarrow> s1 | Some j \<Rightarrow> change_node i (\<lambda>n. n\<lparr>generators := append_at k j (generators n)\<rparr>) s1) = Gives x s'"
    by (auto simp: bindO_Gives)
  define s2 where "s2 = (case r of None \<Rightarrow> s1 | Some j \<Rightarrow> change_node i (\<lambda>n. n\<lparr>generators := append_at k j (generators n)\<rparr>) s1)"
  have "number_ok (Some i) s" using Cons.prems(4) by (simp add: number_ok_def)
  from resolve_single_grows [OF one(1) Cons.prems(2,3) this] Cons.prems(5) have g: "grows {} s s1" "answer_ok r s1" by simp_all
  have ok: "numbers_ok s1" "i < length (chosen_nodes s1)" "emerge_world s1 = emerge_world s"
    using g(1) grows_length [OF g(1)] Cons.prems(4) by (simp_all add: grows_def)
  have "grows {i} s1 s2"
    using grows_append [OF ok(1,2)] grows_refl [OF ok(1)] g(2) by (auto simp: s2_def answer_ok_def split: option.splits)
  then have two: "grows {i} s s2" using grows_trans [OF g(1)] by simp
  then have ok2: "numbers_ok s2" "i < length (chosen_nodes s2)" "emerge_world s2 = emerge_world s"
    using grows_length [OF two] Cons.prems(4) by (simp_all add: grows_def)
  have "grows {i} s2 s'"
    using Cons.IH [OF one(2) [folded s2_def] ok2(1)] ok2 Cons.prems(3,5) by simp
  with two show ?case using grows_trans by blast
qed

lemma add_kinds_grows:
  assumes "add_kinds i kds s = Gives x s'" "numbers_ok s" "tables_ok (emerge_world s)" "i < length (chosen_nodes s)"
    and "\<forall>kd \<in> set kds. \<forall>d \<in> set (snd kd). \<forall>a. dep_atom d = Some a \<longrightarrow> atom_known (emerge_world s) a"
  shows "grows {i} s s'"
  using assms
proof (induction kds arbitrary: s)
  case Nil
  then show ?case by (simp add: grows_refl)
next
  case (Cons kd kds)
  obtain k ds where kd: "kd = (k, ds)" by (cases kd)
  with Cons.prems(1) obtain y s1 where one: "add_generators i k ds s = Gives y s1" "add_kinds i kds s1 = Gives x s'"
    by (auto simp: bindO_Gives)
  have g: "grows {i} s s1" using add_generators_grows [OF one(1) Cons.prems(2,3,4)] Cons.prems(5) kd by simp
  have ok: "numbers_ok s1" "i < length (chosen_nodes s1)" "emerge_world s1 = emerge_world s"
    using g grows_length [OF g] Cons.prems(4) by (simp_all add: grows_def)
  have "grows {i} s1 s'" using Cons.IH [OF one(2) ok(1)] ok Cons.prems(3,5) by simp
  with g show ?case using grows_trans by blast
qed

section \<open>Refreshing an ebuild\<close>

text \<open>A step of the session: the measure does not grow, and the parts of it that can stay equal.\<close>

definition uses_up :: "emerge \<Rightarrow> emerge \<Rightarrow> bool" where
  "uses_up s s' \<longleftrightarrow> card (unread (emerge_world s')) < card (unread (emerge_world s)) \<or>
     card (unread (emerge_world s')) = card (unread (emerge_world s)) \<and>
       (free s' < free s \<or> free s' = free s \<and> length (chosen_nodes s') = length (chosen_nodes s))"

definition session_step :: "nat set \<Rightarrow> emerge \<Rightarrow> emerge \<Rightarrow> bool" where
  "session_step I s s' \<longleftrightarrow> resolver_ok s' \<and> frame I s s' \<and> uses_up s s'"

lemma grows_session: "grows I s s' \<Longrightarrow> resolver_ok s \<Longrightarrow> session_step I s s'"
  by (auto simp: session_step_def resolver_ok_def grows_def uses_up_def)

lemma uses_up_trans: "uses_up s t \<Longrightarrow> uses_up t u \<Longrightarrow> uses_up s u"
  by (auto simp: uses_up_def)

lemma session_trans:
  "session_step I s t \<Longrightarrow> session_step J t u \<Longrightarrow> I \<subseteq> K \<Longrightarrow> J \<subseteq> K \<Longrightarrow> session_step K s u"
  using frame_trans [of I s t J u K] uses_up_trans [of s t u] by (auto simp: session_step_def)

lemma initialize_metadata_step:
  assumes "initialize_metadata env c s = Gives x s'" "resolver_ok s" "parsers_ok (parse_depend env) (parse_required_use env)"
    and "c \<in> unread (emerge_world s)"
  shows "session_step {} s s' \<and> length (chosen_nodes s') = length (chosen_nodes s)"
proof -
  let ?w = "emerge_world s"
  from assms(1) obtain e e' w where e: "the_ebuild ?w c = Inr e"
    and run: "ebuild_metadata_init (parse_depend env) (parse_required_use env) (cache_contents env e) (closes env) e ?w = Inr (0, e', w)"
    and s': "s' = s\<lparr>emerge_world := w\<lparr>ebuild_objs := (ebuild_objs w)(c \<mapsto> e')\<rparr>\<rparr>"
    by (auto simp: initialize_metadata_def Let_def bindO_Gives split: if_splits)
  have c: "ebuild_objs ?w c = Some e" using e by (simp add: the_ebuild_def split: if_splits option.splits)
  have ok: "tables_ok ?w" "\<And>c e. ebuild_objs ?w c = Some e \<Longrightarrow> ebuild_known ?w e" "numbers_ok s"
    using assms(2) by (auto simp: resolver_ok_def world_known_def)
  from metadata_init_known [OF assms(3) ok(1) ok(2) [OF c] run]
  have k: "keeps ?w w" "ebuild_known w e'" "same_place e e'" "metadata_init e'" by simp_all
  have objs: "ebuild_objs w = ebuild_objs ?w" "packages w = packages ?w" "pkg_objs w = pkg_objs ?w" using k(1) by (simp_all add: keeps_def)
  let ?w' = "w\<lparr>ebuild_objs := (ebuild_objs w)(c \<mapsto> e')\<rparr>"
  have same: "ebuild_known ?w' d = ebuild_known ?w d" for d
    by (simp add: atom_known_def ebuild_known_def objs)
  have "package_key (the (((ebuild_objs ?w)(c \<mapsto> e')) b)) = package_key (the (ebuild_objs ?w b))" for b
    using k(3) c by (simp add: same_place_def)
  then have "tables_ok ?w'" using ok(1) by (simp add: tables_ok_def entries_ok_def keys_ok_def objs del: fun_upd_apply)
  moreover have "ebuild_known ?w' d" if "ebuild_objs ?w' b = Some d" for b d
  proof -
    have "ebuild_known ?w e'" using k(2) keeps_known [OF k(1)] by blast
    with that ok(2) show ?thesis unfolding same by (cases "b = c") (simp_all add: objs)
  qed
  ultimately have "world_known ?w'" by (simp add: world_known_def del: fun_upd_apply)
  moreover have "unread ?w' = unread ?w - {c}" using k(4) by (auto simp: unread_def objs)
  moreover have "card (unread ?w - {c}) < card (unread ?w)"
    by (rule card_Diff1_less, rule finite_subset [OF subset_UNIV], simp, rule assms(4))
  moreover have "numbers_ok s'" using ok(3) by (simp add: numbers_ok_def s')
  ultimately show ?thesis by (simp add: session_step_def resolver_ok_def uses_up_def frame_def s')
qed

lemma refresh_step:
  assumes "refresh env i s = Gives x s'" "resolver_ok s" "parsers_ok (parse_depend env) (parse_required_use env)"
    and "i < length (chosen_nodes s)"
  shows "session_step {i} s s'"
proof (cases "dirty (chosen_flags (chosen_nodes s ! i))")
  case False
  with assms(1,2) show ?thesis using grows_session [OF grows_refl] by (simp add: refresh_def resolver_ok_def)
next
  case True
  let ?I = "{i}"
  define s1 where "s1 = change_node i (\<lambda>n. n\<lparr>generators := replicate 4 []\<rparr>) s"
  let ?c = "chosen_ebuild (chosen_nodes s1 ! i)"
  from assms(1) True obtain e s2 s3 e2 s4 s5 where
    e: "the_ebuild (emerge_world s1) ?c = Inr e"
    and two: "(if metadata_init e then Gives () s1 else initialize_metadata env ?c s1) = Gives () s2"
    and three: "with_flags i flush_use s2 = Gives () s3"
    and e2: "the_ebuild (emerge_world s3) ?c = Inr e2"
    and four: "(if required_use e2 = [] then Gives () s3
                else with_flags i (add_use_hook None (Required_Use_Hook (required_use e2))) s3) = Gives () s4"
    and five: "add_kinds i [(0, bdepend e2), (1, depend e2), (2, rdepend e2), (3, pdepend e2)] s4 = Gives () s5"
    and six: "s' = change_node i (\<lambda>n. n\<lparr>chosen_flags := (chosen_flags n)\<lparr>dirty := False\<rparr>\<rparr>) s5"
    by (simp add: refresh_def Let_def bindO_Gives flip: s1_def del: add_kinds.simps) (elim exE conjE, rule that, assumption+, simp, rule sym, assumption)
  have step: "session_step ?I s t \<Longrightarrow> resolver_ok t \<and> i < length (chosen_nodes t)" for t
    using assms(4) by (auto simp: session_step_def frame_def)
  note join = session_trans [of ?I _ _ ?I _ ?I, OF _ _ subset_refl subset_refl]
  have num: "numbers_ok t" if "resolver_ok t" for t using that by (simp add: resolver_ok_def)
  have any: "grows {} t u \<Longrightarrow> grows ?I t u" for t u using grows_trans [of "{}" t u "{}" u ?I] grows_refl [of u "{}"] by (simp add: grows_def)
  have g1: "session_step ?I s s1"
    by (intro grows_session [OF _ assms(2)], unfold s1_def change_node_def, intro grows_change [OF num [OF assms(2)] assms(4)]) simp_all
  have "session_step {} s1 s2"
  proof (cases "metadata_init e")
    case True
    with two step [OF g1] show ?thesis using grows_session [OF grows_refl] num by auto
  next
    case False
    then have "?c \<in> unread (emerge_world s1)" using e by (auto simp: unread_def the_ebuild_def split: if_splits option.splits)
    with False two initialize_metadata_step [of env ?c s1 "()" s2] step [OF g1] assms(3) show ?thesis by simp
  qed
  then have g2: "session_step ?I s s2" using session_trans [OF g1, of "{}" s2 ?I] by simp
  have g3: "session_step ?I s s3"
    using with_flags_grows [OF three] step [OF g2] num by (intro join [OF g2] grows_session any) simp_all
  have "grows {} s3 s4"
    using four step [OF g3] num grows_refl by (auto split: if_splits intro!: with_flags_grows)
  then have g4: "session_step ?I s s4" using step [OF g3] by (intro join [OF g3] grows_session any) simp_all
  have "emerge_world s4 = emerge_world s3" using \<open>grows {} s3 s4\<close> by (simp add: grows_def)
  moreover have w: "world_known (emerge_world s4)" using step [OF g4] by (simp add: resolver_ok_def)
  ultimately have "ebuild_known (emerge_world s4) e2"
    using e2 by (auto simp: world_known_def the_ebuild_def split: if_splits option.splits)
  then have g5: "session_step ?I s s5"
    using add_kinds_grows [OF five] step [OF g4] num w
    by (intro join [OF g4] grows_session) (auto simp: world_known_def ebuild_known_def)
  have "grows ?I s5 s'" unfolding six change_node_def
    using step [OF g5] num by (intro any grows_node) simp_all
  then show ?thesis using step [OF g5] by (intro join [OF g5] grows_session) simp_all
qed

section \<open>Packages with one version\<close>

text \<open>
  The only loop of the resolver that may not end is the one over a package in
  \<^verbatim>\<open>change_within_slot\<close>, and only for a package with two versions.
\<close>

definition single_versions :: "world \<Rightarrow> bool" where
  "single_versions w \<longleftrightarrow> (\<forall>a p. pkg_objs w a = Some p \<longrightarrow> length (ebuilds p) \<le> 1)"

definition ends :: "'a outcome \<Rightarrow> bool" where
  "ends m \<longleftrightarrow> m \<noteq> Hangs \<and> (\<forall>x s. m = Gives x s \<longrightarrow> single_versions (emerge_world s))"

lemma ends_bind: "ends m \<Longrightarrow> (\<And>x s. single_versions (emerge_world s) \<Longrightarrow> ends (f x s)) \<Longrightarrow> ends (bindO m f)"
  by (cases m) (simp_all add: ends_def)

lemma ends_bind_lift:
  "single_versions (emerge_world s) \<Longrightarrow> (\<And>x. ends (f x s)) \<Longrightarrow> ends (bindO (liftR m s) f)"
  by (cases m) (simp_all add: ends_def)

lemma ends_simps [simp]:
  "ends (Fault e)" "ends (Raises x s)" "ends (Gives r s) = single_versions (emerge_world s)" "\<not> ends Hangs"
  by (auto simp: ends_def)

lemma ends_lift [simp]:
  "single_versions (emerge_world s) \<Longrightarrow> ends (liftP m s)" "single_versions (emerge_world s) \<Longrightarrow> ends (liftR m' s)"
  by (auto simp: liftP_def liftR_def split: sum.splits py.splits)

lemma find_ebuild_single: "single_versions w \<Longrightarrow> find_ebuild w test it \<noteq> None"
proof -
  assume s: "single_versions w"
  have "PyEbuild_next w it = Inr x \<Longrightarrow> x = 0" for x
  proof -
    assume n: "PyEbuild_next w it = Inr x"
    have "older_in cs it = 0" if "length cs \<le> 1" for cs using that by (cases cs; cases "tl cs") auto
    with n s show "x = 0"
      by (auto simp: PyEbuild_next_def bindR_Inr single_versions_def the_package_def split: if_splits option.splits)
  qed
  then show ?thesis by (subst find_ebuild.simps) (auto split: sum.splits)
qed

lemma change_ends: "single_versions (emerge_world s) \<Longrightarrow> ends (change_within_slot i a s)"
  unfolding change_within_slot_def Let_def
  by (intro ends_bind) (auto intro!: ends_bind simp: find_ebuild_single split: option.splits)

lemma first_match_ends: "single_versions (emerge_world s) \<Longrightarrow> ends (first_match a ss s)"
  by (induction a ss s rule: first_match.induct) (auto intro!: ends_bind)

lemma add_atom_ends: "single_versions (emerge_world s) \<Longrightarrow> ends (add_atom parent a c key inst s)"
  unfolding add_atom_def Let_def by (intro ends_bind) simp_all

lemma match_atom_ends: "single_versions (emerge_world s) \<Longrightarrow> ends (match_atom parent a c key inst s)"
  unfolding match_atom_def
  by (auto intro!: ends_bind first_match_ends change_ends add_atom_ends split: option.splits)

lemma select_atom_ends: "single_versions (emerge_world s) \<Longrightarrow> ends (select_atom parent a s)"
  unfolding select_atom_def
  by (auto intro!: ends_bind match_atom_ends add_atom_ends simp: Let_def split: option.splits)

lemma with_flags_ends: "single_versions (emerge_world s) \<Longrightarrow> ends (with_flags i f s)"
  unfolding with_flags_def Let_def by (auto intro!: ends_bind split: prod.splits option.splits)

lemma resolve_single_ends: "single_versions (emerge_world s) \<Longrightarrow> ends (resolve_single parent d s)"
  unfolding resolve_single_def add_condition_def Let_def
  by (auto intro!: ends_bind select_atom_ends with_flags_ends simp: add_block_def split: option.splits)

lemma add_generators_ends: "single_versions (emerge_world s) \<Longrightarrow> ends (add_generators i k ds s)"
  by (induction ds arbitrary: s) (auto intro!: ends_bind resolve_single_ends simp: change_node_def split: option.splits)

lemma add_kinds_ends: "single_versions (emerge_world s) \<Longrightarrow> ends (add_kinds i kds s)"
  by (induction i kds s rule: add_kinds.induct) (auto intro!: ends_bind add_generators_ends)

lemma initialize_metadata_ends:
  assumes "single_versions (emerge_world s)" "world_known (emerge_world s)" "parsers_ok (parse_depend env) (parse_required_use env)"
  shows "ends (initialize_metadata env c s)"
proof (cases "initialize_metadata env c s")
  case (Gives x s')
  let ?w = "emerge_world s"
  from Gives obtain e e' w where e: "the_ebuild ?w c = Inr e"
    and run: "ebuild_metadata_init (parse_depend env) (parse_required_use env) (cache_contents env e) (closes env) e ?w = Inr (0, e', w)"
    and s': "emerge_world s' = w\<lparr>ebuild_objs := (ebuild_objs w)(c \<mapsto> e')\<rparr>"
    by (auto simp: initialize_metadata_def Let_def bindO_Gives split: if_splits)
  have "ebuild_objs ?w c = Some e" using e by (simp add: the_ebuild_def split: if_splits option.splits)
  with assms(2) have "tables_ok ?w" "ebuild_known ?w e" by (auto simp: world_known_def)
  from metadata_init_known [OF assms(3) this run] assms(1) show ?thesis
    by (simp add: Gives s' single_versions_def keeps_def)
next
  case Hangs
  then show ?thesis
    by (auto simp: initialize_metadata_def bindO_def liftR_def Let_def split: sum.splits if_splits)
qed simp_all

lemma refresh_ends:
  assumes "single_versions (emerge_world s)" "resolver_ok s" "parsers_ok (parse_depend env) (parse_required_use env)"
  shows "ends (refresh env i s)"
proof -
  have known: "world_known (emerge_world s)" using assms(2) by (simp add: resolver_ok_def)
  define s1 where "s1 = change_node i (\<lambda>n. n\<lparr>generators := replicate 4 []\<rparr>) s"
  have s1: "emerge_world s1 = emerge_world s" by (simp add: s1_def change_node_def)
  show ?thesis unfolding refresh_def Let_def s1_def [symmetric]
    using assms(1,3) known
    by (auto intro!: ends_bind_lift ends_bind [where m = "if b then _ else _" for b] initialize_metadata_ends simp: s1)
      (auto intro!: ends_bind with_flags_ends add_kinds_ends add_generators_ends simp: change_node_def simp del: add_kinds.simps)
qed

section \<open>A session\<close>

text \<open>What a list of visits appends to the resolved dependencies of an ebuild.\<close>

fun collect :: "nat \<Rightarrow> visit list \<Rightarrow> nat list list \<Rightarrow> nat list list" where
  "collect j [] xss = xss"
| "collect j ((dest, i) # vs) xss =
     collect j vs (case dest of None \<Rightarrow> xss | Some (p, k) \<Rightarrow> if p = j then append_at k i xss else xss)"

definition visit_ok :: "emerge \<Rightarrow> visit list \<Rightarrow> bool" where
  "visit_ok s vs \<longleftrightarrow> (\<forall>(dest, i) \<in> set vs. i < length (chosen_nodes s) \<and>
     (\<forall>p k. dest = Some (p, k) \<longrightarrow> p < length (chosen_nodes s) \<and> p \<in> current_resolution s))"

lemma visit_ok_Cons: "visit_ok s ((dest, i) # vs) \<longleftrightarrow> i < length (chosen_nodes s) \<and>
    (\<forall>p k. dest = Some (p, k) \<longrightarrow> p < length (chosen_nodes s) \<and> p \<in> current_resolution s) \<and> visit_ok s vs"
  by (auto simp: visit_ok_def)

lemma visit_ok_mono: "visit_ok s vs \<Longrightarrow> length (chosen_nodes s) \<le> length (chosen_nodes s') \<Longrightarrow>
    current_resolution s \<subseteq> current_resolution s' \<Longrightarrow> visit_ok s' vs"
proof (induction vs)
  case (Cons v vs)
  obtain dest i where v: "v = (dest, i)" by (cases v)
  have "p < length (chosen_nodes s') \<and> p \<in> current_resolution s'" if "dest = Some (p, k)" for p k
  proof -
    have "p < length (chosen_nodes s)" "p \<in> current_resolution s" using Cons.prems(1) that by (auto simp: v visit_ok_Cons)
    then show ?thesis using Cons.prems(2,3) by auto
  qed
  with Cons show ?case by (auto simp: v visit_ok_Cons)
qed (simp add: visit_ok_def)

lemma collect_other: "visit_ok s vs \<Longrightarrow> j \<notin> current_resolution s \<Longrightarrow> collect j vs xss = xss"
  by (induction j vs xss rule: collect.induct) (auto simp: visit_ok_Cons split: option.splits)

lemma collect_append: "collect j (us @ vs) xss = collect j vs (collect j us xss)"
  by (induction j us xss rule: collect.induct) simp_all

lemma collect_kind:
  "collect i (map (\<lambda>j. (Some (p, k), j)) js) xss = (if p = i \<and> k < length xss then xss[k := xss ! k @ js] else xss)"
  by (induction js arbitrary: xss) (auto simp: append_at_def list_update_beyond)

lemma collect_visits:
  assumes "length (generators (chosen_nodes s ! i)) = 4"
  shows "collect i (visits_of i s) (replicate 4 []) = generators (chosen_nodes s ! i)"
    and "j \<noteq> i \<Longrightarrow> collect j (visits_of i s) xss = xss"
proof -
  obtain a b c d where g: "generators (chosen_nodes s ! i) = [a, b, c, d]"
    using assms by (auto simp: length_Suc_conv numeral_eq_Suc)
  then have v: "visits_of i s = map (\<lambda>j. (Some (i, 0), j)) a @ map (\<lambda>j. (Some (i, 1), j)) b @
      map (\<lambda>j. (Some (i, 2), j)) c @ map (\<lambda>j. (Some (i, 3), j)) d"
    by (simp add: visits_of_def enumerate_eq_zip numeral_eq_Suc upt_rec)
  show "collect i (visits_of i s) (replicate 4 []) = generators (chosen_nodes s ! i)"
    by (simp add: v g collect_append collect_kind numeral_eq_Suc)
  show "j \<noteq> i \<Longrightarrow> collect j (visits_of i s) xss = xss"
    by (simp add: v collect_append collect_kind)
qed

lemma visits_of_ok:
  assumes "numbers_ok s" "i < length (chosen_nodes s)" "i \<in> current_resolution s'" "length (chosen_nodes s') = length (chosen_nodes s)"
  shows "visit_ok s' (visits_of i s)" "snd ` set (visits_of i s) = \<Union> (set ` set (generators (chosen_nodes s ! i)))"
proof -
  show "visit_ok s' (visits_of i s)" using node_numbers [OF assms(1,2)] assms
    by (auto simp: visit_ok_def visits_of_def enumerate_eq_zip dest: set_zip_rightD)
  have "set (enumerate 0 xss) = {(k, xss ! k) |k. k < length xss}" for xss :: "nat list list"
    by (auto simp: in_set_enumerate_eq)
  then show "snd ` set (visits_of i s) = \<Union> (set ` set (generators (chosen_nodes s ! i)))"
    by (force simp: visits_of_def image_Union in_set_conv_nth)
qed

text \<open>The measure: unread ebuilds, free places, selected ebuilds that have not been visited.\<close>

definition mu :: "emerge \<Rightarrow> nat \<times> nat \<times> nat" where
  "mu s = (card (unread (emerge_world s)), free s, card ({..<length (chosen_nodes s)} - current_resolution s))"

abbreviation smaller :: "((nat \<times> nat \<times> nat) \<times> (nat \<times> nat \<times> nat)) set" where
  "smaller \<equiv> less_than <*lex*> less_than <*lex*> less_than"

definition no_larger :: "emerge \<Rightarrow> emerge \<Rightarrow> bool" where
  "no_larger s' s \<longleftrightarrow> mu s' = mu s \<or> (mu s', mu s) \<in> smaller"

lemma trans_smaller: "trans smaller"
  by (intro trans_lex_prod) simp_all

lemma no_larger_trans: "no_larger u t \<Longrightarrow> no_larger t s \<Longrightarrow> no_larger u s"
  unfolding no_larger_def using transD [OF trans_smaller] by metis

lemma smaller_trans: "no_larger t s \<Longrightarrow> (mu s, mu r) \<in> smaller \<Longrightarrow> (mu t, mu r) \<in> smaller"
  unfolding no_larger_def using transD [OF trans_smaller] by metis

lemma step_no_larger: "session_step I s s' \<Longrightarrow> no_larger s' s"
  by (auto simp: session_step_def frame_def uses_up_def no_larger_def mu_def)

lemma visit_smaller:
  assumes "i < length (chosen_nodes s)" "i \<notin> current_resolution s"
  shows "(mu (s\<lparr>current_resolution := insert i (current_resolution s)\<rparr>), mu s) \<in> smaller"
proof -
  have "{..<length (chosen_nodes s)} - insert i (current_resolution s) \<subset> {..<length (chosen_nodes s)} - current_resolution s"
    using assms by auto
  from psubset_card_mono [OF _ this] show ?thesis by (simp add: mu_def free_def taken_def)
qed

text \<open>What a session has done when it returns.\<close>

definition closed_at :: "emerge \<Rightarrow> nat \<Rightarrow> bool" where
  "closed_at s j \<longleftrightarrow> j < length (chosen_nodes s) \<and> resolved_deps (chosen_nodes s ! j) = generators (chosen_nodes s ! j) \<and>
     \<Union> (set ` set (generators (chosen_nodes s ! j))) \<subseteq> current_resolution s"

definition visited :: "visit list \<Rightarrow> emerge \<Rightarrow> emerge \<Rightarrow> bool" where
  "visited vs s s' \<longleftrightarrow> resolver_ok s' \<and> length (chosen_nodes s) \<le> length (chosen_nodes s') \<and> no_larger s' s \<and>
     current_resolution s \<union> snd ` set vs \<subseteq> current_resolution s' \<and>
     (\<forall>j < length (chosen_nodes s). j \<in> current_resolution s \<longrightarrow> generators (chosen_nodes s' ! j) = generators (chosen_nodes s ! j) \<and>
        resolved_deps (chosen_nodes s' ! j) = collect j vs (resolved_deps (chosen_nodes s ! j))) \<and>
     (\<forall>j \<in> current_resolution s' - current_resolution s. closed_at s' j)"

lemma append_resolved_world [simp]: "emerge_world (append_resolved dest i s) = emerge_world s"
  by (simp add: append_resolved_def change_node_def split: option.splits)

lemma numbers_resolved:
  assumes "numbers_ok s" "p < length (chosen_nodes s)"
  shows "numbers_ok (s\<lparr>chosen_nodes := (chosen_nodes s)[p := (chosen_nodes s ! p)\<lparr>resolved_deps := x\<rparr>]\<rparr>)"
proof -
  have "length (generators n) = 4 \<and> (\<forall>js \<in> set (generators n). \<forall>j \<in> set js. j < length (chosen_nodes s))"
    if "n \<in> set ((chosen_nodes s)[p := (chosen_nodes s ! p)\<lparr>resolved_deps := x\<rparr>])" for n
  proof (cases "n \<in> set (chosen_nodes s)")
    case False
    with that have "n = (chosen_nodes s ! p)\<lparr>resolved_deps := x\<rparr>" using set_update_subset_insert [of "chosen_nodes s" p "(chosen_nodes s ! p)\<lparr>resolved_deps := x\<rparr>"] False by auto
    with node_numbers [OF assms] show ?thesis by simp
  qed (use assms(1) in \<open>simp add: numbers_ok_def\<close>)
  with assms(1) show ?thesis by (simp add: numbers_ok_def)
qed

lemma append_resolved_facts:
  assumes "visit_ok s ((dest, i) # vs)" "resolver_ok s"
  defines "t \<equiv> append_resolved dest i s"
  shows "resolver_ok t" "length (chosen_nodes t) = length (chosen_nodes s)" "current_resolution t = current_resolution s"
    "mu t = mu s" "generators (chosen_nodes t ! j) = generators (chosen_nodes s ! j)"
    "collect j vs (resolved_deps (chosen_nodes t ! j)) = collect j ((dest, i) # vs) (resolved_deps (chosen_nodes s ! j))"
    "j \<notin> current_resolution s \<Longrightarrow> resolved_deps (chosen_nodes t ! j) = resolved_deps (chosen_nodes s ! j)"
proof -
  have "dest = None \<or> (\<exists>p k. dest = Some (p, k) \<and> p < length (chosen_nodes s) \<and> p \<in> current_resolution s)"
    using assms(1) by (cases dest) (auto simp: visit_ok_Cons)
  then consider "dest = None" "t = s" | p k where "dest = Some (p, k)" "p < length (chosen_nodes s)" "p \<in> current_resolution s"
      "t = s\<lparr>chosen_nodes := (chosen_nodes s)[p := (chosen_nodes s ! p)
        \<lparr>resolved_deps := append_at k i (resolved_deps (chosen_nodes s ! p))\<rparr>]\<rparr>"
    unfolding t_def append_resolved_def change_node_def by auto
  then have "resolver_ok t \<and> length (chosen_nodes t) = length (chosen_nodes s) \<and> current_resolution t = current_resolution s \<and>
      mu t = mu s \<and> generators (chosen_nodes t ! j) = generators (chosen_nodes s ! j) \<and>
      collect j vs (resolved_deps (chosen_nodes t ! j)) = collect j ((dest, i) # vs) (resolved_deps (chosen_nodes s ! j)) \<and>
      (j \<notin> current_resolution s \<longrightarrow> resolved_deps (chosen_nodes t ! j) = resolved_deps (chosen_nodes s ! j))"
  proof cases
    case 1
    then show ?thesis using assms(2) by simp
  next
    case (2 p k)
    let ?n = "(chosen_nodes s ! p)\<lparr>resolved_deps := append_at k i (resolved_deps (chosen_nodes s ! p))\<rparr>"
    have "numbers_ok t" unfolding 2(4) using assms(2) 2(2) by (intro numbers_resolved) (simp_all add: resolver_ok_def)
    then show ?thesis using assms(2) 2
      by (auto simp: resolver_ok_def mu_def free_def taken_def nth_list_update)
  qed
  then show "resolver_ok t" "length (chosen_nodes t) = length (chosen_nodes s)" "current_resolution t = current_resolution s"
    "mu t = mu s" "generators (chosen_nodes t ! j) = generators (chosen_nodes s ! j)"
    "collect j vs (resolved_deps (chosen_nodes t ! j)) = collect j ((dest, i) # vs) (resolved_deps (chosen_nodes s ! j))"
    "j \<notin> current_resolution s \<Longrightarrow> resolved_deps (chosen_nodes t ! j) = resolved_deps (chosen_nodes s ! j)" by simp_all
qed

lemma visited_trans:
  assumes ok: "visit_ok s (us @ vs)" and u: "visited us s t" and v: "visited vs t s'"
  shows "visited (us @ vs) s s'"
proof -
  have len: "length (chosen_nodes s) \<le> length (chosen_nodes t)" "length (chosen_nodes t) \<le> length (chosen_nodes s')"
    and cr: "current_resolution s \<union> snd ` set us \<subseteq> current_resolution t" "current_resolution t \<union> snd ` set vs \<subseteq> current_resolution s'"
    using u v by (simp_all add: visited_def)
  have late: "generators (chosen_nodes s' ! j) = generators (chosen_nodes t ! j) \<and>
      resolved_deps (chosen_nodes s' ! j) = collect j vs (resolved_deps (chosen_nodes t ! j))"
    if "j < length (chosen_nodes t)" "j \<in> current_resolution t" for j
    using v that unfolding visited_def by blast
  have old: "generators (chosen_nodes s' ! j) = generators (chosen_nodes s ! j) \<and>
      resolved_deps (chosen_nodes s' ! j) = collect j (us @ vs) (resolved_deps (chosen_nodes s ! j))"
    if j: "j < length (chosen_nodes s)" "j \<in> current_resolution s" for j
  proof -
    have "generators (chosen_nodes t ! j) = generators (chosen_nodes s ! j) \<and>
        resolved_deps (chosen_nodes t ! j) = collect j us (resolved_deps (chosen_nodes s ! j))"
      using u j unfolding visited_def by blast
    with late [of j] j len cr show ?thesis by (auto simp: collect_append)
  qed
  have closed: "closed_at s' j" if j: "j \<in> current_resolution s' - current_resolution s" for j
  proof (cases "j \<in> current_resolution t")
    case True
    then have "closed_at t j" using j u by (simp add: visited_def)
    moreover have "visit_ok s vs" using ok by (auto simp: visit_ok_def)
    with collect_other j have "collect j vs xss = xss" for xss by blast
    ultimately show ?thesis using late [OF _ True] len(2) cr(2) unfolding closed_at_def by auto
  qed (use j v in \<open>simp add: visited_def\<close>)
  have "no_larger s' t" "no_larger t s" using u v by (simp_all add: visited_def)
  then have "no_larger s' s" by (rule no_larger_trans)
  moreover have "resolver_ok s'" using v by (simp add: visited_def)
  moreover have "length (chosen_nodes s) \<le> length (chosen_nodes s')" using len by (rule le_trans)
  moreover have "current_resolution s \<union> snd ` set (us @ vs) \<subseteq> current_resolution s'" using cr by auto
  ultimately show ?thesis unfolding visited_def using old closed by blast
qed

lemma visited_skip:
  assumes "visit_ok s [(dest, i)]" "resolver_ok s" "i \<in> current_resolution s"
  shows "visited [(dest, i)] s (append_resolved dest i s)"
  using append_resolved_facts [OF assms(1,2)] assms(3) by (simp add: visited_def no_larger_def)

text \<open>An ebuild is entered: it is refreshed, and its children are visited before it is appended.\<close>

lemma visited_children:
  assumes "i < length (chosen_nodes s)" "i \<notin> current_resolution s"
    and s0: "s0 = s\<lparr>current_resolution := insert i (current_resolution s)\<rparr>" and step: "session_step {i} s0 s1"
    and s2: "s2 = change_node i (\<lambda>n. n\<lparr>resolved_deps := replicate 4 []\<rparr>) s1"
    and v: "visited (visits_of i s1) s2 s3"
  shows "j < length (chosen_nodes s) \<Longrightarrow> j \<in> current_resolution s \<Longrightarrow> generators (chosen_nodes s3 ! j) = generators (chosen_nodes s ! j) \<and>
        resolved_deps (chosen_nodes s3 ! j) = resolved_deps (chosen_nodes s ! j)"
    and "j \<in> current_resolution s3 - current_resolution s \<Longrightarrow> closed_at s3 j"
proof -
  have cr1: "current_resolution s1 = insert i (current_resolution s)" and len1: "length (chosen_nodes s) \<le> length (chosen_nodes s1)"
    and num1: "numbers_ok s1" using step by (simp_all add: session_step_def frame_def s0 resolver_ok_def)
  have i1: "i < length (chosen_nodes s1)" using assms(1) len1 by simp
  note kinds = conjunct1 [OF node_numbers [OF num1 i1]]
  have cr2: "current_resolution s2 = insert i (current_resolution s)" and len2: "length (chosen_nodes s2) = length (chosen_nodes s1)"
    by (simp_all add: s2 change_node_def cr1)
  have mid: "generators (chosen_nodes s3 ! j) = generators (chosen_nodes s2 ! j) \<and>
      resolved_deps (chosen_nodes s3 ! j) = collect j (visits_of i s1) (resolved_deps (chosen_nodes s2 ! j))"
    if "j < length (chosen_nodes s1)" "j \<in> insert i (current_resolution s)" for j
    using v that unfolding visited_def cr2 len2 by blast
  show "generators (chosen_nodes s3 ! j) = generators (chosen_nodes s ! j) \<and> resolved_deps (chosen_nodes s3 ! j) = resolved_deps (chosen_nodes s ! j)"
    if j: "j < length (chosen_nodes s)" "j \<in> current_resolution s"
  proof -
    have ji: "j \<noteq> i" using assms(2) j(2) by blast
    have "generators (chosen_nodes s1 ! j) = generators (chosen_nodes s ! j) \<and> resolved_deps (chosen_nodes s1 ! j) = resolved_deps (chosen_nodes s ! j)"
      using step j(1) ji by (simp add: session_step_def frame_def s0)
    moreover have "chosen_nodes s2 ! j = chosen_nodes s1 ! j" using ji by (simp add: s2 change_node_def)
    ultimately show ?thesis using mid [of j] j len1 collect_visits(2) [OF kinds ji] by simp
  qed
  show "closed_at s3 j" if j: "j \<in> current_resolution s3 - current_resolution s"
  proof (cases "j = i")
    case True
    have "generators (chosen_nodes s3 ! i) = generators (chosen_nodes s1 ! i) \<and> resolved_deps (chosen_nodes s3 ! i) = generators (chosen_nodes s1 ! i)"
      using mid [of i] i1 collect_visits(1) [OF kinds] by (simp add: s2 change_node_def)
    moreover have "\<Union> (set ` set (generators (chosen_nodes s1 ! i))) \<subseteq> current_resolution s3"
      using v visits_of_ok(2) [OF num1 i1, of s1] cr1 by (simp add: visited_def)
    ultimately show ?thesis using i1 v len2 by (simp add: closed_at_def True visited_def)
  next
    case False
    with j v cr2 show ?thesis by (simp add: visited_def)
  qed
qed

lemma visited_enter:
  assumes ok: "visit_ok s [(dest, i)]" and new: "i \<notin> current_resolution s"
    and s0: "s0 = s\<lparr>current_resolution := insert i (current_resolution s)\<rparr>" and step: "session_step {i} s0 s1"
    and s2: "s2 = change_node i (\<lambda>n. n\<lparr>resolved_deps := replicate 4 []\<rparr>) s1"
    and v: "visited (visits_of i s1) s2 s3"
  shows "visited [(dest, i)] s (append_resolved dest i s3)" "(mu (append_resolved dest i s3), mu s) \<in> smaller"
proof -
  let ?t = "append_resolved dest i s3"
  have i: "i < length (chosen_nodes s)" using ok by (simp add: visit_ok_Cons)
  have two: "current_resolution s2 = insert i (current_resolution s)" "length (chosen_nodes s) \<le> length (chosen_nodes s2)" "mu s2 = mu s1"
    using step by (simp_all add: session_step_def frame_def s0 s2 change_node_def mu_def free_def taken_def)
  then have three: "insert i (current_resolution s) \<subseteq> current_resolution s3" "length (chosen_nodes s) \<le> length (chosen_nodes s3)"
      "resolver_ok s3" "no_larger s3 s2"
    using v by (simp_all add: visited_def)
  have ok3: "visit_ok s3 [(dest, i)]" using visit_ok_mono [OF ok] three by simp
  note F = append_resolved_facts [OF ok3 three(3)]
  note children = visited_children [OF i new s0 step s2 v]
  have "no_larger s3 s0" using three(4) two(3) no_larger_trans [OF _ step_no_larger [OF step]] by (simp add: no_larger_def)
  then show less: "(mu ?t, mu s) \<in> smaller" using smaller_trans visit_smaller [OF i new] unfolding F(4) s0 by blast
  have "generators (chosen_nodes ?t ! j) = generators (chosen_nodes s ! j) \<and>
      resolved_deps (chosen_nodes ?t ! j) = collect j [(dest, i)] (resolved_deps (chosen_nodes s ! j))"
    if "j < length (chosen_nodes s)" "j \<in> current_resolution s" for j
    using children(1) [OF that] F(5,6) [of j] by simp
  moreover have "closed_at ?t j" if "j \<in> current_resolution s3 - current_resolution s" for j
  proof -
    have "collect j [(dest, i)] xss = xss" for xss using collect_other [OF ok] that by blast
    with children(2) [OF that] F(2,3) F(5,6) [of j] show ?thesis by (simp add: closed_at_def)
  qed
  ultimately show "visited [(dest, i)] s ?t"
    unfolding visited_def using F(1-3) three(1,2) less by (auto simp: no_larger_def)
qed

text \<open>What a visit comes to, and one visit of an ebuild that is new in the session.\<close>

definition visit_result :: "reader \<Rightarrow> visit list \<Rightarrow> emerge \<Rightarrow> bool" where
  "visit_result env vs s \<longleftrightarrow> (\<exists>r. visit_all env vs s = Some r \<and> (\<forall>s'. r = Gives () s' \<longrightarrow> visited vs s s') \<and>
     (single_versions (emerge_world s) \<longrightarrow> ends r))"

lemma visit_all_skip: "i \<in> current_resolution s \<Longrightarrow> visit_all env ((dest, i) # rest) s = visit_all env rest (append_resolved dest i s)"
  by (subst visit_all.simps) simp

lemma visit_result_first:
  assumes "visit_all env (x # rest) s = visit_all env rest t" "visited [x] s t" "visit_ok s (x # rest)"
    and "single_versions (emerge_world s) \<longrightarrow> single_versions (emerge_world t)" "visit_result env rest t"
  shows "visit_result env (x # rest) s"
  using assms visited_trans [of s "[x]" rest t] by (auto simp: visit_result_def)

lemma visit_new:
  assumes "parsers_ok (parse_depend env) (parse_required_use env)" "resolver_ok s" "visit_ok s ((dest, i) # rest)"
    and new: "i \<notin> current_resolution s"
    and IH: "\<And>us t. (mu t, mu s) \<in> smaller \<Longrightarrow> resolver_ok t \<Longrightarrow> visit_ok t us \<Longrightarrow> visit_result env us t"
  shows "visit_result env ((dest, i) # rest) s"
proof -
  let ?vs = "(dest, i) # rest"
  have i: "i < length (chosen_nodes s)" "visit_ok s [(dest, i)]" using assms(3) by (simp_all add: visit_ok_def)
  define s0 where "s0 = s\<lparr>current_resolution := insert i (current_resolution s)\<rparr>"
  have ok0: "resolver_ok s0" using assms(2) by (simp add: resolver_ok_def numbers_ok_def s0_def)
  have end0: "single_versions (emerge_world s) \<longrightarrow> ends (refresh env i s0)" using refresh_ends [OF _ ok0 assms(1)] by (simp add: s0_def)
  show ?thesis
  proof (cases "refresh env i s0")
    case (Gives x s1)
    define s2 where "s2 = change_node i (\<lambda>n. n\<lparr>resolved_deps := replicate 4 []\<rparr>) s1"
    have step: "session_step {i} s0 s1" using refresh_step [OF _ ok0 assms(1), of i "()" s1] Gives i by (simp add: s0_def)
    then have one: "i < length (chosen_nodes s1)" "current_resolution s1 = insert i (current_resolution s)" "numbers_ok s1" "world_known (emerge_world s1)"
      using i(1) by (auto simp: session_step_def frame_def s0_def resolver_ok_def)
    have "mu s2 = mu s1" by (simp add: s2_def change_node_def mu_def free_def taken_def)
    then have "(mu s2, mu s) \<in> smaller" using smaller_trans [OF step_no_larger [OF step]] visit_smaller [OF i(1) new] by (simp add: s0_def)
    moreover have "resolver_ok s2" using numbers_resolved one by (simp add: s2_def change_node_def resolver_ok_def)
    moreover have "visit_ok s2 (visits_of i s1)" using visits_of_ok(1) [OF one(3,1), of s2] one(2) by (simp add: s2_def change_node_def)
    ultimately obtain r where r: "visit_all env (visits_of i s1) s2 = Some r" "\<forall>s'. r = Gives () s' \<longrightarrow> visited (visits_of i s1) s2 s'"
        "single_versions (emerge_world s2) \<longrightarrow> ends r" using IH [of s2] by (auto simp: visit_result_def)
    have ends: "single_versions (emerge_world s) \<longrightarrow> ends r" using end0 r(3) by (simp add: Gives s2_def change_node_def)
    have run: "visit_all env ?vs s = Option.bind (Some r) (\<lambda>r. case r of
                 Fault e \<Rightarrow> Some (Fault e)
               | Hangs \<Rightarrow> Some Hangs
               | Raises x s \<Rightarrow> Some (Raises x s)
               | Gives _ s \<Rightarrow> visit_all env rest (append_resolved dest i s))"
      by (subst visit_all.simps) (simp add: new Gives r(1) flip: s0_def s2_def)
    show ?thesis
    proof (cases r)
      case 2: (Gives y s3)
      let ?t = "append_resolved dest i s3"
      from 2 r(2) have "visited (visits_of i s1) s2 s3" by simp
      note first = visited_enter [OF i(2) new s0_def step s2_def this]
      have "visit_ok s rest" using assms(3) by (simp add: visit_ok_def)
      with first have "visit_result env rest ?t" by (intro IH) (auto simp: visited_def elim: visit_ok_mono)
      then show ?thesis using run 2 ends by (intro visit_result_first [OF _ first(1) assms(3)]) simp_all
    qed (use ends in \<open>simp_all add: run visit_result_def\<close>)
  qed (use end0 in \<open>unfold visit_result_def, subst visit_all.simps; simp add: new flip: s0_def\<close>)+
qed

lemma visit_all_result:
  assumes "parsers_ok (parse_depend env) (parse_required_use env)" "resolver_ok s" "visit_ok s vs"
  shows "visit_result env vs s"
  using assms(2,3)
proof (induction "(mu s, length vs)" arbitrary: s vs rule: wf_induct_rule [OF wf_lex_prod [OF wf_lex_prod [OF wf_less_than wf_lex_prod [OF wf_less_than wf_less_than]] wf_less_than]])
  case 1
  then have IH: "visit_result env us t" if "(mu t, mu s) \<in> smaller \<or> mu t = mu s \<and> length us < length vs" "resolver_ok t" "visit_ok t us" for us t
    using that by auto
  show ?case
  proof (cases vs)
    case Nil
    then show ?thesis using 1(2) by (subst visit_result_def, subst visit_all.simps) (simp add: visited_def no_larger_def)
  next
    case (Cons v rest)
    then obtain dest i where vs: "vs = (dest, i) # rest" by (cases v) simp
    with 1(3) have ok: "visit_ok s [(dest, i)]" "visit_ok s rest" by (simp_all add: visit_ok_def)
    show ?thesis
    proof (cases "i \<in> current_resolution s")
      case True
      note F = append_resolved_facts [OF ok(1) 1(2)]
      have "visit_result env rest (append_resolved dest i s)"
        using F ok(2) by (intro IH) (auto simp: vs elim: visit_ok_mono)
      then show ?thesis unfolding vs
        using visit_result_first [OF visit_all_skip [OF True] visited_skip [OF ok(1) 1(2) True]] 1(3) vs by simp
    next
      case False
      show ?thesis unfolding vs by (rule visit_new [OF assms(1) 1(2) 1(3) [unfolded vs] False]) (rule IH, simp_all)
    qed
  qed
qed

text \<open>So a selection can be resolved again and again.\<close>

lemma resolved_again:
  assumes "parsers_ok (parse_depend env) (parse_required_use env)" "resolver_ok s" "visit_ok s vs"
    and "visit_all env vs s = Some (Gives () s')" "i < length (chosen_nodes s')"
  shows "\<exists>r. get_resolved env i (clear_session s') = Some r"
proof -
  have "resolver_ok s'" using visit_all_result [OF assms(1-3)] assms(4) by (simp add: visit_result_def visited_def)
  then have "resolver_ok (clear_session s')" by (simp add: resolver_ok_def numbers_ok_def clear_session_def)
  moreover have "visit_ok (clear_session s') [(None, i)]" using assms(5) by (simp add: visit_ok_def clear_session_def)
  ultimately show ?thesis using visit_all_result [OF assms(1)] unfolding get_resolved_def visit_result_def by blast
qed

section \<open>Properties\<close>

text \<open>
  C3: resolving ends. After requests have selected ebuilds in a database whose atoms are known,
  resolving one of them visits every ebuild at most once and returns, with an exception or not;
  the only thing that may not end is the loop over the versions of a package in
  \<^verbatim>\<open>change_within_slot\<close>, and it does end if no package has two. If there is no exception, every
  ebuild that was visited has as its resolved dependencies, kind by kind and in order, the
  ebuilds that its dependencies selected, and these have been visited too.
\<close>

theorem resolution_ends:
  assumes "slashes dlex" and "world_known w"
    and "parse_depend env = depend_parse dlex dfail alloc" "parse_required_use env = required_use_parse rlex rfail alloc"
    and "\<forall>d \<in> set ds. \<forall>a. dep_atom d = Some a \<longrightarrow> atom_known w a"
    and "resolve_all None ds (emerge_new w) = Gives rs s" and "i \<in> set rs"
  shows "\<exists>r. get_resolved env i s = Some r \<and> (single_versions w \<longrightarrow> r \<noteq> Hangs) \<and>
    (\<forall>s'. r = Gives () s' \<longrightarrow> i \<in> current_resolution s' \<and>
       (\<forall>j \<in> current_resolution s'. j < length (chosen_nodes s') \<and>
          resolved_deps (chosen_nodes s' ! j) = generators (chosen_nodes s' ! j) \<and>
          \<Union> (set ` set (generators (chosen_nodes s' ! j))) \<subseteq> current_resolution s'))"
proof -
  have new: "numbers_ok (emerge_new w)" "emerge_world (emerge_new w) = w" "number_ok None (emerge_new w)"
    "current_resolution (emerge_new w) = {}"
    by (simp_all add: numbers_ok_def emerge_new_def number_ok_def)
  have "tables_ok w" using assms(2) by (simp add: world_known_def)
  with resolve_all_grows [OF assms(6) new(1) _ new(3)] new(2) assms(5,7)
  have g: "grows {} (emerge_new w) s" "i < length (chosen_nodes s)" by simp_all
  then have s: "emerge_world s = w" "current_resolution s = {}" "resolver_ok s"
    using new assms(2) by (simp_all add: grows_def frame_def resolver_ok_def)
  have "parsers_ok (parse_depend env) (parse_required_use env)" unfolding assms(3,4) by (rule depend_parsers_ok [OF assms(1)])
  from visit_all_result [OF this s(3), of "[(None, i)]"] g(2) obtain r where
    r: "get_resolved env i s = Some r" "\<forall>s'. r = Gives () s' \<longrightarrow> visited [(None, i)] s s'" "single_versions w \<longrightarrow> ends r"
    by (auto simp: get_resolved_def visit_ok_def visit_result_def s(1))
  moreover have "single_versions w \<longrightarrow> r \<noteq> Hangs" using r(3) by (auto simp: ends_def)
  ultimately show ?thesis by (auto simp: visited_def closed_at_def s(2))
qed

text \<open>An ebuild that depends on itself.\<close>

definition loop_atom :: "lut_id \<Rightarrow> atom" where
  "loop_atom i = up_to_two\<lparr>atom_id := i\<rparr>"

definition loop_ebuild :: "lut_id \<Rightarrow> ebuild" where
  "loop_ebuild i = (sample_ebuild ''1'' 16)\<lparr>metadata_init := True, depend := [want (loop_atom i)]\<rparr>"

definition loop_world :: "lut \<Rightarrow> lut_id \<Rightarrow> world" where
  "loop_world l i = sample_world\<lparr>packages := l, ebuild_objs := [1 \<mapsto> loop_ebuild i],
     pkg_objs := [16 \<mapsto> package_new\<lparr>pkg_key := Some ''a/b'', ebuilds := [1], package_id := i\<rparr>]\<rparr>"

definition loop_reader :: reader where
  "loop_reader = \<lparr>parse_depend = depend_parse (\<lambda>_. None) (\<lambda>_ w. w) (\<lambda>_. 0),
     parse_required_use = required_use_parse (\<lambda>_. None) (\<lambda>_ w. w) (\<lambda>_. 0), cache_contents = (\<lambda>_. None), closes = True\<rparr>"

lemma loop_atom_simps [simp]: "atom_key (loop_atom i) = Some ''a/b''" "atom_id (loop_atom i) = i"
  "blocks (loop_atom i) = ATOM_BLOCK_NONE" "useflags (loop_atom i) = []"
  by (simp_all add: loop_atom_def up_to_two_facts)

lemma loop_ebuild_simps [simp]: "package_key (loop_ebuild i) = Some ''a/b''" "depend (loop_ebuild i) = [want (loop_atom i)]"
  "bdepend (loop_ebuild i) = []" "rdepend (loop_ebuild i) = []" "pdepend (loop_ebuild i) = []"
  "required_use (loop_ebuild i) = []" "metadata_init (loop_ebuild i)"
  by (simp_all add: loop_ebuild_def sample_ebuild_def ebuild_new_def)

lemma loop_world_simps [simp]: "packages (loop_world l i) = l" "the_ebuild (loop_world l i) 1 = Inr (loop_ebuild i)"
  "the_package (loop_world l i) 16 = Inr (package_new\<lparr>pkg_key := Some ''a/b'', ebuilds := [1], package_id := i\<rparr>)"
  by (simp_all add: loop_world_def the_ebuild_def the_package_def)

lemma loop_matches: "PyAtom_matches (loop_atom i) [P_Ebuild 1] (loop_world l i) = Inr (Return True)"
proof -
  have "atom_matches (loop_atom i) (loop_ebuild i) = atom_matches up_to_two (sample_ebuild ''1'' 16)"
    by (simp add: atom_matches_def loop_atom_def loop_ebuild_def cong: if_cong)
  then show ?thesis by (simp add: PyAtom_matches_def sample_matches)
qed

lemma loop_table:
  "\<exists>l i. lut_get l i = 16 \<and> tables_ok (loop_world l i)"
proof -
  obtain i fl where i: "lut_get_id (lut_new 512) ''a/b'' = (i, fl)" by fastforce
  have cap: "lut_cap (Suc 65535) (lut_new 512)" using cap_new(1) by simp
  obtain l where l: "lut_cap 65535 l" "lut_entries l = [i \<mapsto> (''a/b'', 16, fl OR LUT_FLAG_PYTHON)]"
    using cap_insert [OF cap user_flags_python i] lut_entries_new [of 512] by auto
  have "lut_get l i = 16" by (simp add: lut_get_entries l(2))
  moreover have "tables_ok (loop_world l i)" unfolding tables_ok_def
  proof (intro conjI allI)
    show "entries_ok (loop_world l i)" by (auto simp: entries_ok_def l(2) loop_world_def split: if_splits)
    show "keys_ok (loop_world l i)" by (auto simp: keys_ok_def loop_world_def package_new_def split: if_splits)
    show "lut_wf (packages (loop_world l i))" using l(1) by (simp add: lut_cap_def)
    show "lut_room (packages (loop_world l i)) k" for k using cap_room [of 65534 l] l(1) by simp
  qed
  ultimately show ?thesis by blast
qed

theorem resolution_ends_witness:
  "\<exists>l i s s'. resolve_all None [want (loop_atom i)] (emerge_new (loop_world l i)) = Gives [0] s \<and>
     get_resolved loop_reader 0 s = Some (Gives () s') \<and> generators (chosen_nodes s' ! 0) = [[], [0], [], []] \<and>
     0 \<in> current_resolution s' \<and> resolved_deps (chosen_nodes s' ! 0) = generators (chosen_nodes s' ! 0)"
proof -
  obtain l i where l: "lut_get l i = 16" "tables_ok (loop_world l i)" using loop_table by blast
  let ?w = "loop_world l i" and ?a = "loop_atom i"
  have cmp: "atom_version_compare (ebuild_version (loop_ebuild i)) (atom_version ?a) = Inr (- 1)" "range_has ?a ATOM_VERSION_L"
    unfolding loop_atom_def loop_ebuild_def by code_simp+
  have m: "PyPortage_match_atom ?a ?w = Inr (Return (1, add_count 1 1 ?w))"
    by (simp add: PyPortage_match_atom_def l(1) Let_def PyPackage_match_atom_def cmp)
  have known: "atom_known ?w ?a" using l(1) by (simp add: atom_known_def loop_world_def)
  then have world: "world_known ?w" using l(2) by (auto simp: world_known_def ebuild_known_def want_def loop_world_def split: if_splits)
  obtain s0 n where s0: "select_atom None ?a (emerge_new ?w) = Gives (Some 0) s0" "emerge_world s0 = ?w"
      "chosen_nodes s0 = [n]" "chosen_ebuild n = 1" "chosen_flags n = new_selected Map.empty"
      "installs s0 (Some ''a/b'') = Some \<lparr>install_key = Some ''a/b'', slots = [(ebuild_slot (loop_ebuild i), 0)]\<rparr>"
      "current_resolution s0 = {}"
    by (simp add: select_atom_def m emerge_new_def Let_def add_atom_def)
  then have first: "resolve_all None [want ?a] (emerge_new ?w) = Gives [0] s0" by (simp add: resolve_single_def want_def)
  have again: "select_atom (Some 0) ?a t = Gives (Some 0) t"
    if "emerge_world t = ?w" "chosen_nodes t = [m]" "chosen_ebuild m = 1" "installs t = installs s0" for t m
    using that m s0(6) by (simp add: select_atom_def match_atom_def loop_matches)
  let ?t = "s0\<lparr>current_resolution := {0}\<rparr>"
  obtain s1 n1 where s1: "refresh loop_reader 0 ?t = Gives () s1" "chosen_nodes s1 = [n1]" "generators n1 = [[], [0], [], []]"
      "current_resolution s1 = {0}"
    by (simp add: refresh_def s0 new_selected_def change_node_def Let_def with_flags_def flush_use_def resolve_single_def want_def
        again append_at_def eval_nat_numeral)
  have visits: "visits_of 0 s1 = [(Some (0, 1), 0)]" by (simp add: visits_of_def s1 eval_nat_numeral)
  obtain s' n' where s': "get_resolved loop_reader 0 s0 = Some (Gives () s')" "chosen_nodes s' = [n']" "generators n' = [[], [0], [], []]"
    by (simp add: get_resolved_def visit_all.simps s0 s1 visits change_node_def append_resolved_def)
  have dep: "\<forall>d \<in> set [want ?a]. \<forall>a. dep_atom d = Some a \<longrightarrow> atom_known ?w a" using known by (simp add: want_def)
  have "slashes (\<lambda>_. None)" by (simp add: slashes_def)
  have reads: "parse_depend loop_reader = depend_parse (\<lambda>_. None) (\<lambda>_ w. w) (\<lambda>_. 0)"
    "parse_required_use loop_reader = required_use_parse (\<lambda>_. None) (\<lambda>_ w. w) (\<lambda>_. 0)"
    by (simp_all add: loop_reader_def)
  from resolution_ends [OF \<open>slashes (\<lambda>_. None)\<close> world reads dep first, of 0] s'(1)
  have "0 \<in> current_resolution s' \<and> resolved_deps (chosen_nodes s' ! 0) = generators (chosen_nodes s' ! 0)" by simp
  moreover have "generators (chosen_nodes s' ! 0) = [[], [0], [], []]" using s'(2,3) by simp
  ultimately show ?thesis using first s'(1) by blast
qed

end
