(* ===== verification/Spec2Isabelle.thy ===== *)
theory Spec2Isabelle
  imports Prelude Murmur Doubles Id_Table Lut Lut_Capacity Lut_Script CString Version_Order Version Atoms Objects Packages Ebuilds Portage_Db Map_Use Queues String_Vector Vec_Set Small_Map Utils Iteration Dealloc Tcp_Server Server_Threads Regular Depend_Lexer Depend_Grammar Use_Flags Depend_Parse Repository_Query Required_Use Ebuild_Metadata Constructors Python_Types Cportage_Module File_Utils Ref_Data Log Resolver_Use Resolver_Select Known_Atoms Resolver
begin

text \<open>
  AutoGentoo's C libraries: the containers of \<^verbatim>\<open>autogentoo/hacksaw\<close>, the package manager of
  \<^verbatim>\<open>autogentoo/cportage\<close> and the message service of \<^verbatim>\<open>autogentoo/network\<close>; and the resolver
  of \<^verbatim>\<open>autogentoo/portage\<close>, which is written in Python on top of \<^verbatim>\<open>cportage\<close>. Source paths below
  are relative to \<^verbatim>\<open>src/autogentoo\<close>.

  How the parts work together. \<^verbatim>\<open>cportage\<close> reads the metadata cache of a repository: every file
  name becomes an ebuild, its package is looked up in (or added to) the lookup table of packages,
  and the ebuild is placed into the package's list, sorted by version. The dependencies of an ebuild and the atoms that Python asks for are texts,
  parsed by the grammars \<^verbatim>\<open>depend.y\<close> and \<^verbatim>\<open>requireduse.y\<close>; the flags of their conditions are
  entered into a table of use flags. A lookup table (\<^verbatim>\<open>lut.c\<close>)
  maps strings to 64-bit ids, through the Murmur hash of \<^verbatim>\<open>map.c\<close>. An atom is matched by finding
  its package in the table and walking the sorted list. The resolver asks for ebuilds with atoms, keeps
  one ebuild for each slot of a package, sets its use flags and follows its dependencies. \<^verbatim>\<open>network\<close> is independent of that: a
  server hands the messages of its clients to a Python callback, through a queue of \<^verbatim>\<open>hacksaw\<close>.

  Conventions. Machine integers are words of their width. Undefined behaviour, failed assertions
  and null pointers are the left side of a sum (\<open>c_error\<close>, in \<open>Prelude\<close>), and Python exceptions
  are values of \<open>py\<close>. Loops that may not end are \<open>partial_function (option)\<close> with \<open>None\<close> for
  not returning. Addresses are words with 0 for the null pointer; objects and their reference
  counts are maps from addresses. Code outside the repository is a parameter: the allocator,
  \<^verbatim>\<open>realpath\<close>, the contents of files and directories, sockets, callbacks, and of the generated
  parsers the lexer and what a run that ends in a syntax error leaves behind.

  \<^item> \<open>Prelude\<close>, \<open>CString\<close>: the vocabulary above and the functions of the C library on strings.
  \<^item> \<open>Murmur\<close>: \<^verbatim>\<open>map_get_hash\<close> on 32-bit words, and which keys cannot collide.
  \<^item> \<open>Doubles\<close>, \<open>Id_Table\<close>, \<open>Lut\<close>, \<open>Lut_Capacity\<close>, \<open>Lut_Script\<close>: the lookup table. The thresholds of growth are
    computed in double precision, which \<open>Doubles\<close> computes exactly. \<open>Id_Table\<close> is the interface
    (a locale) of a table that hands out ids, \<open>Lut\<close> interprets it; the lemmas say that ids are
    stable and distinct, that growth loses nothing, and that reference counts match.
    \<open>Lut_Capacity\<close> shows that the room the interface asks for is there for the tables of
    \<^verbatim>\<open>cportage\<close> up to their limits, and \<open>Lut_Script\<close> follows the ids through sequences of insertions.
  \<^item> \<open>Version_Order\<close>, \<open>Version\<close>: parsing and comparison of versions (\<^verbatim>\<open>cportage/atom.c\<close>). On versions
    made of numbers the comparison is a total order given by a key; the locale \<open>version_order\<close>
    is that contract. Lemmas at the end show where other versions break it.
  \<^item> \<open>Atoms\<close>, \<open>Objects\<close>, \<open>Packages\<close>, \<open>Ebuilds\<close>, \<open>Portage_Db\<close>, \<open>Iteration\<close>, \<open>Dealloc\<close>: atoms, the structs of the
    package manager, packages and their sorted lists, cache files, the database with its use
    flags, iteration from Python, and the cascade of deallocations. The invariant \<open>db_ok\<close> ties table, packages, ebuilds and
    counts together and is kept by reading a whole repository. What an object refers to is taken from
    the structs, and compared with what the \<^verbatim>\<open>dealloc\<close> functions drop.
  \<^item> \<open>Regular\<close>, \<open>Depend_Lexer\<close>, \<open>Depend_Grammar\<close>, \<open>Depend_Parse\<close>: the grammar of dependencies. The patterns of
    the lexer are regular expressions with an executable matcher, its actions functions on the
    matched text. The rules of the grammar are inductive predicates; a recursive descent parser
    with a bound of two steps per token is proved to accept exactly what they derive, with the
    same tree, so that the generated parser can only build what the actions in \<open>Depend_Parse\<close> make
    of that tree.
  \<^item> \<open>Required_Use\<close>: the same for \<^verbatim>\<open>requireduse.y\<close>, with the nodes its actions lose.
  \<^item> \<open>Use_Flags\<close>, \<open>Ebuild_Metadata\<close>, \<open>Repository_Query\<close>: the parts together. \<open>flags_ok m\<close> says that the table
    of use flags has room for \<open>m\<close> more. The locale \<open>flag_parser\<close> is what reading a metadata file
    asks of a parser; both parsers are its interpretations, and so a file of metadata has its
    meaning in the ebuild. \<open>Repository_Query\<close> goes from files on disk and the text of an atom to the
    answer, whichever its operator.
  \<^item> \<open>Constructors\<close>, \<open>Python_Types\<close>, \<open>Cportage_Module\<close>: what Python sees. Arguments of constructors, the
    tables of members, methods and slots over the fields of the structs, registration of types
    and constants, and the global \<^verbatim>\<open>Portage\<close> object with its count.
  \<^item> \<open>Ref_Objects\<close>, \<open>Ref_Data\<close>, \<open>Hash_Map\<close>, \<open>Map_Script\<close>, \<open>Map_Use\<close>: the hash map with reference counted values.
    The locale \<open>map_store\<close> states the laws of a finite map; its interpretation gives that every
    sequence of at most \<open>2 ^ 20\<close> operations behaves as one. The bound keeps the 32-bit counter,
    which counts items again with every growth, from wrapping around.
  \<^item> \<open>Linked_Vector\<close>, \<open>Container_Script\<close>, \<open>Queues\<close>: linked lists on a heap of nodes, and queue, stack and
    queue set over them, all interpretations of the locale \<open>container\<close>. The allocator must have
    addresses for as many nodes as are in use (\<open>malloc_ok N\<close>).
  \<^item> \<open>Vectors\<close>, \<open>String_Vector\<close>, \<open>Vec_Set\<close>, \<open>Small_Map\<close>, \<open>Utils\<close>: the containers over arrays, whose cells
    may be uninitialised, and the string functions of \<^verbatim>\<open>util.c\<close>.
  \<^item> \<open>File_Utils\<close>, \<open>Log\<close>: directories and copies of files over a file system of paths, and the log, whose
    lines stay whole under every interleaving of the threads that write to it.
  \<^item> \<open>Messages\<close>, \<open>Tcp_Client\<close>, \<open>Tcp_Server\<close>: messages, their bytes and their Python form; client and
    server over streams that arrive in arbitrary segments. What is sent is what is received if
    no read is short; the code checks for none of it.
  \<^item> \<open>Server_Threads\<close>: the threads of the server as a step relation over mutex, condition variable,
    queue and Python's global lock, for any number of workers. Invariants by induction over
    runs give mutual exclusion and that no request is lost or served twice; two theorems show
    how \<^verbatim>\<open>stop\<close> fails to return.

  \<^item> \<open>Resolver_Use\<close>: the use flags of a selected ebuild (\<^verbatim>\<open>portage/resolve.py\<close>), the hooks that
    watch them, and required use with its suggestions. Hooks run until one raises; \<open>keeps_flag\<close> is
    what an operation keeps of the flags that are \<open>enforced\<close> if none did. Replacing the ebuild runs no hook.
  \<^item> \<open>Resolver_Select\<close>: which ebuild a dependency selects (\<^verbatim>\<open>Emerge\<close>, \<^verbatim>\<open>InstallPackage\<close>,
    \<^verbatim>\<open>resolve_single\<close>). A call answers, raises, hangs or has undefined behaviour, each a
    constructor of \<open>outcome\<close>. The lemmas are about what is selected, and that blocks and
    conditional dependencies select nothing.
  \<^item> \<open>Known_Atoms\<close>, \<open>Resolver\<close>: a session of the resolver (\<^verbatim>\<open>regenerate\<close>, \<^verbatim>\<open>get_resolved\<close>). The atoms of
    parsed metadata lead to packages of their own key, so that every new selection takes a place
    (package and slot) of the database. Metadata not yet read, places not taken and
    ebuilds not visited decrease in lexicographic order, which is why the recursion ends.

  Many properties record defects: they state what the code does, and the text in front of them
  says why it matters.

  Not modelled: the tables that the neoast parser generator makes of the grammars, which are
  not in the repository (the lexer is a parameter with the lexemes of a text as its result);
  symbolic links and permissions of files; the formatting of log messages; of the resolver the
  texts of exceptions and warnings and the references that Python's variables hold; the
  enumerations of \<^verbatim>\<open>cportage/__init__.py\<close>; tests. Failure of \<^verbatim>\<open>malloc\<close> is modelled only where data of a message is
  received.
\<close>

end
